(* ===== verification/Prelude.thy ===== *)
theory Prelude
  imports "HOL-Library.Word" "HOL-Library.Signed_Division"
begin

text \<open>
  What every component of the kernel model shares: the machine integers of the code
  (\<open>uint8_t\<close>, \<open>uint16_t\<close>, \<open>uint32_t\<close>, pointers), the byte-addressed memory
  with its 16 and 32 bit accesses (little endian, as the i386 the code is built for),
  the configuration constants of \<open>phix/include/config.h\<close>, the status codes of
  \<open>phix/include/status.h\<close>, the alignment macros of \<open>phix/include/common.h\<close>,
  the outcome of a call that may panic or never return, counted loops, and the lemmas
  on words, pages and loops that the component proofs use.
\<close>

unbundle bit_operations_syntax

named_theorems config_defs \<open>definitions of the configuration constants\<close>
named_theorems mem_simps \<open>reading memory after writing it\<close>
named_theorems outcome_simps \<open>equations of outcomes and their sequencing\<close>

section \<open>Machine integers and memory\<close>

type_synonym u8 = "8 word"
type_synonym u16 = "16 word"
type_synonym u32 = "32 word"
type_synonym i32 = "32 word"
type_synonym addr = "32 word"
type_synonym mem = "32 word \<Rightarrow> 8 word"

text \<open>
  A C \<open>int\<close> is held in 32 bits (\<open>i32\<close>) and read with \<open>sint\<close>. A plain \<open>char\<close> is
  signed on this target, so reading one into an \<open>int\<close> sign-extends it.
\<close>

definition char_to_int :: "u8 \<Rightarrow> i32" where
  "char_to_int c = scast c"

text \<open>Division of C \<open>int\<close>s truncates towards zero.\<close>

definition int_div :: "i32 \<Rightarrow> i32 \<Rightarrow> i32" where
  "int_div a b = word_of_int (sint a sdiv sint b)"

definition int_mod :: "i32 \<Rightarrow> i32 \<Rightarrow> i32" where
  "int_mod a b = word_of_int (sint a smod sint b)"

definition load16 :: "mem \<Rightarrow> addr \<Rightarrow> u16" where
  "load16 m a = ucast (m a) OR push_bit 8 (ucast (m (a + 1)))"

definition store16 :: "mem \<Rightarrow> addr \<Rightarrow> u16 \<Rightarrow> mem" where
  "store16 m a v = m(a := ucast v, a + 1 := ucast (drop_bit 8 v))"

definition load32 :: "mem \<Rightarrow> addr \<Rightarrow> u32" where
  "load32 m a = ucast (m a) OR push_bit 8 (ucast (m (a + 1)))
     OR push_bit 16 (ucast (m (a + 2))) OR push_bit 24 (ucast (m (a + 3)))"

definition store32 :: "mem \<Rightarrow> addr \<Rightarrow> u32 \<Rightarrow> mem" where
  "store32 m a v = m(a := ucast v, a + 1 := ucast (drop_bit 8 v),
     a + 2 := ucast (drop_bit 16 v), a + 3 := ucast (drop_bit 24 v))"

section \<open>Constants and macros of the headers\<close>

definition KERNEL_CODE_SELECTOR :: u32 where [config_defs]: "KERNEL_CODE_SELECTOR = 0x08"
definition KERNEL_DATA_SELECTOR :: u32 where [config_defs]: "KERNEL_DATA_SELECTOR = 0x10"
definition PHIX_TOTAL_INTERRUPTS :: nat where [config_defs]: "PHIX_TOTAL_INTERRUPTS = 512"
definition PHIX_HEAP_SIZE_BYTES :: u32 where
  [config_defs]: "PHIX_HEAP_SIZE_BYTES = 100 * 1024 * 1024"
definition PHIX_HEAP_BLOCK_SIZE :: u32 where [config_defs]: "PHIX_HEAP_BLOCK_SIZE = 4096"
definition PHIX_HEAP_SADDRESS :: addr where [config_defs]: "PHIX_HEAP_SADDRESS = 0x01000000"
definition PHIX_HEAP_TABLE_ADDRESS :: addr where
  [config_defs]: "PHIX_HEAP_TABLE_ADDRESS = 0x00007E00"
definition PHIX_SECTOR_SIZE :: u32 where [config_defs]: "PHIX_SECTOR_SIZE = 512"
definition PHIX_MAX_PATH :: u32 where [config_defs]: "PHIX_MAX_PATH = 108"
definition PHIX_MAX_FILESYSTEMS :: nat where [config_defs]: "PHIX_MAX_FILESYSTEMS = 12"
definition PHIX_MAX_FILE_DESCRIPTORS :: nat where
  [config_defs]: "PHIX_MAX_FILE_DESCRIPTORS = 512"
definition PHIX_PROGRAM_VIRTUAL_ADDRESS :: addr where
  [config_defs]: "PHIX_PROGRAM_VIRTUAL_ADDRESS = 0x400000"
definition PHIX_PROGRAM_VIRTUAL_STACK_ADDRESS_START :: addr where
  [config_defs]: "PHIX_PROGRAM_VIRTUAL_STACK_ADDRESS_START = 0x3FF000"
definition PHIX_USER_PROGRAM_STACK_SIZE :: u32 where
  [config_defs]: "PHIX_USER_PROGRAM_STACK_SIZE = 16 * 1024"
definition PHIX_PROGRAM_VIRTUAL_STACK_ADDRESS_END :: addr where
  [config_defs]: "PHIX_PROGRAM_VIRTUAL_STACK_ADDRESS_END =
     PHIX_PROGRAM_VIRTUAL_STACK_ADDRESS_START - PHIX_USER_PROGRAM_STACK_SIZE"
definition PHIX_MAX_PROGRAM_ALLOCATIONS :: nat where
  [config_defs]: "PHIX_MAX_PROGRAM_ALLOCATIONS = 1024"
definition PHIX_MAX_PROCESSES :: nat where [config_defs]: "PHIX_MAX_PROCESSES = 12"
definition USER_DATA_SEGMENT :: u32 where [config_defs]: "USER_DATA_SEGMENT = 0x23"
definition USER_CODE_SEGMENT :: u32 where [config_defs]: "USER_CODE_SEGMENT = 0x1B"
definition PHIX_MAX_SYSCALLS :: nat where [config_defs]: "PHIX_MAX_SYSCALLS = 1024"
definition PHIX_KEYBOARD_BUFFER_SIZE :: u32 where
  [config_defs]: "PHIX_KEYBOARD_BUFFER_SIZE = 1024"

definition EIO :: i32 where [config_defs]: "EIO = 1"
definition EINVAL :: i32 where [config_defs]: "EINVAL = 2"
definition ENOMEM :: i32 where [config_defs]: "ENOMEM = 3"
definition EBADPATH :: i32 where [config_defs]: "EBADPATH = 4"
definition EFSNOTUS :: i32 where [config_defs]: "EFSNOTUS = 5"
definition ERDONLY :: i32 where [config_defs]: "ERDONLY = 6"
definition EUNIMP :: i32 where [config_defs]: "EUNIMP = 7"
definition EISTKN :: i32 where [config_defs]: "EISTKN = 8"
definition EBADFORMAT :: i32 where [config_defs]: "EBADFORMAT = 9"

text \<open>\<open>ALIGN\<close> adds \<open>a - 1\<close> and masks; \<open>ALIGN_LOWER\<close> subtracts the remainder.\<close>

definition ALIGN :: "u32 \<Rightarrow> u32 \<Rightarrow> u32" where
  "ALIGN x a = (x + (a - 1)) AND NOT (a - 1)"

definition ALIGN_LOWER :: "u32 \<Rightarrow> u32 \<Rightarrow> u32" where
  "ALIGN_LOWER x a = x - (x mod a)"

text \<open>\<open>ISERR\<close> of \<open>kernel.h\<close>: the pointer or the status read as an \<open>int\<close> is negative.\<close>

definition ISERR :: "u32 \<Rightarrow> bool" where
  "ISERR p = (sint p < 0)"

section \<open>Outcomes\<close>

text \<open>
  A call returns (\<open>Done\<close>), prints a message and halts the processor (\<open>Panic\<close>, the
  inline function \<open>panic\<close> of \<open>kernel.h\<close>: \<open>hlt\<close> runs with interrupts disabled, so
  nothing after it runs), or stays in a loop for ever (\<open>Diverge\<close>).
\<close>

datatype 'a outcome = Done 'a | Panic string | Diverge

definition obind :: "'a outcome \<Rightarrow> ('a \<Rightarrow> 'b outcome) \<Rightarrow> 'b outcome" where
  "obind r f = (case r of Done x \<Rightarrow> f x | Panic e \<Rightarrow> Panic e | Diverge \<Rightarrow> Diverge)"

definition of_option :: "'a option \<Rightarrow> 'a outcome" where
  "of_option r = (case r of None \<Rightarrow> Diverge | Some x \<Rightarrow> Done x)"

lemma obind_simps [simp, outcome_simps]:
  "obind (Done x) f = f x"
  "obind (Panic e) f = Panic e"
  "obind Diverge f = Diverge"
  by (simp_all add: obind_def)

lemma of_option_simps [simp, outcome_simps]:
  "of_option None = Diverge"
  "of_option (Some x) = Done x"
  by (simp_all add: of_option_def)

lemma obind_eq_Done [outcome_simps]:
  "obind r f = Done y \<longleftrightarrow> (\<exists>x. r = Done x \<and> f x = Done y)"
  by (cases r) simp_all

section \<open>Counted loops\<close>

text \<open>
  \<open>for (i = 0; i < n; i++) body\<close>: \<open>for_up\<close> runs the body at \<open>0\<close>, ..., \<open>n - 1\<close> in
  this order; \<open>for_upE\<close> is the same loop around a body that may not return.
\<close>

primrec for_up :: "nat \<Rightarrow> (nat \<Rightarrow> 's \<Rightarrow> 's) \<Rightarrow> 's \<Rightarrow> 's" where
  "for_up 0 f s = s"
| "for_up (Suc n) f s = f n (for_up n f s)"

primrec for_upE :: "nat \<Rightarrow> (nat \<Rightarrow> 's \<Rightarrow> 's outcome) \<Rightarrow> 's \<Rightarrow> 's outcome" where
  "for_upE 0 f s = Done s"
| "for_upE (Suc n) f s = obind (for_upE n f s) (f n)"

lemma for_up_fold: "for_up n f s = fold f [0..<n] s"
  by (induction n) simp_all

lemma for_up_inv:
  assumes "P 0 s" and "\<And>i t. i < n \<Longrightarrow> P i t \<Longrightarrow> P (Suc i) (f i t)"
  shows "P n (for_up n f s)"
  using assms by (induction n) auto

lemma for_upE_inv:
  assumes "P 0 s" and "\<And>i t. i < n \<Longrightarrow> P i t \<Longrightarrow> \<exists>t'. f i t = Done t' \<and> P (Suc i) t'"
  shows "\<exists>t. for_upE n f s = Done t \<and> P n t"
  using assms
proof (induction n)
  case 0
  then show ?case by simp
next
  case (Suc n)
  then obtain t where t: "for_upE n f s = Done t" "P n t" by force
  obtain t' where "f n t = Done t'" "P (Suc n) t'" using Suc.prems(2)[of n t] t(2) by auto
  with t(1) show ?case by simp
qed

section \<open>Words\<close>

lemma word_inc_less: "i \<noteq> n \<Longrightarrow> unat (n - (i + 1)) < unat (n - (i :: 'a :: len word))"
  by (simp add: add.commute diff_add_eq_diff_diff_swap measure_unat)

lemma word_dec_less: "1 < n \<Longrightarrow> unat (n - 1) < unat (n :: 'a :: len word)"
  by (rule measure_unat) auto

lemma unat_minus_1: "unat (- 1 :: u32) = 4294967295"
proof -
  have max: "(- 1 :: u32) = 4294967295" by simp
  show ?thesis unfolding max by simp
qed

lemma unat_diff_eq_0 [simp]: "unat (a - b) = 0 \<longleftrightarrow> a = (b :: 'a :: len word)"
  by (metis right_minus_eq unat_0 unsigned_word_eqI)

lemma unat32_lt: "unat (w :: u32) < 4294967296"
  by (rule order.strict_trans2 [OF unsigned_less]) simp

lemma word_of_nat_inj: "i < 2 ^ 32 \<Longrightarrow> j < 2 ^ 32 \<Longrightarrow> (of_nat i = (of_nat j :: u32)) = (i = j)"
  by (simp add: word_of_nat_eq_iff take_bit_nat_eq_self)

lemma unat_of_nat32: "i < 2 ^ 32 \<Longrightarrow> unat (of_nat i :: u32) = i"
  by (simp add: unat_of_nat take_bit_nat_eq_self)

lemma word_of_nat_less_iff: "i < 2 ^ 32 \<Longrightarrow> (of_nat i < (w :: u32)) = (i < unat w)"
  by (simp add: word_less_nat_alt unat_of_nat32)

text \<open>The byte at offset \<open>i\<close> of an object at \<open>p\<close>.\<close>

lemma offset_eq_iff: "i < 2 ^ 32 \<Longrightarrow> (a = p + of_nat i) = (unat (a - p) = i)" for a p :: addr
proof
  assume "i < 2 ^ 32" and "a = p + of_nat i"
  then show "unat (a - p) = i" by (simp add: unat_of_nat32)
next
  assume "unat (a - p) = i"
  then have "of_nat i = a - p" by auto
  then show "a = p + of_nat i" by simp
qed

text \<open>
  A power of two divides the size of the address space, so an aligned block does not
  wrap around: the address stays in its block under any offset below the block size.
\<close>

lemma aligned_add_unat:
  assumes "unat k dvd 2 ^ 32" and "a mod k = (0 :: u32)" and "i < k"
  shows "unat (a + i) = unat a + unat i"
proof -
  from assms(1) obtain n where n: "2 ^ 32 = unat k * n" ..
  from assms(2) have "unat a mod unat k = 0" by (metis unat_0 unat_mod)
  then obtain q where q: "unat a = unat k * q" by auto
  have "unat a < 2 ^ 32" using unat32_lt [of a] by simp
  with n q have "unat k * q < unat k * n" by simp
  then have "q < n" by simp
  then have "unat k * (q + 1) \<le> unat k * n" by (simp only: mult_le_mono2 Suc_eq_plus1 [symmetric] Suc_leI)
  moreover have "unat i < unat k" using assms(3) by (simp add: word_less_nat_alt)
  ultimately have "unat a + unat i < 2 ^ 32" using n q by (simp add: algebra_simps)
  then show ?thesis by (simp add: unat_word_ariths)
qed

lemma aligned_add_div:
  assumes "unat k dvd 2 ^ 32" and "a mod k = (0 :: u32)" and "i < k"
  shows "(a + i) div k = a div k"
proof -
  have "unat a mod unat k = 0" using assms(2) by (metis unat_0 unat_mod)
  then obtain q where "unat a = unat k * q" by auto
  moreover have "unat i < unat k" using assms(3) by (simp add: word_less_nat_alt)
  ultimately have "(unat a + unat i) div unat k = unat a div unat k" by simp
  then show ?thesis
    using aligned_add_unat [OF assms] by (metis unat_div word_unat_eq_iff)
qed

lemma aligned_eq_of_div: "a mod k = 0 \<Longrightarrow> b mod k = 0 \<Longrightarrow> a div k = b div k \<Longrightarrow> a = (b :: u32)"
  by (metis add.right_neutral div_mult_mod_eq)

text \<open>The signed reading of 32 bits, and masking as rounding down.\<close>

lemma sint32_eq:
  "sint (w :: i32) =
     (if unat w < 2147483648 then int (unat w) else int (unat w) - 4294967296)"
proof -
  let ?n = "int (unat w)"
  have s: "sint w = (?n + 2147483648) mod 4294967296 - 2147483648"
    by (simp add: sint_uint signed_take_bit_eq_take_bit_shift take_bit_eq_mod)
  have n: "?n < 4294967296" "0 \<le> ?n" using unat32_lt [of w] by linarith+
  show ?thesis
  proof (cases "unat w < 2147483648")
    case True
    then have "?n < 2147483648" by linarith
    with n have "(?n + 2147483648) mod 4294967296 = ?n + 2147483648"
      by (intro mod_pos_pos_trivial) linarith+
    with s True show ?thesis by simp
  next
    case False
    then have "2147483648 \<le> ?n" by linarith
    have "(?n - 2147483648 + 4294967296) mod 4294967296 = (?n - 2147483648) mod 4294967296"
      by (rule mod_add_self2)
    also have "\<dots> = ?n - 2147483648" using n \<open>2147483648 \<le> ?n\<close>
      by (intro mod_pos_pos_trivial) linarith+
    finally show ?thesis using s False by (simp add: add.commute)
  qed
qed

lemma sint_of_nat: "i < 2147483648 \<Longrightarrow> sint (of_nat i :: i32) = int i"
  by (simp add: sint32_eq unat_of_nat32)

lemma sint_of_int32:
  assumes "- 2147483648 \<le> k" and "k < 2147483648"
  shows "sint (word_of_int k :: i32) = k"
proof -
  have "sint (word_of_int k :: i32) = (k + 2147483648) mod 4294967296 - 2147483648"
    by (simp only: int_word_sint) simp
  also have "(k + 2147483648) mod 4294967296 = k + 2147483648"
    using assms by (intro mod_pos_pos_trivial) linarith+
  finally show ?thesis by simp
qed

lemma sint32_bounds: "- 2147483648 \<le> sint (w :: i32)" "sint (w :: i32) < 2147483648"
  using sint_greater_eq [of w] sint_lt [of w] by simp_all

lemma and_not_mask: "x AND NOT (mask n) = x - take_bit n (x :: 'a :: len word)"
proof -
  have "NOT x AND (x AND mask n) = 0" by (rule bit_word_eqI) (simp add: bit_simps)
  then have "x - (x AND mask n) = x AND NOT (x AND mask n)"
    by (rule disjunctive_diff_eq_and_not)
  also have "\<dots> = x AND NOT (mask n)" by (rule bit_word_eqI) (auto simp: bit_simps)
  finally show ?thesis by (simp add: take_bit_eq_mask)
qed

lemma and_not_4095: "x AND NOT 4095 = x - x mod (4096 :: u32)"
  using and_not_mask [of x 12] by (simp add: mask_eq_exp_minus_1 take_bit_eq_mod)

lemma unat_round_down: "unat (x - x mod (k :: u32)) = unat x - unat x mod unat k"
  by (simp add: unat_sub word_le_nat_alt unat_mod)

lemma sdiv_of_nat: "int x sdiv int y = int (x div y)"
  by (cases "x = 0"; cases "y = 0") (simp_all add: signed_divide_int_def zdiv_int)

lemma int_div_nonneg:
  assumes "unat a < 2147483648" and "unat b < 2147483648"
  shows "int_div a b = of_nat (unat a div unat b)"
proof -
  have "sint a = int (unat a)" "sint b = int (unat b)" using assms by (simp_all only: sint32_eq if_True)
  then have "sint a sdiv sint b = int (unat a div unat b)" by (simp only: sdiv_of_nat)
  then show ?thesis by (simp add: int_div_def)
qed

lemma sint_char_to_int [simp]: "sint (char_to_int c) = sint c"
  unfolding char_to_int_def by (rule sint_up_scast) (simp add: is_up)

lemma char_to_int_eq_iff [simp]: "char_to_int a = char_to_int b \<longleftrightarrow> a = b"
  by (metis signed_word_eqI sint_char_to_int)

lemma ucast_u8_eq_iff [simp]: "(ucast (a :: u8) :: u32) = ucast b \<longleftrightarrow> a = b"
proof
  assume "(ucast a :: u32) = ucast b"
  then have "(ucast (ucast a :: u32) :: u8) = ucast (ucast b :: u32)" by simp
  then show "a = b" by (simp add: ucast_up_ucast_id is_up)
qed simp

lemma ucast_u8_0_iff [simp]: "(ucast (a :: u8) :: u32) = 0 \<longleftrightarrow> a = 0"
  using ucast_u8_eq_iff [of a 0] by simp

section \<open>Reading memory after writing it\<close>

lemma load32_store32 [simp, mem_simps]: "load32 (store32 m a v) a = v"
proof (rule bit_word_eqI)
  fix n :: nat assume "n < LENGTH(32)"
  then show "bit (load32 (store32 m a v) a) n = bit v n"
    by (cases "n < 8"; cases "n < 16"; cases "n < 24")
      (auto simp: load32_def store32_def bit_simps)
qed

lemma load16_store16 [simp, mem_simps]: "load16 (store16 m a v) a = v"
  unfolding load16_def store16_def by (rule bit_word_eqI) (auto simp: bit_simps not_less)

lemma store32_out:
  assumes "a mod 4 = 0" and "x div 4 \<noteq> a div 4"
  shows "store32 m a v x = m x"
proof -
  have "(a + i) div 4 = a div 4" if "i < 4" for i :: u32
    using assms(1) that by (intro aligned_add_div) simp_all
  from this [of 0] this [of 1] this [of 2] this [of 3] assms(2)
  have "x \<noteq> a" "x \<noteq> a + 1" "x \<noteq> a + 2" "x \<noteq> a + 3" by auto
  then show ?thesis by (simp add: store32_def)
qed

lemma load32_cong:
  assumes "a mod 4 = 0" and "\<And>x. x div 4 = a div 4 \<Longrightarrow> m x = m' x"
  shows "load32 m a = load32 m' a"
proof -
  have "(a + i) div 4 = a div 4" if "i < 4" for i :: u32
    using assms(1) that by (intro aligned_add_div) simp_all
  from this [of 1] this [of 2] this [of 3] show ?thesis
    using assms(2) by (simp add: load32_def)
qed

lemma load32_store32_other [mem_simps]:
  assumes "a mod 4 = 0" and "b mod 4 = 0" and "a \<noteq> b"
  shows "load32 (store32 m a v) b = load32 m b"
proof (rule load32_cong [OF assms(2)])
  fix x :: addr assume "x div 4 = b div 4"
  with assms have "x div 4 \<noteq> a div 4" using aligned_eq_of_div [of a 4 b] by auto
  then show "store32 m a v x = m x" using store32_out [OF assms(1)] by simp
qed

lemma store32_page:
  assumes "a mod 4 = 0" and "x div 4096 \<noteq> a div 4096"
  shows "store32 m a v x = m x"
proof (rule store32_out [OF assms(1)])
  show "x div 4 \<noteq> a div 4"
  proof
    assume "x div 4 = a div 4"
    then have "unat (x div 4) = unat (a div 4)" by simp
    then have "unat x div 4 div 1024 = unat a div 4 div 1024" by (simp add: unat_div)
    then have "unat x div (4 * 1024) = unat a div (4 * 1024)" by (simp only: div_mult2_eq)
    then show False using assms(2) by (simp add: word_unat_eq_iff unat_div)
  qed
qed

lemma mod_add_inj_le:
  assumes "j \<le> k" and "(a + j) mod n = (a + k) mod n" and "k < n"
  shows "j = (k :: nat)"
proof -
  have "n dvd (a + k) - (a + j)" using assms(1,2) by (metis mod_eq_dvd_iff_nat nat_add_left_cancel_le)
  then have "n dvd k - j" by simp
  then show ?thesis using assms(1,3) by (cases "k - j = 0") (auto dest: dvd_imp_le)
qed

lemma mod_add_inj: "(a + j) mod n = (a + k) mod n \<Longrightarrow> j < n \<Longrightarrow> k < n \<Longrightarrow> j = (k :: nat)"
  using mod_add_inj_le [of j k a n] mod_add_inj_le [of k j a n] by (cases "j \<le> k") auto

text \<open>Bytes and words at a distance of four or more.\<close>

lemma load32_upd_out [mem_simps]: "4 \<le> unat (a - b) \<Longrightarrow> load32 (m(a := v)) b = load32 m b" for a b :: addr
proof -
  assume d: "4 \<le> unat (a - b)"
  have "b + k \<noteq> a" if "k < 4" for k using d that by (auto simp: word_less_nat_alt)
  from this [of 0] this [of 1] this [of 2] this [of 3] show ?thesis by (auto simp: load32_def)
qed

lemma store32_byte_out [mem_simps]: "4 \<le> unat (x - a) \<Longrightarrow> store32 m a v x = m x" for a x :: addr
proof -
  assume d: "4 \<le> unat (x - a)"
  have "x \<noteq> a + k" if "k < 4" for k using d that by (auto simp: word_less_nat_alt)
  from this [of 0] this [of 1] this [of 2] this [of 3] show ?thesis by (simp add: store32_def)
qed

lemma unat_minus_iff: "unat (a - b) = (if a = b then 0 else 4294967296 - unat (b - a))" for a b :: u32
proof (cases "a = b")
  case False
  have z: "(unat (a - b) + unat (b - a)) mod 4294967296 = 0"
    using unat_word_ariths(1) [of "a - b" "b - a"] by simp
  have "unat (a - b) \<noteq> 0" "unat (b - a) \<noteq> 0" using False by auto
  moreover obtain q where q: "unat (a - b) + unat (b - a) = 4294967296 * q" using z by (auto simp: mod_eq_0_iff_dvd)
  moreover have "4294967296 * q < 4294967296 * 2" using unat32_lt [of "a - b"] unat32_lt [of "b - a"] q by linarith
  ultimately have "q = 1" by (cases "q = 0") auto
  then have "unat (a - b) + unat (b - a) = 4294967296" using q by simp
  with False show ?thesis by simp
qed simp

lemma unat_add_less: "unat a + unat b < 4294967296 \<Longrightarrow> unat (a + b) = unat a + unat b" for a b :: u32
  by (simp add: unat_word_ariths)

lemma load32_store32_apart [mem_simps]:
  assumes "4 \<le> unat (b - a)" and "4 \<le> unat (a - b)"
  shows "load32 (store32 m a v) b = load32 m b"
proof -
  have "store32 m a v (b + k) = m (b + k)" if "k < 4" for k
  proof (rule store32_byte_out)
    have k: "unat k < 4" using that by (simp add: word_less_nat_alt)
    have "unat (b - a) + 4 \<le> 4294967296" using assms unat_minus_iff [of a b] by (auto split: if_splits)
    with k have "unat (b - a + k) = unat (b - a) + unat k" by (intro unat_add_less) simp
    with assms(1) show "4 \<le> unat (b + k - a)" by (simp add: algebra_simps)
  qed
  from this [of 0] this [of 1] this [of 2] this [of 3] show ?thesis by (simp add: load32_def)
qed

lemma load32_same: "(\<And>k. k < 4 \<Longrightarrow> m' (a + k) = m (a + k)) \<Longrightarrow> load32 m' a = load32 m a"
proof -
  assume same: "\<And>k. k < 4 \<Longrightarrow> m' (a + k) = m (a + k)"
  from same [of 0] same [of 1] same [of 2] same [of 3] show ?thesis by (simp add: load32_def)
qed

lemma load32_zero: "load32 (\<lambda>_. 0) a = 0"
  by (simp add: load32_def)

end
