(* ===== verification/Memory.thy ===== *)
theory Memory
  imports Prelude
begin

text \<open>
  \<open>phix/src/memory/memory.c\<close>: \<open>memset\<close>, \<open>memcmp\<close> and \<open>memcpy\<close> on the
  byte-addressed memory. \<open>memset\<close> and \<open>memcpy\<close> return their first argument, which no
  caller uses; the model gives the memory they leave. Address arithmetic wraps around as
  in the flat address space the kernel runs in.
\<close>

definition memset :: "mem \<Rightarrow> addr \<Rightarrow> i32 \<Rightarrow> u32 \<Rightarrow> mem" where
  "memset m p c sz = for_up (unat sz) (\<lambda>i m. m(p + of_nat i := ucast c)) m"

fun memcmp_loop :: "mem \<Rightarrow> addr \<Rightarrow> addr \<Rightarrow> nat \<Rightarrow> i32" where
  "memcmp_loop m c1 c2 0 = 0"
| "memcmp_loop m c1 c2 (Suc count) =
     (if m c1 \<noteq> m c2 then char_to_int (m c1) - char_to_int (m c2)
      else memcmp_loop m (c1 + 1) (c2 + 1) count)"

definition memcmp :: "mem \<Rightarrow> addr \<Rightarrow> addr \<Rightarrow> u32 \<Rightarrow> i32" where
  "memcmp m p1 p2 count = memcmp_loop m p1 p2 (unat count)"

definition memcpy :: "mem \<Rightarrow> addr \<Rightarrow> addr \<Rightarrow> u32 \<Rightarrow> mem" where
  "memcpy m dst src sz = for_up (unat sz) (\<lambda>i m. m(dst + of_nat i := m (src + of_nat i))) m"

section \<open>What they compute\<close>

text \<open>
  \<open>a - p < sz\<close> says that \<open>a\<close> lies in the \<open>sz\<close> bytes from \<open>p\<close>, wrapping
  around where the range does.
\<close>

lemma for_up_mem_range:
  fixes p :: addr
  assumes "n < 2 ^ 32"
  shows "for_up n (\<lambda>i m. m(p + of_nat i := f i)) m
       = (\<lambda>a. if unat (a - p) < n then f (unat (a - p)) else m a)"
  using assms
proof (induction n)
  case 0
  then show ?case by simp
next
  case (Suc n)
  then have eq: "(a = p + of_nat n) = (unat (a - p) = n)" for a
    by (intro offset_eq_iff) simp
  show ?case using Suc by (auto simp: fun_eq_iff eq less_Suc_eq)
qed

lemma memset_eq: "memset m p c sz = (\<lambda>a. if a - p < sz then ucast c else m a)"
  using for_up_mem_range [of "unat sz" p "\<lambda>_. ucast c" m] unsigned_less [of sz]
  by (simp add: memset_def word_less_nat_alt)

lemma memset_in [mem_simps]: "a - p < sz \<Longrightarrow> memset m p c sz a = ucast c"
  by (simp add: memset_eq)

lemma memset_out [mem_simps]: "\<not> a - p < sz \<Longrightarrow> memset m p c sz a = m a"
  by (simp add: memset_eq)

lemma memcmp_loop_0_iff:
  "memcmp_loop m p q n = 0 \<longleftrightarrow> (\<forall>i < n. m (p + of_nat i) = m (q + of_nat i))"
proof (induction n arbitrary: p q)
  case 0
  then show ?case by simp
next
  case (Suc n)
  have "(\<forall>i < Suc n. m (p + of_nat i) = m (q + of_nat i)) \<longleftrightarrow>
      m p = m q \<and> (\<forall>i < n. m (p + 1 + of_nat i) = m (q + 1 + of_nat i))"
    by (auto simp: All_less_Suc2 add.assoc)
  then show ?case using Suc.IH [of "p + 1" "q + 1"] by simp
qed

lemma memcpy_eq:
  assumes disj: "\<And>i j. i < unat sz \<Longrightarrow> j < unat sz \<Longrightarrow> src + of_nat i \<noteq> dst + of_nat j"
  shows "memcpy m dst src sz = (\<lambda>a. if a - dst < sz then m (src + (a - dst)) else m a)"
proof -
  let ?P = "\<lambda>n t. t = (\<lambda>a. if unat (a - dst) < n then m (src + (a - dst)) else m a)"
  have "?P (unat sz) (memcpy m dst src sz)"
    unfolding memcpy_def
  proof (rule for_up_inv [where P = ?P])
    show "?P 0 m" by simp
  next
    fix i t assume i: "i < unat sz" and t: "?P i t"
    have i32: "i < 2 ^ 32" using i unat32_lt [of sz] by simp
    have "t (src + of_nat i) = m (src + of_nat i)"
    proof -
      have "\<not> unat (src + of_nat i - dst) < i"
      proof
        assume "unat (src + of_nat i - dst) < i"
        then have "unat (src + of_nat i - dst) < unat sz" using i by (rule order.strict_trans)
        from disj [OF i this] show False by simp
      qed
      then show ?thesis using t by simp
    qed
    moreover have "(a = dst + of_nat i) = (unat (a - dst) = i)" for a
      using i32 by (rule offset_eq_iff)
    ultimately show "?P (Suc i) (t(dst + of_nat i := t (src + of_nat i)))"
      using t by (auto simp: fun_eq_iff less_Suc_eq)
  qed
  then show ?thesis by (simp add: word_less_nat_alt)
qed

text \<open>Memory with the bytes \<open>bs\<close> written from \<open>p\<close> on.\<close>

definition poke :: "mem \<Rightarrow> addr \<Rightarrow> u8 list \<Rightarrow> mem" where
  "poke m p bs = (\<lambda>a. if unat (a - p) < length bs then bs ! unat (a - p) else m a)"

lemma poke_Nil [simp]: "poke m p [] = m"
  by (simp add: poke_def)

lemma poke_out [mem_simps]: "length bs \<le> unat (a - p) \<Longrightarrow> poke m p bs a = m a"
  by (simp add: poke_def)

lemma poke_in [mem_simps]: "i < length bs \<Longrightarrow> length bs < 2 ^ 32 \<Longrightarrow> poke m p bs (p + of_nat i) = bs ! i"
  by (simp add: poke_def unat_of_nat32)

lemma poke_snoc:
  assumes "length bs < 2 ^ 32"
  shows "(poke m p bs)(p + of_nat (length bs) := b) = poke m p (bs @ [b])"
proof
  fix a show "((poke m p bs)(p + of_nat (length bs) := b)) a = poke m p (bs @ [b]) a"
    using offset_eq_iff [OF assms, of a p] by (auto simp: poke_def nth_append)
qed

lemma poke_append:
  "length bs + length cs < 2 ^ 32 \<Longrightarrow> poke (poke m p bs) (p + of_nat (length bs)) cs = poke m p (bs @ cs)"
proof (induction cs rule: rev_induct)
  case (snoc c cs)
  then have "poke (poke m p bs) (p + of_nat (length bs)) (cs @ [c])
      = (poke m p (bs @ cs))(p + of_nat (length bs) + of_nat (length cs) := c)"
    by (subst poke_snoc [symmetric]) simp_all
  also have "\<dots> = poke m p (bs @ cs @ [c])"
    using poke_snoc [of "bs @ cs" m p c] snoc.prems by (simp add: add.assoc)
  finally show ?case .
qed simp

lemma poke_Cons: "length bs + 1 < 2 ^ 32 \<Longrightarrow> poke (m(p := b)) (p + 1) bs = poke m p (b # bs)"
  using poke_append [of "[b]" bs m p] poke_snoc [of "[]" m p b] by simp

end
