(* ===== verification/Strings.thy ===== *)
theory Strings
  imports Memory
begin

text \<open>
  \<open>phix/src/string/string.c\<close>, the functions on characters and NUL-terminated strings
  (the terminal and \<open>printk\<close> are in theory \<open>Terminal\<close>). A loop that runs until it
  meets a NUL byte is a \<open>partial_function\<close>: \<open>None\<close> says that it runs for ever.
  \<open>cstr m p xs\<close> says that the string at \<open>p\<close> has the characters \<open>xs\<close>.
\<close>

section \<open>Characters\<close>

definition is_digit :: "u8 \<Rightarrow> bool" where
  "is_digit c = (48 \<le> sint c \<and> sint c \<le> 57)"

definition to_lower :: "u8 \<Rightarrow> u8" where
  "to_lower c = (if 65 \<le> c \<and> c \<le> 90 then c + 32 else c)"

definition to_upper :: "u8 \<Rightarrow> u8" where
  "to_upper c = (if 97 \<le> c \<and> c \<le> 122 then c - 32 else c)"

definition to_digit :: "u8 \<Rightarrow> i32" where
  "to_digit c = (if \<not> is_digit c then char_to_int c else char_to_int c - 48)"

section \<open>Strings in memory\<close>

partial_function (option) strlen_loop :: "mem \<Rightarrow> addr \<Rightarrow> u32 \<Rightarrow> u32 option" where
  "strlen_loop m str len =
     (if m (str + len) \<noteq> 0 then strlen_loop m str (len + 1) else Some len)"

definition strlen :: "mem \<Rightarrow> addr \<Rightarrow> u32 option" where
  "strlen m str = strlen_loop m str 0"

definition sto_lower :: "mem \<Rightarrow> addr \<Rightarrow> mem option" where
  "sto_lower m str = (case strlen m str of None \<Rightarrow> None
     | Some len \<Rightarrow>
         Some (for_up (unat len) (\<lambda>i m. m(str + of_nat i := to_lower (m (str + of_nat i)))) m))"

definition sto_upper :: "mem \<Rightarrow> addr \<Rightarrow> mem option" where
  "sto_upper m str = (case strlen m str of None \<Rightarrow> None
     | Some len \<Rightarrow>
         Some (for_up (unat len) (\<lambda>i m. m(str + of_nat i := to_upper (m (str + of_nat i)))) m))"

function strnlen_loop :: "mem \<Rightarrow> addr \<Rightarrow> u32 \<Rightarrow> u32 \<Rightarrow> u32" where
  "strnlen_loop m str mx len =
     (if m (str + len) \<noteq> 0 \<and> len \<noteq> mx then strnlen_loop m str mx (len + 1) else len)"
  by pat_completeness auto
termination
  by (relation "measure (\<lambda>(m, str, mx, len). unat (mx - len))")
    (simp_all add: word_inc_less del: diff_diff_add)

definition strnlen :: "mem \<Rightarrow> addr \<Rightarrow> u32 \<Rightarrow> u32" where
  "strnlen m str mx = strnlen_loop m str mx 0"

partial_function (option) strcpy_loop :: "mem \<Rightarrow> addr \<Rightarrow> addr \<Rightarrow> mem option" where
  "strcpy_loop m dest src =
     (if m src \<noteq> 0 then strcpy_loop (m(dest := m src)) (dest + 1) (src + 1)
      else Some (m(dest := 0)))"

definition strcpy :: "mem \<Rightarrow> addr \<Rightarrow> addr \<Rightarrow> mem option" where
  "strcpy m dest src = strcpy_loop m dest src"

text \<open>
  \<open>while (*src && n-- > 1)\<close>: \<open>n\<close> is decremented only where the byte is not NUL, and the
  comparison is with the old value, so the loop makes at most \<open>n - 1\<close> copies.
\<close>

function strncpy_loop :: "mem \<Rightarrow> addr \<Rightarrow> addr \<Rightarrow> u32 \<Rightarrow> mem" where
  "strncpy_loop m dest src n =
     (if m src \<noteq> 0 \<and> 1 < n then strncpy_loop (m(dest := m src)) (dest + 1) (src + 1) (n - 1)
      else m(dest := 0))"
  by pat_completeness auto
termination
  by (relation "measure (\<lambda>(m, dest, src, n). unat n)") (simp_all add: word_dec_less)

definition strncpy :: "mem \<Rightarrow> addr \<Rightarrow> addr \<Rightarrow> u32 \<Rightarrow> mem" where
  "strncpy m dest src n = strncpy_loop m dest src n"

fun strncmp_loop :: "mem \<Rightarrow> addr \<Rightarrow> addr \<Rightarrow> nat \<Rightarrow> i32" where
  "strncmp_loop m s1 s2 0 = 0"
| "strncmp_loop m s1 s2 (Suc n) =
     (let u1 = m s1; u2 = m s2 in
      if u1 \<noteq> u2 then ucast u1 - ucast u2
      else if u1 = 0 then 0
      else strncmp_loop m (s1 + 1) (s2 + 1) n)"

definition strncmp :: "mem \<Rightarrow> addr \<Rightarrow> addr \<Rightarrow> u32 \<Rightarrow> i32" where
  "strncmp m s1 s2 n = strncmp_loop m s1 s2 (unat n)"

partial_function (option) strcpy_strip_loop :: "mem \<Rightarrow> addr \<Rightarrow> addr \<Rightarrow> mem option" where
  "strcpy_strip_loop m dest src =
     (if m src \<noteq> 0 \<and> m src \<noteq> 0x20
      then strcpy_strip_loop (m(dest := m src)) (dest + 1) (src + 1)
      else Some (m(dest := 0)))"

definition strcpy_strip :: "mem \<Rightarrow> addr \<Rightarrow> addr \<Rightarrow> mem option" where
  "strcpy_strip m dest src = strcpy_strip_loop m dest src"

fun strnlen_terminator_loop :: "mem \<Rightarrow> addr \<Rightarrow> u8 \<Rightarrow> i32 \<Rightarrow> i32 \<Rightarrow> nat \<Rightarrow> i32" where
  "strnlen_terminator_loop m str term mx i 0 = mx"
| "strnlen_terminator_loop m str term mx i (Suc n) =
     (if m (str + i) = 0 \<or> m (str + i) = term then i
      else strnlen_terminator_loop m str term mx (i + 1) n)"

definition strnlen_terminator :: "mem \<Rightarrow> addr \<Rightarrow> i32 \<Rightarrow> u8 \<Rightarrow> i32" where
  "strnlen_terminator m str mx term =
     strnlen_terminator_loop m str term mx 0 (nat (sint mx))"

fun istrncmp_loop :: "mem \<Rightarrow> addr \<Rightarrow> addr \<Rightarrow> nat \<Rightarrow> i32" where
  "istrncmp_loop m s1 s2 0 = 0"
| "istrncmp_loop m s1 s2 (Suc n) =
     (let u1 = m s1; u2 = m s2 in
      if to_lower u1 \<noteq> to_lower u2 then ucast u1 - ucast u2
      else if u1 = 0 then 0
      else istrncmp_loop m (s1 + 1) (s2 + 1) n)"

definition istrncmp :: "mem \<Rightarrow> addr \<Rightarrow> addr \<Rightarrow> u32 \<Rightarrow> i32" where
  "istrncmp m s1 s2 n = istrncmp_loop m s1 s2 (unat n)"

declare strnlen_loop.simps [simp del] strncpy_loop.simps [simp del]

section \<open>NUL-terminated strings\<close>

fun cstr :: "mem \<Rightarrow> addr \<Rightarrow> u8 list \<Rightarrow> bool" where
  "cstr m p [] = (m p = 0)"
| "cstr m p (x # xs) = (m p = x \<and> x \<noteq> 0 \<and> cstr m (p + 1) xs)"

lemma cstr_nonzero: "cstr m p xs \<Longrightarrow> 0 \<notin> set xs"
  by (induction xs arbitrary: p) auto

lemma cstr_nth: "cstr m p xs \<Longrightarrow> i < length xs \<Longrightarrow> m (p + of_nat i) = xs ! i"
proof (induction xs arbitrary: p i)
  case (Cons x xs)
  then show ?case by (cases i) (auto simp: add.assoc [symmetric])
qed simp

lemma cstr_end: "cstr m p xs \<Longrightarrow> m (p + of_nat (length xs)) = 0"
  by (induction xs arbitrary: p) (auto simp: add.assoc [symmetric])

lemma cstr_cong:
  "cstr m p xs \<Longrightarrow> (\<And>i. i \<le> length xs \<Longrightarrow> m' (p + of_nat i) = m (p + of_nat i)) \<Longrightarrow> cstr m' p xs"
proof (induction xs arbitrary: p)
  case Nil
  from Nil.prems(2) [of 0] Nil.prems(1) show ?case by simp
next
  case (Cons x xs)
  have "m' (p + 1 + of_nat i) = m (p + 1 + of_nat i)" if "i \<le> length xs" for i
    using Cons.prems(2) [of "Suc i"] that by (simp add: add.assoc)
  then have "cstr m' (p + 1) xs" using Cons by auto
  with Cons.prems(1) Cons.prems(2) [of 0] show ?case by auto
qed

lemma cstr_unique: "cstr m p xs \<Longrightarrow> cstr m p ys \<Longrightarrow> xs = ys"
proof (induction xs arbitrary: p ys)
  case Nil
  then show ?case by (cases ys) auto
next
  case (Cons x xs)
  then show ?case by (cases ys) auto
qed

lemma cstr_iff:
  "cstr m p xs \<longleftrightarrow> 0 \<notin> set xs \<and> (\<forall>i < length xs. m (p + of_nat i) = xs ! i) \<and> m (p + of_nat (length xs)) = 0"
proof (induction xs arbitrary: p)
  case (Cons x xs)
  show ?case unfolding cstr.simps Cons.IH
    by (auto simp: All_less_Suc2 add.assoc)
qed simp

section \<open>What they compute\<close>

lemma strlen_loop_cstr:
  "cstr m (str + len) xs \<Longrightarrow> strlen_loop m str len = Some (len + of_nat (length xs))"
proof (induction xs arbitrary: len)
  case Nil
  then show ?case by (simp add: strlen_loop.simps)
next
  case (Cons x xs)
  then have "strlen_loop m str (len + 1) = Some (len + 1 + of_nat (length xs))"
    by (simp add: add.assoc)
  moreover have "strlen_loop m str len = strlen_loop m str (len + 1)"
    using Cons.prems by (subst strlen_loop.simps) simp
  ultimately show ?case by (simp add: add.assoc)
qed

lemma strlen_cstr: "cstr m str xs \<Longrightarrow> strlen m str = Some (of_nat (length xs))"
  using strlen_loop_cstr [of m str 0 xs] by (simp add: strlen_def)

lemma cstr_exists:
  "m (p + of_nat k) = 0 \<Longrightarrow> \<exists>xs. cstr m p xs \<and> length xs \<le> k"
proof (induction k arbitrary: p)
  case 0
  then have "cstr m p []" by simp
  then show ?case by blast
next
  case (Suc k)
  show ?case
  proof (cases "m p = 0")
    case True
    then have "cstr m p []" by simp
    then show ?thesis by fastforce
  next
    case False
    from Suc.IH [of "p + 1"] Suc.prems obtain xs where "cstr m (p + 1) xs" "length xs \<le> k"
      by (auto simp: add.assoc)
    with False have "cstr m p (m p # xs) \<and> length (m p # xs) \<le> Suc k" by simp
    then show ?thesis by blast
  qed
qed

lemma strlen_returns: "strlen m str = Some n \<Longrightarrow> m (str + n) = 0"
  unfolding strlen_def
  by (rule strlen_loop.raw_induct [where P = "\<lambda>m str len r. m (str + r) = 0"])
    (auto split: if_splits)

text \<open>
  \<open>strlen\<close> runs for ever exactly where no byte of the address space is NUL.
\<close>

lemma strlen_diverges_iff: "strlen m str = None \<longleftrightarrow> (\<forall>a. m a \<noteq> 0)"
proof
  assume none: "strlen m str = None"
  show "\<forall>a. m a \<noteq> 0"
  proof
    fix a
    show "m a \<noteq> 0"
    proof
      assume "m a = 0"
      then have "m (str + of_nat (unat (a - str))) = 0" by simp
      from cstr_exists [of m str, OF this] obtain xs where "cstr m str xs" by blast
      with none show False by (simp add: strlen_cstr)
    qed
  qed
next
  assume "\<forall>a. m a \<noteq> 0"
  then show "strlen m str = None" using strlen_returns by (cases "strlen m str") auto
qed

lemma strnlen_loop_cstr:
  "cstr m (str + len) xs \<Longrightarrow> unat len + length xs < 2 ^ 32 \<Longrightarrow> len \<le> mx \<Longrightarrow>
   strnlen_loop m str mx len = min (len + of_nat (length xs)) mx"
proof (induction xs arbitrary: len)
  case Nil
  then show ?case by (subst strnlen_loop.simps) (simp add: min_def)
next
  case (Cons x xs)
  show ?case
  proof (cases "len = mx")
    case True
    have "unat (len + of_nat (length (x # xs))) = unat len + length (x # xs)"
      using Cons.prems(2) by (simp add: unat_word_ariths unat_of_nat32 del: of_nat_Suc)
    then have "len \<le> len + of_nat (length (x # xs))" by (simp only: word_le_nat_alt)
    with True show ?thesis by (subst strnlen_loop.simps) (simp add: min_def)
  next
    case False
    with Cons.prems(3) have lt: "len < mx" by simp
    then have u: "unat (len + 1) = unat len + 1" using Cons.prems(2)
      by (simp add: unat_word_ariths)
    have "len + 1 \<le> mx" using lt u by (simp add: word_less_nat_alt word_le_nat_alt)
    moreover have "cstr m (str + (len + 1)) xs" using Cons.prems(1) by (simp add: add.assoc)
    ultimately have "strnlen_loop m str mx (len + 1) = min (len + 1 + of_nat (length xs)) mx"
      using Cons.prems(2) u by (intro Cons.IH) simp_all
    moreover have "strnlen_loop m str mx len = strnlen_loop m str mx (len + 1)"
      using Cons.prems(1) False by (subst strnlen_loop.simps) simp
    ultimately show ?thesis by (simp add: add.assoc)
  qed
qed

lemma strnlen_cstr:
  "cstr m str xs \<Longrightarrow> length xs < 2 ^ 32 \<Longrightarrow> strnlen m str mx = min (of_nat (length xs)) mx"
  using strnlen_loop_cstr [of m str 0 xs mx] by (simp add: strnlen_def)

text \<open>
  The specification of the copying functions: \<open>put_str m p xs\<close> writes the characters
  \<open>xs\<close> and the closing NUL from \<open>p\<close> on.
\<close>

fun put_str :: "mem \<Rightarrow> addr \<Rightarrow> u8 list \<Rightarrow> mem" where
  "put_str m p [] = m(p := 0)"
| "put_str m p (x # xs) = put_str (m(p := x)) (p + 1) xs"

lemma unat_off_pred: "a \<noteq> p \<Longrightarrow> Suc (unat (a - (p + 1))) = unat (a - p)" for a p :: addr
proof -
  assume "a \<noteq> p"
  then have "unat (a - p) = Suc (unat (a - p - 1))"
    by (simp add: unat_minus_one unat_gt_0)
  then show ?thesis by (simp add: diff_diff_add)
qed

lemma put_str_apply:
  "length xs < 2 ^ 32 \<Longrightarrow> put_str m p xs a =
     (if unat (a - p) < length xs then xs ! unat (a - p)
      else if unat (a - p) = length xs then 0 else m a)"
proof (induction xs arbitrary: m p)
  case Nil
  then show ?case by simp
next
  case (Cons x xs)
  have IH: "put_str (m(p := x)) (p + 1) xs a =
     (if unat (a - (p + 1)) < length xs then xs ! unat (a - (p + 1))
      else if unat (a - (p + 1)) = length xs then 0 else (m(p := x)) a)"
    using Cons by simp
  show ?case
  proof (cases "a = p")
    case True
    moreover have "length xs < unat (p - (p + 1))"
      using Cons.prems by (simp add: unat_minus_1)
    ultimately show ?thesis using IH by simp
  next
    case False
    from unat_off_pred [OF this] have "unat (a - p) = Suc (unat (a - (p + 1)))" by simp
    with False IH show ?thesis by simp
  qed
qed

lemma put_str_out [mem_simps]:
  "length xs < 2 ^ 32 \<Longrightarrow> length xs < unat (a - p) \<Longrightarrow> put_str m p xs a = m a"
  by (simp add: put_str_apply)

lemma cstr_put_str:
  assumes "0 \<notin> set xs" and "length xs < 2 ^ 32"
  shows "cstr (put_str m p xs) p xs"
proof -
  have "cstr h p xs" if "0 \<notin> set xs" "h (p + of_nat (length xs)) = 0"
    "\<And>i. i < length xs \<Longrightarrow> h (p + of_nat i) = xs ! i" for h p and xs :: "u8 list"
    using that
  proof (induction xs arbitrary: p)
    case (Cons x xs)
    have "h (p + 1 + of_nat i) = xs ! i" if "i < length xs" for i
      using Cons.prems(3) [of "Suc i"] that by (simp add: add.assoc)
    then have "cstr h (p + 1) xs" using Cons.prems(1,2) by (intro Cons.IH) (simp_all add: add.assoc)
    moreover have "h p = x" using Cons.prems(3) [of 0] by simp
    ultimately show ?case using Cons.prems(1) by simp
  qed simp
  from this [OF assms(1)] show ?thesis
    using assms(2) by (simp add: put_str_apply unat_of_nat32)
qed

text \<open>
  Copying a string whose bytes the destination does not reach: \<open>strcpy\<close> writes all of it,
  \<open>strncpy\<close> at most \<open>n - 1\<close> characters, \<open>strcpy_strip\<close> those before the first blank;
  each closes the copy with a NUL.
\<close>

definition apart :: "addr \<Rightarrow> addr \<Rightarrow> nat \<Rightarrow> bool" where
  "apart src dest n = (\<forall>i \<le> n. \<forall>j \<le> n. src + of_nat i \<noteq> dest + of_nat j)"

lemma apart_step:
  assumes "apart src dest (Suc n)" and "cstr m (src + 1) xs" and "length xs \<le> n"
  shows "cstr (m(dest := x)) (src + 1) xs" and "apart (src + 1) (dest + 1) n"
proof -
  have "src + 1 + of_nat i \<noteq> dest" if "i \<le> n" for i
  proof -
    from assms(1) that have "src + of_nat (Suc i) \<noteq> dest + of_nat 0"
      unfolding apart_def by blast
    then show ?thesis by (simp add: add.assoc)
  qed
  then show "cstr (m(dest := x)) (src + 1) xs" using assms(3)
    by (intro cstr_cong [OF assms(2)]) simp
  show "apart (src + 1) (dest + 1) n" unfolding apart_def
  proof (intro allI impI)
    fix i j assume "i \<le> n" "j \<le> n"
    then have "src + of_nat (Suc i) \<noteq> dest + of_nat (Suc j)"
      using assms(1) by (auto simp: apart_def simp del: of_nat_Suc)
    then show "src + 1 + of_nat i \<noteq> dest + 1 + of_nat j" by (simp add: add.assoc)
  qed
qed

lemma strcpy_cstr:
  "cstr m src xs \<Longrightarrow> apart src dest (length xs) \<Longrightarrow> strcpy m dest src = Some (put_str m dest xs)"
  unfolding strcpy_def
proof (induction xs arbitrary: m dest src)
  case Nil
  then show ?case by (subst strcpy_loop.simps) simp
next
  case (Cons x xs)
  from Cons.prems have "apart src dest (Suc (length xs))" and "cstr m (src + 1) xs" by simp_all
  note step = apart_step [OF this order.refl]
  have "strcpy_loop m dest src = strcpy_loop (m(dest := x)) (dest + 1) (src + 1)"
    using Cons.prems(1) by (subst strcpy_loop.simps) simp
  also have "\<dots> = Some (put_str (m(dest := x)) (dest + 1) xs)"
    by (rule Cons.IH [OF step])
  finally show ?case by simp
qed

lemma strncpy_cstr:
  "cstr m src xs \<Longrightarrow> apart src dest (length xs) \<Longrightarrow>
   strncpy m dest src n = put_str m dest (take (unat n - 1) xs)"
  unfolding strncpy_def
proof (induction xs arbitrary: m dest src n)
  case Nil
  then show ?case by (subst strncpy_loop.simps) simp
next
  case (Cons x xs)
  from Cons.prems have "apart src dest (Suc (length xs))" and "cstr m (src + 1) xs" by simp_all
  note step = apart_step [OF this order.refl]
  show ?case
  proof (cases "1 < n")
    case True
    then have "n \<noteq> 0" by auto
    with True have k: "unat n - 1 = Suc (unat (n - 1) - 1)"
      by (simp add: word_less_nat_alt unat_minus_one)
    have "strncpy_loop m dest src n = strncpy_loop (m(dest := x)) (dest + 1) (src + 1) (n - 1)"
      using Cons.prems(1) True by (subst strncpy_loop.simps) simp
    also have "\<dots> = put_str (m(dest := x)) (dest + 1) (take (unat (n - 1) - 1) xs)"
      by (rule Cons.IH [OF step])
    finally show ?thesis by (simp only: k take_Suc_Cons put_str.simps)
  next
    case False
    then have "unat n - 1 = 0" by (simp add: word_less_nat_alt)
    with False show ?thesis by (subst strncpy_loop.simps) simp
  qed
qed

lemma strcpy_strip_cstr:
  "cstr m src xs \<Longrightarrow> apart src dest (length xs) \<Longrightarrow>
   strcpy_strip m dest src = Some (put_str m dest (takeWhile (\<lambda>c. c \<noteq> 0x20) xs))"
  unfolding strcpy_strip_def
proof (induction xs arbitrary: m dest src)
  case Nil
  then show ?case by (subst strcpy_strip_loop.simps) simp
next
  case (Cons x xs)
  from Cons.prems have "apart src dest (Suc (length xs))" and "cstr m (src + 1) xs" by simp_all
  note step = apart_step [OF this order.refl]
  show ?case
  proof (cases "x = 0x20")
    case True
    with Cons.prems(1) show ?thesis by (subst strcpy_strip_loop.simps) simp
  next
    case False
    then have "strcpy_strip_loop m dest src
        = strcpy_strip_loop (m(dest := x)) (dest + 1) (src + 1)"
      using Cons.prems(1) by (subst strcpy_strip_loop.simps) simp
    also have "\<dots> = Some (put_str (m(dest := x)) (dest + 1) (takeWhile (\<lambda>c. c \<noteq> 0x20) xs))"
      by (rule Cons.IH [OF step])
    finally show ?thesis using False by simp
  qed
qed

text \<open>Comparing: zero exactly on strings that agree in their first \<open>n\<close> characters.\<close>

lemma strncmp_loop_0_iff:
  "cstr m s1 xs \<Longrightarrow> cstr m s2 ys \<Longrightarrow> strncmp_loop m s1 s2 n = 0 \<longleftrightarrow> take n xs = take n ys"
proof (induction n arbitrary: s1 s2 xs ys)
  case 0
  then show ?case by simp
next
  case (Suc n)
  then show ?case
    by (cases xs; cases ys) (auto simp: Let_def )
qed

lemma strncmp_cstr:
  "cstr m s1 xs \<Longrightarrow> cstr m s2 ys \<Longrightarrow>
   strncmp m s1 s2 n = 0 \<longleftrightarrow> take (unat n) xs = take (unat n) ys"
  by (simp add: strncmp_def strncmp_loop_0_iff)

lemma to_lower_0_iff [simp]: "to_lower c = 0 \<longleftrightarrow> c = 0"
proof -
  have "c + 32 \<noteq> 0" if "65 \<le> c" "c \<le> 90"
    using that by (simp add: word_le_nat_alt word_unat_eq_iff unat_word_ariths)
  then show ?thesis by (auto simp: to_lower_def)
qed

lemma to_lower_0 [simp]: "to_lower 0 = 0"
  by simp

lemma istrncmp_loop_0_iff:
  "cstr m s1 xs \<Longrightarrow> cstr m s2 ys \<Longrightarrow>
   istrncmp_loop m s1 s2 n = 0 \<longleftrightarrow> map to_lower (take n xs) = map to_lower (take n ys)"
proof (induction n arbitrary: s1 s2 xs ys)
  case 0
  then show ?case by simp
next
  case (Suc n)
  then show ?case
    by (cases xs; cases ys) (auto simp: Let_def dest: sym [of "to_lower _"])
qed

lemma istrncmp_cstr:
  "cstr m s1 xs \<Longrightarrow> cstr m s2 ys \<Longrightarrow> istrncmp m s1 s2 n = 0 \<longleftrightarrow>
   map to_lower (take (unat n) xs) = map to_lower (take (unat n) ys)"
  by (simp add: istrncmp_def istrncmp_loop_0_iff)

section \<open>Properties\<close>

text \<open>
  C40. \<open>strlen\<close> returns the distance to the first NUL byte, around the end of the address
  space if need be, and runs for ever exactly where memory has none.
\<close>

theorem strlen_first_nul:
  "strlen m str = (if \<exists>a. m a = 0 then Some (of_nat (LEAST k. m (str + of_nat k) = 0)) else None)"
proof (cases "\<exists>a. m a = 0")
  case True
  then obtain a where "m a = 0" by blast
  then have "m (str + of_nat (unat (a - str))) = 0" by simp
  then have "m (str + of_nat (LEAST k. m (str + of_nat k) = 0)) = 0" by (rule LeastI)
  from cstr_exists [of m str, OF this] obtain xs where
    xs: "cstr m str xs" "length xs \<le> (LEAST k. m (str + of_nat k) = 0)" by blast
  then have "m (str + of_nat (length xs)) = 0" by (simp add: cstr_iff)
  then have "(LEAST k. m (str + of_nat k) = 0) \<le> length xs" by (rule Least_le)
  with xs True show ?thesis by (simp add: strlen_cstr)
next
  case False
  then show ?thesis using strlen_diverges_iff [of m str] by simp
qed

text \<open>
  C37. \<open>strncpy\<close> with a positive count copies the string cut to \<open>n - 1\<close> characters, always
  closes the copy with a NUL (which ISO C's does not) and changes no byte outside the
  \<open>n\<close> bytes of the destination.
\<close>

theorem strncpy_truncates:
  assumes "cstr m src xs" and "apart src dest (length xs)" and "0 < n" and "length xs < 2 ^ 32"
  shows "cstr (strncpy m dest src n) dest (take (unat n - 1) xs) \<and>
     (\<forall>a. unat n \<le> unat (a - dest) \<longrightarrow> strncpy m dest src n a = m a)"
proof -
  let ?ys = "take (unat n - 1) xs"
  have n: "0 < unat n" using assms(3) by (simp add: word_less_nat_alt)
  then have len: "length ?ys < 2 ^ 32" "length ?ys < unat n" using assms(4) by auto
  have "0 \<notin> set ?ys" using cstr_nonzero [OF assms(1)] by (meson in_set_takeD)
  with len show ?thesis unfolding strncpy_cstr [OF assms(1,2)]
    by (auto intro: cstr_put_str put_str_out)
qed

theorem strncpy_truncates_witness:
  "cstr (strncpy ((\<lambda>_. 0)(0x100 := 0x61, 0x101 := 0x62, 0x102 := 0x63)) 0x200 0x100 3) 0x200 [0x61, 0x62]"
proof -
  let ?m = "(\<lambda>_. 0)(0x100 := 0x61, 0x101 := 0x62, 0x102 := 0x63) :: mem"
  have off: "unat ((0x100 :: u32) + of_nat i) < 0x110" "0x200 \<le> unat ((0x200 :: u32) + of_nat i)"
    if "i \<le> 3" for i using that by (simp_all add: unat_word_ariths unat_of_nat32)
  have "apart 0x100 0x200 3" unfolding apart_def
  proof (intro allI impI)
    fix i j :: nat assume "i \<le> 3" "j \<le> 3"
    then show "0x100 + of_nat i \<noteq> (0x200 :: u32) + of_nat j" using off(1) [of i] off(2) [of j] by force
  qed
  then have a: "apart 0x100 0x200 (length [0x61, 0x62, 0x63 :: u8])" by (simp add: numeral_3_eq_3)
  have c: "cstr ?m 0x100 [0x61, 0x62, 0x63]" by simp
  have n: "(0 :: u32) < 3" "length [0x61, 0x62, 0x63 :: u8] < 2 ^ 32" by simp_all
  have "cstr (strncpy ?m 0x200 0x100 3) 0x200 (take (unat (3 :: u32) - 1) [0x61, 0x62, 0x63])"
    using strncpy_truncates [OF c a n] by (rule conjunct1)
  moreover have "unat (3 :: u32) - 1 = Suc (Suc 0)" by simp
  ultimately show ?thesis by (simp only: take_Suc_Cons take_0)
qed

text \<open>
  \<open>istrncmp\<close> is zero exactly on strings whose first \<open>n\<close> characters agree up to the
  case of letters.
\<close>

theorem istrncmp_zero:
  assumes "cstr m s1 xs" and "cstr m s2 ys"
  shows "istrncmp m s1 s2 n = 0 \<longleftrightarrow> map to_lower (take (unat n) xs) = map to_lower (take (unat n) ys)"
  using assms by (rule istrncmp_cstr)

theorem istrncmp_zero_witness:
  "istrncmp ((\<lambda>_. 0)(0x100 := 0x41, 0x200 := 0x61)) 0x100 0x200 5 = 0"
  using istrncmp_zero [of "(\<lambda>_. 0)(0x100 := 0x41, 0x200 := 0x61)" "0x100" "[0x41]" "0x200" "[0x61]" 5]
  by (simp add: to_lower_def)

end
