(* ===== verification/Terminal.thy ===== *)
theory Terminal
  imports Strings
begin

text \<open>
  \<open>phix/src/string/string.c\<close>, the text terminal and formatted output. The static
  variables of the file are a record; the screen is the memory at \<open>video_mem\<close>, two
  bytes a cell. The static buffers of \<open>itoa\<close> and \<open>decimal_to_hex\<close> are at addresses the
  linker chooses: \<open>tbuf\<close> and \<open>hbuf\<close> are parameters.
\<close>

definition VGA_WIDTH :: i32 where [config_defs]: "VGA_WIDTH = 80"
definition VGA_HEIGHT :: i32 where [config_defs]: "VGA_HEIGHT = 20"

record terminal =
  video_mem :: addr
  terminal_row :: u16
  terminal_col :: u16

section \<open>The terminal\<close>

text \<open>\<open>color << 8 | c\<close> is computed on \<open>int\<close>s, both of them sign-extended.\<close>

definition terminal_make_char :: "u8 \<Rightarrow> u8 \<Rightarrow> u16" where
  "terminal_make_char c color = ucast (push_bit 8 (char_to_int color) OR char_to_int c)"

definition terminal_putchar :: "i32 \<Rightarrow> i32 \<Rightarrow> u8 \<Rightarrow> u8 \<Rightarrow> terminal \<times> mem \<Rightarrow> terminal \<times> mem" where
  "terminal_putchar x y c color = (\<lambda>(t, m).
     (t, store16 m (video_mem t + 2 * (y * VGA_WIDTH + x)) (terminal_make_char c color)))"

function terminal_backspace :: "terminal \<times> mem \<Rightarrow> terminal \<times> mem"
  and putchar :: "u8 \<Rightarrow> terminal \<times> mem \<Rightarrow> terminal \<times> mem"
  and terminal_writechar :: "u8 \<Rightarrow> u8 \<Rightarrow> terminal \<times> mem \<Rightarrow> terminal \<times> mem" where
  "terminal_backspace (t, m) =
     (if terminal_col t = 0 \<and> terminal_row t = 0 then (t, m)
      else let t = (if terminal_col t = 0
                    then t\<lparr>terminal_row := terminal_row t - 1, terminal_col := ucast VGA_WIDTH\<rparr> else t);
               t = t\<lparr>terminal_col := terminal_col t - 1\<rparr>;
               (t, m) = putchar 0x20 (t, m)
           in (t\<lparr>terminal_col := terminal_col t - 1\<rparr>, m))"
| "putchar c st = terminal_writechar c 15 st"
| "terminal_writechar c color (t, m) =
     (if c = 0x08 then terminal_backspace (t, m)
      else if c = 0x0A then (t\<lparr>terminal_col := 0, terminal_row := terminal_row t + 1\<rparr>, m)
      else let (t, m) = terminal_putchar (ucast (terminal_col t)) (ucast (terminal_row t)) c color (t, m);
               t = t\<lparr>terminal_col := terminal_col t + 1\<rparr>;
               t = (if ucast VGA_WIDTH \<le> terminal_col t
                    then t\<lparr>terminal_col := 0, terminal_row := terminal_row t + 1\<rparr> else t)
           in (t, m))"
  by pat_completeness auto
termination
  by (relation "measure (case_sum (\<lambda>_. 3) (case_sum (\<lambda>(c, _). if c = 0x08 then 5 else 2)
        (\<lambda>(c, _). if c = 0x08 then 4 else 1)))") auto

text \<open>\<open>terminal_init\<close>; the previous position is overwritten.\<close>

definition terminal_init :: "mem \<Rightarrow> terminal \<times> mem" where
  "terminal_init m =
     (let t = \<lparr>video_mem = 0xB8000, terminal_row = 0, terminal_col = 0\<rparr>
      in for_up (nat (sint VGA_HEIGHT)) (\<lambda>y.
           for_up (nat (sint VGA_WIDTH)) (\<lambda>x. terminal_putchar (of_nat x) (of_nat y) 0x20 0)) (t, m))"

text \<open>\<open>None\<close>: the string has no end and \<open>strlen\<close> runs for ever.\<close>

definition print :: "addr \<Rightarrow> terminal \<times> mem \<Rightarrow> (terminal \<times> mem) option" where
  "print str = (\<lambda>(t, m). case strlen m str of None \<Rightarrow> None
     | Some len \<Rightarrow> Some (for_up (unat len)
         (\<lambda>i (t, m). terminal_writechar (m (str + of_nat i)) 15 (t, m)) (t, m)))"

section \<open>Numbers\<close>

text \<open>\<open>hbuf\<close> and \<open>tbuf\<close> are the buffers, \<open>j\<close> and \<open>loc\<close> the index last written.\<close>

function hex_loop :: "addr \<Rightarrow> u32 \<Rightarrow> i32 \<Rightarrow> mem \<Rightarrow> i32 \<times> mem" where
  "hex_loop hbuf decimal j m =
     (if decimal \<noteq> 0 then
        let remainder = decimal mod 16;
            j = j - 1;
            m = (if sint remainder < 10 then m(hbuf + j := ucast (48 + remainder))
                 else m(hbuf + j := ucast (55 + remainder)))
        in hex_loop hbuf (decimal div 16) j m
      else (j, m))"
  by pat_completeness auto
termination
  by (relation "measure (\<lambda>(hbuf, decimal, j, m). unat decimal)")
    (auto simp: unat_div unat_gt_0 intro!: div_less_dividend)

definition decimal_to_hex :: "addr \<Rightarrow> u32 \<Rightarrow> mem \<Rightarrow> addr \<times> mem" where
  "decimal_to_hex hbuf decimal m = (let (j, m) = hex_loop hbuf decimal 11 m in (hbuf + j, m))"

lemma sint_int_div_10: "sint (int_div i 10) = sint i sdiv 10"
proof -
  note b = sint32_bounds [of i]
  have "sint i sdiv 10 = (if 0 \<le> sint i then sint i div 10 else - (- sint i div 10))"
    by (simp add: signed_divide_int_def sgn_if)
  with b have "- 2147483648 \<le> sint i sdiv 10" "sint i sdiv 10 < 2147483648" by (auto split: if_splits)
  moreover have "sint (10 :: i32) = 10" by simp
  ultimately show ?thesis by (simp add: int_div_def sint_of_int32)
qed

lemma int_div_10_less:
  assumes "i \<noteq> 0"
  shows "sint i \<noteq> 0" and "\<bar>sint (int_div i 10)\<bar> < \<bar>sint i\<bar>"
proof -
  show "sint i \<noteq> 0" using assms signed_word_eqI [of i 0] by auto
  then show "\<bar>sint (int_div i 10)\<bar> < \<bar>sint i\<bar>"
    by (auto simp: sint_int_div_10 signed_divide_int_def sgn_if)
qed

function itoa_loop :: "addr \<Rightarrow> i32 \<Rightarrow> i32 \<Rightarrow> mem \<Rightarrow> i32 \<times> mem" where
  "itoa_loop tbuf i loc m =
     (if i \<noteq> 0 then
        let loc = loc - 1;
            m = m(tbuf + loc := ucast (0x30 - int_mod i 10))
        in itoa_loop tbuf (int_div i 10) loc m
      else (loc, m))"
  by pat_completeness auto
termination
  by (relation "measure (\<lambda>(tbuf, i, loc, m). nat \<bar>sint i\<bar>)") (auto dest: int_div_10_less)

definition itoa :: "addr \<Rightarrow> i32 \<Rightarrow> mem \<Rightarrow> addr \<times> mem" where
  "itoa tbuf i m =
     (let loc = 11;
          m = m(tbuf + 11 := 0);
          neg = \<not> 0 \<le> sint i;
          i = (if 0 \<le> sint i then - i else i);
          (loc, m) = itoa_loop tbuf i loc m;
          (loc, m) = (if loc = 11 then (loc - 1, m(tbuf + (loc - 1) := 0x30)) else (loc, m));
          (loc, m) = (if neg then (loc - 1, m(tbuf + (loc - 1) := 0x2D)) else (loc, m))
      in (tbuf + loc, m))"

declare itoa_loop.simps [simp del] hex_loop.simps [simp del]

section \<open>\<open>printk\<close>\<close>

text \<open>
  \<open>args k\<close> is the \<open>k\<close>-th word of the variable arguments on the stack. The loop reads on
  after the NUL byte where \<open>%\<close> is the last character of the format. \<open>zero_x\<close> is the
  address of the literal \<open>0X\<close>.
\<close>

partial_function (option) printk_loop ::
    "addr \<Rightarrow> addr \<Rightarrow> addr \<Rightarrow> (nat \<Rightarrow> u32) \<Rightarrow> addr \<Rightarrow> nat \<Rightarrow> terminal \<times> mem \<Rightarrow> (terminal \<times> mem) option" where
  "printk_loop tbuf hbuf zero_x args p k st =
     (if snd st p = 0 then Some st
      else if snd st p \<noteq> 0x25 then printk_loop tbuf hbuf zero_x args (p + 1) k (putchar (snd st p) st)
      else let p = p + 1; c = snd st p in
        if c = 0x64 then
          (let (s, m) = itoa tbuf (args k) (snd st) in
           Option.bind (print s (fst st, m)) (printk_loop tbuf hbuf zero_x args (p + 1) (k + 1)))
        else if c = 0x63 then
          printk_loop tbuf hbuf zero_x args (p + 1) (k + 1) (putchar (ucast (args k)) st)
        else if c = 0x73 then
          Option.bind (print (args k) st) (printk_loop tbuf hbuf zero_x args (p + 1) (k + 1))
        else if c = 0x70 then
          Option.bind (print zero_x st) (\<lambda>st.
            let (s, m) = decimal_to_hex hbuf (args k) (snd st) in
            Option.bind (print s (fst st, m)) (printk_loop tbuf hbuf zero_x args (p + 1) (k + 1)))
        else printk_loop tbuf hbuf zero_x args (p + 1) k (putchar c st))"

definition printk :: "addr \<Rightarrow> addr \<Rightarrow> addr \<Rightarrow> addr \<Rightarrow> (nat \<Rightarrow> u32) \<Rightarrow> terminal \<times> mem
    \<Rightarrow> (i32 \<times> terminal \<times> mem) option" where
  "printk tbuf hbuf zero_x fmt args st =
     map_option (\<lambda>st. (0, st)) (printk_loop tbuf hbuf zero_x args fmt 0 st)"

section \<open>What the number functions compute\<close>

text \<open>The reference: digits by repeated division, and the value a digit string denotes.\<close>

fun dec_chars :: "nat \<Rightarrow> u8 list" where
  "dec_chars n = (if n = 0 then [] else dec_chars (n div 10) @ [of_nat (48 + n mod 10)])"

fun hex_chars :: "nat \<Rightarrow> u8 list" where
  "hex_chars n = (if n = 0 then []
     else hex_chars (n div 16) @ [of_nat ((if n mod 16 < 10 then 48 else 55) + n mod 16)])"

declare dec_chars.simps [simp del] hex_chars.simps [simp del]

definition decimal :: "int \<Rightarrow> u8 list" where
  "decimal k = (if k = 0 then [0x30] else if k < 0 then 0x2D # dec_chars (nat (- k))
                else dec_chars (nat k))"

definition dec_value :: "u8 list \<Rightarrow> nat" where
  "dec_value s = foldl (\<lambda>v c. 10 * v + (unat c - 48)) 0 s"

definition int_value :: "u8 list \<Rightarrow> int" where
  "int_value s = (if s \<noteq> [] \<and> hd s = 0x2D then - int (dec_value (tl s)) else int (dec_value s))"

lemma dec_chars_Nil [simp]: "dec_chars n = [] \<longleftrightarrow> n = 0"
  by (subst dec_chars.simps) simp

lemma dec_chars_0 [simp]: "dec_chars 0 = []" and hex_chars_0 [simp]: "hex_chars 0 = []"
  by (simp_all add: hex_chars.simps)

lemma dec_chars_length: "n < 10 ^ k \<Longrightarrow> length (dec_chars n) \<le> k"
proof (induction n arbitrary: k rule: dec_chars.induct)
  case (1 n)
  show ?case
  proof (cases "n = 0")
    case False
    with "1.prems" obtain k' where k: "k = Suc k'" by (cases k) auto
    with "1.prems" have "n div 10 < 10 ^ k'" by (simp add: div_less_iff_less_mult mult.commute)
    from "1.IH" [OF False this] k False show ?thesis by (subst dec_chars.simps) simp
  qed (simp add: dec_chars.simps)
qed

lemma unat_digit: "d < 10 \<Longrightarrow> unat (of_nat (48 + d) :: u8) = 48 + d"
  by (simp add: unat_of_nat take_bit_nat_eq_self del: of_nat_add)

lemma dec_chars_digit: "c \<in> set (dec_chars n) \<Longrightarrow> 48 \<le> unat c \<and> unat c < 58"
proof (induction n rule: dec_chars.induct)
  case (1 n)
  then show ?case using unat_digit [of "n mod 10"]
    by (subst (asm) (2) dec_chars.simps) (auto split: if_splits)
qed

lemma dec_value_dec_chars: "dec_value (dec_chars n) = n"
proof (induction n rule: dec_chars.induct)
  case (1 n)
  show ?case
  proof (cases "n = 0")
    case False
    then have "dec_value (dec_chars n) = 10 * dec_value (dec_chars (n div 10)) + n mod 10"
      using unat_digit [of "n mod 10"] by (subst dec_chars.simps) (simp add: dec_value_def del: of_nat_add)
    with 1 False show ?thesis by simp
  qed (simp add: dec_chars.simps dec_value_def)
qed

lemma int_value_decimal: "int_value (decimal k) = k"
proof (cases "k > 0")
  case True
  then have "dec_chars (nat k) \<noteq> []" by simp
  then have "hd (dec_chars (nat k)) \<in> set (dec_chars (nat k))" by (rule hd_in_set)
  then have "hd (dec_chars (nat k)) \<noteq> 0x2D" using dec_chars_digit by fastforce
  with True show ?thesis by (simp add: int_value_def decimal_def dec_value_dec_chars)
next
  case False
  have "dec_value [0x30] = 0" by (simp add: dec_value_def)
  with False show ?thesis by (auto simp: int_value_def decimal_def dec_value_dec_chars)
qed

lemma cstr_prepend:
  assumes "cstr m (p + 1) xs" and "c \<noteq> 0" and "length xs < 4294967295"
  shows "cstr (m(p := c)) p (c # xs)"
proof -
  have "cstr (m(p := c)) (p + 1) xs"
  proof (rule cstr_cong [OF assms(1)])
    fix i assume i: "i \<le> length xs"
    have "p + of_nat (Suc i) \<noteq> p"
    proof
      assume "p + of_nat (Suc i) = p"
      then have "unat (of_nat (Suc i) :: u32) = 0" by simp
      moreover have "unat (of_nat (Suc i) :: u32) = Suc i" using i assms(3) by (intro unat_of_nat32) simp
      ultimately show False by simp
    qed
    then show "(m(p := c)) (p + 1 + of_nat i) = m (p + 1 + of_nat i)" by (simp add: add.assoc)
  qed
  with assms(2) show ?thesis by simp
qed

lemma ucast_of_nat_u8: "n < 2 ^ 32 \<Longrightarrow> ucast (of_nat n :: u32) = (of_nat n :: u8)"
  by (simp add: unsigned_of_nat take_bit_nat_eq_self)

lemma itoa_digit:
  assumes "sint i = - int n"
  shows "ucast (0x30 - int_mod i 10) = (of_nat (48 + n mod 10) :: u8)"
    and "n < 2147483649 \<Longrightarrow> sint (int_div i 10) = - int (n div 10)"
proof -
  have "sint i smod 10 = - int (n mod 10)"
    using assms by (auto simp: signed_modulo_int_def signed_divide_int_def sgn_if zmod_int minus_div_mult_eq_mod)
  then have "int_mod i 10 = - of_nat (n mod 10)" by (simp add: int_mod_def)
  then have "0x30 - int_mod i 10 = (of_nat (48 + n mod 10) :: i32)" by simp
  then show "ucast (0x30 - int_mod i 10) = (of_nat (48 + n mod 10) :: u8)"
    using ucast_of_nat_u8 [of "48 + n mod 10"] by (simp del: of_nat_add)
  show "sint (int_div i 10) = - int (n div 10)"
    using assms by (auto simp: sint_int_div_10 signed_divide_int_def sgn_if zdiv_int)
qed

text \<open>
  Both loops write digits in front of a string in the buffer: \<open>L\<close> is the index of its
  first character, and the bytes outside the first \<open>L\<close> stay as they are.
\<close>

definition outside :: "addr \<Rightarrow> nat \<Rightarrow> mem \<Rightarrow> mem \<Rightarrow> bool" where
  "outside buf L m m' = (\<forall>a. L \<le> unat (a - buf) \<longrightarrow> m' a = m a)"

lemma outside_refl [simp]: "outside buf L m m"
  by (simp add: outside_def)

lemma outside_trans: "outside buf L m m' \<Longrightarrow> outside buf L' m' m'' \<Longrightarrow> L' \<le> L \<Longrightarrow> outside buf L m m''"
  by (auto simp: outside_def)

lemma outside_upd: "i < L \<Longrightarrow> L < 4294967296 \<Longrightarrow> outside buf L m (m(buf + of_nat i := v))"
  by (auto simp: outside_def unat_of_nat32)

lemma digit_neq_0: "d < 100 \<Longrightarrow> (of_nat (48 + d) :: u8) \<noteq> 0"
proof
  assume "d < 100" and "of_nat (48 + d) = (0 :: u8)"
  then have "unat (of_nat (48 + d) :: u8) = 0" by simp
  with \<open>d < 100\<close> show False by (simp add: unat_of_nat take_bit_nat_eq_self del: of_nat_add)
qed

lemma prepend_digit:
  assumes "cstr m (buf + of_nat L) xs" and "0 < L" and "L + length xs < 4294967295" and "c \<noteq> 0"
  shows "cstr (m(buf + of_nat (L - 1) := c)) (buf + of_nat (L - 1)) (c # xs)"
    and "outside buf L m (m(buf + of_nat (L - 1) := c))" and "of_nat L - 1 = (of_nat (L - 1) :: u32)"
proof -
  have "buf + of_nat (L - 1) + 1 = buf + of_nat L" using assms(2) by (cases L) (simp_all add: add.commute)
  then show "cstr (m(buf + of_nat (L - 1) := c)) (buf + of_nat (L - 1)) (c # xs)"
    using assms by (intro cstr_prepend) simp_all
  show "outside buf L m (m(buf + of_nat (L - 1) := c))" using assms by (intro outside_upd) simp_all
  show "of_nat L - 1 = (of_nat (L - 1) :: u32)" using assms(2) by (cases L) simp_all
qed

lemma itoa_loop_spec:
  assumes "sint i = - int n" and "length (dec_chars n) \<le> L" and "L + length xs < 4294967295"
    and "cstr m (buf + of_nat L) xs"
  shows "\<exists>m'. itoa_loop buf i (of_nat L) m = (of_nat (L - length (dec_chars n)), m') \<and>
     cstr m' (buf + of_nat (L - length (dec_chars n))) (dec_chars n @ xs) \<and> outside buf L m m'"
  using assms
proof (induction n arbitrary: i L m xs rule: dec_chars.induct)
  case (1 n)
  show ?case
  proof (cases "n = 0")
    case True
    with "1.prems"(1) have "i = 0" using signed_word_eqI [of i 0] by simp
    with True "1.prems" show ?thesis by (subst itoa_loop.simps) (simp add: dec_chars.simps)
  next
    case False
    let ?c = "of_nat (48 + n mod 10) :: u8" and ?d = "dec_chars (n div 10)"
    let ?m = "m(buf + of_nat (L - 1) := ?c)"
    have i: "i \<noteq> 0" using "1.prems"(1) False by auto
    have ds: "dec_chars n = ?d @ [?c]" using False by (subst dec_chars.simps) simp
    with "1.prems"(2) have L: "0 < L" "length ?d \<le> L - 1" by simp_all
    note dig = itoa_digit [OF "1.prems"(1)]
    have n: "n < 2147483649" using "1.prems"(1) sint32_bounds(1) [of i] by linarith
    have c: "?c \<noteq> 0" by (rule digit_neq_0) (simp add: less_trans [OF mod_less_divisor])
    note pre = prepend_digit [OF "1.prems"(4) L(1) "1.prems"(3) c]
    have "itoa_loop buf i (of_nat L) m = itoa_loop buf (int_div i 10) (of_nat (L - 1)) ?m"
      using i by (subst itoa_loop.simps) (simp only: pre(3) dig(1) Let_def if_True not_False_eq_True)
    moreover have len: "L - 1 + length (?c # xs) < 4294967295" using "1.prems"(3) L(1) by simp
    moreover from "1.IH" [OF False dig(2) [OF n] L(2) len pre(1)] obtain m' where
      "itoa_loop buf (int_div i 10) (of_nat (L - 1)) ?m = (of_nat (L - 1 - length ?d), m')"
      "cstr m' (buf + of_nat (L - 1 - length ?d)) (?d @ ?c # xs)" "outside buf (L - 1) ?m m'"
      by blast
    moreover have "outside buf L m m'" using outside_trans [OF pre(2) calculation(5)] by simp
    ultimately show ?thesis by (simp add: ds)
  qed
qed

lemma hex_loop_spec:
  assumes "length (hex_chars (unat d)) \<le> L" and "L + length xs < 4294967295"
    and "cstr m (buf + of_nat L) xs"
  shows "\<exists>m'. hex_loop buf d (of_nat L) m = (of_nat (L - length (hex_chars (unat d))), m') \<and>
     cstr m' (buf + of_nat (L - length (hex_chars (unat d)))) (hex_chars (unat d) @ xs) \<and> outside buf L m m'"
  using assms
proof (induction "unat d" arbitrary: d L m xs rule: hex_chars.induct)
  case (1 d)
  show ?case
  proof (cases "unat d = 0")
    case True
    then have "d = 0" by (simp add: unat_eq_zero)
    with "1.prems" show ?thesis by (subst hex_loop.simps) (simp add: hex_chars.simps)
  next
    case False
    let ?n = "unat d"
    let ?k = "(if ?n mod 16 < 10 then 48 else 55) + ?n mod 16"
    let ?c = "of_nat ?k :: u8" and ?d = "hex_chars (unat (d div 16))"
    let ?m = "m(buf + of_nat (L - 1) := ?c)"
    have d: "d \<noteq> 0" and u: "unat (d div 16) = ?n div 16" using False by (auto simp: unat_div)
    have ds: "hex_chars ?n = ?d @ [?c]" using False u by (subst hex_chars.simps) simp
    with "1.prems"(1) have L: "0 < L" "length ?d \<le> L - 1" by simp_all
    have mod: "?n mod 16 < 16" by simp
    then have k: "?k = 48 + (?k - 48)" "?k - 48 < 100" by auto
    have c: "?c \<noteq> 0" using digit_neq_0 [OF k(2)] k(1) by metis
    note pre = prepend_digit [OF "1.prems"(3) L(1) "1.prems"(2) c]
    have rem: "d mod 16 = of_nat (?n mod 16)" by (simp add: word_unat_eq_iff unat_mod unat_of_nat32)
    then have "sint (d mod 16) = int (?n mod 16)" using mod by (simp only: sint_of_nat)
    then have dig: "(if sint (d mod 16) < 10 then m(buf + of_nat (L - 1) := ucast (48 + d mod 16))
                 else m(buf + of_nat (L - 1) := ucast (55 + d mod 16))) = ?m"
      using ucast_of_nat_u8 [of "48 + ?n mod 16"] ucast_of_nat_u8 [of "55 + ?n mod 16"] mod
      unfolding rem by simp
    have "hex_loop buf d (of_nat L) m = hex_loop buf (d div 16) (of_nat (L - 1)) ?m"
      using d by (subst hex_loop.simps) (simp only: pre(3) dig Let_def if_True not_False_eq_True)
    moreover have len: "L - 1 + length (?c # xs) < 4294967295" using "1.prems"(2) L(1) by simp
    moreover from "1.hyps" [OF False u [symmetric] L(2) len pre(1)] obtain m' where
      "hex_loop buf (d div 16) (of_nat (L - 1)) ?m = (of_nat (L - 1 - length ?d), m')"
      "cstr m' (buf + of_nat (L - 1 - length ?d)) (?d @ ?c # xs)" "outside buf (L - 1) ?m m'"
      by blast
    moreover have "outside buf L m m'" using outside_trans [OF pre(2) calculation(5)] by simp
    ultimately show ?thesis by (simp add: ds)
  qed
qed

section \<open>What the terminal does\<close>

declare terminal_backspace.simps [simp del] putchar.simps [simp del] terminal_writechar.simps [simp del]

text \<open>The address of the cell at the cursor.\<close>

definition cursor_cell :: "terminal \<Rightarrow> addr" where
  "cursor_cell t = video_mem t + 2 * (ucast (terminal_row t) * 80 + ucast (terminal_col t))"

definition advance :: "terminal \<Rightarrow> terminal" where
  "advance t = (if 80 \<le> terminal_col t + 1 then t\<lparr>terminal_col := 0, terminal_row := terminal_row t + 1\<rparr>
                else t\<lparr>terminal_col := terminal_col t + 1\<rparr>)"

lemma terminal_writechar_plain:
  assumes "c \<noteq> 0x08" and "c \<noteq> 0x0A"
  shows "terminal_writechar c color (t, m) =
    (advance t, store16 m (cursor_cell t) (terminal_make_char c color))"
  using assms by (simp add: terminal_writechar.simps terminal_putchar_def advance_def cursor_cell_def VGA_WIDTH_def)

lemma terminal_writechar_newline:
  "terminal_writechar 0x0A color (t, m) = (t\<lparr>terminal_col := 0, terminal_row := terminal_row t + 1\<rparr>, m)"
  by (simp add: terminal_writechar.simps)

text \<open>The state in which a backspace erases a cell.\<close>

definition step_back :: "terminal \<Rightarrow> terminal" where
  "step_back t = (let t = (if terminal_col t = 0
       then t\<lparr>terminal_row := terminal_row t - 1, terminal_col := 80\<rparr> else t)
     in t\<lparr>terminal_col := terminal_col t - 1\<rparr>)"

lemma terminal_backspace_eq:
  "terminal_backspace (t, m) =
     (if terminal_col t = 0 \<and> terminal_row t = 0 then (t, m)
      else let t = step_back t
           in ((advance t)\<lparr>terminal_col := terminal_col (advance t) - 1\<rparr>,
               store16 m (cursor_cell t) (terminal_make_char 0x20 15)))"
  by (simp add: terminal_backspace.simps putchar.simps terminal_writechar_plain step_back_def VGA_WIDTH_def Let_def)

lemma unat16_lt: "unat (w :: u16) < 65536"
  by (rule order.strict_trans2 [OF unsigned_less]) simp

lemma unat_ucast_u16: "unat (ucast (w :: u16) :: u32) = unat w"
  using unat16_lt [of w] by (simp add: unsigned_ucast_eq take_bit_nat_eq_self)

text \<open>Cells of a 16 bit position lie in the 16 MB from the start of the video memory.\<close>

lemma cursor_cell_range:
  "unat (cursor_cell t - video_mem t) < 10616831"
proof -
  let ?r = "unat (terminal_row t)" and ?c = "unat (terminal_col t)"
  have "2 * (r * 80 + c) < 10616831" if "r < 65536" "c < 65536" for r c :: nat using that by simp
  then have lt: "2 * (?r * 80 + ?c) < 10616831" using unat16_lt by blast
  have "cursor_cell t - video_mem t = of_nat (2 * (?r * 80 + ?c))"
    by (simp add: cursor_cell_def unat_ucast_u16 [symmetric])
  then have "unat (cursor_cell t - video_mem t) = 2 * (?r * 80 + ?c)"
    using lt by (simp add: unat_of_nat32 del: of_nat_mult of_nat_add)
  with lt show ?thesis by simp
qed

lemma store16_out: "a \<noteq> p \<Longrightarrow> a \<noteq> p + 1 \<Longrightarrow> store16 m p v a = m a"
  by (simp add: store16_def)

lemma unat_suc: "unat d < 10616831 \<Longrightarrow> unat (d + 1 :: u32) = unat d + 1"
  by (simp add: unat_word_ariths)

lemma cursor_write_out:
  assumes "10616832 \<le> unat (a - video_mem t)"
  shows "store16 m (cursor_cell t) v a = m a"
proof (rule store16_out)
  show "a \<noteq> cursor_cell t" using assms cursor_cell_range [of t] by auto
  show "a \<noteq> cursor_cell t + 1"
  proof
    assume "a = cursor_cell t + 1"
    then have "a - video_mem t = (cursor_cell t - video_mem t) + 1" by simp
    then have "unat (a - video_mem t) = unat (cursor_cell t - video_mem t) + 1"
      using unat_suc [of "cursor_cell t - video_mem t"] cursor_cell_range [of t] by (simp only:)
    with assms cursor_cell_range [of t] show False by simp
  qed
qed

lemma step_back_video [simp]: "video_mem (step_back t) = video_mem t"
  by (simp add: step_back_def Let_def)

lemma advance_video [simp]: "video_mem (advance t) = video_mem t"
  by (simp add: advance_def)

lemma terminal_writechar_frame:
  "video_mem (fst (terminal_writechar c color (t, m))) = video_mem t \<and>
   (\<forall>a. 10616832 \<le> unat (a - video_mem t) \<longrightarrow> snd (terminal_writechar c color (t, m)) a = m a)"
proof (cases "c = 0x08")
  case True
  then have "terminal_writechar c color (t, m) = terminal_backspace (t, m)"
    by (simp add: terminal_writechar.simps)
  then show ?thesis using cursor_write_out [of _ "step_back t"]
    by (simp add: terminal_backspace_eq Let_def)
next
  case False
  then show ?thesis using cursor_write_out [of _ t]
    by (cases "c = 0x0A") (simp_all add: terminal_writechar_newline terminal_writechar_plain)
qed

lemma print_fold:
  assumes "\<And>i. i < n \<Longrightarrow> 10616832 \<le> unat (str + of_nat i - video_mem t)"
  shows "let st = for_up n (\<lambda>i (t, m). terminal_writechar (m (str + of_nat i)) 15 (t, m)) (t, m)
     in st = fold (\<lambda>c. terminal_writechar c 15) (map (\<lambda>i. m (str + of_nat i)) [0..<n]) (t, m) \<and>
        video_mem (fst st) = video_mem t \<and>
        (\<forall>a. 10616832 \<le> unat (a - video_mem t) \<longrightarrow> snd st a = m a)"
  using assms
proof (induction n)
  case (Suc n)
  let ?st = "for_up n (\<lambda>i (t, m). terminal_writechar (m (str + of_nat i)) 15 (t, m)) (t, m)"
  obtain t' m' where st: "?st = (t', m')" by (cases ?st)
  with Suc have IH: "(t', m') = fold (\<lambda>c. terminal_writechar c 15) (map (\<lambda>i. m (str + of_nat i)) [0..<n]) (t, m)"
    "video_mem t' = video_mem t" "\<And>a. 10616832 \<le> unat (a - video_mem t) \<Longrightarrow> m' a = m a"
    by (simp_all add: Let_def)
  have "m' (str + of_nat n) = m (str + of_nat n)" using Suc.prems IH(3) by blast
  with IH terminal_writechar_frame [of "m (str + of_nat n)" 15 t' m'] show ?case
    by (simp add: st Let_def IH(1) [symmetric])
qed simp

section \<open>Properties\<close>

text \<open>The digits of \<open>\<bar>i\<bar>\<close> in the buffer, from index \<open>L\<close> on.\<close>

lemma itoa_digits:
  fixes i :: i32
  defines "n \<equiv> nat \<bar>sint i\<bar>"
  defines "L \<equiv> 11 - length (dec_chars n)"
  obtains m1 where "itoa_loop buf (if 0 \<le> sint i then - i else i) (of_nat 11) (m(buf + of_nat 11 := 0)) = (of_nat L, m1)"
    and "cstr m1 (buf + of_nat L) (dec_chars n)" and "outside buf 12 m m1"
    and "0 < L" and "L \<le> 11" and "L + length (dec_chars n) = 11"
proof -
  let ?i = "if 0 \<le> sint i then - i else i" and ?m = "m(buf + of_nat 11 := 0)"
  have "sint (- i) = - sint i" if "0 \<le> sint i"
  proof -
    have "- i = word_of_int (- sint i)" by simp
    then show ?thesis using that sint32_bounds(2) [of i] by (simp only: sint_of_int32)
  qed
  then have i: "sint ?i = - int n" by (auto simp: n_def)
  have n: "n < 10 ^ 10" using sint32_bounds [of i] by (simp add: n_def)
  have "length (dec_chars n) \<le> 10" by (rule dec_chars_length [OF n])
  then have len: "0 < L" "L \<le> 11" "L + length (dec_chars n) = 11" by (simp_all add: L_def)
  have "cstr ?m (buf + of_nat 11) []" by simp
  from itoa_loop_spec [OF i _ _ this, folded L_def] len obtain m1 where
    loop: "itoa_loop buf ?i (of_nat 11) ?m = (of_nat L, m1)"
      "cstr m1 (buf + of_nat L) (dec_chars n)" "outside buf 11 ?m m1" by auto
  have "outside buf 12 m ?m" by (rule outside_upd) simp_all
  from outside_trans [OF this loop(3)] have "outside buf 12 m m1" by simp
  with that loop len show thesis by blast
qed

text \<open>
  C36. \<open>itoa\<close> writes the decimal numeral of every 32 bit integer, the smallest one
  included, as a NUL-terminated string inside its 12 byte buffer: reading it back gives
  the number, and no byte outside the buffer changes.
\<close>

theorem itoa_correct:
  "\<exists>p m'. itoa buf i m = (p, m') \<and> cstr m' p (decimal (sint i)) \<and> int_value (decimal (sint i)) = sint i \<and>
     unat (p - buf) + length (decimal (sint i)) = 11 \<and> (\<forall>a. 12 \<le> unat (a - buf) \<longrightarrow> m' a = m a)"
proof -
  define n where "n = nat \<bar>sint i\<bar>"
  define L where "L = 11 - length (dec_chars n)"
  obtain m1 where
    loop: "itoa_loop buf (if 0 \<le> sint i then - i else i) (of_nat 11) (m(buf + of_nat 11 := 0)) = (of_nat L, m1)"
      "cstr m1 (buf + of_nat L) (dec_chars n)" and out1: "outside buf 12 m m1"
    and len: "0 < L" "L \<le> 11" "L + length (dec_chars n) = 11"
    by (rule itoa_digits [of buf i m, folded n_def, folded L_def])
  have upd: "outside buf 12 m (m1(buf + of_nat k := v))" if "k < 12" for k v
  proof (rule outside_trans [OF out1])
    show "outside buf 12 m1 (m1(buf + of_nat k := v))" using that by (intro outside_upd) simp_all
  qed simp
  have num: "(of_nat 11 :: u32) = 11" by simp
  have "L = 11 \<longleftrightarrow> n = 0" using len by auto
  then have eq: "(of_nat L :: u32) = 11 \<longleftrightarrow> n = 0" using len word_of_nat_inj [of L 11] by simp
  consider "n = 0" | "n \<noteq> 0" "0 \<le> sint i" | "sint i < 0" by linarith
  then show ?thesis
  proof cases
    case 1
    then have z: "sint i = 0" by (simp add: n_def)
    note pre = prepend_digit [OF loop(2), of "0x30"]
    have "itoa buf i m = (buf + of_nat 10, m1(buf + of_nat 10 := 0x30))"
      using loop(1) 1 z by (simp add: itoa_def L_def)
    moreover have "cstr (m1(buf + of_nat 10 := 0x30)) (buf + of_nat 10) (decimal (sint i))"
      using pre(1) 1 z by (simp add: decimal_def L_def)
    moreover have "outside buf 12 m (m1(buf + of_nat 10 := 0x30))"
      by (rule upd) simp
    moreover have "int_value [0x30] = 0" using int_value_decimal [of 0] by (simp add: decimal_def)
    ultimately show ?thesis using z by (auto simp: outside_def decimal_def)
  next
    case 2
    then have "0 < sint i" by (auto simp: n_def)
    then have d: "decimal (sint i) = dec_chars n" "int_value (dec_chars n) = sint i"
      using int_value_decimal [of "sint i"] by (simp_all add: decimal_def n_def)
    have "itoa buf i m = (buf + of_nat L, m1)"
      using loop(1) 2 eq by (simp add: itoa_def num)
    with loop(2) out1 len d show ?thesis by (auto simp: outside_def unat_of_nat32)
  next
    case 3
    then have d: "decimal (sint i) = 0x2D # dec_chars n" "n \<noteq> 0" "int_value (0x2D # dec_chars n) = sint i"
      using int_value_decimal [of "sint i"] by (simp_all add: decimal_def n_def)
    note pre = prepend_digit [OF loop(2), of "0x2D"]
    have "itoa buf i m = (buf + of_nat (L - 1), m1(buf + of_nat (L - 1) := 0x2D))"
      using loop(1) 3 d(2) eq pre(3) len by (simp add: itoa_def num)
    moreover have "cstr (m1(buf + of_nat (L - 1) := 0x2D)) (buf + of_nat (L - 1)) (decimal (sint i))"
      using pre(1) len by (simp add: d(1))
    moreover have "outside buf 12 m (m1(buf + of_nat (L - 1) := 0x2D))"
      by (rule upd) (use len in simp)
    moreover have "unat (of_nat (L - 1) :: u32) = L - 1" using len by (intro unat_of_nat32) simp
    ultimately show ?thesis using len d by (auto simp: int_value_decimal outside_def d(1))
  qed
qed

theorem itoa_correct_witness: "\<exists>p m'. itoa 0x1000 0x80000000 (\<lambda>_. 0) = (p, m') \<and> int_value (decimal (sint (0x80000000 :: i32))) = - 2147483648 \<and> m' 0x100C = 0"
proof -
  have "12 \<le> unat (0x100C - 0x1000 :: u32)" by simp
  then show ?thesis using itoa_correct [of "0x1000" "0x80000000" "\<lambda>_. 0"] by (auto simp: int_value_decimal)
qed

text \<open>
  \<open>decimal_to_hex\<close> writes the hexadecimal numeral inside its 12 byte buffer, whose last
  byte has been zero from the start; for \<open>0\<close> the numeral it writes is the empty
  string, so that \<open>printk\<close> shows a null pointer as a bare \<open>0X\<close>.
\<close>

theorem decimal_to_hex_correct:
  assumes "m (buf + 11) = 0"
  shows "\<exists>p m'. decimal_to_hex buf d m = (p, m') \<and> cstr m' p (hex_chars (unat d)) \<and>
     unat (p - buf) + length (hex_chars (unat d)) = 11 \<and> m' (buf + 11) = 0 \<and>
     (\<forall>a. 11 \<le> unat (a - buf) \<longrightarrow> m' a = m a) \<and> (d = 0 \<longrightarrow> cstr m' p [])"
proof -
  have length: "length (hex_chars n) \<le> k" if "n < 16 ^ k" for n k
    using that
  proof (induction n arbitrary: k rule: hex_chars.induct)
    case (1 n)
    show ?case
    proof (cases "n = 0")
      case False
      with "1.prems" obtain k' where k: "k = Suc k'" by (cases k) auto
      with "1.prems" have "n div 16 < 16 ^ k'" by (simp add: div_less_iff_less_mult mult.commute)
      from "1.IH" [OF False this] k False show ?thesis by (subst hex_chars.simps) simp
    qed (simp add: hex_chars.simps)
  qed
  define L where "L = 11 - length (hex_chars (unat d))"
  have "length (hex_chars (unat d)) \<le> 8" using unat32_lt [of d] by (intro length) simp
  then have len: "L \<le> 11" "L + length (hex_chars (unat d)) = 11" by (simp_all add: L_def)
  have "cstr m (buf + of_nat 11) []" using assms by simp
  from hex_loop_spec [OF _ _ this, of d, folded L_def] len obtain m' where
    m': "hex_loop buf d (of_nat 11) m = (of_nat L, m')"
      "cstr m' (buf + of_nat L) (hex_chars (unat d))" "outside buf 11 m m'" by auto
  have "(of_nat 11 :: u32) = 11" by simp
  with m'(1) have "decimal_to_hex buf d m = (buf + of_nat L, m')" by (simp add: decimal_to_hex_def)
  moreover have "unat (of_nat L :: u32) = L" using len by (intro unat_of_nat32) simp
  moreover have "m' (buf + 11) = 0" using m'(3) assms by (simp add: outside_def)
  moreover have "d = 0 \<longrightarrow> cstr m' (buf + of_nat L) []" using m'(2) by auto
  ultimately show ?thesis using m'(2,3) len
    by (intro exI [of _ "buf + of_nat L"] exI [of _ m'] conjI) (simp_all add: outside_def)
qed

theorem decimal_to_hex_correct_witness:
  "\<exists>p m'. decimal_to_hex 0x1000 0xB8000 (\<lambda>_. 0) = (p, m') \<and> cstr m' p [0x42, 0x38, 0x30, 0x30, 0x30]"
proof -
  have "hex_chars (unat (0xB8000 :: u32)) = [0x42, 0x38, 0x30, 0x30, 0x30]" by (simp add: hex_chars.simps)
  with decimal_to_hex_correct [of "\<lambda>_. 0" "0x1000" "0xB8000"] show ?thesis by auto
qed

text \<open>
  \<open>print\<close> writes the characters of the string one after the other, from any place
  outside the screen memory, and changes nothing outside it.
\<close>

theorem print_writes_string:
  assumes "cstr m str xs" and "length xs < 4294967296"
    and "\<forall>i < length xs. 10616832 \<le> unat (str + of_nat i - video_mem t)"
  shows "\<exists>t' m'. print str (t, m) = Some (t', m') \<and>
     (t', m') = fold (\<lambda>c. terminal_writechar c 15) xs (t, m) \<and>
     (\<forall>a. 10616832 \<le> unat (a - video_mem t) \<longrightarrow> m' a = m a)"
proof -
  let ?f = "\<lambda>i (t, m). terminal_writechar (m (str + of_nat i)) 15 (t, m)"
  have "map (\<lambda>i. m (str + of_nat i)) [0..<length xs] = xs"
    using cstr_nth [OF assms(1)] by (intro nth_equalityI) simp_all
  moreover have "unat (of_nat (length xs) :: u32) = length xs" using assms(2) by (intro unat_of_nat32) simp
  then have "print str (t, m) = Some (for_up (length xs) ?f (t, m))"
    by (simp add: print_def strlen_cstr [OF assms(1)])
  moreover obtain t' m' where "for_up (length xs) ?f (t, m) = (t', m')"
    by (cases "for_up (length xs) ?f (t, m)")
  moreover from this print_fold [of "length xs" str t m] assms(3)
  have "(t', m') = fold (\<lambda>c. terminal_writechar c 15) (map (\<lambda>i. m (str + of_nat i)) [0..<length xs]) (t, m)"
    and "\<forall>a. 10616832 \<le> unat (a - video_mem t) \<longrightarrow> m' a = m a" by (simp_all add: Let_def)
  ultimately show ?thesis by (intro exI [of _ t'] exI [of _ m']) simp
qed

theorem print_writes_string_witness:
  "\<exists>t' m'. print 0x2000000 (\<lparr>video_mem = 0xB8000, terminal_row = 0, terminal_col = 79\<rparr>, (\<lambda>_. 0)(0x2000000 := 0x41))
     = Some (t', m') \<and> terminal_row t' = 1 \<and> terminal_col t' = 0"
  using print_writes_string [of "(\<lambda>_. 0)(0x2000000 := 0x41)" "0x2000000" "[0x41]"
      "\<lparr>video_mem = 0xB8000, terminal_row = 0, terminal_col = 79\<rparr>"]
  by (auto simp: terminal_writechar_plain advance_def)

text \<open>
  In the first column of a row a backspace does not go back: it erases the last cell of
  the row above, which moves the cursor down again, and the second decrement leaves the
  column at 65535, far outside the screen.
\<close>

theorem terminal_backspace_wraps:
  assumes "terminal_col t = 0" and "terminal_row t \<noteq> 0"
  shows "terminal_backspace (t, m) = (t\<lparr>terminal_col := 65535\<rparr>,
     store16 m (cursor_cell (t\<lparr>terminal_row := terminal_row t - 1, terminal_col := 79\<rparr>))
       (terminal_make_char 0x20 15))"
  using assms by (simp add: terminal_backspace_eq step_back_def advance_def Let_def)

theorem terminal_backspace_wraps_witness:
  "terminal_col (fst (terminal_backspace (\<lparr>video_mem = 0xB8000, terminal_row = 3, terminal_col = 0\<rparr>, \<lambda>_. 0))) = 65535"
  by (subst terminal_backspace_wraps) simp_all

end
