(* ===== verification/Heap.thy ===== *)
theory Heap
  imports Memory
begin

text \<open>
  \<open>phix/src/memory/heap/heap.c\<close>: the block allocator. A heap is a pool of 4096 byte
  blocks from \<open>saddr\<close> and a table of one byte per block, both in the byte-addressed
  memory. The indices of a \<open>for\<close> loop that breaks or continues are listed
  (\<open>[0..<total]\<close>) and the loop is a recursion over that list.
\<close>

section \<open>The code\<close>

definition HEAP_BLOCK_TABLE_ENTRY_FREE :: u8 where
  [config_defs]: "HEAP_BLOCK_TABLE_ENTRY_FREE = 0x00"
definition HEAP_BLOCK_TABLE_ENTRY_TAKEN :: u8 where
  [config_defs]: "HEAP_BLOCK_TABLE_ENTRY_TAKEN = 0x01"
definition HEAP_BLOCK_HAS_NEXT :: i32 where [config_defs]: "HEAP_BLOCK_HAS_NEXT = push_bit 8 1"
definition HEAP_BLOCK_IS_FIRST :: i32 where [config_defs]: "HEAP_BLOCK_IS_FIRST = push_bit 7 1"

definition HEAP_TYPE :: "u8 \<Rightarrow> u8" where
  "HEAP_TYPE x = x AND 0x0f"

definition ALIGN_BLOCK :: "u32 \<Rightarrow> u32" where
  "ALIGN_BLOCK x = ALIGN x PHIX_HEAP_BLOCK_SIZE"

record heap_table =
  entries :: addr
  total :: u32

record heap =
  table :: heap_table
  saddr :: addr

definition heap_validate_table :: "addr \<Rightarrow> addr \<Rightarrow> heap_table \<Rightarrow> i32" where
  "heap_validate_table p end_p tbl =
     (let table_size = end_p - p;
          total_blocks = table_size div PHIX_HEAP_BLOCK_SIZE
      in if total tbl \<noteq> total_blocks then - EINVAL else 0)"

definition heap_validate_alignment :: "addr \<Rightarrow> bool" where
  "heap_validate_alignment p = (p mod PHIX_HEAP_BLOCK_SIZE = 0)"

fun heap_get_start_loop :: "mem \<Rightarrow> addr \<Rightarrow> u32 \<Rightarrow> u32 \<Rightarrow> i32 \<Rightarrow> nat list \<Rightarrow> i32" where
  "heap_get_start_loop m ents total_blocks bc bs [] = bs"
| "heap_get_start_loop m ents total_blocks bc bs (i # is) =
     (if HEAP_TYPE (m (ents + of_nat i)) \<noteq> HEAP_BLOCK_TABLE_ENTRY_FREE
      then heap_get_start_loop m ents total_blocks 0 (- 1) is
      else let bs = (if bs = - 1 then of_nat i else bs); bc = bc + 1
           in if bc = total_blocks then bs
              else heap_get_start_loop m ents total_blocks bc bs is)"

definition heap_get_start_block :: "heap \<Rightarrow> mem \<Rightarrow> u32 \<Rightarrow> i32" where
  "heap_get_start_block h m total_blocks =
     (let bs = heap_get_start_loop m (entries (table h)) total_blocks 0 (- 1)
                 [0..<unat (total (table h))]
      in if bs = - 1 then - ENOMEM else bs)"

definition heap_block_to_address :: "heap \<Rightarrow> u32 \<Rightarrow> addr" where
  "heap_block_to_address h block = saddr h + block * PHIX_HEAP_BLOCK_SIZE"

definition heap_address_to_block :: "heap \<Rightarrow> addr \<Rightarrow> i32" where
  "heap_address_to_block h p = int_div (p - saddr h) PHIX_HEAP_BLOCK_SIZE"

text \<open>\<open>entry |= k\<close> computes in \<open>int\<close> and stores the low byte of the result.\<close>

definition or_assign :: "u8 \<Rightarrow> i32 \<Rightarrow> u8" where
  "or_assign entry k = ucast ((ucast entry :: i32) OR k)"

definition heap_mark_blocks_taken :: "heap \<Rightarrow> mem \<Rightarrow> u32 \<Rightarrow> u32 \<Rightarrow> mem" where
  "heap_mark_blocks_taken h m start total_blocks =
     (let end_block = (start + total_blocks) - 1;
          entry = or_assign HEAP_BLOCK_TABLE_ENTRY_TAKEN HEAP_BLOCK_IS_FIRST;
          entry = (if 1 < total_blocks then or_assign entry HEAP_BLOCK_HAS_NEXT else entry)
      in snd (for_up (nat (sint end_block - sint start + 1))
           (\<lambda>j (entry, m).
              let i = start + of_nat j;
                  m = m(entries (table h) + i := entry);
                  entry = HEAP_BLOCK_TABLE_ENTRY_TAKEN;
                  entry = (if i \<noteq> end_block - 1 then or_assign entry HEAP_BLOCK_HAS_NEXT
                           else entry)
              in (entry, m))
           (entry, m)))"

fun heap_mark_free_loop :: "mem \<Rightarrow> addr \<Rightarrow> nat list \<Rightarrow> mem" where
  "heap_mark_free_loop m ents [] = m"
| "heap_mark_free_loop m ents (i # is) =
     (let entry = m (ents + of_nat i);
          m = m(ents + of_nat i := HEAP_BLOCK_TABLE_ENTRY_FREE)
      in if (ucast entry :: i32) AND HEAP_BLOCK_HAS_NEXT = 0 then m
         else heap_mark_free_loop m ents is)"

definition heap_mark_blocks_free :: "heap \<Rightarrow> mem \<Rightarrow> u32 \<Rightarrow> mem" where
  "heap_mark_blocks_free h m start =
     heap_mark_free_loop m (entries (table h)) [unat start..<unat (total (table h))]"

text \<open>
  \<open>heap_create\<close> fills the caller's \<open>struct heap\<close>: the result is the status, the heap it
  leaves in \<open>*heap\<close> and the memory. On misaligned bounds \<open>*heap\<close> is not written.
\<close>

definition heap_create ::
    "heap \<Rightarrow> addr \<Rightarrow> addr \<Rightarrow> heap_table \<Rightarrow> mem \<Rightarrow> i32 \<times> heap \<times> mem" where
  "heap_create h p end_p tbl m =
     (if \<not> heap_validate_alignment p \<or> \<not> heap_validate_alignment end_p then (- EINVAL, h, m)
      else let h = \<lparr>table = tbl, saddr = p\<rparr>;
               ret = heap_validate_table p end_p tbl
           in if ret \<noteq> 0 then (ret, h, m)
              else (0, h, memset m (entries tbl) (ucast HEAP_BLOCK_TABLE_ENTRY_FREE) (total tbl)))"

definition heap_malloc_blocks :: "heap \<Rightarrow> u32 \<Rightarrow> mem \<Rightarrow> addr \<times> mem" where
  "heap_malloc_blocks h total_blocks m =
     (let start_block = heap_get_start_block h m total_blocks
      in if sint start_block < 0 then (0, m)
         else (heap_block_to_address h start_block,
               heap_mark_blocks_taken h m start_block total_blocks))"

definition heap_malloc :: "heap \<Rightarrow> u32 \<Rightarrow> mem \<Rightarrow> addr \<times> mem" where
  "heap_malloc h sz m =
     (let aligned = ALIGN_BLOCK sz
      in heap_malloc_blocks h (int_div aligned PHIX_HEAP_BLOCK_SIZE) m)"

definition heap_free :: "heap \<Rightarrow> addr \<Rightarrow> mem \<Rightarrow> mem" where
  "heap_free h p m =
     (if p = 0 then m else heap_mark_blocks_free h m (heap_address_to_block h p))"

section \<open>The table as a list of block states\<close>

definition blocks :: "heap \<Rightarrow> mem \<Rightarrow> u8 list" where
  "blocks h m = map (\<lambda>i. m (entries (table h) + of_nat i)) [0..<unat (total (table h))]"

definition block_free :: "u8 \<Rightarrow> bool" where
  "block_free b = (b AND 0x0f = 0)"

text \<open>\<open>fits t n s\<close>: the \<open>n\<close> blocks from block \<open>s\<close> are in the table and free.\<close>

definition fits :: "u8 list \<Rightarrow> nat \<Rightarrow> nat \<Rightarrow> bool" where
  "fits t n s = (s + n \<le> length t \<and> (\<forall>k < n. block_free (t ! (s + k))))"

text \<open>The length of the run of free blocks that the table ends with.\<close>

definition trailing :: "u8 list \<Rightarrow> nat" where
  "trailing t = length (takeWhile block_free (rev t))"

section \<open>Finding a run of free blocks\<close>

lemma length_blocks [simp]: "length (blocks h m) = unat (total (table h))"
  by (simp add: blocks_def)

lemma nth_blocks [simp]:
  "i < unat (total (table h)) \<Longrightarrow> blocks h m ! i = m (entries (table h) + of_nat i)"
  by (simp add: blocks_def)

lemma block_free_0 [simp]: "block_free 0"
  by (simp add: block_free_def)

text \<open>
  The loop holds the start of the current run in \<open>bs\<close> (\<open>-1\<close> where there is none) and
  its length in \<open>bc\<close>. With \<open>b\<close> the first block that a run still to be found can start
  at, \<open>bc\<close> is \<open>i - b\<close>. The request is \<open>n\<close> blocks; a request of \<open>0\<close> never matches the
  count, as one of \<open>2 ^ 32\<close> would.
\<close>

definition run_bs :: "nat \<Rightarrow> nat \<Rightarrow> i32" where
  "run_bs b i = (if b = i then - 1 else of_nat b)"

definition run_inv :: "u8 list \<Rightarrow> nat \<Rightarrow> nat \<Rightarrow> nat \<Rightarrow> bool" where
  "run_inv t n b i = (b \<le> i \<and> i \<le> length t \<and> i - b < n \<and>
     (\<forall>k. b \<le> k \<and> k < i \<longrightarrow> block_free (t ! k)) \<and>
     (b = 0 \<or> \<not> block_free (t ! (b - 1))) \<and> (\<forall>s. fits t n s \<longrightarrow> b \<le> s))"

lemma of_nat_neq_minus_1:
  assumes "i < 2147483648"
  shows "of_nat i \<noteq> (- 1 :: i32)"
proof
  assume "of_nat i = (- 1 :: i32)"
  then have "unat (of_nat i :: i32) = 4294967295" by (simp only: unat_minus_1)
  with assms show False by (simp add: unat_of_nat32)
qed

lemma run_inv_taken:
  assumes "run_inv t n b i" and "i < length t" and "\<not> block_free (t ! i)" and "0 < n"
  shows "run_inv t n (Suc i) (Suc i)"
proof -
  have "Suc i \<le> s" if "fits t n s" for s
  proof (rule ccontr)
    assume "\<not> Suc i \<le> s"
    moreover have "b \<le> s" "i - b < n" using assms(1) that by (simp_all add: run_inv_def)
    ultimately have "s \<le> i" "i < s + n" by linarith+
    then have "i - s < n" by linarith
    with that have "block_free (t ! (s + (i - s)))" unfolding fits_def by blast
    with \<open>s \<le> i\<close> assms(3) show False by simp
  qed
  with assms show ?thesis by (simp add: run_inv_def)
qed

lemma run_inv_free:
  assumes "run_inv t n b i" and "i < length t" and "block_free (t ! i)" and "Suc i - b < n"
  shows "run_inv t n b (Suc i)"
  using assms by (auto simp: run_inv_def less_Suc_eq)

lemma run_inv_found:
  assumes "run_inv t n b i" and "i < length t" and "block_free (t ! i)" and "Suc i - b = n"
  shows "fits t n b" and "fits t n s \<Longrightarrow> b \<le> s"
proof -
  have inv: "b \<le> i" "\<And>k. b \<le> k \<Longrightarrow> k < i \<Longrightarrow> block_free (t ! k)"
    using assms(1) by (auto simp: run_inv_def)
  have "block_free (t ! (b + k))" if "k < n" for k
  proof (cases "b + k = i")
    case True
    then show ?thesis using assms(3) by simp
  next
    case False
    with that assms(4) inv(1) have "b + k < i" by linarith
    then show ?thesis using inv(2) by simp
  qed
  moreover have "b + n \<le> length t" using assms(2,4) inv(1) by linarith
  ultimately show "fits t n b" by (simp add: fits_def)
  show "fits t n s \<Longrightarrow> b \<le> s" using assms(1) by (simp add: run_inv_def)
qed

lemma run_inv_end:
  assumes "run_inv t n b (length t)"
  shows "\<not> fits t n s" and "length t - b = trailing t"
proof -
  show "\<not> fits t n s" using assms by (auto simp: run_inv_def fits_def)
  have suffix: "\<forall>x \<in> set (drop b t). block_free x"
    using assms by (auto simp: run_inv_def in_set_conv_nth)
  have "rev t = rev (drop b t) @ rev (take b t)"
    by (metis append_take_drop_id rev_append)
  moreover have "takeWhile block_free (rev (take b t)) = []"
  proof (cases b)
    case (Suc c)
    then have "c < length t" "\<not> block_free (t ! c)" using assms by (auto simp: run_inv_def)
    then show ?thesis using Suc by (simp add: take_Suc_conv_app_nth)
  qed simp
  ultimately have "takeWhile block_free (rev t) = rev (drop b t)"
    using suffix by (simp add: takeWhile_append)
  then show "length t - b = trailing t" by (simp add: trailing_def)
qed

lemma heap_get_start_loop_step:
  assumes "HEAP_TYPE (m (ents + of_nat i)) = HEAP_BLOCK_TABLE_ENTRY_FREE"
    and "(if bs = - 1 then of_nat i else bs) = bs'" and "bc + 1 = bc'" and "bc' \<noteq> n"
  shows "heap_get_start_loop m ents n bc bs (i # is) = heap_get_start_loop m ents n bc' bs' is"
  using assms by (simp add: Let_def)

lemma heap_get_start_loop_spec:
  assumes inv: "run_inv (blocks h m) n b i" and n: "n \<le> 2 ^ 32"
    and small: "unat (total (table h)) < 2147483648"
  defines "r \<equiv> heap_get_start_loop m (entries (table h)) (of_nat n) (of_nat (i - b)) (run_bs b i)
                 [i..<unat (total (table h))]"
  shows "(\<exists>s. fits (blocks h m) n s \<and> (\<forall>s'. fits (blocks h m) n s' \<longrightarrow> s \<le> s') \<and> r = of_nat s) \<or>
     (\<forall>s. \<not> fits (blocks h m) n s) \<and>
     r = run_bs (length (blocks h m) - trailing (blocks h m)) (length (blocks h m))"
  using inv unfolding r_def
proof (induction "unat (total (table h)) - i" arbitrary: b i)
  case 0
  let ?t = "blocks h m"
  from 0 have i: "i = length ?t" by (simp add: run_inv_def)
  with 0 run_inv_end [of ?t n b] have "\<forall>s. \<not> fits ?t n s" and tr: "length ?t - b = trailing ?t"
    by auto
  moreover have "b \<le> i" using 0 by (simp add: run_inv_def)
  then have "b = length ?t - trailing ?t" using tr i by linarith
  ultimately show ?case using i by simp
next
  case (Suc d)
  let ?t = "blocks h m" and ?N = "unat (total (table h))"
  from Suc have i: "i < ?N" by simp
  then have list: "[i..<?N] = i # [Suc i..<?N]" by (rule upt_conv_Cons)
  have d: "d = ?N - Suc i" using Suc.hyps(2) by simp
  have b: "b \<le> i" "i - b < n" using Suc.prems by (simp_all add: run_inv_def)
  have byte: "HEAP_TYPE (m (entries (table h) + of_nat i)) = 0 \<longleftrightarrow> block_free (?t ! i)"
    using i by (simp add: HEAP_TYPE_def block_free_def)
  show ?case
  proof (cases "block_free (?t ! i)")
    case False
    have "run_inv ?t n (Suc i) (Suc i)"
      using run_inv_taken [OF Suc.prems] i False b by simp
    from Suc.hyps(1) [OF d this] show ?thesis
      using False by (simp add: list byte run_bs_def HEAP_BLOCK_TABLE_ENTRY_FREE_def)
  next
    case True
    let ?bs = "of_nat b :: i32"
    have bs: "(if run_bs b i = - 1 then of_nat i else run_bs b i) = ?bs"
      using of_nat_neq_minus_1 [of b] small i b by (auto simp: run_bs_def)
    have cnt: "(of_nat (i - b) + 1 = (of_nat n :: u32)) = (Suc i - b = n)"
    proof -
      have lt: "Suc i - b < 2 ^ 32" using i small by simp
      have "of_nat (i - b) + 1 = (of_nat (Suc i - b) :: u32)" using b by (simp add: Suc_diff_le)
      moreover have "(of_nat (Suc i - b) = (of_nat n :: u32)) = (Suc i - b = n)"
      proof (cases "n = 2 ^ 32")
        case True
        have "of_nat (Suc i - b) \<noteq> (0 :: u32)"
        proof
          assume "of_nat (Suc i - b) = (0 :: u32)"
          then have "Suc i - b = 0" using lt word_of_nat_inj [of "Suc i - b" 0] by simp
          with b show False by simp
        qed
        moreover have "(of_nat n :: u32) = 0" using True by simp
        ultimately show ?thesis using True lt by auto
      next
        case False
        with n lt show ?thesis by (intro word_of_nat_inj) simp_all
      qed
      ultimately show ?thesis by simp
    qed
    show ?thesis
    proof (cases "Suc i - b = n")
      case found: True
      have "fits ?t n b" "\<forall>s'. fits ?t n s' \<longrightarrow> b \<le> s'"
        using run_inv_found [OF Suc.prems _ True found] i by auto
      moreover have "heap_get_start_loop m (entries (table h)) (of_nat n) (of_nat (i - b))
          (run_bs b i) [i..<?N] = ?bs"
        using True found by (simp add: list byte bs cnt HEAP_BLOCK_TABLE_ENTRY_FREE_def Let_def)
      ultimately show ?thesis by blast
    next
      case more: False
      with b have "Suc i - b < n" by linarith
      from run_inv_free [OF Suc.prems _ True this] i have "run_inv ?t n b (Suc i)" by simp
      note IH = Suc.hyps(1) [OF d this]
      have "heap_get_start_loop m (entries (table h)) (of_nat n) (of_nat (i - b))
          (run_bs b i) [i..<?N] = heap_get_start_loop m (entries (table h)) (of_nat n)
          (of_nat (Suc i - b)) (run_bs b (Suc i)) [Suc i..<?N]"
        unfolding list
      proof (rule heap_get_start_loop_step)
        show "HEAP_TYPE (m (entries (table h) + of_nat i)) = HEAP_BLOCK_TABLE_ENTRY_FREE"
          using byte True by (simp add: HEAP_BLOCK_TABLE_ENTRY_FREE_def)
        show "(if run_bs b i = - 1 then of_nat i else run_bs b i) = run_bs b (Suc i)"
          using bs b by (simp add: run_bs_def)
        show "of_nat (i - b) + 1 = (of_nat (Suc i - b) :: u32)" using b by (simp add: Suc_diff_le)
        then show "of_nat (Suc i - b) \<noteq> (of_nat n :: u32)" using cnt more by simp
      qed
      with IH show ?thesis by simp
    qed
  qed
qed

section \<open>First fit\<close>

text \<open>The allocator searches with a count of \<open>0\<close> as if it were \<open>2 ^ 32\<close>.\<close>

definition block_count :: "u32 \<Rightarrow> nat" where
  "block_count w = (if w = 0 then 2 ^ 32 else unat w)"

text \<open>The abstract search: the first block where \<open>n\<close> free blocks begin.\<close>

definition first_fit :: "u8 list \<Rightarrow> nat \<Rightarrow> nat option" where
  "first_fit t n = List.find (fits t n) [0..<Suc (length t)]"

lemma first_fit_None: "first_fit t n = None \<longleftrightarrow> (\<forall>s. \<not> fits t n s)"
  unfolding first_fit_def find_None_iff by (auto simp: fits_def)

lemma first_fit_eq_Some:
  assumes "fits t n s" and "\<And>s'. fits t n s' \<Longrightarrow> s \<le> s'"
  shows "first_fit t n = Some s"
proof -
  have "s < Suc (length t)" using assms(1) by (simp add: fits_def)
  moreover have "\<not> fits t n ([0..<Suc (length t)] ! j)" if "j < s" for j
  proof
    assume "fits t n ([0..<Suc (length t)] ! j)"
    then have "fits t n j" using that \<open>s < Suc (length t)\<close> by (simp del: upt_Suc)
    from assms(2) [OF this] that show False by simp
  qed
  ultimately show ?thesis unfolding first_fit_def find_Some_iff
    using assms(1) by (intro exI [of _ s]) (simp del: upt_Suc)
qed

lemma first_fit_fits: "first_fit t n = Some s \<Longrightarrow> fits t n s"
  by (auto simp: first_fit_def find_Some_iff)

text \<open>
  The block that \<open>heap_get_start_block\<close> returns: first fit where some run is long enough;
  where none is, the start of the trailing run of free blocks all the same, and
  \<open>-ENOMEM\<close> only where the last block is taken.
\<close>

lemma heap_get_start_block_eq:
  assumes small: "unat (total (table h)) < 2147483648"
  shows "heap_get_start_block h m w =
    (case first_fit (blocks h m) (block_count w) of
       Some s \<Rightarrow> of_nat s
     | None \<Rightarrow> if trailing (blocks h m) = 0 then - ENOMEM
               else of_nat (length (blocks h m) - trailing (blocks h m)))"
proof -
  let ?t = "blocks h m" and ?n = "block_count w"
  define r where "r = heap_get_start_loop m (entries (table h)) w 0 (- 1)
                        [0..<unat (total (table h))]"
  have n: "?n \<le> 2 ^ 32" "0 < ?n"
    using unat32_lt [of w] by (auto simp: block_count_def unat_gt_0)
  have w: "of_nat ?n = w" by (simp add: block_count_def)
  have "run_inv ?t ?n 0 0" using n by (simp add: run_inv_def)
  note loop = heap_get_start_loop_spec [OF this n(1) small]
  have "(\<exists>s. fits ?t ?n s \<and> (\<forall>s'. fits ?t ?n s' \<longrightarrow> s \<le> s') \<and> r = of_nat s) \<or>
     (\<forall>s. \<not> fits ?t ?n s) \<and> r = run_bs (length ?t - trailing ?t) (length ?t)"
    using loop by (simp add: w r_def run_bs_def)
  moreover have res: "heap_get_start_block h m w = (if r = - 1 then - ENOMEM else r)"
    by (simp add: heap_get_start_block_def r_def Let_def)
  ultimately consider
    (fit) s where "fits ?t ?n s" "\<And>s'. fits ?t ?n s' \<Longrightarrow> s \<le> s'" "r = of_nat s"
  | (none) "\<forall>s. \<not> fits ?t ?n s" "r = run_bs (length ?t - trailing ?t) (length ?t)" by blast
  then show ?thesis
  proof cases
    case fit
    then have "s < 2147483648" using small by (auto simp: fits_def)
    from of_nat_neq_minus_1 [OF this] fit first_fit_eq_Some [OF fit(1,2)] show ?thesis
      by (simp add: res)
  next
    case none
    have "trailing ?t \<le> length ?t"
      unfolding trailing_def by (metis length_rev length_takeWhile_le)
    moreover have "of_nat (length ?t - trailing ?t) \<noteq> (- 1 :: i32)"
      using small by (intro of_nat_neq_minus_1) simp
    moreover have "first_fit ?t ?n = None" using none(1) by (simp add: first_fit_None)
    ultimately show ?thesis unfolding res none(2) run_bs_def by auto
  qed
qed

section \<open>Marking blocks\<close>

text \<open>
  \<open>HEAP_BLOCK_HAS_NEXT\<close> is bit 8 of an 8 bit entry: setting it changes nothing, and
  testing it never succeeds.
\<close>

lemma bit_has_next: "bit HEAP_BLOCK_HAS_NEXT n \<longleftrightarrow> n = 8"
  unfolding HEAP_BLOCK_HAS_NEXT_def by (simp only: bit_push_bit_iff bit_1_iff) auto

lemma or_has_next [simp]: "or_assign e HEAP_BLOCK_HAS_NEXT = e"
  unfolding or_assign_def by (rule bit_word_eqI) (auto simp: bit_simps bit_has_next)

lemma and_has_next [simp]: "(ucast (e :: u8) :: i32) AND HEAP_BLOCK_HAS_NEXT = 0"
  by (rule bit_word_eqI) (auto simp: bit_simps bit_has_next dest: bit_imp_le_length)

lemma first_entry: "or_assign HEAP_BLOCK_TABLE_ENTRY_TAKEN HEAP_BLOCK_IS_FIRST = 0x81"
  by (simp add: or_assign_def config_defs)

lemma heap_mark_blocks_free_eq:
  "heap_mark_blocks_free h m start =
     (if start < total (table h) then m(entries (table h) + start := 0) else m)"
proof (cases "start < total (table h)")
  case True
  then have "unat start < unat (total (table h))" by (simp add: word_less_nat_alt)
  then have "[unat start..<unat (total (table h))]
      = unat start # [Suc (unat start)..<unat (total (table h))]" by (rule upt_conv_Cons)
  with True show ?thesis
    by (simp add: heap_mark_blocks_free_def HEAP_BLOCK_TABLE_ENTRY_FREE_def)
next
  case False
  then have "[unat start..<unat (total (table h))] = []" by (simp add: word_less_nat_alt)
  then show ?thesis unfolding heap_mark_blocks_free_def using False by (simp only: heap_mark_free_loop.simps if_False)
qed

definition mark_mem :: "heap \<Rightarrow> nat \<Rightarrow> nat \<Rightarrow> mem \<Rightarrow> mem" where
  "mark_mem h s n m = (\<lambda>a. let k = unat (a - (entries (table h) + of_nat s))
     in if k = 0 then 0x81 else if k < n then 0x01 else m a)"

text \<open>
  Taking \<open>n\<close> blocks from \<open>s\<close> writes \<open>n\<close> entries: \<open>0x81\<close> for the first, \<open>0x01\<close> for
  the others, wherever they lie.
\<close>

lemma heap_mark_blocks_taken_eq:
  assumes "0 < n" and "s + n \<le> 2147483648"
  shows "heap_mark_blocks_taken h m (of_nat s) (of_nat n) = mark_mem h s n m"
proof -
  let ?base = "entries (table h) + of_nat s :: addr"
  let ?last = "of_nat s + of_nat n - 1 :: u32"
  let ?body = "\<lambda>j (entry, m).
     (if of_nat s + of_nat j \<noteq> ?last - 1 then or_assign HEAP_BLOCK_TABLE_ENTRY_TAKEN HEAP_BLOCK_HAS_NEXT
      else HEAP_BLOCK_TABLE_ENTRY_TAKEN,
      m(entries (table h) + (of_nat s + of_nat j) := entry)) :: u8 \<times> mem"
  let ?P = "\<lambda>j (e :: u8, t). e = (if j = 0 then 0x81 else 0x01) \<and>
     t = (\<lambda>a. if unat (a - ?base) < j then (if unat (a - ?base) = 0 then 0x81 else 0x01) else m a)"
  have en: "?last = of_nat (s + n - 1)" using assms(1) by (cases n) simp_all
  have iter: "nat (sint ?last - sint (of_nat s :: i32) + 1) = n"
  proof -
    have "sint ?last = int (s + n - 1)" unfolding en using assms by (intro sint_of_nat) simp
    moreover have "sint (of_nat s :: i32) = int s" using assms by (intro sint_of_nat) simp
    ultimately show ?thesis using assms(1) by linarith
  qed
  have "?P n (for_up n ?body (0x81, m))"
  proof (rule for_up_inv [where P = ?P])
    show "?P 0 (0x81, m)" by simp
  next
    fix j t assume j: "j < n" and P: "?P j t"
    obtain e u where t: "t = (e, u)" by (cases t)
    have "j < 2 ^ 32" using j assms by simp
    then have off: "(a = entries (table h) + (of_nat s + of_nat j)) = (unat (a - ?base) = j)" for a
      unfolding add.assoc [symmetric] by (rule offset_eq_iff)
    show "?P (Suc j) (?body j t)"
      using P by (auto simp: t off less_Suc_eq HEAP_BLOCK_TABLE_ENTRY_TAKEN_def fun_eq_iff)
  qed
  then have "snd (for_up n ?body (0x81, m)) = (\<lambda>a. if unat (a - ?base) < n
      then (if unat (a - ?base) = 0 then 0x81 else 0x01) else m a)"
    by (cases "for_up n ?body (0x81, m)") simp
  moreover have "heap_mark_blocks_taken h m (of_nat s) (of_nat n)
      = snd (for_up n ?body (0x81, m))"
    unfolding heap_mark_blocks_taken_def Let_def iter by (simp add: first_entry)
  ultimately show ?thesis using assms(1) by (auto simp: mark_mem_def Let_def fun_eq_iff)
qed

text \<open>A count that is not positive as an \<open>int\<close> marks nothing.\<close>

lemma heap_mark_blocks_taken_none:
  assumes "s < 1073741824" and "- 1073741824 \<le> sint w" and "sint w \<le> 0"
  shows "heap_mark_blocks_taken h m (of_nat s) w = m"
proof -
  have "sint (of_nat s + w - 1 :: i32) = int s + sint w - 1"
  proof -
    have "(of_nat s + w - 1 :: i32) = word_of_int (int s + sint w - 1)" by simp
    then have "sint (of_nat s + w - 1 :: i32)
        = (int s + sint w - 1 + 2147483648) mod 4294967296 - 2147483648"
      by (simp only: int_word_sint) simp
    also have "(int s + sint w - 1 + 2147483648) mod 4294967296 = int s + sint w - 1 + 2147483648"
      using assms by (intro mod_pos_pos_trivial) linarith+
    finally show ?thesis by simp
  qed
  moreover have "sint (of_nat s :: i32) = int s" using assms(1) by (simp add: sint_of_nat)
  ultimately have "nat (sint (of_nat s + w - 1 :: i32) - sint (of_nat s :: i32) + 1) = 0"
    using assms by simp
  then show ?thesis by (simp add: heap_mark_blocks_taken_def Let_def)
qed

section \<open>Allocating and freeing\<close>

text \<open>
  The specification of the allocator, on the list of block states: an allocation of \<open>n\<close>
  blocks takes the first run that is long enough.
\<close>

definition mark_run :: "u8 list \<Rightarrow> nat \<Rightarrow> nat \<Rightarrow> u8 list" where
  "mark_run t s n = map (\<lambda>i. if i = s then 0x81 else if s < i \<and> i < s + n then 0x01 else t ! i)
                        [0..<length t]"

definition spec_malloc :: "u8 list \<Rightarrow> nat \<Rightarrow> (nat \<times> u8 list) option" where
  "spec_malloc t n = map_option (\<lambda>s. (s, mark_run t s n)) (first_fit t n)"

definition blocks_for :: "u32 \<Rightarrow> nat" where
  "blocks_for sz = (unat sz + 4095) div 4096"

text \<open>
  A heap in order: a pool of whole blocks below 2 GB in size that neither starts at
  address 0 nor wraps around the address space.
\<close>

definition heap_ok :: "heap \<Rightarrow> bool" where
  "heap_ok h = (unat (total (table h)) < 524288 \<and> saddr h mod 4096 = 0 \<and> saddr h \<noteq> 0 \<and>
     unat (saddr h) + unat (total (table h)) * 4096 \<le> 4294967296)"

definition block_addr :: "heap \<Rightarrow> nat \<Rightarrow> addr" where
  "block_addr h s = saddr h + of_nat s * 4096"

definition in_table :: "heap \<Rightarrow> addr \<Rightarrow> bool" where
  "in_table h a = (a - entries (table h) < total (table h))"

lemma blocks_for_bounds: "0 < unat sz \<Longrightarrow> 0 < blocks_for sz"
  by (simp add: blocks_for_def div_greater_zero_iff)

lemma malloc_count:
  assumes "unat sz \<le> 2147479552"
  shows "int_div (ALIGN_BLOCK sz) PHIX_HEAP_BLOCK_SIZE = of_nat (blocks_for sz)"
proof -
  have mask: "PHIX_HEAP_BLOCK_SIZE - 1 = (4095 :: u32)" by (simp add: config_defs)
  have "unat (sz + 4095) = unat sz + 4095" using assms by (simp add: unat_word_ariths)
  moreover have "ALIGN_BLOCK sz = (sz + 4095) - (sz + 4095) mod 4096"
    unfolding ALIGN_BLOCK_def ALIGN_def mask by (rule and_not_4095)
  ultimately have u: "unat (ALIGN_BLOCK sz) = 4096 * blocks_for sz"
    by (simp only: unat_round_down) (simp add: blocks_for_def minus_mod_eq_mult_div)
  have "4096 * blocks_for sz < 2147483648" using assms by (simp add: blocks_for_def)
  then have "int_div (ALIGN_BLOCK sz) PHIX_HEAP_BLOCK_SIZE
      = of_nat (4096 * blocks_for sz div unat (PHIX_HEAP_BLOCK_SIZE :: u32))"
    using int_div_nonneg [of "ALIGN_BLOCK sz" PHIX_HEAP_BLOCK_SIZE] u by (simp add: config_defs)
  then show ?thesis by (simp add: config_defs)
qed

lemma blocks_for_small: "unat sz \<le> 2147479552 \<Longrightarrow> blocks_for sz < 524288"
  by (simp add: blocks_for_def)

lemma block_count_blocks_for:
  assumes "0 < unat sz" and "unat sz \<le> 2147479552"
  shows "block_count (of_nat (blocks_for sz)) = blocks_for sz"
proof -
  have u: "unat (of_nat (blocks_for sz) :: u32) = blocks_for sz"
    using blocks_for_small [OF assms(2)] by (intro unat_of_nat32) simp
  moreover have "0 < blocks_for sz" using assms(1) by (rule blocks_for_bounds)
  ultimately have "of_nat (blocks_for sz) \<noteq> (0 :: u32)" by (metis unat_0 less_irrefl)
  with u show ?thesis by (simp add: block_count_def)
qed

lemma blocks_mark:
  assumes small: "unat (total (table h)) < 2147483648"
    and s: "s < unat (total (table h))" and n: "0 < n" "n \<le> 2147483648"
  shows "blocks h (mark_mem h s n m) = mark_run (blocks h m) s n"
proof (rule nth_equalityI)
  show "length (blocks h (mark_mem h s n m)) = length (mark_run (blocks h m) s n)"
    by (simp add: mark_run_def)
next
  fix i assume "i < length (blocks h (mark_mem h s n m))"
  then have i: "i < unat (total (table h))" by simp
  have k: "unat (of_nat i - of_nat s :: u32) = (if s \<le> i then i - s else i + 4294967296 - s)"
  proof (cases "s \<le> i")
    case True
    then have "(of_nat i - of_nat s :: u32) = of_nat (i - s)" by (simp add: of_nat_diff)
    moreover have "unat (of_nat (i - s) :: u32) = i - s" using i small by (intro unat_of_nat32) simp
    ultimately show ?thesis using True by simp
  next
    case False
    then have "(of_nat i - of_nat s :: u32) = of_nat (i + 4294967296 - s)"
      using s small by (simp add: of_nat_diff)
    moreover have "unat (of_nat (i + 4294967296 - s) :: u32) = i + 4294967296 - s"
      using False by (intro unat_of_nat32) simp
    ultimately show ?thesis using False by simp
  qed
  have "blocks h (mark_mem h s n m) ! i
      = (let k = unat (of_nat i - of_nat s :: u32) in if k = 0 then 0x81 else if k < n then 0x01
         else m (entries (table h) + of_nat i))"
    using i by (simp add: mark_mem_def)
  also have "\<dots> = mark_run (blocks h m) s n ! i"
    using i s small n unfolding k by (auto simp: mark_run_def Let_def)
  finally show "blocks h (mark_mem h s n m) ! i = mark_run (blocks h m) s n ! i" .
qed

lemma mark_mem_out:
  assumes "s + n \<le> unat (total (table h))" and "0 < n" and "\<not> in_table h a"
  shows "mark_mem h s n m a = m a"
proof -
  have "n \<le> unat (a - (entries (table h) + of_nat s))"
  proof (rule ccontr)
    assume lt: "\<not> n \<le> unat (a - (entries (table h) + of_nat s))"
    let ?k = "unat (a - (entries (table h) + of_nat s))"
    have "?k + s < 2 ^ 32" using lt assms(1) unat32_lt [of "total (table h)"] by simp
    then have "unat (of_nat (?k + s) :: u32) = ?k + s" by (rule unat_of_nat32)
    moreover have "a - entries (table h) = of_nat (?k + s)" by simp
    ultimately have "unat (a - entries (table h)) = ?k + s" by metis
    with lt assms(1,3) show False by (simp add: in_table_def word_less_nat_alt)
  qed
  with assms(2) have "unat (a - (entries (table h) + of_nat s)) \<noteq> 0"
    and "\<not> unat (a - (entries (table h) + of_nat s)) < n" by linarith+
  then show ?thesis unfolding mark_mem_def Let_def by (simp only: if_False)
qed

lemma heap_malloc_eq:
  assumes "unat sz \<le> 2147479552"
  shows "heap_malloc h sz m =
    (let b = heap_get_start_block h m (of_nat (blocks_for sz))
     in if sint b < 0 then (0, m)
        else (heap_block_to_address h b, heap_mark_blocks_taken h m b (of_nat (blocks_for sz))))"
  unfolding heap_malloc_def heap_malloc_blocks_def Let_def malloc_count [OF assms] ..

text \<open>The three ways an allocation of at least one byte ends.\<close>

lemma heap_malloc_fit:
  assumes "heap_ok h" and "0 < unat sz" and "unat sz \<le> 2147479552"
    and "first_fit (blocks h m) (blocks_for sz) = Some s"
  shows "heap_malloc h sz m = (block_addr h s, mark_mem h s (blocks_for sz) m)"
proof -
  have ok: "unat (total (table h)) < 524288" using assms(1) by (simp add: heap_ok_def)
  have n: "0 < blocks_for sz" "blocks_for sz < 524288"
    using assms(2,3) by (simp_all add: blocks_for_bounds blocks_for_small)
  have s: "s + blocks_for sz \<le> unat (total (table h))"
    using first_fit_fits [OF assms(4)] by (simp add: fits_def)
  have "heap_get_start_block h m (of_nat (blocks_for sz)) = of_nat s"
    using heap_get_start_block_eq [of h m] assms(4) ok
    by (simp add: block_count_blocks_for [OF assms(2,3)])
  moreover have "sint (of_nat s :: i32) = int s" using s ok by (intro sint_of_nat) simp
  moreover have "heap_mark_blocks_taken h m (of_nat s) (of_nat (blocks_for sz))
      = mark_mem h s (blocks_for sz) m"
    using n s ok by (intro heap_mark_blocks_taken_eq) simp_all
  ultimately show ?thesis
    by (simp add: heap_malloc_eq [OF assms(3)] heap_block_to_address_def block_addr_def config_defs)
qed

lemma heap_malloc_trailing:
  assumes "heap_ok h" and "0 < unat sz" and "unat sz \<le> 2147479552"
    and "first_fit (blocks h m) (blocks_for sz) = None" and "trailing (blocks h m) \<noteq> 0"
  shows "heap_malloc h sz m = (let s = length (blocks h m) - trailing (blocks h m)
           in (block_addr h s, mark_mem h s (blocks_for sz) m))"
proof -
  have ok: "unat (total (table h)) < 524288" using assms(1) by (simp add: heap_ok_def)
  have n: "0 < blocks_for sz" "blocks_for sz < 524288"
    using assms(2,3) by (simp_all add: blocks_for_bounds blocks_for_small)
  let ?s = "unat (total (table h)) - trailing (blocks h m)"
  have "heap_get_start_block h m (of_nat (blocks_for sz)) = of_nat ?s"
    using heap_get_start_block_eq [of h m] assms(4,5) ok
    by (simp add: block_count_blocks_for [OF assms(2,3)])
  moreover have "sint (of_nat ?s :: i32) = int ?s" using ok by (intro sint_of_nat) simp
  moreover have "heap_mark_blocks_taken h m (of_nat ?s) (of_nat (blocks_for sz))
      = mark_mem h ?s (blocks_for sz) m"
    using n ok by (intro heap_mark_blocks_taken_eq) simp_all
  ultimately show ?thesis
    by (simp add: heap_malloc_eq [OF assms(3)] heap_block_to_address_def block_addr_def
        config_defs Let_def)
qed

lemma heap_malloc_none:
  assumes "heap_ok h" and "0 < unat sz" and "unat sz \<le> 2147479552"
    and "first_fit (blocks h m) (blocks_for sz) = None" and "trailing (blocks h m) = 0"
  shows "heap_malloc h sz m = (0, m)"
proof -
  have "heap_get_start_block h m (of_nat (blocks_for sz)) = - ENOMEM"
    using heap_get_start_block_eq [of h m] assms
    by (simp add: block_count_blocks_for heap_ok_def)
  then show ?thesis by (simp add: heap_malloc_eq [OF assms(3)] config_defs)
qed

lemma unat_block_addr:
  assumes "heap_ok h" and "s < unat (total (table h))"
  shows "unat (block_addr h s) = unat (saddr h) + s * 4096"
proof -
  have "s * 4096 + 4096 \<le> unat (total (table h)) * 4096" using assms(2) by simp
  then have "unat (saddr h) + s * 4096 < 4294967296" using assms(1) by (simp add: heap_ok_def)
  moreover have "block_addr h s = of_nat (unat (saddr h) + s * 4096)"
    by (simp add: block_addr_def)
  ultimately show ?thesis by (simp add: unat_of_nat32 del: of_nat_add of_nat_mult)
qed

lemma heap_free_block:
  assumes "heap_ok h" and "s < unat (total (table h))"
  shows "heap_free h (block_addr h s) m = m(entries (table h) + of_nat s := 0)"
proof -
  have ok: "unat (total (table h)) < 524288" using assms(1) by (simp add: heap_ok_def)
  have "block_addr h s - saddr h = of_nat (s * 4096)" by (simp add: block_addr_def)
  moreover have "unat (of_nat (s * 4096) :: u32) = s * 4096"
    using assms(2) ok by (intro unat_of_nat32) simp
  ultimately have u: "unat (block_addr h s - saddr h) = s * 4096" by metis
  then have b: "heap_address_to_block h (block_addr h s) = of_nat s"
    using int_div_nonneg [of "block_addr h s - saddr h" PHIX_HEAP_BLOCK_SIZE] assms(2) ok
    by (simp add: heap_address_to_block_def config_defs)
  have "0 < unat (saddr h)" using assms(1) by (simp add: heap_ok_def unat_gt_0)
  then have "block_addr h s \<noteq> 0" using unat_block_addr [OF assms] by (metis add_gr_0 less_irrefl unat_0)
  moreover have "(of_nat s :: u32) < total (table h)"
    using assms(2) ok by (subst word_of_nat_less_iff) simp_all
  ultimately show ?thesis by (simp add: heap_free_def b heap_mark_blocks_free_eq)
qed

lemma blocks_upd:
  assumes "unat (total (table h)) < 2147483648" and "s < unat (total (table h))"
  shows "blocks h (m(entries (table h) + of_nat s := v)) = (blocks h m)[s := v]"
proof (rule nth_equalityI)
  fix i assume "i < length (blocks h (m(entries (table h) + of_nat s := v)))"
  then have "i < unat (total (table h))" by simp
  moreover from this have "(of_nat i = (of_nat s :: u32)) = (i = s)"
    using assms by (intro word_of_nat_inj) simp_all
  ultimately show "blocks h (m(entries (table h) + of_nat s := v)) ! i = (blocks h m)[s := v] ! i"
    by (simp add: nth_list_update)
qed simp

text \<open>The free run at the end of the table, and the entries that marking writes.\<close>

lemma trailing_le: "trailing t \<le> length t"
  unfolding trailing_def by (metis length_rev length_takeWhile_le)

lemma trailing_run:
  shows "\<And>i. length t - trailing t \<le> i \<Longrightarrow> i < length t \<Longrightarrow> block_free (t ! i)"
    and "length t - trailing t = 0 \<or> \<not> block_free (t ! (length t - trailing t - 1))"
proof -
  fix i assume i: "length t - trailing t \<le> i" "i < length t"
  then have "rev t ! (length t - 1 - i) = t ! i" by (simp add: rev_nth)
  moreover have "length t - 1 - i < trailing t" using i trailing_le [of t] by linarith
  ultimately show "block_free (t ! i)" unfolding trailing_def
    by (metis nth_mem set_takeWhileD takeWhile_nth)
next
  show "length t - trailing t = 0 \<or> \<not> block_free (t ! (length t - trailing t - 1))"
  proof (cases "trailing t < length t")
    case True
    then have "\<not> block_free (rev t ! trailing t)" unfolding trailing_def
      by (metis length_rev nth_length_takeWhile)
    with True show ?thesis by (simp add: rev_nth)
  qed simp
qed

lemma mark_mem_entry:
  assumes "s \<le> i" and "i < s + n" and "n \<le> 2147483648"
  shows "mark_mem h s n m (entries (table h) + of_nat i) = (if i = s then 0x81 else 0x01)"
proof -
  have "unat (of_nat (i - s) :: u32) = i - s" using assms by (intro unat_of_nat32) simp
  then show ?thesis using assms(1,2) by (auto simp: mark_mem_def of_nat_diff Let_def)
qed

lemma mark_mem_frame:
  assumes "0 < n" and "\<forall>i. s \<le> i \<longrightarrow> i < s + n \<longrightarrow> a \<noteq> entries (table h) + of_nat i"
  shows "mark_mem h s n m a = m a"
proof -
  let ?k = "unat (a - (entries (table h) + of_nat s))"
  have "a = entries (table h) + of_nat (s + ?k)" by simp
  with assms(2) [rule_format, of "s + ?k"] have "\<not> ?k < n" by auto
  with assms(1) have "?k \<noteq> 0" "\<not> ?k < n" by linarith+
  then show ?thesis unfolding mark_mem_def Let_def by (simp only: if_False)
qed

section \<open>Properties\<close>

text \<open>
  C2. \<open>heap_malloc\<close> refines the specification: where the table has a run of free blocks
  that is long enough, the allocation returns the address of the first such run, marks
  exactly that run, and writes no byte outside the table.
\<close>

theorem heap_malloc_refines:
  assumes "heap_ok h" and "0 < unat sz" and "unat sz \<le> 2147479552"
    and "spec_malloc (blocks h m) (blocks_for sz) = Some (s, t)"
  shows "\<exists>m'. heap_malloc h sz m = (block_addr h s, m') \<and> blocks h m' = t \<and>
     (\<forall>a. \<not> in_table h a \<longrightarrow> m' a = m a)"
proof -
  have ff: "first_fit (blocks h m) (blocks_for sz) = Some s"
    and t: "t = mark_run (blocks h m) s (blocks_for sz)"
    using assms(4) by (auto simp: spec_malloc_def)
  have n: "0 < blocks_for sz" using assms(2) by (rule blocks_for_bounds)
  have s: "s + blocks_for sz \<le> unat (total (table h))"
    using first_fit_fits [OF ff] by (simp add: fits_def)
  have "blocks h (mark_mem h s (blocks_for sz) m) = t"
    using assms(1) s n unfolding t by (intro blocks_mark) (simp_all add: heap_ok_def)
  with heap_malloc_fit [OF assms(1-3) ff] mark_mem_out [OF s n] show ?thesis by blast
qed

text \<open>A heap of four blocks, all free, for the witnesses.\<close>

definition tiny_heap :: heap where
  "tiny_heap = \<lparr>table = \<lparr>entries = 0x7E00, total = 4\<rparr>, saddr = 0x1000000\<rparr>"

lemma tiny_heap_ok: "heap_ok tiny_heap"
  by (simp add: heap_ok_def tiny_heap_def)

lemma tiny_blocks: "blocks tiny_heap m = [m 0x7E00, m 0x7E01, m 0x7E02, m 0x7E03]"
  by (simp add: blocks_def tiny_heap_def upt_rec)

lemma tiny_spec: "spec_malloc (blocks tiny_heap (\<lambda>_. 0)) 2 = Some (0, [0x81, 1, 0, 0])"
  by (simp add: tiny_blocks spec_malloc_def first_fit_def fits_def mark_run_def upt_rec
      less_Suc_eq numeral_2_eq_2 nth_Cons')

theorem heap_malloc_refines_witness:
  "\<exists>m'. heap_malloc tiny_heap 5000 (\<lambda>_. 0) = (0x1000000, m') \<and>
     blocks tiny_heap m' = [0x81, 1, 0, 0] \<and> (\<forall>a. \<not> in_table tiny_heap a \<longrightarrow> m' a = 0)"
  using heap_malloc_refines [OF tiny_heap_ok, of 5000 "\<lambda>_. 0" 0 "[0x81, 1, 0, 0]"] tiny_spec
  by (simp add: blocks_for_def block_addr_def tiny_heap_def)

text \<open>
  C33. A request that fits nowhere is not refused while the last block is free. The
  allocator returns the first block \<open>s\<close> of the free run that the table ends with: all
  blocks from \<open>s\<close> on are free and the one before, if there is one, is taken. The region
  reaches past the end of the pool, and its entries are all marked, those behind the end
  of the table too; no other byte is written.
\<close>

theorem heap_malloc_overrun:
  assumes "heap_ok h" and "0 < unat sz" and "unat sz \<le> 2147479552"
    and "first_fit (blocks h m) (blocks_for sz) = None" and "trailing (blocks h m) \<noteq> 0"
  shows "\<exists>s m'. heap_malloc h sz m = (block_addr h s, m') \<and> s < unat (total (table h)) \<and>
     (\<forall>i. s \<le> i \<longrightarrow> i < unat (total (table h)) \<longrightarrow> block_free (blocks h m ! i)) \<and>
     (s = 0 \<or> \<not> block_free (blocks h m ! (s - 1))) \<and>
     unat (total (table h)) < s + blocks_for sz \<and>
     m' (entries (table h) + of_nat s) = 0x81 \<and>
     (\<forall>i. s < i \<longrightarrow> i < s + blocks_for sz \<longrightarrow> m' (entries (table h) + of_nat i) = 0x01) \<and>
     (\<forall>a. (\<forall>i. s \<le> i \<longrightarrow> i < s + blocks_for sz \<longrightarrow> a \<noteq> entries (table h) + of_nat i) \<longrightarrow> m' a = m a)"
proof -
  let ?N = "unat (total (table h))" and ?n = "blocks_for sz" and ?t = "blocks h m"
  let ?s = "?N - trailing ?t" and ?m = "mark_mem h (?N - trailing ?t) ?n m"
  note run = trailing_run [of ?t]
  have "trailing ?t \<le> ?N" using trailing_le [of ?t] by simp
  then have sN: "?s < ?N" using assms(5) by simp
  have over: "?N < ?s + ?n"
  proof (rule ccontr)
    assume "\<not> ?N < ?s + ?n"
    then have "fits ?t ?n ?s" using run(1) by (simp add: fits_def del: nth_blocks)
    with assms(4) show False by (simp add: first_fit_None)
  qed
  have n: "0 < ?n" "?n \<le> 2147483648"
    using blocks_for_bounds [OF assms(2)] blocks_for_small [OF assms(3)] by simp_all
  have "heap_malloc h sz m = (block_addr h ?s, ?m)" using heap_malloc_trailing [OF assms] by (simp add: Let_def)
  then show ?thesis using sN over run n(1)
    by (intro exI [of _ ?s] exI [of _ ?m]) (simp add: mark_mem_entry [OF _ _ n(2)] mark_mem_frame [OF n(1)] del: nth_blocks)
qed

text \<open>Five blocks wanted, the second of four taken: the last two and three behind the table.\<close>

theorem heap_malloc_overrun_witness:
  "\<exists>m'. heap_malloc tiny_heap 20480 ((\<lambda>_. 0)(0x7E01 := 0x81)) = (0x1002000, m') \<and>
     m' 0x7E00 = 0 \<and> m' 0x7E01 = 0x81 \<and> m' 0x7E02 = 0x81 \<and> m' 0x7E03 = 1 \<and> m' 0x7E04 = 1 \<and>
     m' 0x7E05 = 1 \<and> m' 0x7E06 = 1 \<and> m' 0x7E07 = 0"
proof -
  let ?m = "(\<lambda>_. 0)(0x7E01 := 0x81) :: mem"
  have t: "blocks tiny_heap ?m = [0, 0x81, 0, 0]" by (simp add: tiny_blocks)
  have taken: "\<not> block_free 0x81" by (simp add: block_free_def)
  have n: "blocks_for 20480 = 5" by (simp add: blocks_for_def)
  have "first_fit (blocks tiny_heap ?m) (blocks_for 20480) = None" "trailing (blocks tiny_heap ?m) \<noteq> 0"
    by (simp_all add: t n first_fit_None fits_def trailing_def)
  from heap_malloc_overrun [OF tiny_heap_ok _ _ this] obtain s m' where
    m': "heap_malloc tiny_heap 20480 ?m = (block_addr tiny_heap s, m')" "s < 4"
      "\<And>i. s \<le> i \<Longrightarrow> i < 4 \<Longrightarrow> block_free ([0, 0x81, 0, 0] ! i)"
      "s = 0 \<or> \<not> block_free ([0, 0x81, 0, 0] ! (s - 1))"
      "m' (0x7E00 + of_nat s) = 0x81" "\<And>i. s < i \<Longrightarrow> i < s + 5 \<Longrightarrow> m' (0x7E00 + of_nat i) = 1"
      "\<And>a. \<forall>i. s \<le> i \<longrightarrow> i < s + 5 \<longrightarrow> a \<noteq> 0x7E00 + of_nat i \<Longrightarrow> m' a = ?m a"
    unfolding t n by (auto simp: tiny_heap_def)
  have "\<not> s \<le> 1"
  proof
    assume "s \<le> 1"
    from m'(3) [OF this] taken show False by simp
  qed
  moreover have "s \<noteq> 3" using m'(4) by auto
  ultimately have s: "s = 2" using m'(2) by arith
  have out: "m' (0x7E00 + of_nat j) = ?m (0x7E00 + of_nat j)" if "j < 2 \<or> j = 7" for j
  proof (rule m'(7), intro allI impI)
    fix i assume "s \<le> i" "i < s + 5"
    with s that show "(0x7E00 :: addr) + of_nat j \<noteq> 0x7E00 + of_nat i"
      using word_of_nat_inj [of j i] by auto
  qed
  from m'(1,5) m'(6) [of 3] m'(6) [of 4] m'(6) [of 5] m'(6) [of 6] out [of 0] out [of 1] out [of 7]
  show ?thesis by (simp add: s block_addr_def) (simp add: tiny_heap_def)
qed

text \<open>
  C32. Freeing an allocation of at most one block gives the table back as it was before
  the allocation (as far as free and taken goes), whatever the two calls did in between
  to memory outside the table.
\<close>

theorem heap_free_malloc:
  assumes "heap_ok h" and "0 < unat sz" and "unat sz \<le> 4096"
    and "first_fit (blocks h m) 1 = Some s" and "heap_malloc h sz m = (p, m')"
    and "\<And>a. in_table h a \<Longrightarrow> m'' a = m' a"
  shows "map block_free (blocks h (heap_free h p m'')) = map block_free (blocks h m)"
proof -
  have one: "blocks_for sz = 1" using assms(2,3) by (simp add: blocks_for_def)
  have ok: "unat (total (table h)) < 2147483648" using assms(1) by (simp add: heap_ok_def)
  have f: "fits (blocks h m) 1 s" using assms(4) by (rule first_fit_fits)
  then have s: "s < unat (total (table h))" and free: "block_free (blocks h m ! s)"
    by (simp_all add: fits_def del: nth_blocks)
  have "heap_malloc h sz m = (block_addr h s, mark_mem h s 1 m)"
    using heap_malloc_fit [OF assms(1,2)] assms(3,4) one by simp
  then have p: "p = block_addr h s" and m': "m' = mark_mem h s 1 m" using assms(5) by simp_all
  have "blocks h m'' = blocks h m'"
  proof (rule nth_equalityI)
    fix i assume "i < length (blocks h m'')"
    then have i: "i < unat (total (table h))" by simp
    then have "in_table h (entries (table h) + of_nat i)"
      using ok by (simp add: in_table_def word_of_nat_less_iff)
    from assms(6) [OF this] i show "blocks h m'' ! i = blocks h m' ! i" by simp
  qed simp
  then have "blocks h (heap_free h p m'') = (mark_run (blocks h m) s 1)[s := 0]"
    using heap_free_block [OF assms(1) s, of m''] blocks_upd [OF ok s] blocks_mark [OF ok s, of 1 m]
    by (simp add: p m')
  moreover have "map block_free ((mark_run (blocks h m) s 1)[s := 0]) = map block_free (blocks h m)"
  proof (rule nth_equalityI)
    fix i assume "i < length (map block_free ((mark_run (blocks h m) s 1)[s := 0]))"
    then show "map block_free ((mark_run (blocks h m) s 1)[s := 0]) ! i
        = map block_free (blocks h m) ! i"
      using free s by (auto simp: mark_run_def nth_list_update)
  qed (simp add: mark_run_def)
  ultimately show ?thesis by simp
qed

theorem heap_free_malloc_witness:
  "map block_free (blocks tiny_heap
     (heap_free tiny_heap 0x1000000 (snd (heap_malloc tiny_heap 8 (\<lambda>_. 0)))))
   = [True, True, True, True]"
proof -
  have ff: "first_fit (blocks tiny_heap (\<lambda>_. 0)) 1 = Some 0"
    by (simp add: tiny_blocks first_fit_def fits_def upt_rec)
  have "heap_malloc tiny_heap 8 (\<lambda>_. 0) = (block_addr tiny_heap 0, mark_mem tiny_heap 0 1 (\<lambda>_. 0))"
    using heap_malloc_fit [OF tiny_heap_ok, of 8 "\<lambda>_. 0" 0] ff by (simp add: blocks_for_def)
  then have res: "heap_malloc tiny_heap 8 (\<lambda>_. 0)
      = (0x1000000, snd (heap_malloc tiny_heap 8 (\<lambda>_. 0)))"
    by (simp add: block_addr_def tiny_heap_def)
  show ?thesis
    using heap_free_malloc [OF tiny_heap_ok _ _ ff res, of "snd (heap_malloc tiny_heap 8 (\<lambda>_. 0))"]
    by (simp add: tiny_blocks)
qed

text \<open>
  C34. Freeing an allocation of several blocks frees its first block only: the flag that
  should link the blocks does not fit into a table entry, so every other block of the
  allocation stays taken for ever.
\<close>

theorem heap_free_leaks:
  assumes "heap_ok h" and "4096 < unat sz" and "unat sz \<le> 2147479552"
    and "first_fit (blocks h m) (blocks_for sz) = Some s" and "heap_malloc h sz m = (p, m')"
  shows "blocks h (heap_free h p m') = (mark_run (blocks h m) s (blocks_for sz))[s := 0] \<and>
     (\<forall>i. s < i \<and> i < s + blocks_for sz \<longrightarrow> \<not> block_free (blocks h (heap_free h p m') ! i))"
proof -
  let ?n = "blocks_for sz"
  have ok: "unat (total (table h)) < 2147483648" using assms(1) by (simp add: heap_ok_def)
  have n: "0 < ?n" "?n < 524288" using assms(2,3) by (simp_all add: blocks_for_bounds blocks_for_small)
  have sn: "s + ?n \<le> unat (total (table h))"
    using first_fit_fits [OF assms(4)] by (simp add: fits_def)
  with n have s: "s < unat (total (table h))" by simp
  have "heap_malloc h sz m = (block_addr h s, mark_mem h s ?n m)"
    using heap_malloc_fit [OF assms(1) _ assms(3,4)] assms(2) by simp
  then have pm: "p = block_addr h s" "m' = mark_mem h s ?n m" using assms(5) by simp_all
  have eq: "blocks h (heap_free h p m') = (mark_run (blocks h m) s ?n)[s := 0]"
    using heap_free_block [OF assms(1) s, of m'] blocks_upd [OF ok s] blocks_mark [OF ok s n(1), of m] n(2)
    by (simp add: pm)
  moreover have "\<forall>i. s < i \<and> i < s + ?n \<longrightarrow> \<not> block_free (blocks h (heap_free h p m') ! i)"
    using sn unfolding eq by (auto simp: mark_run_def block_free_def)
  ultimately show ?thesis by blast
qed

theorem heap_free_leaks_witness:
  "\<not> block_free (blocks tiny_heap
     (heap_free tiny_heap 0x1000000 (snd (heap_malloc tiny_heap 5000 (\<lambda>_. 0)))) ! 1)"
proof -
  have ff: "first_fit (blocks tiny_heap (\<lambda>_. 0)) 2 = Some 0"
    using tiny_spec by (auto simp: spec_malloc_def)
  have "heap_malloc tiny_heap 5000 (\<lambda>_. 0) = (block_addr tiny_heap 0, mark_mem tiny_heap 0 2 (\<lambda>_. 0))"
    using heap_malloc_fit [OF tiny_heap_ok, of 5000 "\<lambda>_. 0" 0] ff by (simp add: blocks_for_def)
  then have res: "heap_malloc tiny_heap 5000 (\<lambda>_. 0)
      = (0x1000000, snd (heap_malloc tiny_heap 5000 (\<lambda>_. 0)))"
    by (simp add: block_addr_def tiny_heap_def)
  show ?thesis using heap_free_leaks [OF tiny_heap_ok _ _ _ res, of 0] ff
    by (simp add: blocks_for_def)
      (simp add: mark_run_def block_free_def tiny_blocks)
qed

text \<open>
  An allocation is refused (the null pointer, with the memory untouched) where no run
  is long enough and the last block is taken.
\<close>

theorem heap_malloc_refused:
  assumes "heap_ok h" and "0 < unat sz" and "unat sz \<le> 2147479552"
  shows "fst (heap_malloc h sz m) = 0 \<longleftrightarrow>
     first_fit (blocks h m) (blocks_for sz) = None \<and> trailing (blocks h m) = 0"
proof -
  have nz: "block_addr h s \<noteq> 0" if "s < unat (total (table h))" for s
  proof
    assume "block_addr h s = 0"
    then have "unat (saddr h) = 0" using unat_block_addr [OF assms(1) that] by simp
    then show False using assms(1) by (simp add: heap_ok_def unat_0_iff)
  qed
  consider (fit) s where "first_fit (blocks h m) (blocks_for sz) = Some s"
    | (over) "first_fit (blocks h m) (blocks_for sz) = None" "trailing (blocks h m) \<noteq> 0"
    | (none) "first_fit (blocks h m) (blocks_for sz) = None" "trailing (blocks h m) = 0" by blast
  then show ?thesis
  proof cases
    case fit
    then have "s < unat (total (table h))"
      using first_fit_fits [OF fit] blocks_for_bounds [OF assms(2)] by (simp add: fits_def)
    with fit heap_malloc_fit [OF assms fit] nz show ?thesis by simp
  next
    case over
    have "unat (total (table h)) - trailing (blocks h m) < unat (total (table h))"
      using over(2) unfolding trailing_def by (metis diff_less length_blocks length_rev
          length_takeWhile_le less_le_trans neq0_conv)
    with over heap_malloc_trailing [OF assms over] nz show ?thesis by (simp add: Let_def)
  next
    case none
    with heap_malloc_none [OF assms none] show ?thesis by simp
  qed
qed

theorem heap_malloc_refused_witness:
  "fst (heap_malloc tiny_heap 8 (\<lambda>_. 1)) = 0"
  using heap_malloc_refused [OF tiny_heap_ok, of 8 "\<lambda>_. 1"]
  by (simp add: tiny_blocks trailing_def first_fit_None fits_def block_free_def blocks_for_def)
    (auto simp: le_Suc_eq)

end
