(* ===== verification/Allocator.thy ===== *)
theory Allocator
  imports Prelude
begin

text \<open>
  The interface the rest of the kernel has with its heap for objects of at most one page:
  \<open>alloc\<close> hands out a zeroed object on a page of its own, \<open>free\<close> takes a page back, and
  the allocator's state lives in its own bytes (\<open>meta\<close>), which no page overlaps. The
  client lemmas below are proved from these laws alone; theory \<open>Kheap\<close> interprets the
  locale on \<open>kzalloc\<close> and \<open>kfree\<close>.
\<close>

locale page_allocator =
  fixes alloc :: "u32 \<Rightarrow> mem \<Rightarrow> addr \<times> mem"
    and free :: "addr \<Rightarrow> mem \<Rightarrow> mem"
    and pool :: "addr set"
    and avail :: "mem \<Rightarrow> addr set"
    and meta :: "addr \<Rightarrow> bool"
  assumes avail_pool: "avail m \<subseteq> pool"
    and finite_pool: "finite pool"
    and pool_page: "p \<in> pool \<Longrightarrow> p mod 4096 = 0 \<and> p \<noteq> 0"
    and pool_meta: "p \<in> pool \<Longrightarrow> a div 4096 = p div 4096 \<Longrightarrow> \<not> meta a"
    and alloc_page: "0 < unat sz \<Longrightarrow> unat sz \<le> 4096 \<Longrightarrow> avail m \<noteq> {} \<Longrightarrow>
      \<exists>p m'. alloc sz m = (p, m') \<and> p \<in> avail m \<and> avail m' = avail m - {p} \<and>
        (\<forall>a. a - p < sz \<longrightarrow> m' a = 0) \<and> (\<forall>a. \<not> meta a \<longrightarrow> \<not> a - p < sz \<longrightarrow> m' a = m a)"
    and free_page: "p \<in> pool \<Longrightarrow> avail (free p m) = insert p (avail m)"
    and free_frame: "p \<in> pool \<Longrightarrow> \<not> meta a \<Longrightarrow> free p m a = m a"
    and avail_local: "(\<And>a. meta a \<Longrightarrow> m' a = m a) \<Longrightarrow> avail m' = avail m"
begin

lemma page_offset:
  assumes "p \<in> pool" and "i < (4096 :: u32)"
  shows "(p + i) div 4096 = p div 4096"
  using assms pool_page by (intro aligned_add_div) simp_all

lemma page_range:
  assumes "p \<in> pool" and "a - p < sz" and "unat sz \<le> 4096"
  shows "a div 4096 = p div 4096"
proof -
  have "a - p < 4096" using assms(2,3) by (simp add: word_less_nat_alt)
  from page_offset [OF assms(1) this] show ?thesis by simp
qed

lemma pool_same_page: "p \<in> pool \<Longrightarrow> q \<in> pool \<Longrightarrow> p div 4096 = q div 4096 \<Longrightarrow> p = q"
  using pool_page by (metis aligned_eq_of_div)

lemma avail_write: "p \<in> pool \<Longrightarrow> a div 4096 = p div 4096 \<Longrightarrow> avail (m(a := v)) = avail m"
  by (rule avail_local) (use pool_meta in auto)

lemma avail_store32:
  assumes "p \<in> pool" and "a div 4096 = p div 4096" and "a mod 4 = 0"
  shows "avail (store32 m a v) = avail m"
proof (rule avail_local)
  fix x assume "meta x"
  then have "x div 4096 \<noteq> a div 4096" using pool_meta [OF assms(1), of x] assms(2) by auto
  then show "store32 m a v x = m x" using assms(3) by (intro store32_page) simp_all
qed

text \<open>An allocation leaves every byte on every other page of the pool as it was.\<close>

lemma alloc_elim:
  assumes "0 < unat sz" and "unat sz \<le> 4096" and "avail m \<noteq> {}"
  obtains p m' where "alloc sz m = (p, m')" and "p \<in> avail m" and "p \<in> pool" and "p \<noteq> 0"
    and "avail m' = avail m - {p}" and "\<And>a. a - p < sz \<Longrightarrow> m' a = 0"
    and "\<And>q a. q \<in> pool \<Longrightarrow> q \<noteq> p \<Longrightarrow> a div 4096 = q div 4096 \<Longrightarrow> m' a = m a"
proof -
  from alloc_page [OF assms] obtain p m' where
    res: "alloc sz m = (p, m')" "p \<in> avail m" "avail m' = avail m - {p}"
      "\<forall>a. a - p < sz \<longrightarrow> m' a = 0"
    and frame: "\<forall>a. \<not> meta a \<longrightarrow> \<not> a - p < sz \<longrightarrow> m' a = m a" by blast
  have p: "p \<in> pool" using res(2) avail_pool by blast
  have "m' a = m a" if "q \<in> pool" "q \<noteq> p" "a div 4096 = q div 4096" for q a
  proof -
    have "\<not> a - p < sz" using page_range [OF p _ assms(2)] that pool_same_page [OF p that(1)] by metis
    with frame pool_meta [OF that(1,3)] show ?thesis by blast
  qed
  with that res p pool_page [OF p] show thesis by blast
qed

lemma free_frame_page: "p \<in> pool \<Longrightarrow> q \<in> pool \<Longrightarrow> a div 4096 = q div 4096 \<Longrightarrow> free p m a = m a"
  using free_frame pool_meta by blast

lemma card_alloc: "finite (avail m)"
  using avail_pool finite_pool by (rule finite_subset)

text \<open>Freeing an object that was just allocated gives all its pages back.\<close>

lemma free_alloc:
  assumes "0 < unat sz" and "unat sz \<le> 4096" and "avail m \<noteq> {}" and "alloc sz m = (p, m')"
    and "\<And>a. meta a \<Longrightarrow> m'' a = m' a"
  shows "avail (free p m'') = avail m"
proof -
  from alloc_page [OF assms(1-3)] assms(4) have p: "p \<in> avail m" "avail m' = avail m - {p}" by auto
  then have "p \<in> pool" using avail_pool by blast
  with free_page [of p m''] avail_local [of m'' m'] assms(5) p show ?thesis by auto
qed

end

end
