(* ===== verification/Kheap.thy ===== *)
theory Kheap
  imports Heap Allocator
begin

text \<open>
  \<open>phix/src/memory/heap/kheap.c\<close>: the kernel's own heap, 100 MB from \<open>0x01000000\<close> with
  its table at \<open>0x7E00\<close>. \<open>kernel_heap\<close> is the value the static variable has once
  \<open>kheap_init\<close> has run (theorem \<open>kheap_init_ok\<close>); nothing is allocated before.
  Panic messages are given without their trailing newline.
\<close>

definition kernel_heap :: heap where
  "kernel_heap = \<lparr>table = \<lparr>entries = PHIX_HEAP_TABLE_ADDRESS,
     total = int_div PHIX_HEAP_SIZE_BYTES PHIX_HEAP_BLOCK_SIZE\<rparr>, saddr = PHIX_HEAP_SADDRESS\<rparr>"

text \<open>Static variables start zeroed.\<close>

definition kernel_heap0 :: heap where
  "kernel_heap0 = \<lparr>table = \<lparr>entries = 0, total = 0\<rparr>, saddr = 0\<rparr>"

definition kheap_init :: "mem \<Rightarrow> (heap \<times> mem) outcome" where
  "kheap_init m =
     (let total_table_entries = int_div PHIX_HEAP_SIZE_BYTES PHIX_HEAP_BLOCK_SIZE;
          kernel_heap_table = \<lparr>entries = PHIX_HEAP_TABLE_ADDRESS, total = total_table_entries\<rparr>;
          end_p = PHIX_HEAP_SADDRESS + PHIX_HEAP_SIZE_BYTES;
          (res, h, m) = heap_create kernel_heap0 PHIX_HEAP_SADDRESS end_p kernel_heap_table m
      in if sint res < 0 then Panic ''Failed to create heap'' else Done (h, m))"

definition kmalloc :: "u32 \<Rightarrow> mem \<Rightarrow> addr \<times> mem" where
  "kmalloc sz m = heap_malloc kernel_heap sz m"

text \<open>\<open>kzalloc\<close> does not test the pointer it clears.\<close>

definition kzalloc :: "u32 \<Rightarrow> mem \<Rightarrow> addr \<times> mem" where
  "kzalloc sz m = (let (p, m) = heap_malloc kernel_heap sz m in (p, memset m p 0 sz))"

definition kfree :: "addr \<Rightarrow> mem \<Rightarrow> mem" where
  "kfree p m = heap_free kernel_heap p m"

section \<open>The kernel heap is a page allocator\<close>

definition kheap_pool :: "addr set" where
  "kheap_pool = block_addr kernel_heap ` {..<25600}"

definition kheap_avail :: "mem \<Rightarrow> addr set" where
  "kheap_avail m = block_addr kernel_heap `
     {s. s < 25600 \<and> block_free (blocks kernel_heap m ! s)}"

definition kheap_meta :: "addr \<Rightarrow> bool" where
  "kheap_meta a = in_table kernel_heap a"

lemma heap_size_word: "PHIX_HEAP_SIZE_BYTES = (104857600 :: u32)"
  unfolding PHIX_HEAP_SIZE_BYTES_def by simp

lemma int_div_total: "int_div PHIX_HEAP_SIZE_BYTES PHIX_HEAP_BLOCK_SIZE = 25600"
proof -
  have u: "unat (104857600 :: u32) = 104857600" "unat (4096 :: u32) = 4096" by simp_all
  then have "int_div 104857600 4096 = of_nat (104857600 div 4096)"
    using int_div_nonneg [of 104857600 4096] by (simp only: u)
  then show ?thesis unfolding heap_size_word PHIX_HEAP_BLOCK_SIZE_def by simp
qed

lemma kernel_heap_sel [simp]:
  "entries (table kernel_heap) = 0x7E00" "total (table kernel_heap) = 25600"
  "saddr kernel_heap = 0x1000000"
  unfolding kernel_heap_def int_div_total PHIX_HEAP_TABLE_ADDRESS_def PHIX_HEAP_SADDRESS_def
  by simp_all

lemma kernel_heap_ok: "heap_ok kernel_heap"
  by (simp add: heap_ok_def)

lemma unat_kernel_block: "s < 25600 \<Longrightarrow> unat (block_addr kernel_heap s) = 16777216 + s * 4096"
  using unat_block_addr [OF kernel_heap_ok, of s] by simp

lemma kheap_block_inj:
  assumes "s < 25600" and "s' < 25600" and "block_addr kernel_heap s = block_addr kernel_heap s'"
  shows "s = s'"
proof -
  have "16777216 + s * 4096 = 16777216 + s' * 4096"
    using unat_kernel_block [OF assms(1)] unat_kernel_block [OF assms(2)] unfolding assms(3) by (rule trans [OF sym])
  then show ?thesis by simp
qed

lemma kheap_pool_page: "p \<in> kheap_pool \<Longrightarrow> p mod 4096 = 0 \<and> p \<noteq> 0"
proof -
  assume "p \<in> kheap_pool"
  then obtain s where "s < 25600" "p = block_addr kernel_heap s" by (auto simp: kheap_pool_def)
  then have u: "unat p = 16777216 + s * 4096" by (simp add: unat_kernel_block)
  then have "unat p = (4096 + s) * 4096" by simp
  then have "unat p mod 4096 = 0" by (simp only: mod_mult_self2_is_0)
  then have "unat (p mod 4096) = unat (0 :: u32)" by (simp add: unat_mod)
  then have "p mod 4096 = 0" by (simp only: word_unat_eq_iff)
  moreover have "p \<noteq> 0" using u by auto
  ultimately show ?thesis by simp
qed

lemma kheap_pool_meta:
  assumes "p \<in> kheap_pool" and "a div 4096 = p div 4096"
  shows "\<not> kheap_meta a"
proof
  assume "kheap_meta a"
  then have lt: "unat (a - 0x7E00) < 25600"
    by (simp add: kheap_meta_def in_table_def word_less_nat_alt)
  have "a = 0x7E00 + of_nat (unat (a - 0x7E00))" by simp
  then have "unat a = unat (of_nat (32256 + unat (a - 0x7E00)) :: u32)" by simp
  also have "\<dots> = 32256 + unat (a - 0x7E00)" using lt by (intro unat_of_nat32) simp
  finally have a: "unat a < 57856" using lt by simp
  obtain s where "s < 25600" "p = block_addr kernel_heap s"
    using assms(1) by (auto simp: kheap_pool_def)
  then have "unat (p div 4096) = 4096 + s" by (simp add: unat_div unat_kernel_block)
  moreover have "unat (a div 4096) < 15" using a by (simp add: unat_div)
  ultimately show False using assms(2) by simp
qed

lemma kheap_avail_local: "(\<And>a. kheap_meta a \<Longrightarrow> m' a = m a) \<Longrightarrow> kheap_avail m' = kheap_avail m"
proof -
  assume same: "\<And>a. kheap_meta a \<Longrightarrow> m' a = m a"
  have "m' (0x7E00 + of_nat s) = m (0x7E00 + of_nat s)" if "s < 25600" for s
    using that by (intro same) (simp add: kheap_meta_def in_table_def word_of_nat_less_iff)
  then show ?thesis by (auto simp: kheap_avail_def)
qed

lemma kheap_entry_of_nat: "i < 25600 \<Longrightarrow> (of_nat i :: u32) < 25600"
  by (simp add: word_of_nat_less_iff)

lemma kheap_fits_1: "fits t 1 s \<longleftrightarrow> s < length t \<and> block_free (t ! s)"
  by (auto simp: fits_def)

lemma kheap_avail_iff:
  "s < 25600 \<Longrightarrow> block_addr kernel_heap s \<in> kheap_avail m \<longleftrightarrow> block_free (blocks kernel_heap m ! s)"
  unfolding kheap_avail_def using kheap_block_inj by blast

lemma block_free_marks: "\<not> block_free 0x81" "\<not> block_free 0x01"
  by (simp_all add: block_free_def)

lemma kheap_avail_upd:
  assumes "s < 25600" and "blocks kernel_heap m' = (blocks kernel_heap m)[s := v]"
  shows "kheap_avail m' = (if block_free v then insert (block_addr kernel_heap s) (kheap_avail m)
                           else kheap_avail m - {block_addr kernel_heap s})"
proof -
  have len: "length (blocks kernel_heap m) = 25600" by simp
  have "(p \<in> kheap_avail m') = (p \<in> (if block_free v then insert (block_addr kernel_heap s) (kheap_avail m)
                           else kheap_avail m - {block_addr kernel_heap s}))" (is "_ = (p \<in> ?R)") for p
  proof (cases "p \<in> kheap_pool")
    case True
    then obtain i where i: "i < 25600" "p = block_addr kernel_heap i" by (auto simp: kheap_pool_def)
    have "(p = block_addr kernel_heap s) = (i = s)" using kheap_block_inj [OF i(1) assms(1)] i(2) by metis
    then show ?thesis using i kheap_avail_iff [OF i(1)] assms len
      by (auto simp: nth_list_update simp del: nth_blocks)
  next
    case False
    then have "p \<notin> kheap_avail m'" "p \<notin> kheap_avail m" "p \<noteq> block_addr kernel_heap s"
      using assms(1) by (auto simp: kheap_avail_def kheap_pool_def)
    then show ?thesis by simp
  qed
  then show ?thesis by blast
qed

lemma kheap_malloc_page:
  assumes "0 < unat sz" and "unat sz \<le> 4096" and "kheap_avail m \<noteq> {}"
  shows "\<exists>s m'. heap_malloc kernel_heap sz m = (block_addr kernel_heap s, m') \<and> s < 25600 \<and>
     block_free (blocks kernel_heap m ! s) \<and> blocks kernel_heap m' = (blocks kernel_heap m)[s := 0x81] \<and>
     (\<forall>a. \<not> kheap_meta a \<longrightarrow> m' a = m a)"
proof -
  let ?t = "blocks kernel_heap m"
  have one: "blocks_for sz = 1" using assms(1,2) by (simp add: blocks_for_def)
  have small: "unat sz \<le> 2147479552" using assms(2) by simp
  obtain s0 where "fits ?t 1 s0" using assms(3) unfolding kheap_avail_def kheap_fits_1 length_blocks by (auto simp del: nth_blocks)
  then obtain s where s: "first_fit ?t 1 = Some s" using first_fit_None [of ?t 1] by fastforce
  then have fit: "s < 25600" "block_free (?t ! s)"
    using first_fit_fits [OF s] unfolding kheap_fits_1 length_blocks
    by (simp_all del: nth_blocks)
  have res: "heap_malloc kernel_heap sz m = (block_addr kernel_heap s, mark_mem kernel_heap s 1 m)"
    using heap_malloc_fit [OF kernel_heap_ok assms(1) small] s one by simp
  have "blocks kernel_heap (mark_mem kernel_heap s 1 m) = mark_run ?t s 1"
    using fit(1) by (intro blocks_mark) simp_all
  also have "\<dots> = ?t[s := 0x81]"
    by (rule nth_equalityI) (auto simp: mark_run_def nth_list_update simp del: nth_blocks)
  finally have upd: "blocks kernel_heap (mark_mem kernel_heap s 1 m) = ?t[s := 0x81]" .
  have "mark_mem kernel_heap s 1 m a = m a" if "\<not> kheap_meta a" for a
    using that fit(1) by (intro mark_mem_out) (simp_all add: kheap_meta_def)
  with res fit upd show ?thesis by blast
qed

lemma kheap_malloc_full:
  assumes "kheap_avail m = {}" and pos: "0 < unat sz" and small: "unat sz \<le> 2147479552"
  shows "heap_malloc kernel_heap sz m = (0, m)"
proof -
  let ?t = "blocks kernel_heap m"
  have taken: "\<not> block_free (?t ! s)" if "s < 25600" for s
    using assms(1) kheap_avail_iff [OF that] by blast
  have len: "length ?t = 25600" by simp
  have "\<not> fits ?t (blocks_for sz) s" for s
  proof
    assume fit: "fits ?t (blocks_for sz) s"
    with blocks_for_bounds [OF pos] len have "s < 25600" by (simp add: fits_def)
    moreover have "block_free (?t ! (s + 0))"
      using fit blocks_for_bounds [OF pos] unfolding fits_def by blast
    ultimately show False using taken [of s] by simp
  qed
  then have "first_fit ?t (blocks_for sz) = None" by (simp add: first_fit_None)
  moreover have "trailing ?t = 0"
  proof -
    have "?t \<noteq> []" using len by (metis list.size(3) zero_neq_numeral)
    then have "\<not> block_free (last ?t)" using taken [of 25599] len \<open>?t \<noteq> []\<close> by (simp add: last_conv_nth del: nth_blocks)
    then show ?thesis by (simp add: trailing_def takeWhile_eq_Nil_iff hd_rev)
  qed
  ultimately show ?thesis
    using heap_malloc_none [OF kernel_heap_ok pos small] by simp
qed

lemma kzalloc_full:
  "kheap_avail m = {} \<Longrightarrow> 0 < unat sz \<Longrightarrow> unat sz \<le> 2147479552 \<Longrightarrow> kzalloc sz m = (0, memset m 0 0 sz)"
  by (simp add: kzalloc_def kheap_malloc_full)

lemma kzalloc_page:
  assumes "0 < unat sz" and "unat sz \<le> 4096" and "kheap_avail m \<noteq> {}"
  shows "\<exists>p m'. kzalloc sz m = (p, m') \<and> p \<in> kheap_avail m \<and> kheap_avail m' = kheap_avail m - {p} \<and>
     (\<forall>a. a - p < sz \<longrightarrow> m' a = 0) \<and> (\<forall>a. \<not> kheap_meta a \<longrightarrow> \<not> a - p < sz \<longrightarrow> m' a = m a)"
proof -
  from kheap_malloc_page [OF assms] obtain s m1 where
    res: "heap_malloc kernel_heap sz m = (block_addr kernel_heap s, m1)" and s: "s < 25600"
    and free: "block_free (blocks kernel_heap m ! s)"
    and upd: "blocks kernel_heap m1 = (blocks kernel_heap m)[s := 0x81]"
    and frame: "\<forall>a. \<not> kheap_meta a \<longrightarrow> m1 a = m a" by blast
  let ?p = "block_addr kernel_heap s" and ?m = "memset m1 (block_addr kernel_heap s) 0 sz"
  have pool: "?p \<in> kheap_pool" using s by (auto simp: kheap_pool_def)
  have avail1: "kheap_avail m1 = kheap_avail m - {?p}"
    using kheap_avail_upd [OF s upd] block_free_marks by simp
  have same: "?m a = m1 a" if "kheap_meta a" for a
  proof (rule memset_out)
    show "\<not> a - ?p < sz"
    proof
      assume "a - ?p < sz"
      then have "a - ?p < 4096" using assms(2) by (simp add: word_less_nat_alt)
      then have "(?p + (a - ?p)) div 4096 = ?p div 4096"
        using kheap_pool_page [OF pool] by (intro aligned_add_div) simp_all
      then have "a div 4096 = ?p div 4096" by (simp only: add_diff_cancel_left' add_diff_eq)
      from kheap_pool_meta [OF pool this] that show False by simp
    qed
  qed
  have "kzalloc sz m = (?p, ?m)" by (simp add: kzalloc_def res)
  moreover have "?p \<in> kheap_avail m" using kheap_avail_iff [OF s] free by simp
  moreover have "kheap_avail ?m = kheap_avail m - {?p}"
    using avail1 kheap_avail_local [of ?m m1] same by simp
  moreover have "\<forall>a. a - ?p < sz \<longrightarrow> ?m a = 0" by (simp add: memset_in)
  moreover have "\<forall>a. \<not> kheap_meta a \<longrightarrow> \<not> a - ?p < sz \<longrightarrow> ?m a = m a" using frame by (simp add: memset_out)
  ultimately show ?thesis by blast
qed

lemma kfree_block:
  assumes "s < 25600"
  shows "kfree (block_addr kernel_heap s) m = m(0x7E00 + of_nat s := 0)"
  using heap_free_block [OF kernel_heap_ok] assms by (simp add: kfree_def)

lemma kfree_page: "p \<in> kheap_pool \<Longrightarrow> kheap_avail (kfree p m) = insert p (kheap_avail m)"
proof -
  assume "p \<in> kheap_pool"
  then obtain s where s: "s < 25600" "p = block_addr kernel_heap s" by (auto simp: kheap_pool_def)
  have "blocks kernel_heap (m(entries (table kernel_heap) + of_nat s := 0)) = (blocks kernel_heap m)[s := 0]"
    using s(1) by (intro blocks_upd) simp_all
  then have "blocks kernel_heap (kfree p m) = (blocks kernel_heap m)[s := 0]"
    unfolding s(2) kfree_block [OF s(1)] by simp
  from kheap_avail_upd [OF s(1) this] s(2) show ?thesis by simp
qed

lemma kfree_frame: "p \<in> kheap_pool \<Longrightarrow> \<not> kheap_meta a \<Longrightarrow> kfree p m a = m a"
proof -
  assume "p \<in> kheap_pool" and out: "\<not> kheap_meta a"
  then obtain s where s: "s < 25600" "p = block_addr kernel_heap s" by (auto simp: kheap_pool_def)
  have "a \<noteq> 0x7E00 + of_nat s"
    using out kheap_entry_of_nat [OF s(1)] by (auto simp: kheap_meta_def in_table_def)
  then show ?thesis unfolding s(2) kfree_block [OF s(1)] by simp
qed

interpretation kh: page_allocator kzalloc kfree kheap_pool kheap_avail kheap_meta
proof
  show "kheap_avail m \<subseteq> kheap_pool" for m by (auto simp: kheap_avail_def kheap_pool_def)
  show "finite kheap_pool" by (simp add: kheap_pool_def)
qed (fact kheap_pool_page kheap_pool_meta kzalloc_page kfree_page kfree_frame kheap_avail_local)+

section \<open>Bytes no allocation touches\<close>

text \<open>
  Bytes outside the allocator's table and outside the free pages: an allocation leaves them
  as they are, and so does everything the kernel writes into a new object.
\<close>

definition kheap_safe :: "mem \<Rightarrow> addr \<Rightarrow> bool" where
  "kheap_safe m a = (\<not> kheap_meta a \<and> (\<forall>q \<in> kheap_avail m. a div 4096 \<noteq> q div 4096))"

lemma kheap_safe_mono: "kheap_safe m a \<Longrightarrow> kheap_avail m' \<subseteq> kheap_avail m \<Longrightarrow> kheap_safe m' a"
  by (auto simp: kheap_safe_def)

lemma kheap_safe_page:
  assumes "q \<in> kheap_pool" and "q \<notin> kheap_avail m" and "a div 4096 = q div 4096"
  shows "kheap_safe m a"
  unfolding kheap_safe_def
proof (intro conjI ballI notI)
  assume "kheap_meta a"
  with kheap_pool_meta [OF assms(1,3)] show False by simp
next
  fix r assume r: "r \<in> kheap_avail m" "a div 4096 = r div 4096"
  then have "r = q" using assms kh.pool_same_page [of r q] kh.avail_pool by auto
  with r(1) assms(2) show False by simp
qed

lemma kheap_safe_word:
  assumes "q \<in> kheap_pool" and "q \<notin> kheap_avail m" and "i < 4096"
  shows "kheap_safe m (q + i)"
  using assms kh.page_offset [OF assms(1,3)] by (intro kheap_safe_page [of q]) simp_all

lemma kzalloc_safe:
  assumes "0 < unat sz" and "unat sz \<le> 4096" and "kheap_avail m \<noteq> {}"
  obtains p m' where "kzalloc sz m = (p, m')" and "p \<in> kheap_avail m" and "p \<in> kheap_pool" and "p \<noteq> 0"
    and "kheap_avail m' = kheap_avail m - {p}" and "\<And>a. a - p < sz \<Longrightarrow> m' a = 0"
    and "\<And>a. kheap_safe m a \<Longrightarrow> m' a = m a"
proof -
  from kzalloc_page [OF assms] obtain p m' where
    res: "kzalloc sz m = (p, m')" "p \<in> kheap_avail m" "kheap_avail m' = kheap_avail m - {p}"
      "\<forall>a. a - p < sz \<longrightarrow> m' a = 0"
    and frame: "\<forall>a. \<not> kheap_meta a \<longrightarrow> \<not> a - p < sz \<longrightarrow> m' a = m a" by blast
  have p: "p \<in> kheap_pool" using res(2) kh.avail_pool by blast
  have "m' a = m a" if "kheap_safe m a" for a
  proof -
    have "\<not> a - p < sz" using kh.page_range [OF p _ assms(2)] that res(2) by (auto simp: kheap_safe_def)
    with frame that show ?thesis by (simp add: kheap_safe_def)
  qed
  with that res p kheap_pool_page [OF p] show thesis by blast
qed
lemma kheap_field:
  assumes "q \<in> kheap_pool" and "i \<le> 4092" and "j < 4"
  shows "(q + i + j) div 4096 = q div 4096" and "\<not> kheap_meta (q + i + j)"
proof -
  have "unat (i + j) = unat i + unat j" "unat j < 4" "unat i \<le> 4092" using assms(2,3)
    by (auto simp: unat_add_less word_less_nat_alt word_le_nat_alt)
  then have "i + j < 4096" by (simp add: word_less_nat_alt)
  then show p: "(q + i + j) div 4096 = q div 4096"
    using kh.page_offset [OF assms(1), of "i + j"] by (simp add: add.assoc)
  show "\<not> kheap_meta (q + i + j)" using kheap_pool_meta [OF assms(1) p] .
qed

lemma kheap_avail_field:
  assumes "q \<in> kheap_pool" and "i \<le> 4092"
  shows "kheap_avail (store32 m (q + i) v) = kheap_avail m"
proof (rule kheap_avail_local)
  fix a assume "kheap_meta a"
  then have "a \<noteq> q + i + j" if "j < 4" for j using kheap_field(2) [OF assms that] by auto
  from this [of 0] this [of 1] this [of 2] this [of 3] show "store32 m (q + i) v a = m a"
    by (simp add: store32_def)
qed

lemma kheap_avail_poke:
  assumes "q \<in> kheap_pool" and "length bs \<le> 4096"
  shows "kheap_avail (poke m q bs) = kheap_avail m"
proof (rule kheap_avail_local)
  fix a assume meta: "kheap_meta a"
  show "poke m q bs a = m a"
  proof (rule poke_out, rule ccontr)
    assume "\<not> length bs \<le> unat (a - q)"
    then have "a - q < 4096" using assms(2) by (simp add: word_less_nat_alt)
    then have "a div 4096 = q div 4096" using kh.page_offset [OF assms(1), of "a - q"] by simp
    with kheap_pool_meta [OF assms(1)] meta show False by simp
  qed
qed

text \<open>Fields of two objects, or two fields of one, do not overlap.\<close>

lemma kheap_field_other:
  assumes "q \<in> kheap_pool" and "r \<in> kheap_pool" and "q \<noteq> r" and "i \<le> 4092"
    and "a div 4096 = r div 4096"
  shows "store32 m (q + i) v a = m a"
proof -
  have "a \<noteq> q + i + j" if "j < 4" for j
    using kheap_field(1) [OF assms(1,4) that] assms kh.pool_same_page [OF assms(1,2)] by metis
  from this [of 0] this [of 1] this [of 2] this [of 3] show ?thesis by (simp add: store32_def)
qed

lemma kheap_field_load_other:
  assumes "q \<in> kheap_pool" and "r \<in> kheap_pool" and "q \<noteq> r" and "i \<le> 4092" and "j \<le> 4092"
  shows "load32 (store32 m (q + i) v) (r + j) = load32 m (r + j)"
proof (rule load32_same)
  fix k :: u32 assume "k < 4"
  then show "store32 m (q + i) v (r + j + k) = m (r + j + k)"
    using kheap_field(1) [OF assms(2,5)] by (intro kheap_field_other [OF assms(1-4)])
qed

lemma kheap_safe_load:
  assumes "\<And>a. kheap_safe m a \<Longrightarrow> m' a = m a" and "q \<in> kheap_pool" and "q \<notin> kheap_avail m" and "i \<le> 4092"
  shows "load32 m' (q + i) = load32 m (q + i)"
  using kheap_field(1) [OF assms(2,4)] by (intro load32_same assms(1) kheap_safe_page [OF assms(2,3)])

text \<open>The allocator's table and the pool in numbers; a zero table is a free heap.\<close>

lemma kheap_meta_range: "kheap_meta a \<Longrightarrow> 32256 \<le> unat a \<and> unat a < 57856"
proof -
  assume "kheap_meta a"
  then have d: "unat (a - 0x7E00) < 25600" by (simp add: kheap_meta_def in_table_def word_less_nat_alt)
  then have "unat (a - 0x7E00 + 0x7E00) = unat (a - 0x7E00) + 32256" by (subst unat_add_less) simp_all
  with d show ?thesis by simp
qed

lemma kheap_pool_range: "q \<in> kheap_pool \<Longrightarrow> a div 4096 = q div 4096 \<Longrightarrow> 16777216 \<le> unat a"
proof -
  assume q: "q \<in> kheap_pool" "a div 4096 = q div 4096"
  then obtain s where "s < 25600" "q = block_addr kernel_heap s" by (auto simp: kheap_pool_def)
  then have "unat (q div 4096) = 4096 + s" by (simp add: unat_div unat_kernel_block)
  then have "4096 \<le> unat a div 4096" using q(2) by (simp add: word_unat_eq_iff unat_div)
  then show ?thesis by simp
qed

lemma kheap_safe_low: "57856 \<le> unat a \<Longrightarrow> unat a < 16777216 \<Longrightarrow> kheap_safe m a"
  using kheap_meta_range [of a] kheap_pool_range [of _ a] kh.avail_pool [of m] by (fastforce simp: kheap_safe_def)

lemma kheap_avail_zero: "(\<And>a. kheap_meta a \<Longrightarrow> m a = 0) \<Longrightarrow> kheap_avail m = kheap_pool"
proof -
  assume "\<And>a. kheap_meta a \<Longrightarrow> m a = 0"
  then have "kheap_avail m = kheap_avail (\<lambda>_. 0)" by (intro kheap_avail_local) simp
  also have "\<dots> = kheap_pool" by (auto simp: kheap_avail_def kheap_pool_def block_free_def)
  finally show ?thesis .
qed

lemma card_kheap_pool: "card kheap_pool = 25600"
  unfolding kheap_pool_def by (subst card_image) (auto simp: inj_on_def intro: kheap_block_inj)

lemma kheap_avail_poke_low:
  assumes "57856 \<le> unat p" and "unat p + length bs < 4294967296"
  shows "kheap_avail (poke m p bs) = kheap_avail m"
proof (rule kheap_avail_local)
  fix a assume "kheap_meta a"
  then have "unat a < 57856" using kheap_meta_range by blast
  show "poke m p bs a = m a"
  proof (rule poke_out, rule ccontr)
    assume "\<not> length bs \<le> unat (a - p)"
    then have "unat (a - p + p) = unat (a - p) + unat p" using assms(2) by (intro unat_add_less) simp
    with \<open>unat a < 57856\<close> assms(1) show False by simp
  qed
qed
section \<open>Properties\<close>

lemma kheap_create_ok:
  "heap_create kernel_heap0 PHIX_HEAP_SADDRESS (PHIX_HEAP_SADDRESS + PHIX_HEAP_SIZE_BYTES)
     \<lparr>entries = PHIX_HEAP_TABLE_ADDRESS, total = 25600\<rparr> m = (0, kernel_heap, memset m 0x7E00 0 25600)"
proof -
  have "(PHIX_HEAP_SADDRESS + PHIX_HEAP_SIZE_BYTES - PHIX_HEAP_SADDRESS) div PHIX_HEAP_BLOCK_SIZE = 25600"
    by (simp add: heap_size_word PHIX_HEAP_BLOCK_SIZE_def)
  moreover have "PHIX_HEAP_SADDRESS mod PHIX_HEAP_BLOCK_SIZE = 0"
    and "(PHIX_HEAP_SADDRESS + PHIX_HEAP_SIZE_BYTES) mod PHIX_HEAP_BLOCK_SIZE = 0"
    by (simp_all add: heap_size_word PHIX_HEAP_BLOCK_SIZE_def PHIX_HEAP_SADDRESS_def)
  ultimately show ?thesis
    by (simp add: heap_create_def heap_validate_alignment_def heap_validate_table_def Let_def
        kernel_heap_def int_div_total PHIX_HEAP_TABLE_ADDRESS_def HEAP_BLOCK_TABLE_ENTRY_FREE_def)
qed

text \<open>
  \<open>kheap_init\<close> never panics: the bounds and the block count of \<open>config.h\<close> pass the
  checks of \<open>heap_create\<close>, every block of the 100 MB pool is free afterwards, and only the
  bytes of the table have been written.
\<close>

theorem kheap_init_ok:
  "\<exists>m'. kheap_init m = Done (kernel_heap, m') \<and> kheap_avail m' = kheap_pool \<and>
     (\<forall>a. \<not> kheap_meta a \<longrightarrow> m' a = m a)"
proof (intro exI conjI allI impI)
  let ?m = "memset m 0x7E00 0 25600"
  show "kheap_init m = Done (kernel_heap, ?m)"
    unfolding kheap_init_def Let_def int_div_total kheap_create_ok by simp
  have "?m (0x7E00 + of_nat s) = 0" if "s < 25600" for s
    using kheap_entry_of_nat [OF that] by (simp add: memset_in)
  then show "kheap_avail ?m = kheap_pool" by (auto simp: kheap_avail_def kheap_pool_def)
  show "?m a = m a" if "\<not> kheap_meta a" for a
    using that by (intro memset_out) (simp add: kheap_meta_def in_table_def)
qed

theorem kheap_init_ok_witness:
  "\<exists>m'. kheap_init (\<lambda>_. 0x41) = Done (kernel_heap, m') \<and> kheap_avail m' = kheap_pool \<and> m' 0xB8000 = 0x41"
proof -
  have "\<not> kheap_meta 0xB8000" by (simp add: kheap_meta_def in_table_def)
  with kheap_init_ok [of "\<lambda>_. 0x41"] show ?thesis by blast
qed

text \<open>
  \<open>kzalloc\<close> clears its result without testing it: on a heap with no free block it
  returns \<open>NULL\<close> after it has zeroed the first \<open>sz\<close> bytes of memory, and a request that
  reaches past \<open>0x7E00\<close> so wipes the allocator's own table: a block that is in use is free
  again.
\<close>

theorem kzalloc_null_clobbers:
  assumes "kheap_avail m = {}" and "0x7E00 < unat sz" and "unat sz \<le> 2147479552"
  shows "\<exists>m'. kzalloc sz m = (0, m') \<and> (\<forall>a. a < sz \<longrightarrow> m' a = 0) \<and>
     PHIX_HEAP_SADDRESS \<in> kheap_avail m'"
proof (intro exI conjI)
  let ?m = "memset m 0 0 sz"
  have "heap_malloc kernel_heap sz m = (0, m)"
    using kheap_malloc_full [OF assms(1)] assms(2,3) by simp
  then show "kzalloc sz m = (0, ?m)" by (simp add: kzalloc_def)
  show "\<forall>a. a < sz \<longrightarrow> ?m a = 0" by (simp add: memset_eq)
  have "blocks kernel_heap ?m ! 0 = ?m 0x7E00" by simp
  also have "\<dots> = 0" using assms(2) by (simp add: memset_eq word_less_nat_alt)
  finally have "block_free (blocks kernel_heap ?m ! 0)" by simp
  then have "block_addr kernel_heap 0 \<in> kheap_avail ?m" using kheap_avail_iff [of 0 ?m] by simp
  then show "PHIX_HEAP_SADDRESS \<in> kheap_avail ?m" by (simp add: block_addr_def PHIX_HEAP_SADDRESS_def)
qed

theorem kzalloc_null_clobbers_witness:
  "\<exists>m'. kzalloc 0x8000 (\<lambda>_. 1) = (0, m') \<and> (\<forall>a. a < 0x8000 \<longrightarrow> m' a = 0) \<and>
     PHIX_HEAP_SADDRESS \<in> kheap_avail m'"
proof (rule kzalloc_null_clobbers)
  show "kheap_avail (\<lambda>_. 1) = {}" by (simp add: kheap_avail_def block_free_def)
qed simp_all

end
