(* ===== verification/Paging.thy ===== *)
theory Paging
  imports Kheap
begin

text \<open>
  \<open>phix/src/memory/paging/paging.c\<close>: two-level page tables in the byte-addressed
  memory, every table and the chunk structure on kernel heap pages of their own. The
  \<open>struct paging_chunk\<close> is its one field, a pointer read with \<open>load32\<close>. Results that
  the code passes through pointers to locals (\<open>directory_index\<close>, \<open>table_index\<close>,
  \<open>entry\<close>) are components of the result.
\<close>

section \<open>The code\<close>

definition PAGING_IS_PRESENT :: u8 where [config_defs]: "PAGING_IS_PRESENT = 0x01"
definition PAGING_IS_WRITABLE :: u8 where [config_defs]: "PAGING_IS_WRITABLE = 0x02"
definition PAGING_ACCESS_FROM_ALL :: u8 where [config_defs]: "PAGING_ACCESS_FROM_ALL = 0x04"
definition PAGING_WRITE_THROUGH :: u8 where [config_defs]: "PAGING_WRITE_THROUGH = 0x08"
definition PAGING_CACHE_DISABLED :: u8 where [config_defs]: "PAGING_CACHE_DISABLED = 0x10"
definition PAGING_TOTAL_ENTRIES_PER_TABLE :: u32 where
  [config_defs]: "PAGING_TOTAL_ENTRIES_PER_TABLE = 1024"
definition PAGING_PAGE_SIZE :: u32 where [config_defs]: "PAGING_PAGE_SIZE = 4096"

definition PAGE_ALIGN :: "u32 \<Rightarrow> u32" where
  "PAGE_ALIGN x = ALIGN x PAGING_PAGE_SIZE"

definition PAGE_ALIGN_LOWER :: "u32 \<Rightarrow> u32" where
  "PAGE_ALIGN_LOWER x = ALIGN_LOWER x PAGING_PAGE_SIZE"

definition PAGING_ALIGNED :: "u32 \<Rightarrow> bool" where
  "PAGING_ALIGNED x = (x mod PAGING_PAGE_SIZE = 0)"

text \<open>Element \<open>i\<close> of an array of \<open>pte_t\<close>.\<close>

definition pte_slot :: "addr \<Rightarrow> u32 \<Rightarrow> addr" where
  "pte_slot tbl i = tbl + 4 * i"

definition paging_fill_table :: "addr \<Rightarrow> u32 \<Rightarrow> u8 \<Rightarrow> mem \<Rightarrow> mem" where
  "paging_fill_table entry offset flags m =
     for_up (unat PAGING_TOTAL_ENTRIES_PER_TABLE)
       (\<lambda>b m. store32 m (pte_slot entry (of_nat b))
                ((offset + of_nat b * PAGING_PAGE_SIZE) OR ucast flags)) m"

definition paging_new_table :: "addr \<Rightarrow> u8 \<Rightarrow> nat \<Rightarrow> u32 \<times> mem \<Rightarrow> (u32 \<times> mem) outcome" where
  "paging_new_table directory flags i = (\<lambda>(offset, m).
     let (entry, m) = kzalloc (4 * PAGING_TOTAL_ENTRIES_PER_TABLE) m
     in if entry = 0 then Panic ''Failed to allocate page table entry''
        else let m = paging_fill_table entry offset flags m;
                 offset = offset + PAGING_TOTAL_ENTRIES_PER_TABLE * PAGING_PAGE_SIZE;
                 m = store32 m (pte_slot directory (of_nat i))
                       (entry OR ucast flags OR ucast PAGING_IS_WRITABLE)
             in Done (offset, m))"

definition paging_new_chunk :: "u8 \<Rightarrow> mem \<Rightarrow> (addr \<times> mem) outcome" where
  "paging_new_chunk flags m =
     (let (directory, m) = kzalloc (4 * PAGING_TOTAL_ENTRIES_PER_TABLE) m
      in if directory = 0 then Panic ''Could not allocate paging directory''
         else obind (for_upE (unat PAGING_TOTAL_ENTRIES_PER_TABLE) (paging_new_table directory flags) (0, m))
           (\<lambda>(offset, m).
              let (chunk, m) = kzalloc 4 m
              in if chunk = 0 then Panic ''Could not allocate paging chunk''
                 else Done (chunk, store32 m chunk directory)))"

definition paging_free_chunk :: "addr \<Rightarrow> mem \<Rightarrow> mem" where
  "paging_free_chunk chunk m =
     (let m = for_up (unat PAGING_TOTAL_ENTRIES_PER_TABLE)
                (\<lambda>i m. let entry = load32 m (pte_slot (load32 m chunk) (of_nat i));
                           tbl = entry AND 0xfffff000
                       in kfree tbl m) m;
          m = kfree (load32 m chunk) m
      in kfree chunk m)"

text \<open>The value of \<open>current_directory\<close> and of \<open>CR3\<close> after a switch.\<close>

definition paging_switch :: "addr \<Rightarrow> mem \<Rightarrow> addr" where
  "paging_switch chunk m = load32 m chunk"

definition paging_get_indexes :: "addr \<Rightarrow> u32 \<Rightarrow> u32 \<Rightarrow> i32 \<times> u32 \<times> u32" where
  "paging_get_indexes vaddr directory_index table_index =
     (if \<not> PAGING_ALIGNED vaddr then (- EINVAL, directory_index, table_index)
      else (0, vaddr div (PAGING_TOTAL_ENTRIES_PER_TABLE * PAGING_PAGE_SIZE),
            vaddr mod (PAGING_TOTAL_ENTRIES_PER_TABLE * PAGING_PAGE_SIZE) div PAGING_PAGE_SIZE))"

text \<open>
  \<open>ret = paging_get_indexes(...) < 0\<close> assigns the comparison, \<open>0\<close> or \<open>1\<close>, to \<open>ret\<close>.
\<close>

definition paging_set :: "addr \<Rightarrow> addr \<Rightarrow> u32 \<Rightarrow> mem \<Rightarrow> i32 \<times> mem" where
  "paging_set directory vaddr val m =
     (if \<not> PAGING_ALIGNED vaddr then (- EINVAL, m)
      else let (r, directory_index, table_index) = paging_get_indexes vaddr 0 0;
               ret = (if sint r < 0 then 1 else 0)
           in if ret \<noteq> 0 then (ret, m)
              else let entry = load32 m (pte_slot directory directory_index);
                       tbl = entry AND 0xfffff000
                   in (0, store32 m (pte_slot tbl table_index) val))"

definition paging_map :: "addr \<Rightarrow> addr \<Rightarrow> addr \<Rightarrow> u8 \<Rightarrow> mem \<Rightarrow> i32 \<times> mem" where
  "paging_map chunk vaddr paddr flags m =
     (if \<not> PAGING_ALIGNED vaddr \<or> \<not> PAGING_ALIGNED paddr then (- EINVAL, m)
      else paging_set (load32 m chunk) vaddr (paddr OR ucast flags) m)"

fun paging_map_loop :: "addr \<Rightarrow> addr \<Rightarrow> addr \<Rightarrow> nat \<Rightarrow> u8 \<Rightarrow> mem \<Rightarrow> mem" where
  "paging_map_loop chunk vaddr paddr 0 flags m = m"
| "paging_map_loop chunk vaddr paddr (Suc n) flags m =
     (let (ret, m) = paging_map chunk vaddr paddr flags m
      in if sint ret < 0 then m
         else paging_map_loop chunk (vaddr + PAGING_PAGE_SIZE) (paddr + PAGING_PAGE_SIZE) n flags m)"

definition paging_map_range :: "addr \<Rightarrow> addr \<Rightarrow> addr \<Rightarrow> u32 \<Rightarrow> u8 \<Rightarrow> mem \<Rightarrow> i32 \<times> mem" where
  "paging_map_range chunk vaddr paddr count flags m =
     (0, paging_map_loop chunk vaddr paddr (unat count) flags m)"

definition paging_map_to :: "addr \<Rightarrow> addr \<Rightarrow> addr \<Rightarrow> addr \<Rightarrow> u8 \<Rightarrow> mem \<Rightarrow> i32 \<times> mem" where
  "paging_map_to chunk vaddr paddr pend flags m =
     (if \<not> PAGING_ALIGNED vaddr then (- EINVAL, m)
      else if \<not> PAGING_ALIGNED paddr then (- EINVAL, m)
      else if \<not> PAGING_ALIGNED pend then (- EINVAL, m)
      else if pend < paddr then (- EINVAL, m)
      else let total_bytes = pend - paddr;
               total_pages = total_bytes div PAGING_PAGE_SIZE
           in paging_map_range chunk vaddr paddr total_pages flags m)"

text \<open>\<open>entry\<close> is what the caller's variable holds before the call.\<close>

definition paging_get :: "addr \<Rightarrow> addr \<Rightarrow> u32 \<Rightarrow> mem \<Rightarrow> i32 \<times> u32" where
  "paging_get directory vaddr entry m =
     (let (ret, directory_index, table_index) = paging_get_indexes vaddr 0 0
      in if sint ret < 0 then (ret, entry)
         else let tbl = load32 m (pte_slot directory directory_index) AND 0xfffff000
              in (0, load32 m (pte_slot tbl table_index)))"

definition paging_get_paddr :: "addr \<Rightarrow> addr \<Rightarrow> mem \<Rightarrow> addr" where
  "paging_get_paddr directory vaddr m =
     (let (ret, directory_index, table_index) = paging_get_indexes (PAGE_ALIGN_LOWER vaddr) 0 0
      in if sint ret < 0 then 0
         else let tbl = load32 m (pte_slot directory directory_index) AND 0xfffff000
              in (load32 m (pte_slot tbl table_index) AND 0xfffff000) + vaddr mod PAGING_PAGE_SIZE)"

definition paging_get_flags :: "addr \<Rightarrow> addr \<Rightarrow> mem \<Rightarrow> i32" where
  "paging_get_flags directory vaddr m =
     (let (ret, directory_index, table_index) = paging_get_indexes (PAGE_ALIGN_LOWER vaddr) 0 0
      in if sint ret < 0 then 0
         else let tbl = load32 m (pte_slot directory directory_index) AND 0xfffff000
              in load32 m (pte_slot tbl table_index) AND 0x00000fff)"

definition page_fault_intr_cb :: "'s \<Rightarrow> 's outcome" where
  "page_fault_intr_cb s = Panic ''PAGE FAULT''"

section \<open>Page table entries\<close>

text \<open>
  The table that directory entry \<open>i\<close> points to, the address of the entry of the page
  at \<open>v\<close> and the entry itself. The abstract view of a directory is the function from
  pages to entries.
\<close>

definition frame_of :: "u32 \<Rightarrow> addr" where
  "frame_of e = e AND 0xfffff000"

definition table_of :: "mem \<Rightarrow> addr \<Rightarrow> u32 \<Rightarrow> addr" where
  "table_of m dir i = frame_of (load32 m (pte_slot dir i))"

definition pte_addr :: "mem \<Rightarrow> addr \<Rightarrow> addr \<Rightarrow> addr" where
  "pte_addr m dir v = pte_slot (table_of m dir (v div 0x400000)) (v mod 0x400000 div 4096)"

definition pte_at :: "mem \<Rightarrow> addr \<Rightarrow> addr \<Rightarrow> u32" where
  "pte_at m dir v = load32 m (pte_addr m dir v)"

text \<open>A directory whose 1024 tables are pages of their own.\<close>

definition pd_ok :: "mem \<Rightarrow> addr \<Rightarrow> bool" where
  "pd_ok m dir = (dir mod 4096 = 0 \<and> (\<forall>i < 1024. table_of m dir i \<noteq> dir) \<and>
     (\<forall>i < 1024. \<forall>j < 1024. table_of m dir i = table_of m dir j \<longrightarrow> i = j))"

lemma frame_mask: "(0xfffff000 :: u32) = NOT (mask 12)"
  by (simp add: mask_eq_exp_minus_1)

lemma frame_of_aligned [simp]: "frame_of e mod 4096 = 0"
proof -
  have "take_bit 12 (frame_of e) = 0"
    unfolding frame_of_def frame_mask by (rule bit_word_eqI) (simp add: bit_simps)
  then show ?thesis by (simp add: take_bit_eq_mod)
qed

lemma frame_of_or:
  assumes "x mod 4096 = 0" and "f < 4096"
  shows "frame_of (x OR f) = x" and "(x OR f) AND 0xfff = f"
proof -
  have x: "\<not> bit x n" if "n < 12" for n
  proof -
    have "take_bit 12 x = 0" using assms(1) by (simp add: take_bit_eq_mod)
    then have "\<not> bit (take_bit 12 x) n" by simp
    with that show ?thesis by (simp add: bit_take_bit_iff)
  qed
  then have x': "12 \<le> n" if "bit x n" for n using that not_le by blast
  have "f = take_bit 12 f"
    using assms(2) by (simp add: take_bit_eq_mod word_unat_eq_iff unat_mod word_less_nat_alt)
  then have f: "\<not> bit f n" if "12 \<le> n" for n using that by (metis bit_take_bit_iff not_le)
  then have f': "n < 12" if "bit f n" for n using that not_le by blast
  show "frame_of (x OR f) = x" unfolding frame_of_def frame_mask
    by (rule bit_word_eqI) (use x x' f f' in \<open>auto simp: bit_simps not_less\<close>)
  have fff: "(0xfff :: u32) = mask 12" by (simp add: mask_eq_exp_minus_1)
  show "(x OR f) AND 0xfff = f" unfolding fff
    by (rule bit_word_eqI) (use x x' f f' in \<open>auto simp: bit_simps not_less\<close>)
qed

lemma flags_small: "(ucast (f :: u8) :: u32) < 4096"
proof -
  have "unat f < 256" by (rule order.strict_trans2 [OF unsigned_less]) simp
  moreover from this have "unat (ucast f :: u32) = unat f"
    by (simp add: unsigned_ucast_eq take_bit_nat_eq_self)
  ultimately show ?thesis by (simp add: word_less_nat_alt)
qed

lemma page_index_bounds:
  fixes v :: addr
  shows "v div 0x400000 < 1024" and "v mod 0x400000 div 4096 < 1024"
proof -
  have "unat v div 4194304 < 1024" using unat32_lt [of v] by simp
  then show "v div 0x400000 < 1024" by (simp add: word_less_nat_alt unat_div)
  have "unat v mod 4194304 div 4096 < 1024" by simp
  then show "v mod 0x400000 div 4096 < 1024" by (simp add: word_less_nat_alt unat_div unat_mod)
qed

lemma page_index_rebuild:
  fixes v :: addr
  assumes "v mod 4096 = 0"
  shows "v div 0x400000 * 0x400000 + v mod 0x400000 div 4096 * 4096 = v"
proof -
  have "unat v mod 4096 = 0" using arg_cong [OF assms, of unat] by (simp add: unat_mod)
  then have "unat v mod 4194304 mod 4096 = 0" by (simp add: mod_mod_cancel)
  then have "v mod 0x400000 mod 4096 = 0" by (simp add: word_unat_eq_iff unat_mod)
  then have "v mod 0x400000 div 4096 * 4096 = v mod 0x400000"
    by (metis add.right_neutral div_mult_mod_eq)
  then show ?thesis by (simp only: div_mult_mod_eq)
qed

lemma page_index_inj:
  fixes v w :: addr
  assumes "v mod 4096 = 0" and "w mod 4096 = 0" and "v div 0x400000 = w div 0x400000"
    and "v mod 0x400000 div 4096 = w mod 0x400000 div 4096"
  shows "v = w"
  using page_index_rebuild [OF assms(1)] page_index_rebuild [OF assms(2)] unfolding assms(3,4)
  by (rule trans [OF sym])

text \<open>Slots of page-aligned tables: each lies on the table's page, and they differ.\<close>

lemma unat_4_mult:
  assumes "i < (1024 :: u32)"
  shows "unat (4 * i) = 4 * unat i" and "4 * i < 4096"
proof -
  have "unat i < 1024" using assms by (simp add: word_less_nat_alt)
  then show "unat (4 * i) = 4 * unat i" by (simp add: unat_word_ariths)
  with \<open>unat i < 1024\<close> show "4 * i < 4096" by (simp add: word_less_nat_alt)
qed

lemma pte_slot_page:
  assumes "t mod 4096 = 0" and "i < 1024"
  shows "pte_slot t i div 4096 = t div 4096" and "pte_slot t i mod 4 = 0"
    and "unat (pte_slot t i) = unat t + 4 * unat i"
proof -
  have lt: "4 * i < 4096" using unat_4_mult [OF assms(2)] by simp
  show "pte_slot t i div 4096 = t div 4096" unfolding pte_slot_def
    by (rule aligned_add_div) (use assms lt in simp_all)
  show u: "unat (pte_slot t i) = unat t + 4 * unat i" unfolding pte_slot_def
    using aligned_add_unat [of 4096 t "4 * i"] assms lt unat_4_mult [OF assms(2)] by simp
  have "unat t mod 4096 = 0" using arg_cong [OF assms(1), of unat] by (simp add: unat_mod)
  then obtain q where "unat t = 4096 * q" by auto
  then have "unat (pte_slot t i) = 4 * (1024 * q + unat i)" using u by simp
  then have "unat (pte_slot t i) mod 4 = 0" by simp
  then show "pte_slot t i mod 4 = 0" by (simp add: word_unat_eq_iff unat_mod)
qed

lemma pte_slot_inj:
  assumes "t mod 4096 = 0" and "i < 1024" and "j < 1024" and "pte_slot t i = pte_slot t j"
  shows "i = j"
  using pte_slot_page(3) [OF assms(1,2)] pte_slot_page(3) [OF assms(1,3)] assms(4)
  by (simp add: word_unat_eq_iff)

lemma pte_slot_other_table:
  assumes "t mod 4096 = 0" and "t' mod 4096 = 0" and "t \<noteq> t'" and "i < 1024" and "j < 1024"
  shows "pte_slot t i \<noteq> pte_slot t' j"
proof
  assume "pte_slot t i = pte_slot t' j"
  then have "t div 4096 = t' div 4096" using pte_slot_page(1) assms by metis
  with assms(1-3) aligned_eq_of_div [of t 4096 t'] show False by simp
qed

lemma pte_addr_page:
  "pte_addr m dir v div 4096 = table_of m dir (v div 0x400000) div 4096"
  "pte_addr m dir v mod 4 = 0"
  unfolding pte_addr_def using pte_slot_page [OF _ page_index_bounds(2)]
  by (simp_all add: table_of_def)

lemma table_of_store:
  assumes "pd_ok m dir" and "i < 1024"
  shows "table_of (store32 m (pte_addr m dir v) val) dir i = table_of m dir i"
proof -
  have "pte_addr m dir v \<noteq> pte_slot dir i" unfolding pte_addr_def
    using assms page_index_bounds [of v]
    by (intro pte_slot_other_table) (auto simp: pd_ok_def table_of_def)
  then have "load32 (store32 m (pte_addr m dir v) val) (pte_slot dir i) = load32 m (pte_slot dir i)"
    using assms pte_addr_page(2) pte_slot_page(2) by (intro load32_store32_other) (auto simp: pd_ok_def)
  then show ?thesis by (simp add: table_of_def)
qed

lemma pd_ok_store: "pd_ok m dir \<Longrightarrow> pd_ok (store32 m (pte_addr m dir v) val) dir"
  using table_of_store [of m dir _ v val] by (simp add: pd_ok_def)

lemma pte_addr_store:
  assumes "pd_ok m dir"
  shows "pte_addr (store32 m (pte_addr m dir v) val) dir w = pte_addr m dir w"
  unfolding pte_addr_def [of _ _ w] using table_of_store [OF assms page_index_bounds(1)] by simp

lemma pte_addr_inj:
  assumes "pd_ok m dir" and "v mod 4096 = 0" and "w mod 4096 = 0" and "pte_addr m dir v = pte_addr m dir w"
  shows "v = w"
proof (rule page_index_inj [OF assms(2,3)])
  have tbl: "table_of m dir (v div 0x400000) = table_of m dir (w div 0x400000)"
    using assms(4) pte_slot_other_table [OF _ _ _ page_index_bounds(2) page_index_bounds(2)]
    unfolding pte_addr_def table_of_def by (metis frame_of_aligned)
  with assms(1) page_index_bounds(1) show "v div 0x400000 = w div 0x400000"
    unfolding pd_ok_def by blast
  show "v mod 0x400000 div 4096 = w mod 0x400000 div 4096"
  proof (rule pte_slot_inj [OF _ page_index_bounds(2) page_index_bounds(2)])
    show "pte_slot (table_of m dir (v div 0x400000)) (v mod 0x400000 div 4096)
        = pte_slot (table_of m dir (v div 0x400000)) (w mod 0x400000 div 4096)"
      using assms(4) tbl unfolding pte_addr_def by simp
  qed (simp add: table_of_def)
qed

text \<open>Writing an entry updates the abstract view at one page.\<close>

lemma pte_at_store:
  assumes "pd_ok m dir" and "v mod 4096 = 0" and "w mod 4096 = 0"
  shows "pte_at (store32 m (pte_addr m dir v) val) dir w = (if w = v then val else pte_at m dir w)"
proof (cases "w = v")
  case True
  then show ?thesis by (simp add: pte_at_def pte_addr_store [OF assms(1)])
next
  case False
  then have "pte_addr m dir v \<noteq> pte_addr m dir w" using pte_addr_inj [OF assms] by blast
  then have "load32 (store32 m (pte_addr m dir v) val) (pte_addr m dir w) = load32 m (pte_addr m dir w)"
    using pte_addr_page(2) by (intro load32_store32_other)
  with False show ?thesis by (simp add: pte_at_def pte_addr_store [OF assms(1)])
qed

lemma PAGING_ALIGNED_iff [simp]: "PAGING_ALIGNED v = (v mod 4096 = 0)"
  by (simp add: PAGING_ALIGNED_def PAGING_PAGE_SIZE_def)

lemma region_size: "PAGING_TOTAL_ENTRIES_PER_TABLE * PAGING_PAGE_SIZE = 0x400000"
  by (simp add: config_defs)

lemma paging_get_indexes_eq:
  "v mod 4096 = 0 \<Longrightarrow> paging_get_indexes v d t = (0, v div 0x400000, v mod 0x400000 div 4096)"
  unfolding paging_get_indexes_def region_size by (simp add: PAGING_PAGE_SIZE_def)

lemma paging_set_eq:
  "v mod 4096 = 0 \<Longrightarrow> paging_set dir v val m = (0, store32 m (pte_addr m dir v) val)"
  by (simp add: paging_set_def paging_get_indexes_eq pte_addr_def table_of_def frame_of_def Let_def)

lemma paging_map_eq:
  "v mod 4096 = 0 \<Longrightarrow> p mod 4096 = 0 \<Longrightarrow> paging_map chunk v p flags m =
     (0, store32 m (pte_addr m (load32 m chunk) v) (p OR ucast flags))"
  by (simp add: paging_map_def paging_set_eq)

section \<open>Chunks\<close>

text \<open>
  A chunk in order: the structure, its directory and the 1024 tables are distinct pages
  of the kernel heap.
\<close>

definition chunk_ok :: "mem \<Rightarrow> addr \<Rightarrow> bool" where
  "chunk_ok m chunk = (pd_ok m (load32 m chunk) \<and> chunk \<in> kheap_pool \<and> load32 m chunk \<in> kheap_pool \<and>
     load32 m chunk \<noteq> chunk \<and>
     (\<forall>i < 1024. table_of m (load32 m chunk) i \<in> kheap_pool - {chunk}))"

definition chunk_tables :: "mem \<Rightarrow> addr \<Rightarrow> addr set" where
  "chunk_tables m chunk = (\<lambda>i. table_of m (load32 m chunk) (of_nat i)) ` {..<1024}"

definition chunk_pages :: "mem \<Rightarrow> addr \<Rightarrow> addr set" where
  "chunk_pages m chunk = {chunk, load32 m chunk} \<union> chunk_tables m chunk"

lemma word_index_image: "(\<lambda>i. f (of_nat i :: u32)) ` {..<1024} = f ` {i. i < 1024}"
proof (intro set_eqI iffI)
  fix x assume "x \<in> f ` {i. i < 1024}"
  then obtain i where "i < 1024" "x = f i" by auto
  then have "unat i \<in> {..<1024}" "x = f (of_nat (unat i))" by (simp_all add: word_less_nat_alt)
  then show "x \<in> (\<lambda>i. f (of_nat i :: u32)) ` {..<1024}" by blast
qed (auto simp: word_of_nat_less_iff)

lemma chunk_tables_eq: "chunk_tables m chunk = table_of m (load32 m chunk) ` {i. i < 1024}"
  unfolding chunk_tables_def by (rule word_index_image)

lemma kheap_pool_mod4: "p \<in> kheap_pool \<Longrightarrow> p mod 4 = 0"
  using pte_slot_page(2) [of p 0] kheap_pool_page [of p] by (simp add: pte_slot_def)

text \<open>Writing a page table entry of a chunk.\<close>

lemma chunk_table_page:
  assumes "chunk_ok m chunk" and "q \<in> kheap_pool" and "q \<notin> chunk_tables m chunk"
    and "a div 4096 = q div 4096"
  shows "store32 m (pte_addr m (load32 m chunk) v) val a = m a"
proof (rule store32_page)
  let ?t = "table_of m (load32 m chunk) (v div 0x400000)"
  have "?t \<in> chunk_tables m chunk" unfolding chunk_tables_eq using page_index_bounds(1) by blast
  moreover have "?t \<in> kheap_pool" using assms(1) page_index_bounds(1) by (auto simp: chunk_ok_def)
  ultimately have "q div 4096 \<noteq> ?t div 4096" using kh.pool_same_page assms(2,3) by blast
  then show "a div 4096 \<noteq> pte_addr m (load32 m chunk) v div 4096"
    using pte_addr_page(1) assms(4) by simp
qed (rule pte_addr_page)

lemma chunk_store:
  fixes v :: addr and val :: u32
  assumes "chunk_ok m chunk"
  defines "m' \<equiv> store32 m (pte_addr m (load32 m chunk) v) val"
  shows "load32 m' chunk = load32 m chunk" and "chunk_tables m' chunk = chunk_tables m chunk"
    and "chunk_ok m' chunk" and "kheap_avail m' = kheap_avail m"
proof -
  let ?dir = "load32 m chunk"
  have c: "chunk \<in> kheap_pool" "pd_ok m ?dir" and t: "\<And>i. i < 1024 \<Longrightarrow> table_of m ?dir i \<in> kheap_pool - {chunk}"
    using assms(1) by (auto simp: chunk_ok_def)
  let ?t = "table_of m ?dir (v div 0x400000)"
  have tv: "?t \<in> kheap_pool" "?t \<noteq> chunk" using t [OF page_index_bounds(1) [of v]] by blast+
  show dir: "load32 m' chunk = ?dir"
  proof (rule load32_cong)
    show "m' x = m x" if "x div 4 = chunk div 4" for x
    proof -
      have "pte_addr m ?dir v \<noteq> chunk"
        using pte_addr_page(1) [of m ?dir v] kh.pool_same_page [OF tv(1) c(1)] tv(2) by auto
      moreover have "chunk mod 4 = 0" using c(1) by (rule kheap_pool_mod4)
      ultimately have "x div 4 \<noteq> pte_addr m ?dir v div 4"
        using that aligned_eq_of_div [of chunk 4 "pte_addr m ?dir v"] pte_addr_page(2) by metis
      then show ?thesis unfolding m'_def by (intro store32_out pte_addr_page(2))
    qed
  qed (use c kheap_pool_mod4 in simp)
  have tables: "table_of m' ?dir i = table_of m ?dir i" if "i < 1024" for i
    unfolding m'_def using table_of_store [OF c(2) that] .
  then show "chunk_tables m' chunk = chunk_tables m chunk" unfolding chunk_tables_eq dir by simp
  show "chunk_ok m' chunk"
    using assms(1) tables pd_ok_store [OF c(2), of v val] dir unfolding m'_def by (simp add: chunk_ok_def)
  show "kheap_avail m' = kheap_avail m" unfolding m'_def
    by (rule kh.avail_store32 [OF tv(1) pte_addr_page])
qed

section \<open>Mapping ranges\<close>

lemma page_step:
  fixes d :: u32
  assumes "d mod 4096 = 0" and "n < 1048576"
  shows "unat d div 4096 < Suc n \<longleftrightarrow> d = 0 \<or> unat (d - 4096) div 4096 < n"
    and "d = 0 \<Longrightarrow> \<not> unat (d - 4096) div 4096 < n"
proof -
  have m: "unat (- 4096 :: u32) = 4294963200" by simp
  show "d = 0 \<Longrightarrow> \<not> unat (d - 4096) div 4096 < n" using assms(2) m by simp
  show "unat d div 4096 < Suc n \<longleftrightarrow> d = 0 \<or> unat (d - 4096) div 4096 < n"
  proof (cases "d = 0")
    case False
    have "unat d mod 4096 = 0" using arg_cong [OF assms(1), of unat] by (simp add: unat_mod)
    moreover have "unat d \<noteq> 0" using False by (simp add: unat_eq_zero)
    ultimately have le: "4096 \<le> unat d" by (metis dvd_imp_le mod_0_imp_dvd neq0_conv)
    then have "unat (d - 4096) = unat d - 4096" by (simp add: unat_sub word_le_nat_alt)
    with le have "unat (d - 4096) div 4096 = unat d div 4096 - 1" by (simp add: le_div_geq)
    moreover have "1 \<le> unat d div 4096" using le by (simp add: less_eq_div_iff_mult_less_eq)
    ultimately show ?thesis using False by auto
  qed (use assms(2) in simp)
qed

lemma mult_4096_mod: "4096 * x mod 4096 = (0 :: u32)"
proof -
  have "take_bit 12 (push_bit 12 x) = (0 :: u32)" by (simp add: take_bit_push_bit)
  then show ?thesis by (simp add: push_bit_eq_mult take_bit_eq_mod mult.commute)
qed

lemma aligned_add4096: "v mod 4096 = 0 \<Longrightarrow> w mod 4096 = 0 \<Longrightarrow> (v + w) mod 4096 = (0 :: u32)"
  and aligned_diff4096: "v mod 4096 = 0 \<Longrightarrow> w mod 4096 = 0 \<Longrightarrow> (v - w) mod 4096 = (0 :: u32)"
proof -
  assume "v mod 4096 = 0" "w mod 4096 = 0"
  then have "v = 4096 * (v div 4096)" "w = 4096 * (w div 4096)"
    by (metis add.right_neutral div_mult_mod_eq mult.commute)+
  then have "v + w = 4096 * (v div 4096 + w div 4096)" "v - w = 4096 * (v div 4096 - w div 4096)"
    by (metis distrib_left, metis right_diff_distrib)
  then show "(v + w) mod 4096 = 0" "(v - w) mod 4096 = 0" using mult_4096_mod by metis+
qed

text \<open>
  The entries after mapping \<open>n\<close> pages from \<open>v\<close> to the frames from \<open>p\<close>: the pages of
  the range lead to the frame at the same distance, the others are as they were.
\<close>

definition map_pages :: "addr \<Rightarrow> addr \<Rightarrow> nat \<Rightarrow> u8 \<Rightarrow> (addr \<Rightarrow> u32) \<Rightarrow> addr \<Rightarrow> u32" where
  "map_pages v p n flags f w =
     (if unat (w - v) div 4096 < n then (p + (w - v)) OR ucast flags else f w)"

lemma map_pages_0 [simp]: "map_pages v p 0 flags f = f"
  by (simp add: map_pages_def fun_eq_iff)

lemma map_pages_Suc:
  assumes "v mod 4096 = 0" and "w mod 4096 = 0" and "n < 1048576"
  shows "map_pages v p (Suc n) flags f w =
     map_pages (v + 4096) (p + 4096) n flags (f(v := p OR ucast flags)) w"
proof -
  have d: "(w - v) mod 4096 = 0" using aligned_diff4096 [OF assms(2,1)] .
  have eq: "w - (v + 4096) = w - v - 4096" "p + 4096 + (w - v - 4096) = p + (w - v)" by simp_all
  show ?thesis
  proof (cases "w = v")
    case True
    then show ?thesis using page_step(2) [OF d assms(3)] unfolding map_pages_def eq by simp
  next
    case False
    then have "w - v \<noteq> 0" by simp
    then have "(unat (w - v) div 4096 < Suc n) = (unat (w - v - 4096) div 4096 < n)"
      using page_step(1) [OF d assms(3)] by simp
    then show ?thesis using False unfolding map_pages_def eq by simp
  qed
qed

lemma map_pages_cong:
  "f w = g w \<Longrightarrow> map_pages v p n flags f w = map_pages v p n flags g w"
  by (simp add: map_pages_def)

lemma paging_map_loop_spec:
  fixes flags :: u8
  assumes "chunk_ok m chunk" and "v mod 4096 = 0" and "p mod 4096 = 0" and "n \<le> 1048576"
  defines "m' \<equiv> paging_map_loop chunk v p n flags m"
  shows "load32 m' chunk = load32 m chunk \<and> chunk_tables m' chunk = chunk_tables m chunk \<and>
     chunk_ok m' chunk \<and> kheap_avail m' = kheap_avail m \<and>
     (\<forall>w. w mod 4096 = 0 \<longrightarrow> pte_at m' (load32 m chunk) w =
        map_pages v p n flags (pte_at m (load32 m chunk)) w) \<and>
     (\<forall>q \<in> kheap_pool - chunk_tables m chunk. \<forall>a. a div 4096 = q div 4096 \<longrightarrow> m' a = m a)"
  using assms(1-4) unfolding m'_def
proof (induction n arbitrary: m v p)
  case 0
  then show ?case by simp
next
  case (Suc n)
  let ?dir = "load32 m chunk"
  let ?m1 = "store32 m (pte_addr m ?dir v) (p OR ucast flags)"
  let ?m2 = "paging_map_loop chunk (v + 4096) (p + 4096) n flags ?m1"
  have step: "paging_map_loop chunk v p (Suc n) flags m = ?m2"
    using Suc.prems by (simp add: paging_map_eq PAGING_PAGE_SIZE_def)
  note st = chunk_store [OF Suc.prems(1), of v "p OR ucast flags"]
  have n: "n < 1048576" "n \<le> 1048576" using Suc.prems(4) by simp_all
  have al: "(v + 4096) mod 4096 = 0" "(p + 4096) mod 4096 = 0"
    using aligned_add4096 [of v 4096] aligned_add4096 [of p 4096] Suc.prems(2,3) by simp_all
  note IH = Suc.IH [OF st(3) al n(2)]
  have pte: "pte_at ?m2 ?dir w = map_pages v p (Suc n) flags (pte_at m ?dir) w"
    if w: "w mod 4096 = 0" for w
  proof -
    have "pd_ok m ?dir" using Suc.prems(1) by (simp add: chunk_ok_def)
    then have upd: "pte_at ?m1 ?dir w = ((pte_at m ?dir)(v := p OR ucast flags)) w"
      using pte_at_store Suc.prems(2) w by simp
    have "pte_at ?m2 ?dir w = map_pages (v + 4096) (p + 4096) n flags (pte_at ?m1 ?dir) w"
      using IH w st(1) by simp
    also have "\<dots> = map_pages (v + 4096) (p + 4096) n flags ((pte_at m ?dir)(v := p OR ucast flags)) w"
      by (rule map_pages_cong) (rule upd)
    finally show ?thesis using map_pages_Suc [OF Suc.prems(2) w n(1)] by simp
  qed
  have frame: "?m2 a = m a" if "q \<in> kheap_pool - chunk_tables m chunk" "a div 4096 = q div 4096" for q a
    using IH st(2) chunk_table_page [OF Suc.prems(1)] that by auto
  show ?case unfolding step using IH st pte frame by simp
qed

section \<open>Creating a chunk\<close>

lemma slot_load_cong:
  assumes "t mod 4096 = 0" and "i < 1024" and "\<And>a. a div 4096 = t div 4096 \<Longrightarrow> m a = m' a"
  shows "load32 m (pte_slot t i) = load32 m' (pte_slot t i)"
proof (rule load32_cong)
  fix x :: addr assume "x div 4 = pte_slot t i div 4"
  then have "unat (x div 4) = unat (pte_slot t i div 4)" by simp
  then have "unat x div 4 div 1024 = unat (pte_slot t i) div 4 div 1024" by (simp add: unat_div)
  then have "unat x div (4 * 1024) = unat (pte_slot t i) div (4 * 1024)" by (simp only: div_mult2_eq)
  then have "x div 4096 = pte_slot t i div 4096" by (simp add: word_unat_eq_iff unat_div)
  with assms pte_slot_page(1) show "m x = m' x" by simp
qed (rule pte_slot_page [OF assms(1,2)])

lemma entry_bytes: "4 * PAGING_TOTAL_ENTRIES_PER_TABLE = (4096 :: u32)"
  by (simp add: config_defs)

lemma paging_fill_table_spec:
  assumes "entry mod 4096 = 0"
  shows "(\<forall>b < 1024. load32 (paging_fill_table entry offset flags m) (pte_slot entry (of_nat b))
             = (offset + of_nat b * 4096) OR ucast flags) \<and>
     (\<forall>a. a div 4096 \<noteq> entry div 4096 \<longrightarrow> paging_fill_table entry offset flags m a = m a)"
proof -
  let ?P = "\<lambda>i t. (\<forall>b < i. load32 t (pte_slot entry (of_nat b)) = (offset + of_nat b * 4096) OR ucast flags) \<and>
     (\<forall>a. a div 4096 \<noteq> entry div 4096 \<longrightarrow> t a = m a)"
  let ?f = "\<lambda>b m. store32 m (pte_slot entry (of_nat b)) ((offset + of_nat b * PAGING_PAGE_SIZE) OR ucast flags)"
  have "?P 1024 (for_up 1024 ?f m)"
  proof (rule for_up_inv [of ?P])
    fix i :: nat and t :: mem assume i: "i < 1024" and P: "?P i t"
    have w: "of_nat b < (1024 :: u32)" if "b < 1024" for b using that by (simp add: word_of_nat_less_iff)
    note slot = pte_slot_page [OF assms w]
    have "load32 (?f i t) (pte_slot entry (of_nat b)) = (offset + of_nat b * 4096) OR ucast flags"
      if "b < Suc i" for b
    proof (cases "b = i")
      case False
      with that i have b: "b < i" "b < 1024" by simp_all
      have "(of_nat i :: u32) \<noteq> of_nat b" using b i by (simp add: word_of_nat_inj)
      then have "pte_slot entry (of_nat i) \<noteq> pte_slot entry (of_nat b)"
        using pte_slot_inj [OF assms w [OF i] w [OF b(2)]] by blast
      then have "load32 (?f i t) (pte_slot entry (of_nat b)) = load32 t (pte_slot entry (of_nat b))"
        by (intro load32_store32_other slot(2) i b(2))
      then show ?thesis using P b(1) by simp
    qed (simp add: PAGING_PAGE_SIZE_def)
    moreover have "?f i t a = m a" if "a div 4096 \<noteq> entry div 4096" for a
    proof -
      have "?f i t a = t a" using that slot(1) [OF i] by (intro store32_page slot(2) i) simp
      then show ?thesis using P that by simp
    qed
    ultimately show "?P (Suc i) (?f i t)" by blast
  qed simp
  then show ?thesis by (simp add: paging_fill_table_def PAGING_TOTAL_ENTRIES_PER_TABLE_def)
qed

text \<open>
  What the loop over the directory has done after \<open>length ts\<close> rounds: the tables
  \<open>ts\<close> are pages of their own, filled with consecutive frames, the directory points to
  them, and no other page in use has changed.
\<close>

definition new_inv :: "mem \<Rightarrow> addr \<Rightarrow> u8 \<Rightarrow> addr list \<Rightarrow> u32 \<times> mem \<Rightarrow> bool" where
  "new_inv m0 dir flags ts = (\<lambda>(offset, m). offset = of_nat (length ts) * 0x400000 \<and>
     distinct (dir # ts) \<and> dir \<in> kheap_avail m0 \<and> set ts \<subseteq> kheap_avail m0 \<and>
     kheap_avail m = kheap_avail m0 - {dir} - set ts \<and>
     (\<forall>j < length ts. load32 m (pte_slot dir (of_nat j)) = ts ! j OR ucast (flags OR PAGING_IS_WRITABLE) \<and>
        (\<forall>b < 1024. load32 m (pte_slot (ts ! j) (of_nat b)) =
           (of_nat j * 0x400000 + of_nat b * 4096) OR ucast flags)) \<and>
     (\<forall>q \<in> kheap_pool - kheap_avail m0. \<forall>a. a div 4096 = q div 4096 \<longrightarrow> m a = m0 a))"

lemma ucast_or_u8: "(ucast (a OR b :: u8) :: u32) = ucast a OR ucast b"
  by (rule bit_word_eqI) (auto simp: bit_simps)

lemma paging_new_table_step:
  assumes inv: "new_inv m0 dir flags ts (offset, m)" and len: "length ts < 1024"
    and free: "kheap_avail m \<noteq> {}"
  shows "\<exists>p st. paging_new_table dir flags (length ts) (offset, m) = Done st \<and>
     new_inv m0 dir flags (ts @ [p]) st"
proof -
  have "dir \<in> kheap_avail m0" using inv by (simp add: new_inv_def)
  moreover from this have "dir \<in> kheap_pool" using kh.avail_pool by blast
  ultimately have dir: "dir \<in> kheap_avail m0" "dir \<in> kheap_pool" "dir mod 4096 = 0"
    using kheap_pool_page [of dir] by simp_all
  obtain p m1 where al: "kzalloc 4096 m = (p, m1)" "p \<in> kheap_avail m" "p \<in> kheap_pool" "p \<noteq> 0"
    "kheap_avail m1 = kheap_avail m - {p}"
    and fr: "\<And>q a. q \<in> kheap_pool \<Longrightarrow> q \<noteq> p \<Longrightarrow> a div 4096 = q div 4096 \<Longrightarrow> m1 a = m a"
    by (rule kh.alloc_elim [of 4096 m]) (use free in auto)
  have pal: "p mod 4096 = 0" using kheap_pool_page [OF al(3)] by simp
  let ?m2 = "paging_fill_table p offset flags m1"
  let ?slot = "pte_slot dir (of_nat (length ts))"
  let ?m3 = "store32 ?m2 ?slot (p OR ucast flags OR ucast PAGING_IS_WRITABLE)"
  note fill = paging_fill_table_spec [OF pal, of offset flags m1]
  have w: "of_nat b < (1024 :: u32)" if "b < 1024" for b using that by (simp add: word_of_nat_less_iff)
  note slot = pte_slot_page [OF dir(3) w]
  have new: "p \<noteq> dir" "p \<notin> set ts" "p \<in> kheap_avail m0" using inv al(2) by (auto simp: new_inv_def)
  have m2: "?m2 a = m a" if "q \<in> kheap_pool" "q \<noteq> p" "a div 4096 = q div 4096" for q a
  proof -
    have "a div 4096 \<noteq> p div 4096" using kh.pool_same_page [OF that(1) al(3)] that(2,3) by auto
    then have "?m2 a = m1 a" using fill by blast
    then show ?thesis using fr [OF that] by simp
  qed
  have m3: "?m3 a = ?m2 a" if "q \<in> kheap_pool" "q \<noteq> dir" "a div 4096 = q div 4096" for q a
    using that kh.pool_same_page [OF that(1) dir(2)] slot(1) [OF len]
    by (intro store32_page slot(2) len) auto
  have avail: "kheap_avail ?m3 = kheap_avail m0 - {dir} - set (ts @ [p])"
  proof -
    have "kheap_avail ?m3 = kheap_avail ?m2"
      by (rule kh.avail_store32 [OF dir(2)]) (use slot len in auto)
    also have "kheap_avail ?m2 = kheap_avail m1"
      by (rule kh.avail_local) (use fill kh.pool_meta [OF al(3)] in blast)
    also have "\<dots> = kheap_avail m0 - {dir} - set (ts @ [p])"
      using al(5) inv by (auto simp: new_inv_def)
    finally show ?thesis .
  qed
  have tab: "load32 ?m3 (pte_slot t (of_nat b)) = load32 ?m2 (pte_slot t (of_nat b))"
    if "t \<in> kheap_pool" "t \<noteq> dir" "b < 1024" for t b
    using m3 that kheap_pool_page w by (intro slot_load_cong) auto
  have entries: "load32 ?m3 (pte_slot dir (of_nat j)) = (ts @ [p]) ! j OR ucast (flags OR PAGING_IS_WRITABLE) \<and>
        (\<forall>b < 1024. load32 ?m3 (pte_slot ((ts @ [p]) ! j) (of_nat b)) =
           (of_nat j * 0x400000 + of_nat b * 4096) OR ucast flags)" if "j < Suc (length ts)" for j
  proof (cases "j = length ts")
    case True
    then show ?thesis using tab [OF al(3) new(1)] fill inv
      by (auto simp: new_inv_def ucast_or_u8 or.assoc)
  next
    case False
    with that have j: "j < length ts" by simp
    then have tj: "ts ! j \<in> kheap_pool" "ts ! j \<noteq> dir" "ts ! j \<noteq> p"
      using inv new(2) kh.avail_pool by (auto simp: new_inv_def dest: nth_mem)
    have "(of_nat (length ts) :: u32) \<noteq> of_nat j" using j len by (simp add: word_of_nat_inj)
    then have ne: "?slot \<noteq> pte_slot dir (of_nat j)"
      using pte_slot_inj [OF dir(3) w [OF len] w] j len by (meson less_trans)
    have "load32 ?m3 (pte_slot dir (of_nat j)) = load32 ?m2 (pte_slot dir (of_nat j))"
      using ne j len by (intro load32_store32_other slot(2)) simp_all
    also have "\<dots> = load32 m (pte_slot dir (of_nat j))"
      using m2 [OF dir(2)] new(1) dir(3) w j len by (intro slot_load_cong) auto
    finally have d: "load32 ?m3 (pte_slot dir (of_nat j)) = load32 m (pte_slot dir (of_nat j))" .
    have "load32 ?m3 (pte_slot (ts ! j) (of_nat b)) = load32 m (pte_slot (ts ! j) (of_nat b))"
      if "b < 1024" for b
      using tab [OF tj(1,2) that] slot_load_cong [of "ts ! j" "of_nat b" ?m2 m] m2 [OF tj(1,3)]
        kheap_pool_page [OF tj(1)] w [OF that] by simp
    with d inv j show ?thesis by (simp add: new_inv_def nth_append)
  qed
  have "paging_new_table dir flags (length ts) (offset, m) = Done (offset + 0x400000, ?m3)"
    using al(1,4) by (simp add: paging_new_table_def entry_bytes region_size Let_def)
  moreover have "?m3 a = m0 a" if "q \<in> kheap_pool - kheap_avail m0" "a div 4096 = q div 4096" for q a
  proof -
    have q: "q \<in> kheap_pool" "q \<noteq> p" "q \<noteq> dir" using that dir(1) new(3) by auto
    then have "?m3 a = m a" using m3 m2 that(2) by simp
    also have "m a = m0 a" using inv that by (simp add: new_inv_def)
    finally show ?thesis .
  qed
  then have "new_inv m0 dir flags (ts @ [p]) (offset + 0x400000, ?m3)"
    using inv avail entries new by (simp add: new_inv_def algebra_simps)
  ultimately show ?thesis by blast
qed

lemma new_inv_card:
  assumes "new_inv m0 dir flags ts (offset, m)"
  shows "card (kheap_avail m) = card (kheap_avail m0) - Suc (length ts)"
proof -
  have inv: "kheap_avail m = kheap_avail m0 - set (dir # ts)" "distinct (dir # ts)"
    "set (dir # ts) \<subseteq> kheap_avail m0" using assms by (auto simp: new_inv_def)
  then have "card (set (dir # ts)) = Suc (length ts)" by (metis distinct_card length_Cons)
  with inv(1,3) show ?thesis by (simp only: card_Diff_subset List.finite_set)
qed

lemma paging_tables_loop:
  assumes "new_inv m0 dir flags [] st" and "k \<le> 1024" and "k < card (kheap_avail m0)"
  shows "\<exists>ts st'. for_upE k (paging_new_table dir flags) st = Done st' \<and> length ts = k \<and>
     new_inv m0 dir flags ts st'"
  using assms(2,3)
proof (induction k)
  case 0
  then show ?case using assms(1) by auto
next
  case (Suc k)
  then obtain ts offset m where IH: "for_upE k (paging_new_table dir flags) st = Done (offset, m)"
    "length ts = k" "new_inv m0 dir flags ts (offset, m)" by auto
  have "card (kheap_avail m) \<noteq> 0" using new_inv_card [OF IH(3)] IH(2) Suc.prems by simp
  then have "kheap_avail m \<noteq> {}" by auto
  with paging_new_table_step [OF IH(3)] IH(2) Suc.prems obtain p st' where
    "paging_new_table dir flags k (offset, m) = Done st'" "new_inv m0 dir flags (ts @ [p]) st'" by auto
  with IH show ?case by (intro exI [of _ "ts @ [p]"] exI [of _ st']) simp
qed

lemma paging_tables_panic:
  assumes "new_inv m0 dir flags [] st" and "card (kheap_avail m0) \<le> 1024"
  shows "for_upE 1024 (paging_new_table dir flags) st = Panic ''Failed to allocate page table entry''"
proof -
  let ?f = "paging_new_table dir flags"
  have "dir \<in> kheap_avail m0" using assms(1) by (cases st) (simp add: new_inv_def)
  then have pos: "0 < card (kheap_avail m0)" using kh.card_alloc by (auto simp: card_gt_0_iff)
  define k where "k = card (kheap_avail m0) - 1"
  with pos assms(2) have k: "k < card (kheap_avail m0)" "k < 1024" "Suc k = card (kheap_avail m0)" by auto
  from paging_tables_loop [OF assms(1) _ k(1)] k(2) obtain ts offset m where
    st: "for_upE k ?f st = Done (offset, m)" "length ts = k" "new_inv m0 dir flags ts (offset, m)" by auto
  have "card (kheap_avail m) = 0" using new_inv_card [OF st(3)] st(2) k(3) by simp
  then have "kheap_avail m = {}" using kh.card_alloc [of m] by simp
  then have "kzalloc 4096 m = (0, memset m 0 0 4096)" by (intro kzalloc_full) simp_all
  then have panic: "?f k (offset, m) = Panic ''Failed to allocate page table entry''"
    by (simp add: paging_new_table_def entry_bytes Let_def)
  have "for_upE n ?f st = Panic ''Failed to allocate page table entry''" if "k < n" for n
    using that by (induction n) (auto simp: less_Suc_eq st(1) panic)
  with k(2) show ?thesis by simp
qed

lemma chunk_of_new_inv:
  assumes inv: "new_inv m0 dir flags ts (offset, m)" and len: "length ts = 1024"
    and c: "c \<in> kheap_avail m" and load: "load32 m' c = dir"
    and all: "\<forall>q \<in> kheap_pool - {c}. \<forall>a. a div 4096 = q div 4096 \<longrightarrow> m' a = m a"
  shows "chunk_ok m' c" and "chunk_pages m' c = {c, dir} \<union> set ts"
    and "v mod 4096 = 0 \<Longrightarrow> pte_at m' dir v = v OR ucast flags"
proof -
  have same: "m' a = m a" if "q \<in> kheap_pool" "q \<noteq> c" "a div 4096 = q div 4096" for q a
    using all that by blast
  have d: "dir \<in> kheap_avail m0" "distinct (dir # ts)" "set ts \<subseteq> kheap_avail m0"
    and c0: "c \<in> kheap_avail m0" "c \<noteq> dir" "c \<notin> set ts"
    using inv c by (auto simp: new_inv_def)
  have pool: "dir \<in> kheap_pool" "c \<in> kheap_pool" "set ts \<subseteq> kheap_pool"
    using d c0 kh.avail_pool by blast+
  have w: "of_nat (unat i) = i" "unat i < 1024" if "i < 1024" for i :: u32
    using that by (simp_all add: word_less_nat_alt)
  have ents: "load32 m (pte_slot dir (of_nat j)) = ts ! j OR ucast (flags OR PAGING_IS_WRITABLE)"
    "b < 1024 \<Longrightarrow> load32 m (pte_slot (ts ! j) (of_nat b)) =
       (of_nat j * 0x400000 + of_nat b * 4096) OR ucast flags" if "j < 1024" for j b
    using inv that len by (simp_all add: new_inv_def)
  have tj: "ts ! unat i \<in> set ts" if "i < 1024" for i :: u32 using w(2) [OF that] len by simp
  have tbl: "table_of m' dir i = ts ! unat i" if "i < 1024" for i
  proof -
    have "load32 m' (pte_slot dir i) = load32 m (pte_slot dir i)"
      using same [OF pool(1)] c0(2) that kheap_pool_page [OF pool(1)] by (intro slot_load_cong) auto
    also have "\<dots> = ts ! unat i OR ucast (flags OR PAGING_IS_WRITABLE)"
      using ents(1) [OF w(2) [OF that]] unfolding w(1) [OF that] .
    finally show ?thesis unfolding table_of_def
      using tj [OF that] pool(3) kheap_pool_page flags_small by (simp add: frame_of_or(1) subset_iff)
  qed
  have inj: "i = j" if "i < 1024" "j < 1024" "ts ! unat i = ts ! unat j" for i j :: u32
  proof -
    have "unat i = unat j"
      using that(3) d(2) w(2) [OF that(1)] w(2) [OF that(2)] len by (simp only: distinct.simps nth_eq_iff_index_eq)
    then show ?thesis by (simp add: word_unat_eq_iff)
  qed
  show ok: "chunk_ok m' c"
    unfolding chunk_ok_def pd_ok_def load
    using pool c0 d(2) tbl tj inj kheap_pool_page [OF pool(1)] by auto
  have "chunk_tables m' c = set ts"
  proof -
    have "chunk_tables m' c = (\<lambda>i. ts ! i) ` {..<1024}"
      unfolding chunk_tables_def load by (intro image_cong) (simp_all add: tbl word_of_nat_less_iff unat_of_nat32)
    then show ?thesis using len by (simp add: nth_image [of "length ts" ts, simplified, symmetric] atLeast0LessThan)
  qed
  then show "chunk_pages m' c = {c, dir} \<union> set ts" by (simp add: chunk_pages_def load)
  show "pte_at m' dir v = v OR ucast flags" if v: "v mod 4096 = 0"
  proof -
    let ?i = "v div 0x400000" and ?b = "v mod 0x400000 div 4096"
    note ib = page_index_bounds [of v]
    have t: "ts ! unat ?i \<in> kheap_pool" "ts ! unat ?i \<noteq> c" using tj [OF ib(1)] pool(3) c0(3) by auto
    have "pte_at m' dir v = load32 m' (pte_slot (ts ! unat ?i) ?b)"
      by (simp add: pte_at_def pte_addr_def tbl [OF ib(1)])
    also have "\<dots> = load32 m (pte_slot (ts ! unat ?i) ?b)"
      using same [OF t] kheap_pool_page [OF t(1)] ib(2) by (intro slot_load_cong) auto
    also have "\<dots> = (of_nat (unat ?i) * 0x400000 + of_nat (unat ?b) * 4096) OR ucast flags"
      using ents(2) [OF w(2) [OF ib(1)] w(2) [OF ib(2)]] unfolding w(1) [OF ib(2)] .
    also have "\<dots> = v OR ucast flags"
      unfolding w(1) [OF ib(1)] w(1) [OF ib(2)] page_index_rebuild [OF v] ..
    finally show ?thesis .
  qed
qed

lemma paging_new_chunk_spec:
  assumes "1026 \<le> card (kheap_avail m)"
  shows "\<exists>c m'. paging_new_chunk flags m = Done (c, m') \<and> chunk_ok m' c \<and>
     chunk_pages m' c \<subseteq> kheap_avail m \<and> kheap_avail m' = kheap_avail m - chunk_pages m' c \<and>
     (\<forall>v. v mod 4096 = 0 \<longrightarrow> pte_at m' (load32 m' c) v = v OR ucast flags) \<and>
     (\<forall>q \<in> kheap_pool - kheap_avail m. \<forall>a. a div 4096 = q div 4096 \<longrightarrow> m' a = m a)"
proof -
  have ne0: "kheap_avail m \<noteq> {}" using assms by auto
  obtain dir m1 where d: "kzalloc 4096 m = (dir, m1)" "dir \<in> kheap_avail m" "dir \<in> kheap_pool"
      "dir \<noteq> 0" "kheap_avail m1 = kheap_avail m - {dir}"
    and fr1: "\<And>q a. q \<in> kheap_pool \<Longrightarrow> q \<noteq> dir \<Longrightarrow> a div 4096 = q div 4096 \<Longrightarrow> m1 a = m a"
    by (rule kh.alloc_elim [of 4096 m]) (use ne0 in auto)
  have "new_inv m dir flags [] (0, m1)" unfolding new_inv_def using d fr1 by auto
  from paging_tables_loop [OF this, of 1024] assms obtain ts offset m2 where
    loop: "for_upE 1024 (paging_new_table dir flags) (0, m1) = Done (offset, m2)"
    and len: "length ts = 1024" and inv: "new_inv m dir flags ts (offset, m2)" by auto
  have "card (kheap_avail m2) \<noteq> 0" using new_inv_card [OF inv] len assms by simp
  then have ne: "kheap_avail m2 \<noteq> {}" by auto
  obtain c m3 where c: "kzalloc 4 m2 = (c, m3)" "c \<in> kheap_avail m2" "c \<in> kheap_pool" "c \<noteq> 0"
      "kheap_avail m3 = kheap_avail m2 - {c}"
    and fr3: "\<And>q a. q \<in> kheap_pool \<Longrightarrow> q \<noteq> c \<Longrightarrow> a div 4096 = q div 4096 \<Longrightarrow> m3 a = m2 a"
    by (rule kh.alloc_elim [of 4 m2]) (use ne in auto)
  let ?m = "store32 m3 c dir"
  have res: "paging_new_chunk flags m = Done (c, ?m)"
    using d(1,4) loop c(1,4) by (simp add: paging_new_chunk_def entry_bytes Let_def
        PAGING_TOTAL_ENTRIES_PER_TABLE_def del: for_upE.simps)
  have same: "?m a = m2 a" if "q \<in> kheap_pool" "q \<noteq> c" "a div 4096 = q div 4096" for q a
  proof -
    have "a div 4096 \<noteq> c div 4096" using kh.pool_same_page [OF that(1) c(3)] that(2,3) by auto
    then have "?m a = m3 a" by (intro store32_page kheap_pool_mod4 c)
    then show ?thesis using fr3 [OF that] by simp
  qed
  have av: "kheap_avail ?m = kheap_avail m2 - {c}"
    using kh.avail_store32 [OF c(3) refl kheap_pool_mod4 [OF c(3)]] c(5) by simp
  have load: "load32 ?m c = dir" by simp
  have "\<forall>q \<in> kheap_pool - {c}. \<forall>a. a div 4096 = q div 4096 \<longrightarrow> ?m a = m2 a" using same by blast
  note chunk = chunk_of_new_inv [OF inv len c(2) load this]
  have av2: "kheap_avail m2 = kheap_avail m - {dir} - set ts" "set ts \<subseteq> kheap_avail m"
    using inv by (simp_all add: new_inv_def)
  have frame: "?m a = m a" if q: "q \<in> kheap_pool - kheap_avail m" "a div 4096 = q div 4096" for q a
  proof -
    have "q \<noteq> c" using q(1) c(2) av2 by auto
    then have "?m a = m2 a" using same q by blast
    also have "m2 a = m a" using inv q by (simp add: new_inv_def)
    finally show ?thesis .
  qed
  have pages: "chunk_pages ?m c \<subseteq> kheap_avail m" "kheap_avail ?m = kheap_avail m - chunk_pages ?m c"
    unfolding chunk(2) av av2(1) using c(2) [unfolded av2(1)] av2(2) d(2) by blast+
  have pte: "\<forall>v. v mod 4096 = 0 \<longrightarrow> pte_at ?m (load32 ?m c) v = v OR ucast flags"
    unfolding load using chunk(3) by blast
  show ?thesis using res chunk(1) pages pte frame by blast
qed

lemma paging_new_chunk_short:
  assumes "card (kheap_avail m) < 1026"
  shows "\<exists>msg. paging_new_chunk flags m = Panic msg"
proof (cases "kheap_avail m = {}")
  case True
  then have "kzalloc 4096 m = (0, memset m 0 0 4096)" by (intro kzalloc_full) simp_all
  then show ?thesis by (simp add: paging_new_chunk_def entry_bytes)
next
  case False
  obtain dir m1 where d: "kzalloc 4096 m = (dir, m1)" "dir \<in> kheap_avail m" "dir \<in> kheap_pool"
      "dir \<noteq> 0" "kheap_avail m1 = kheap_avail m - {dir}"
    and fr1: "\<And>q a. q \<in> kheap_pool \<Longrightarrow> q \<noteq> dir \<Longrightarrow> a div 4096 = q div 4096 \<Longrightarrow> m1 a = m a"
    by (rule kh.alloc_elim [of 4096 m]) (use False in auto)
  have start: "new_inv m dir flags [] (0, m1)" unfolding new_inv_def using d fr1 by auto
  show ?thesis
  proof (cases "card (kheap_avail m) \<le> 1024")
    case True
    from paging_tables_panic [OF start this] d(1,4) show ?thesis
      by (simp add: paging_new_chunk_def entry_bytes Let_def PAGING_TOTAL_ENTRIES_PER_TABLE_def
          del: for_upE.simps)
  next
    case False
    from paging_tables_loop [OF start, of 1024] False obtain ts offset m2 where
      loop: "for_upE 1024 (paging_new_table dir flags) (0, m1) = Done (offset, m2)"
      and inv: "length ts = 1024" "new_inv m dir flags ts (offset, m2)" by auto
    have "card (kheap_avail m2) = 0" using new_inv_card [OF inv(2)] inv(1) assms by simp
    then have "kheap_avail m2 = {}" using kh.card_alloc [of m2] by simp
    then have "kzalloc 4 m2 = (0, memset m2 0 0 4)" by (intro kzalloc_full) simp_all
    with d(1,4) loop show ?thesis
      by (simp add: paging_new_chunk_def entry_bytes Let_def PAGING_TOTAL_ENTRIES_PER_TABLE_def
          del: for_upE.simps)
  qed
qed

section \<open>Freeing a chunk\<close>

lemma nonmeta_load:
  assumes "t \<in> kheap_pool" and "i < 1024" and "\<And>a. \<not> kheap_meta a \<Longrightarrow> m' a = m a"
  shows "load32 m' (pte_slot t i) = load32 m (pte_slot t i)"
  using kheap_pool_page [OF assms(1)] kheap_pool_meta [OF assms(1)] assms(2,3)
  by (intro slot_load_cong) auto

lemma nonmeta_load_head:
  assumes "t \<in> kheap_pool" and "\<And>a. \<not> kheap_meta a \<Longrightarrow> m' a = m a"
  shows "load32 m' t = load32 m t"
  using nonmeta_load [OF assms(1), of 0 m' m] assms(2) by (simp add: pte_slot_def)

lemma paging_free_chunk_spec:
  assumes ok: "chunk_ok m chunk"
  shows "kheap_avail (paging_free_chunk chunk m) = kheap_avail m \<union> chunk_pages m chunk \<and>
     (\<forall>a. \<not> kheap_meta a \<longrightarrow> paging_free_chunk chunk m a = m a)"
proof -
  let ?dir = "load32 m chunk"
  have c: "chunk \<in> kheap_pool" "?dir \<in> kheap_pool" using ok by (auto simp: chunk_ok_def)
  have t: "table_of m ?dir (of_nat j) \<in> kheap_pool" if "j < 1024" for j
    using ok that by (simp add: chunk_ok_def word_of_nat_less_iff)
  let ?f = "\<lambda>i m. let entry = load32 m (pte_slot (load32 m chunk) (of_nat i));
                      tbl = entry AND 0xfffff000
                  in kfree tbl m"
  let ?P = "\<lambda>i m'. kheap_avail m' = kheap_avail m \<union> (\<lambda>j. table_of m ?dir (of_nat j)) ` {..<i} \<and>
     (\<forall>a. \<not> kheap_meta a \<longrightarrow> m' a = m a)"
  have loop: "?P 1024 (for_up 1024 ?f m)"
  proof (rule for_up_inv [of ?P])
    fix i :: nat and m' :: mem assume i: "i < 1024" and P: "?P i m'"
    have w: "of_nat i < (1024 :: u32)" using i by (simp add: word_of_nat_less_iff)
    have "load32 m' chunk = ?dir" by (rule nonmeta_load_head [OF c(1)]) (use P in blast)
    moreover have "load32 m' (pte_slot ?dir (of_nat i)) = load32 m (pte_slot ?dir (of_nat i))"
      by (rule nonmeta_load [OF c(2) w]) (use P in blast)
    ultimately have f: "?f i m' = kfree (table_of m ?dir (of_nat i)) m'"
      by (simp add: table_of_def frame_of_def Let_def)
    show "?P (Suc i) (?f i m')" unfolding f
      using P kfree_page [OF t [OF i], of m'] kfree_frame [OF t [OF i]] by (auto simp: lessThan_Suc)
  qed simp
  define m1 where "m1 = for_up 1024 ?f m"
  have m1: "kheap_avail m1 = kheap_avail m \<union> chunk_tables m chunk"
    "\<And>a. \<not> kheap_meta a \<Longrightarrow> m1 a = m a"
    using loop unfolding m1_def chunk_tables_def by blast+
  have "load32 m1 chunk = ?dir" by (rule nonmeta_load_head [OF c(1) m1(2)])
  then have res: "paging_free_chunk chunk m = kfree chunk (kfree ?dir m1)"
    unfolding paging_free_chunk_def m1_def by (simp add: PAGING_TOTAL_ENTRIES_PER_TABLE_def Let_def)
  show ?thesis unfolding res chunk_pages_def
    using m1 kfree_page [OF c(1), of "kfree ?dir m1"] kfree_page [OF c(2), of m1]
      kfree_frame [OF c(1)] kfree_frame [OF c(2)] by auto
qed

section \<open>Translating addresses\<close>

lemma page_lower:
  "PAGE_ALIGN_LOWER a = a div 4096 * 4096" "PAGE_ALIGN_LOWER a mod 4096 = 0"
proof -
  show eq: "PAGE_ALIGN_LOWER a = a div 4096 * 4096"
    unfolding PAGE_ALIGN_LOWER_def ALIGN_LOWER_def PAGING_PAGE_SIZE_def
    by (metis add_diff_cancel_right' div_mult_mod_eq)
  show "PAGE_ALIGN_LOWER a mod 4096 = 0"
    unfolding eq using mult_4096_mod [of "a div 4096"] by (simp only: mult.commute)
qed

lemma page_lower_of: "v mod 4096 = 0 \<Longrightarrow> a div 4096 = v div 4096 \<Longrightarrow> PAGE_ALIGN_LOWER a = v"
  unfolding page_lower(1) by (metis add.right_neutral div_mult_mod_eq)

lemma paging_get_paddr_eq:
  "paging_get_paddr dir a m = frame_of (pte_at m dir (PAGE_ALIGN_LOWER a)) + a mod 4096"
  unfolding paging_get_paddr_def paging_get_indexes_eq [OF page_lower(2)]
  by (simp add: pte_at_def pte_addr_def table_of_def frame_of_def PAGING_PAGE_SIZE_def Let_def)

lemma paging_get_flags_eq:
  "paging_get_flags dir a m = pte_at m dir (PAGE_ALIGN_LOWER a) AND 0xfff"
  unfolding paging_get_flags_def paging_get_indexes_eq [OF page_lower(2)]
  by (simp add: pte_at_def pte_addr_def table_of_def frame_of_def Let_def)

lemma paging_get_eq:
  "v mod 4096 = 0 \<Longrightarrow> paging_get dir v e m = (0, pte_at m dir v)"
  by (simp add: paging_get_def paging_get_indexes_eq pte_at_def pte_addr_def table_of_def frame_of_def)

lemma paging_map_to_spec:
  assumes "chunk_ok m chunk" and "v mod 4096 = 0" and "p mod 4096 = 0" and "pend mod 4096 = 0"
    and "p \<le> pend"
  shows "\<exists>m'. paging_map_to chunk v p pend flags m = (0, m') \<and> chunk_ok m' chunk \<and>
     load32 m' chunk = load32 m chunk \<and> chunk_tables m' chunk = chunk_tables m chunk \<and> kheap_avail m' = kheap_avail m \<and>
     (\<forall>w. w mod 4096 = 0 \<longrightarrow> pte_at m' (load32 m chunk) w =
        map_pages v p (unat (pend - p) div 4096) flags (pte_at m (load32 m chunk)) w) \<and>
     (\<forall>q \<in> kheap_pool - chunk_tables m chunk. \<forall>a. a div 4096 = q div 4096 \<longrightarrow> m' a = m a)"
proof -
  have n: "unat ((pend - p) div 4096) = unat (pend - p) div 4096" by (simp add: unat_div)
  have le: "unat (pend - p) div 4096 \<le> 1048576" using unat32_lt [of "pend - p"] by simp
  have "\<not> pend < p" using assms(5) by (simp add: not_less)
  then have "paging_map_to chunk v p pend flags m
      = (0, paging_map_loop chunk v p (unat (pend - p) div 4096) flags m)"
    unfolding paging_map_to_def paging_map_range_def PAGING_PAGE_SIZE_def PAGING_ALIGNED_iff
      assms(2-4) Let_def n by (simp only: if_False simp_thms)
  with paging_map_loop_spec [OF assms(1-3) le, of flags] show ?thesis by blast
qed

lemma PAGE_ALIGN_mod: "PAGE_ALIGN v mod 4096 = 0"
proof -
  have e: "NOT (4096 - 1 :: u32) = 0xfffff000" by simp
  have "PAGE_ALIGN v = frame_of (v + 4095)"
    unfolding PAGE_ALIGN_def ALIGN_def PAGING_PAGE_SIZE_def frame_of_def e by simp
  then show ?thesis by simp
qed

lemma PAGE_ALIGN_div: "PAGE_ALIGN v div 4096 = (v + 4095) div 4096"
proof -
  have e: "NOT (4096 - 1 :: u32) = NOT (mask 12)" by (simp add: mask_eq_exp_minus_1)
  have d: "y div 4096 = drop_bit 12 y" for y :: u32 by (simp add: drop_bit_eq_div)
  show ?thesis unfolding PAGE_ALIGN_def ALIGN_def PAGING_PAGE_SIZE_def e d
    by (rule bit_word_eqI) (auto simp: bit_simps dest: bit_imp_le_length)
qed

text \<open>Writes elsewhere leave the page map of a chunk as it is.\<close>

lemma chunk_frame:
  assumes ok: "chunk_ok m chunk"
    and same: "\<And>q a. q \<in> chunk_pages m chunk \<Longrightarrow> a div 4096 = q div 4096 \<Longrightarrow> m' a = m a"
  shows "load32 m' chunk = load32 m chunk" and "pte_at m' (load32 m chunk) v = pte_at m (load32 m chunk) v"
    and "chunk_ok m' chunk" and "chunk_pages m' chunk = chunk_pages m chunk"
proof -
  let ?dir = "load32 m chunk"
  have p: "chunk \<in> kheap_pool" "?dir \<in> kheap_pool" using ok by (auto simp: chunk_ok_def)
  have load: "load32 m' (pte_slot t i) = load32 m (pte_slot t i)" if "t \<in> chunk_pages m chunk" "t mod 4096 = 0" "i < 1024" for t i
    using that(2,3) by (rule slot_load_cong) (use same that(1) in blast)
  show dir: "load32 m' chunk = load32 m chunk"
    using load [of chunk 0] p kheap_pool_page by (simp add: chunk_pages_def pte_slot_def)
  have tab: "table_of m' ?dir i = table_of m ?dir i" if "i < 1024" for i
    using load [of ?dir i] p kheap_pool_page that by (simp add: chunk_pages_def table_of_def)
  show "chunk_ok m' chunk" using ok tab unfolding chunk_ok_def pd_ok_def dir by simp
  show "chunk_pages m' chunk = chunk_pages m chunk" using tab by (auto simp: chunk_pages_def chunk_tables_eq dir)
  have "table_of m ?dir (v div 0x400000) \<in> chunk_pages m chunk"
    unfolding chunk_pages_def chunk_tables_eq using page_index_bounds(1) by blast
  then show "pte_at m' ?dir v = pte_at m ?dir v"
    unfolding pte_at_def pte_addr_def tab [OF page_index_bounds(1)]
    using page_index_bounds(2) by (intro load) (simp_all add: table_of_def)
qed

section \<open>Properties\<close>

text \<open>
  C6. With 1026 free pages \<open>paging_new_chunk\<close> returns a chunk in order that takes
  exactly its 1026 pages, maps all 4 GB to themselves under the flags asked for and
  leaves every page in use as it was.
\<close>

theorem paging_new_chunk_identity:
  assumes "1026 \<le> card (kheap_avail m)"
  shows "\<exists>c m'. paging_new_chunk flags m = Done (c, m') \<and> chunk_ok m' c \<and>
     kheap_avail m' = kheap_avail m - chunk_pages m' c \<and>
     (\<forall>v. v mod 4096 = 0 \<longrightarrow> pte_at m' (load32 m' c) v = v OR ucast flags) \<and>
     (\<forall>q \<in> kheap_pool - kheap_avail m. \<forall>a. a div 4096 = q div 4096 \<longrightarrow> m' a = m a)"
  using paging_new_chunk_spec [OF assms, of flags] by blast

theorem paging_new_chunk_identity_witness:
  "\<exists>c m'. paging_new_chunk 7 (\<lambda>_. 0) = Done (c, m') \<and> chunk_ok m' c \<and>
     pte_at m' (load32 m' c) 0xB8000 = 0xB8007"
proof -
  obtain c m' where "paging_new_chunk 7 (\<lambda>_. 0) = Done (c, m')" "chunk_ok m' c"
    "\<forall>v. v mod 4096 = 0 \<longrightarrow> pte_at m' (load32 m' c) v = v OR ucast (7 :: u8)"
    using paging_new_chunk_identity [of "\<lambda>_. 0" 7] by (auto simp: kheap_avail_zero card_kheap_pool)
  moreover from this(3) have "pte_at m' (load32 m' c) 0xB8000 = 0xB8000 OR ucast (7 :: u8)" by simp
  ultimately show ?thesis by auto
qed

text \<open>
  With fewer than 1026 free pages \<open>paging_new_chunk\<close> stops the machine: it never
  returns a chunk that is not complete.
\<close>

theorem paging_new_chunk_panics:
  assumes "card (kheap_avail m) < 1026"
  shows "\<exists>msg. paging_new_chunk flags m = Panic msg"
  by (rule paging_new_chunk_short [OF assms])

theorem paging_new_chunk_panics_witness: "\<exists>msg. paging_new_chunk 7 (\<lambda>_. 1) = Panic msg"
proof (rule paging_new_chunk_panics)
  have "kheap_avail (\<lambda>_. 1) = {}" by (simp add: kheap_avail_def block_free_def)
  then show "card (kheap_avail (\<lambda>_. 1)) < 1026" by simp
qed

text \<open>
  C35. \<open>paging_free_chunk\<close> gives back all pages of a chunk, the tables it finds through
  the directory included, and nothing else: freeing undoes the allocation.
\<close>

theorem paging_free_chunk_frees:
  assumes "chunk_ok m chunk"
  shows "kheap_avail (paging_free_chunk chunk m) = kheap_avail m \<union> chunk_pages m chunk"
  using paging_free_chunk_spec [OF assms] by blast

theorem paging_free_chunk_frees_witness:
  "\<exists>c m'. paging_new_chunk 7 (\<lambda>_. 0) = Done (c, m') \<and>
     kheap_avail (paging_free_chunk c m') = kheap_avail (\<lambda>_. 0)"
proof -
  obtain c m' where new: "paging_new_chunk 7 (\<lambda>_. 0) = Done (c, m')" "chunk_ok m' c"
    "kheap_avail m' = kheap_avail (\<lambda>_. 0) - chunk_pages m' c" "chunk_pages m' c \<subseteq> kheap_avail (\<lambda>_. 0)"
    using paging_new_chunk_spec [of "\<lambda>_. 0" 7] by (auto simp: kheap_avail_zero card_kheap_pool)
  from paging_free_chunk_frees [OF new(2)] new(3,4)
  have "kheap_avail (paging_free_chunk c m') = kheap_avail (\<lambda>_. 0)" by blast
  with new(1) show ?thesis by blast
qed

text \<open>
  C1. \<open>paging_map_to\<close> refines the update of the page map: on page-aligned bounds in
  order it succeeds, maps exactly the pages of the range to consecutive frames with the
  flags, keeps the chunk in order, allocates nothing and writes no page but the chunk's
  tables.
\<close>

theorem paging_map_to_refines:
  assumes "chunk_ok m chunk" and "v mod 4096 = 0" and "p mod 4096 = 0" and "pend mod 4096 = 0"
    and "p \<le> pend"
  shows "\<exists>m'. paging_map_to chunk v p pend flags m = (0, m') \<and> chunk_ok m' chunk \<and>
     load32 m' chunk = load32 m chunk \<and> kheap_avail m' = kheap_avail m \<and>
     (\<forall>w. w mod 4096 = 0 \<longrightarrow> pte_at m' (load32 m chunk) w =
        map_pages v p (unat (pend - p) div 4096) flags (pte_at m (load32 m chunk)) w) \<and>
     (\<forall>q \<in> kheap_pool - chunk_tables m chunk. \<forall>a. a div 4096 = q div 4096 \<longrightarrow> m' a = m a)"
  using paging_map_to_spec [OF assms, of flags] by blast

theorem paging_map_to_refines_witness:
  "\<exists>c m m'. paging_map_to c 0x400000 0x2000000 0x2002000 7 m = (0, m') \<and> chunk_ok m' c"
proof -
  obtain c m where "chunk_ok m c"
    using paging_new_chunk_spec [of "\<lambda>_. 0" 7] by (auto simp: kheap_avail_zero card_kheap_pool)
  then have "\<exists>m'. paging_map_to c 0x400000 0x2000000 0x2002000 7 m = (0, m') \<and> chunk_ok m' c"
    using paging_map_to_refines [of m c "0x400000" "0x2000000" "0x2002000" 7] by auto
  then show ?thesis by blast
qed

text \<open>
  Once \<open>paging_map\<close> has mapped a page, \<open>paging_get_paddr\<close> translates every
  address of the page into the frame at the same offset and \<open>paging_get_flags\<close> gives
  the flags; every other page keeps its translation.
\<close>

theorem paging_map_translates:
  assumes "chunk_ok m chunk" and "v mod 4096 = 0" and "p mod 4096 = 0"
  shows "\<exists>m'. paging_map chunk v p flags m = (0, m') \<and> (\<forall>a.
     (if a div 4096 = v div 4096
      then paging_get_paddr (load32 m chunk) a m' = p + a mod 4096 \<and>
           paging_get_flags (load32 m chunk) a m' = ucast flags
      else paging_get_paddr (load32 m chunk) a m' = paging_get_paddr (load32 m chunk) a m \<and>
           paging_get_flags (load32 m chunk) a m' = paging_get_flags (load32 m chunk) a m))"
proof -
  let ?dir = "load32 m chunk"
  let ?m = "store32 m (pte_addr m ?dir v) (p OR ucast flags)"
  have ok: "pd_ok m ?dir" using assms(1) by (simp add: chunk_ok_def)
  have pte: "pte_at ?m ?dir (PAGE_ALIGN_LOWER a)
      = (if a div 4096 = v div 4096 then p OR ucast flags else pte_at m ?dir (PAGE_ALIGN_LOWER a))" for a
  proof -
    have "(PAGE_ALIGN_LOWER a = v) = (a div 4096 = v div 4096)"
    proof
      assume "PAGE_ALIGN_LOWER a = v"
      then have "v = a - a mod 4096" by (simp add: PAGE_ALIGN_LOWER_def ALIGN_LOWER_def PAGING_PAGE_SIZE_def)
      then have "a = v + a mod 4096" by simp
      moreover have "a mod 4096 < 4096" by (simp add: word_less_nat_alt unat_mod)
      then have "(v + a mod 4096) div 4096 = v div 4096" using assms(2) by (intro aligned_add_div) simp_all
      ultimately show "a div 4096 = v div 4096" by simp
    qed (rule page_lower_of [OF assms(2)])
    then show ?thesis using pte_at_store [OF ok assms(2) page_lower(2)] by simp
  qed
  have frame: "frame_of (p OR ucast flags) = p" "(p OR ucast flags) AND 0xfff = ucast flags"
    using frame_of_or [OF assms(3) flags_small] by blast+
  have "\<forall>a. (if a div 4096 = v div 4096
      then paging_get_paddr ?dir a ?m = p + a mod 4096 \<and> paging_get_flags ?dir a ?m = ucast flags
      else paging_get_paddr ?dir a ?m = paging_get_paddr ?dir a m \<and>
           paging_get_flags ?dir a ?m = paging_get_flags ?dir a m)"
    unfolding paging_get_paddr_eq paging_get_flags_eq pte by (simp add: frame)
  with paging_map_eq [OF assms(2,3)] show ?thesis by blast
qed

theorem paging_map_translates_witness:
  "\<exists>c m m'. paging_map c 0x400000 0x2000000 7 m = (0, m') \<and>
     paging_get_paddr (load32 m c) 0x400123 m' = 0x2000123"
proof -
  obtain c m where "chunk_ok m c"
    using paging_new_chunk_spec [of "\<lambda>_. 0" 7] by (auto simp: kheap_avail_zero card_kheap_pool)
  from paging_map_translates [OF this, of "0x400000" "0x2000000" 7] obtain m' where
    m': "paging_map c 0x400000 0x2000000 7 m = (0, m')"
    and "\<forall>a. (if a div 4096 = 0x400000 div 4096
      then paging_get_paddr (load32 m c) a m' = 0x2000000 + a mod 4096 \<and>
           paging_get_flags (load32 m c) a m' = ucast (7 :: u8)
      else paging_get_paddr (load32 m c) a m' = paging_get_paddr (load32 m c) a m \<and>
           paging_get_flags (load32 m c) a m' = paging_get_flags (load32 m c) a m)" by auto
  from this(2) [THEN spec, of "0x400123"]
  have "paging_get_paddr (load32 m c) 0x400123 m' = 0x2000123" by simp
  with m' show ?thesis by blast
qed

end
