(* ===== verification/Layout.thy ===== *)
theory Layout
  imports Prelude
begin

text \<open>
  Structures the kernel allocates on its heap are bytes in memory: the address of each
  field, as the i386 System V ABI lays the structures of the headers out, and their sizes.
  A field is read with \<open>load32\<close> (or as a byte or 16 bits) and written with \<open>store32\<close>.
\<close>

named_theorems layout \<open>addresses of structure fields\<close>

section \<open>\<open>struct process\<close>\<close>

definition process_id :: "addr \<Rightarrow> addr" where [layout]: "process_id p = p"
definition process_filename :: "addr \<Rightarrow> addr" where [layout]: "process_filename p = p + 2"
definition process_task :: "addr \<Rightarrow> addr" where [layout]: "process_task p = p + 112"
definition allocation_size :: "addr \<Rightarrow> nat \<Rightarrow> addr" where
  [layout]: "allocation_size p i = p + 116 + 8 * of_nat i"
definition allocation_p :: "addr \<Rightarrow> nat \<Rightarrow> addr" where
  [layout]: "allocation_p p i = p + 120 + 8 * of_nat i"
definition process_filetype :: "addr \<Rightarrow> addr" where [layout]: "process_filetype p = p + 8308"
definition process_p :: "addr \<Rightarrow> addr" where [layout]: "process_p p = p + 8312"
definition process_elf_file :: "addr \<Rightarrow> addr" where [layout]: "process_elf_file p = p + 8312"
definition process_size :: "addr \<Rightarrow> addr" where [layout]: "process_size p = p + 8316"
definition process_bss_p :: "addr \<Rightarrow> addr" where [layout]: "process_bss_p p = p + 8320"
definition process_bss_size :: "addr \<Rightarrow> addr" where [layout]: "process_bss_size p = p + 8324"
definition process_stack :: "addr \<Rightarrow> addr" where [layout]: "process_stack p = p + 8328"
definition keyboard_buffer :: "addr \<Rightarrow> addr" where [layout]: "keyboard_buffer p = p + 8332"
definition keyboard_reader :: "addr \<Rightarrow> addr" where [layout]: "keyboard_reader p = p + 9356"
definition keyboard_writer :: "addr \<Rightarrow> addr" where [layout]: "keyboard_writer p = p + 9360"
definition sizeof_process :: u32 where "sizeof_process = 9364"

section \<open>\<open>struct task\<close> and \<open>struct registers\<close>\<close>

definition task_page_directory :: "addr \<Rightarrow> addr" where [layout]: "task_page_directory t = t"
definition task_registers :: "addr \<Rightarrow> addr" where [layout]: "task_registers t = t + 4"
definition task_process :: "addr \<Rightarrow> addr" where [layout]: "task_process t = t + 52"
definition task_next :: "addr \<Rightarrow> addr" where [layout]: "task_next t = t + 56"
definition task_prev :: "addr \<Rightarrow> addr" where [layout]: "task_prev t = t + 60"
definition sizeof_task :: u32 where "sizeof_task = 64"

definition reg_edi :: "addr \<Rightarrow> addr" where [layout]: "reg_edi r = r"
definition reg_esi :: "addr \<Rightarrow> addr" where [layout]: "reg_esi r = r + 4"
definition reg_ebp :: "addr \<Rightarrow> addr" where [layout]: "reg_ebp r = r + 8"
definition reg_ebx :: "addr \<Rightarrow> addr" where [layout]: "reg_ebx r = r + 12"
definition reg_edx :: "addr \<Rightarrow> addr" where [layout]: "reg_edx r = r + 16"
definition reg_ecx :: "addr \<Rightarrow> addr" where [layout]: "reg_ecx r = r + 20"
definition reg_eax :: "addr \<Rightarrow> addr" where [layout]: "reg_eax r = r + 24"
definition reg_ip :: "addr \<Rightarrow> addr" where [layout]: "reg_ip r = r + 28"
definition reg_cs :: "addr \<Rightarrow> addr" where [layout]: "reg_cs r = r + 32"
definition reg_flags :: "addr \<Rightarrow> addr" where [layout]: "reg_flags r = r + 36"
definition reg_esp :: "addr \<Rightarrow> addr" where [layout]: "reg_esp r = r + 40"
definition reg_ss :: "addr \<Rightarrow> addr" where [layout]: "reg_ss r = r + 44"

section \<open>Files and disks\<close>

definition root_drive_no :: "addr \<Rightarrow> addr" where [layout]: "root_drive_no r = r"
definition root_first :: "addr \<Rightarrow> addr" where [layout]: "root_first r = r + 4"
definition part_part :: "addr \<Rightarrow> addr" where [layout]: "part_part q = q"
definition part_next :: "addr \<Rightarrow> addr" where [layout]: "part_next q = q + 4"

definition disk_type :: "addr \<Rightarrow> addr" where [layout]: "disk_type d = d"
definition disk_sector_size :: "addr \<Rightarrow> addr" where [layout]: "disk_sector_size d = d + 4"
definition disk_id :: "addr \<Rightarrow> addr" where [layout]: "disk_id d = d + 8"
definition disk_filesystem :: "addr \<Rightarrow> addr" where [layout]: "disk_filesystem d = d + 12"
definition disk_fs_private :: "addr \<Rightarrow> addr" where [layout]: "disk_fs_private d = d + 16"
definition sizeof_disk :: u32 where "sizeof_disk = 20"

definition stream_pos :: "addr \<Rightarrow> addr" where [layout]: "stream_pos s = s"
definition stream_disk :: "addr \<Rightarrow> addr" where [layout]: "stream_disk s = s + 4"

definition fd_index :: "addr \<Rightarrow> addr" where [layout]: "fd_index d = d"
definition fd_fs :: "addr \<Rightarrow> addr" where [layout]: "fd_fs d = d + 4"
definition fd_private :: "addr \<Rightarrow> addr" where [layout]: "fd_private d = d + 8"
definition fd_disk :: "addr \<Rightarrow> addr" where [layout]: "fd_disk d = d + 12"
definition sizeof_file_descriptor :: u32 where "sizeof_file_descriptor = 16"

text \<open>Constants of \<open>file.h\<close>.\<close>

definition SEEK_SET :: u32 where [config_defs]: "SEEK_SET = 0"
definition SEEK_CUR :: u32 where [config_defs]: "SEEK_CUR = 1"
definition SEEK_END :: u32 where [config_defs]: "SEEK_END = 2"
definition FILE_MODE_READ :: u32 where [config_defs]: "FILE_MODE_READ = 0"
definition FILE_MODE_WRITE :: u32 where [config_defs]: "FILE_MODE_WRITE = 1"
definition FILE_MODE_APPEND :: u32 where [config_defs]: "FILE_MODE_APPEND = 2"
definition FILE_MODE_INVALID :: u32 where [config_defs]: "FILE_MODE_INVALID = 3"
definition FILE_STAT_READ_ONLY :: u32 where [config_defs]: "FILE_STAT_READ_ONLY = 1"

definition stat_flags :: "addr \<Rightarrow> addr" where [layout]: "stat_flags s = s"
definition stat_filesize :: "addr \<Rightarrow> addr" where [layout]: "stat_filesize s = s + 4"

end
