(* ===== verification/Machine.thy ===== *)
theory Machine
  imports Paging Strings Layout
begin

text \<open>
  The machine under the kernel: memory, the directory loaded in \<open>CR3\<close>, the ports
  (\<open>phix/src/io/io.asm\<close>) and the registers that the assembly of the kernel loads: \<open>CR0\<close>, the
  limits and bases of the descriptor tables and the selector of the task state segment. A device is a parameter \<open>dev\<close>: the value the next read of a port
  gives after the history of port accesses (newest first). While a task's directory is
  loaded, the kernel's loads and stores go through it; an access to a page that is not
  present raises the fault whose handler panics (\<open>page_fault_intr_cb\<close>).
\<close>

datatype io_event = InB u16 u8 | InW u16 u16 | OutB u16 u8 | OutW u16 u16

type_synonym device = "io_event list \<Rightarrow> u16 \<Rightarrow> u16"

record machine =
  ram :: mem
  cr3 :: addr
  io :: "io_event list"
  cr0 :: u32
  gdt_register :: "u16 \<times> addr"
  idt_register :: "u16 \<times> addr"
  task_register :: u16

section \<open>Ports\<close>

definition insb :: "device \<Rightarrow> u16 \<Rightarrow> 'a machine_scheme \<Rightarrow> u8 \<times> 'a machine_scheme" where
  "insb dev port s = (let v = ucast (dev (io s) port) in (v, s\<lparr>io := InB port v # io s\<rparr>))"

definition insw :: "device \<Rightarrow> u16 \<Rightarrow> 'a machine_scheme \<Rightarrow> u16 \<times> 'a machine_scheme" where
  "insw dev port s = (let v = dev (io s) port in (v, s\<lparr>io := InW port v # io s\<rparr>))"

definition outb :: "u16 \<Rightarrow> u8 \<Rightarrow> 'a machine_scheme \<Rightarrow> 'a machine_scheme" where
  "outb port v s = s\<lparr>io := OutB port v # io s\<rparr>"

definition outw :: "u16 \<Rightarrow> u16 \<Rightarrow> 'a machine_scheme \<Rightarrow> 'a machine_scheme" where
  "outw port v s = s\<lparr>io := OutW port v # io s\<rparr>"

section \<open>Address translation\<close>

text \<open>
  \<open>paging_load_directory\<close> and \<open>enable_paging\<close> of \<open>paging.asm\<close> and \<open>kernel_page\<close> of
  \<open>kernel.c\<close>. \<open>kernel_main\<close> loads the first directory and enables paging at once, before any
  access that the model translates, so that the loads and stores below need not look at \<open>CR0\<close>.
\<close>

definition paging_load_directory :: "addr \<Rightarrow> 'a machine_scheme \<Rightarrow> 'a machine_scheme" where
  "paging_load_directory directory s = s\<lparr>cr3 := directory\<rparr>"

definition enable_paging :: "'a machine_scheme \<Rightarrow> 'a machine_scheme" where
  "enable_paging s = s\<lparr>cr0 := cr0 s OR 0x80000000\<rparr>"

definition switch_chunk :: "addr \<Rightarrow> 'a machine_scheme \<Rightarrow> 'a machine_scheme" where
  "switch_chunk chunk s = paging_load_directory (paging_switch chunk (ram s)) s"

definition kernel_page :: "addr \<Rightarrow> 'a machine_scheme \<Rightarrow> 'a machine_scheme" where
  "kernel_page kchunk s = switch_chunk kchunk s"

definition page_present :: "addr \<Rightarrow> addr \<Rightarrow> mem \<Rightarrow> bool" where
  "page_present dir v m =
     (bit (load32 m (pte_slot dir (v div 0x400000))) 0 \<and> bit (paging_get_flags dir v m) 0)"

definition vload :: "addr \<Rightarrow> addr \<Rightarrow> mem \<Rightarrow> u8 outcome" where
  "vload dir v m = (if page_present dir v m then Done (m (paging_get_paddr dir v m))
     else page_fault_intr_cb 0)"

definition vstore :: "addr \<Rightarrow> addr \<Rightarrow> u8 \<Rightarrow> mem \<Rightarrow> mem outcome" where
  "vstore dir v b m = (if page_present dir v m then Done (m(paging_get_paddr dir v m := b))
     else page_fault_intr_cb m)"

text \<open>A 32 bit load within one page.\<close>

definition vload32 :: "addr \<Rightarrow> addr \<Rightarrow> mem \<Rightarrow> u32 outcome" where
  "vload32 dir v m =
     obind (vload dir v m) (\<lambda>b0. obind (vload dir (v + 1) m) (\<lambda>b1.
     obind (vload dir (v + 2) m) (\<lambda>b2. obind (vload dir (v + 3) m) (\<lambda>b3.
       Done (ucast b0 OR push_bit 8 (ucast b1) OR push_bit 16 (ucast b2) OR push_bit 24 (ucast b3))))))"

text \<open>
  \<open>strncpy\<close> as it runs under the directory \<open>dir\<close>: \<open>k\<close> is the number of copies that
  \<open>n\<close> still allows, \<open>n - 1\<close>, and \<open>0\<close> where \<open>n\<close> is \<open>0\<close>.
\<close>

fun vstrncpy :: "addr \<Rightarrow> addr \<Rightarrow> addr \<Rightarrow> nat \<Rightarrow> mem \<Rightarrow> mem outcome" where
  "vstrncpy dir dest src 0 m = obind (vload dir src m) (\<lambda>_. vstore dir dest 0 m)"
| "vstrncpy dir dest src (Suc k) m = obind (vload dir src m) (\<lambda>c.
     if c \<noteq> 0 then obind (vstore dir dest c m) (\<lambda>m. vstrncpy dir (dest + 1) (src + 1) k m)
     else vstore dir dest 0 m)"

section \<open>Identity maps\<close>

text \<open>The pages on which a directory is the identity: virtual is physical there.\<close>

definition identity_at :: "addr \<Rightarrow> addr \<Rightarrow> mem \<Rightarrow> bool" where
  "identity_at dir v m = (page_present dir v m \<and> paging_get_paddr dir v m = v)"

lemma vload_identity: "identity_at dir v m \<Longrightarrow> vload dir v m = Done (m v)"
  by (simp add: vload_def identity_at_def)

lemma vstore_identity: "identity_at dir v m \<Longrightarrow> vstore dir v b m = Done (m(v := b))"
  by (simp add: vstore_def identity_at_def)

end
