(* ===== verification/Gdt.thy ===== *)
theory Gdt
  imports Prelude
begin

text \<open>
  \<open>phix/src/boot/gdt/gdt.c\<close>: encoding the structured segment descriptors into the 8
  bytes the processor reads, and the processor's reading of them as the specification.
  \<open>gdt_load\<close> is in theory \<open>Kernel_Main\<close>.
\<close>

record gdt_structured =
  base :: u32
  limit :: u32
  type :: u8

definition encode_gdt_entry :: "addr \<Rightarrow> gdt_structured \<Rightarrow> mem \<Rightarrow> mem outcome" where
  "encode_gdt_entry target src m =
     (if 65536 < limit src \<and> limit src AND 0xFFF \<noteq> 0xFFF
      then Panic ''encode_gdt_entry: Invalid argument''
      else
        let m = m(target + 6 := 0x40);
            (src, m) = (if 65536 < limit src
                        then (src\<lparr>limit := drop_bit 12 (limit src)\<rparr>, m(target + 6 := 0xC0)) else (src, m));
            m = m(target + 0 := ucast (limit src AND 0xFF));
            m = m(target + 1 := ucast (drop_bit 8 (limit src) AND 0xFF));
            m = m(target + 6 := m (target + 6) OR ucast (drop_bit 16 (limit src) AND 0x0F));
            m = m(target + 2 := ucast (base src AND 0xFF));
            m = m(target + 3 := ucast (drop_bit 8 (base src) AND 0xFF));
            m = m(target + 4 := ucast (drop_bit 16 (base src) AND 0xFF));
            m = m(target + 7 := ucast (drop_bit 24 (base src) AND 0xFF));
            m = m(target + 5 := type src)
        in Done m)"

text \<open>\<open>struct gdt\<close> is 8 bytes long.\<close>

definition gdt_structured_to_gdt :: "addr \<Rightarrow> gdt_structured list \<Rightarrow> i32 \<Rightarrow> mem \<Rightarrow> mem outcome" where
  "gdt_structured_to_gdt gdt structured_gdt total_entries m =
     for_upE (nat (sint total_entries))
       (\<lambda>i m. encode_gdt_entry (gdt + of_nat (8 * i)) (structured_gdt ! i) m) m"

text \<open>
  The segments of \<open>kernel.c\<close>; \<open>tss\<close> is the address of the task state segment, which is
  100 bytes long.
\<close>

definition kernel_segments :: "addr \<Rightarrow> gdt_structured list" where
  "kernel_segments tss = [\<lparr>base = 0x00, limit = 0x00, type = 0x00\<rparr>,
     \<lparr>base = 0x00, limit = 0xFFFFFFFF, type = 0x9A\<rparr>, \<lparr>base = 0x00, limit = 0xFFFFFFFF, type = 0x92\<rparr>,
     \<lparr>base = 0x00, limit = 0xFFFFFFFF, type = 0xf8\<rparr>, \<lparr>base = 0x00, limit = 0xFFFFFFFF, type = 0xf2\<rparr>,
     \<lparr>base = tss, limit = 100, type = 0xE9\<rparr>]"

section \<open>The processor's reading of a descriptor\<close>

definition desc_base :: "mem \<Rightarrow> addr \<Rightarrow> u32" where
  "desc_base m p = ucast (m (p + 2)) OR push_bit 8 (ucast (m (p + 3)))
     OR push_bit 16 (ucast (m (p + 4))) OR push_bit 24 (ucast (m (p + 7)))"

text \<open>With the granularity bit the limit counts pages.\<close>

definition desc_limit :: "mem \<Rightarrow> addr \<Rightarrow> u32" where
  "desc_limit m p = (let raw = ucast (m p) OR push_bit 8 (ucast (m (p + 1)))
       OR push_bit 16 (ucast (m (p + 6) AND 0x0F))
     in if bit (m (p + 6)) 7 then push_bit 12 raw OR 0xFFF else raw)"

definition read_desc :: "mem \<Rightarrow> addr \<Rightarrow> gdt_structured" where
  "read_desc m p = \<lparr>base = desc_base m p, limit = desc_limit m p, type = m (p + 5)\<rparr>"

definition limit_ok :: "gdt_structured \<Rightarrow> bool" where
  "limit_ok src = (limit src \<le> 65536 \<or> limit src AND 0xFFF = 0xFFF)"

section \<open>What the encoder computes\<close>

lemma masks: "(0xFF :: u32) = mask 8" "(0xFFF :: u32) = mask 12" "(0x0F :: u32) = mask 4" "(0x0F :: u8) = mask 4"
  by (simp_all add: mask_eq_exp_minus_1)

lemma bytes_of_base:
  "ucast (ucast (b AND 0xFF :: u32) :: u8) OR push_bit 8 (ucast (ucast (drop_bit 8 b AND 0xFF) :: u8))
   OR push_bit 16 (ucast (ucast (drop_bit 16 b AND 0xFF) :: u8))
   OR push_bit 24 (ucast (ucast (drop_bit 24 b AND 0xFF) :: u8)) = b"
proof (rule bit_word_eqI)
  fix n :: nat assume "n < LENGTH(32)"
  then show "bit (ucast (ucast (b AND 0xFF :: u32) :: u8) OR push_bit 8 (ucast (ucast (drop_bit 8 b AND 0xFF) :: u8))
   OR push_bit 16 (ucast (ucast (drop_bit 16 b AND 0xFF) :: u8))
   OR push_bit 24 (ucast (ucast (drop_bit 24 b AND 0xFF) :: u8)) :: u32) n = bit b n"
    unfolding masks
    by (cases "n < 8"; cases "n < 16"; cases "n < 24") (auto simp: bit_simps)
qed

lemma bytes_of_limit:
  assumes "l < 0x100000"
  shows "ucast (ucast (l AND 0xFF :: u32) :: u8) OR push_bit 8 (ucast (ucast (drop_bit 8 l AND 0xFF) :: u8))
   OR push_bit 16 (ucast (ucast (drop_bit 16 l AND 0x0F) :: u8)) = l"
proof (rule bit_word_eqI)
  fix n :: nat assume n: "n < LENGTH(32)"
  have "l = take_bit 20 l" using assms
    by (simp add: take_bit_eq_mod word_unat_eq_iff unat_mod word_less_nat_alt)
  then have hi: "\<not> bit l n" if "20 \<le> n" using that by (metis bit_take_bit_iff not_le)
  show "bit (ucast (ucast (l AND 0xFF :: u32) :: u8) OR push_bit 8 (ucast (ucast (drop_bit 8 l AND 0xFF) :: u8))
   OR push_bit 16 (ucast (ucast (drop_bit 16 l AND 0x0F) :: u8)) :: u32) n = bit l n"
    unfolding masks using n hi
    by (cases "n < 8"; cases "n < 16"; cases "n < 20") (auto simp: bit_simps)
qed

text \<open>The eight bytes the encoder leaves.\<close>

definition encoded :: "addr \<Rightarrow> gdt_structured \<Rightarrow> mem \<Rightarrow> mem" where
  "encoded p src m =
     (let l = (if 65536 < limit src then drop_bit 12 (limit src) else limit src);
          flags = (if 65536 < limit src then 0xC0 else 0x40)
      in m(p + 6 := flags OR ucast (drop_bit 16 l AND 0x0F), p := ucast (l AND 0xFF),
           p + 1 := ucast (drop_bit 8 l AND 0xFF), p + 2 := ucast (base src AND 0xFF),
           p + 3 := ucast (drop_bit 8 (base src) AND 0xFF),
           p + 4 := ucast (drop_bit 16 (base src) AND 0xFF),
           p + 7 := ucast (drop_bit 24 (base src) AND 0xFF), p + 5 := type src))"

lemma encode_gdt_entry_eq:
  "encode_gdt_entry p src m = (if limit_ok src then Done (encoded p src m)
     else Panic ''encode_gdt_entry: Invalid argument'')"
  by (auto simp: encode_gdt_entry_def limit_ok_def encoded_def Let_def not_le fun_eq_iff)

lemma encoded_out: "8 \<le> unat (a - p) \<Longrightarrow> encoded p src m a = m a"
  by (auto simp: encoded_def Let_def)

lemma drop_16_mask: "l \<le> 65536 \<Longrightarrow> l < (0x100000 :: u32)" "drop_bit 12 x < (0x100000 :: u32)"
proof -
  show "l \<le> 65536 \<Longrightarrow> l < (0x100000 :: u32)" by (simp add: word_le_nat_alt word_less_nat_alt)
  have "unat (drop_bit 12 x) = unat x div 4096" by (simp add: unat_div drop_bit_eq_div)
  also have "\<dots> < 0x100000" using unat32_lt [of x] by simp
  finally show "drop_bit 12 x < (0x100000 :: u32)" by (simp add: word_less_nat_alt)
qed

lemma low_nibble:
  "(0x40 OR ucast (w AND 0x0F :: u32)) AND 0x0F = (ucast (w AND 0x0F) :: u8)"
  "(0xC0 OR ucast (w AND 0x0F :: u32)) AND 0x0F = (ucast (w AND 0x0F) :: u8)"
  "\<not> bit (0x40 OR ucast (w AND 0x0F :: u32) :: u8) 7"
  "bit (0xC0 OR ucast (w AND 0x0F :: u32) :: u8) 7"
proof -
  have c: "(0x40 :: u8) = push_bit 6 1" "(0xC0 :: u8) = push_bit 6 (mask 2)"
    by (simp_all add: push_bit_eq_mult mask_eq_exp_minus_1)
  have b: "bit (0x40 :: u8) n \<longleftrightarrow> n = 6" "bit (0xC0 :: u8) n \<longleftrightarrow> n = 6 \<or> n = 7" for n
    unfolding c by (auto simp only: bit_push_bit_iff bit_1_iff bit_mask_iff possible_bit_word) auto
  show "(0x40 OR ucast (w AND 0x0F :: u32)) AND 0x0F = (ucast (w AND 0x0F) :: u8)"
    unfolding masks by (rule bit_word_eqI) (auto simp only: bit_and_iff bit_or_iff b bit_mask_iff bit_unsigned_iff)
  show "(0xC0 OR ucast (w AND 0x0F :: u32)) AND 0x0F = (ucast (w AND 0x0F) :: u8)"
    unfolding masks by (rule bit_word_eqI) (auto simp only: bit_and_iff bit_or_iff b bit_mask_iff bit_unsigned_iff)
  show "\<not> bit (0x40 OR ucast (w AND 0x0F :: u32) :: u8) 7"
    unfolding masks by (simp only: bit_or_iff b bit_and_iff bit_mask_iff bit_unsigned_iff) simp
  show "bit (0xC0 OR ucast (w AND 0x0F :: u32) :: u8) 7"
    unfolding masks by (simp only: bit_or_iff b bit_and_iff bit_mask_iff bit_unsigned_iff) simp
qed

lemma page_limit: "l AND 0xFFF = 0xFFF \<Longrightarrow> push_bit 12 (drop_bit 12 l) OR 0xFFF = (l :: u32)"
proof -
  assume "l AND 0xFFF = 0xFFF"
  then have low: "bit l n" if "n < 12" for n
  proof -
    have "bit (l AND mask 12) n" using \<open>l AND 0xFFF = 0xFFF\<close> that unfolding masks by (simp add: bit_mask_iff)
    then show ?thesis by (simp add: bit_and_iff)
  qed
  show ?thesis unfolding masks by (rule bit_word_eqI) (auto simp: bit_simps low not_less)
qed

lemma desc_encoded:
  assumes "limit_ok src"
  shows "read_desc (encoded p src m) p = src"
proof -
  let ?m = "encoded p src m"
  have "desc_base ?m p = base src"
    using bytes_of_base [of "base src"] by (simp add: desc_base_def encoded_def Let_def)
  moreover have "desc_limit ?m p = limit src"
  proof (cases "65536 < limit src")
    case True
    then have l: "limit src AND 0xFFF = 0xFFF" using assms by (simp add: limit_ok_def not_le [symmetric])
    show ?thesis using True bytes_of_limit [OF drop_16_mask(2), of "limit src"] page_limit [OF l]
      by (simp add: desc_limit_def encoded_def Let_def low_nibble del: drop_bit_drop_bit)
  next
    case False
    then have "limit src \<le> 65536" by simp
    from False bytes_of_limit [OF drop_16_mask(1) [OF this]] show ?thesis
      by (simp add: desc_limit_def encoded_def Let_def low_nibble del: not_less)
  qed
  moreover have "?m (p + 5) = type src" by (simp add: encoded_def Let_def)
  ultimately show ?thesis by (simp add: read_desc_def)
qed

lemma desc_cong:
  assumes "\<And>k. k < 8 \<Longrightarrow> m' (p + of_nat k) = m (p + of_nat k)"
  shows "read_desc m' p = read_desc m p"
  using assms [of 0] assms [of 1] assms [of 2] assms [of 3] assms [of 4] assms [of 5] assms [of 6] assms [of 7]
  by (simp add: read_desc_def desc_base_def desc_limit_def)

lemma slot_distance:
  assumes "j < i" and "i < 268435456" and "k < 8"
  shows "8 \<le> unat (gdt + of_nat (8 * j) + of_nat k - (gdt + of_nat (8 * i)) :: u32)"
proof -
  let ?d = "4294967296 + 8 * j + k - 8 * i"
  have "gdt + of_nat (8 * j) + of_nat k - (gdt + of_nat (8 * i)) = (of_nat ?d :: u32)"
    using assms by (simp add: of_nat_diff)
  then have "unat (gdt + of_nat (8 * j) + of_nat k - (gdt + of_nat (8 * i)) :: u32) = unat (of_nat ?d :: u32)"
    by (simp only:)
  also have "\<dots> = ?d" using assms by (intro unat_of_nat32) simp
  finally show ?thesis using assms by (simp only:)
qed

section \<open>Properties\<close>

text \<open>
  C28. \<open>gdt_structured_to_gdt\<close> encodes descriptors the processor reads back as they were
  given, base, limit and type, and writes nothing outside the table, provided that every
  limit above \<open>65536\<close> ends in twelve ones.
\<close>

theorem gdt_encode_decode:
  assumes "length gs < 268435456" and "\<forall>g \<in> set gs. limit_ok g"
  shows "\<exists>m'. gdt_structured_to_gdt gdt gs (of_nat (length gs)) m = Done m' \<and>
     (\<forall>i < length gs. read_desc m' (gdt + of_nat (8 * i)) = gs ! i) \<and>
     (\<forall>a. 8 * length gs \<le> unat (a - gdt) \<longrightarrow> m' a = m a)"
proof -
  let ?n = "length gs" and ?f = "\<lambda>i m. encode_gdt_entry (gdt + of_nat (8 * i)) (gs ! i) m"
  let ?P = "\<lambda>i m'. (\<forall>j < i. read_desc m' (gdt + of_nat (8 * j)) = gs ! j) \<and>
     (\<forall>a. 8 * ?n \<le> unat (a - gdt) \<longrightarrow> m' a = m a)"
  have "\<exists>m'. for_upE ?n ?f m = Done m' \<and> ?P ?n m'"
  proof (rule for_upE_inv [of ?P])
    fix i m' assume i: "i < ?n" and P: "?P i m'"
    let ?p = "gdt + of_nat (8 * i)"
    have ok: "limit_ok (gs ! i)" using assms(2) i by simp
    have "read_desc (encoded ?p (gs ! i) m') (gdt + of_nat (8 * j)) = gs ! j" if "j < Suc i" for j
    proof (cases "j = i")
      case False
      with that have j: "j < i" by simp
      have "read_desc (encoded ?p (gs ! i) m') (gdt + of_nat (8 * j)) = read_desc m' (gdt + of_nat (8 * j))"
        using slot_distance [OF j] i assms(1) by (intro desc_cong encoded_out) simp
      with P j show ?thesis by simp
    qed (simp add: desc_encoded [OF ok])
    moreover have "encoded ?p (gs ! i) m' a = m a" if "8 * ?n \<le> unat (a - gdt)" for a
    proof -
      have u: "unat (of_nat (8 * i) :: u32) = 8 * i" using i assms(1) by (intro unat_of_nat32) simp
      have "unat (a - gdt - of_nat (8 * i)) = unat (a - gdt) - 8 * i"
        using that i u by (subst unat_sub) (simp_all add: word_le_nat_alt)
      then have "unat (a - ?p) = unat (a - gdt) - 8 * i" by (simp only: diff_diff_add)
      then have "8 \<le> unat (a - ?p)" using that i by (simp only:)
      then show ?thesis using P that encoded_out by simp
    qed
    ultimately show "\<exists>t'. ?f i m' = Done t' \<and> ?P (Suc i) t'" by (simp add: encode_gdt_entry_eq ok)
  qed simp
  moreover have "nat (sint (of_nat ?n :: i32)) = ?n" using assms(1) by (simp add: sint_of_nat)
  ultimately show ?thesis by (simp add: gdt_structured_to_gdt_def)
qed

theorem gdt_encode_decode_witness:
  "\<exists>m'. gdt_structured_to_gdt 0x5000 (kernel_segments 0x6000) 6 (\<lambda>_. 0) = Done m' \<and>
     limit (read_desc m' 0x5008) = 0xffffffff \<and> type (read_desc m' 0x5008) = 0x9a"
proof -
  have len: "length (kernel_segments 0x6000) = 6" by (simp add: kernel_segments_def)
  moreover have "\<forall>g \<in> set (kernel_segments 0x6000). limit_ok g"
    by (simp add: kernel_segments_def limit_ok_def)
  ultimately obtain m' where m': "gdt_structured_to_gdt 0x5000 (kernel_segments 0x6000) 6 (\<lambda>_. 0) = Done m'"
    "\<forall>i < 6. read_desc m' (0x5000 + of_nat (8 * i)) = kernel_segments 0x6000 ! i"
    using gdt_encode_decode [of "kernel_segments 0x6000" "0x5000" "\<lambda>_. 0"] by auto
  have "read_desc m' (0x5000 + of_nat (8 * 1)) = kernel_segments 0x6000 ! 1" by (rule m'(2) [rule_format]) simp
  then have "read_desc m' 0x5008 = \<lparr>base = 0, limit = 0xffffffff, type = 0x9a\<rparr>" by (simp add: kernel_segments_def)
  with m'(1) show ?thesis by simp
qed

end
