(* ===== verification/Elf.thy ===== *)
theory Elf
  imports Memory Layout
begin

text \<open>
  \<open>phix/src/loader/formats/elf.c\<close> and the checks of \<open>elfloader.c\<close> on an ELF file in
  memory. A header, a program header and the \<open>struct elf_file\<close> that describes a loaded
  file are bytes in memory, at the offsets of \<open>elf.h\<close> and \<open>elfloader.h\<close>.
\<close>

definition PF_W :: u32 where [config_defs]: "PF_W = 0x02"
definition PT_LOAD :: u32 where [config_defs]: "PT_LOAD = 1"
definition ET_EXEC :: u16 where [config_defs]: "ET_EXEC = 2"
definition EI_CLASS :: u32 where [config_defs]: "EI_CLASS = 4"
definition EI_DATA :: u32 where [config_defs]: "EI_DATA = 5"
definition ELFCLASSNONE :: u8 where [config_defs]: "ELFCLASSNONE = 0"
definition ELFCLASS32 :: u8 where [config_defs]: "ELFCLASS32 = 1"
definition ELFDATANONE :: u8 where [config_defs]: "ELFDATANONE = 0"
definition ELFDATA2LSB :: u8 where [config_defs]: "ELFDATA2LSB = 1"

section \<open>Fields\<close>

definition e_ident :: "addr \<Rightarrow> u32 \<Rightarrow> addr" where [layout]: "e_ident h i = h + i"
definition e_type :: "addr \<Rightarrow> addr" where [layout]: "e_type h = h + 16"
definition e_entry :: "addr \<Rightarrow> addr" where [layout]: "e_entry h = h + 24"
definition e_phoff :: "addr \<Rightarrow> addr" where [layout]: "e_phoff h = h + 28"
definition e_shoff :: "addr \<Rightarrow> addr" where [layout]: "e_shoff h = h + 32"
definition e_phnum :: "addr \<Rightarrow> addr" where [layout]: "e_phnum h = h + 44"
definition e_shstrndx :: "addr \<Rightarrow> addr" where [layout]: "e_shstrndx h = h + 50"

definition p_type :: "addr \<Rightarrow> addr" where [layout]: "p_type p = p"
definition p_offset :: "addr \<Rightarrow> addr" where [layout]: "p_offset p = p + 4"
definition p_vaddr :: "addr \<Rightarrow> addr" where [layout]: "p_vaddr p = p + 8"
definition p_filesz :: "addr \<Rightarrow> addr" where [layout]: "p_filesz p = p + 16"
definition p_memsz :: "addr \<Rightarrow> addr" where [layout]: "p_memsz p = p + 20"
definition p_flags :: "addr \<Rightarrow> addr" where [layout]: "p_flags p = p + 24"
definition sizeof_phdr :: u32 where "sizeof_phdr = 32"

definition sh_offset :: "addr \<Rightarrow> addr" where [layout]: "sh_offset s = s + 16"
definition sizeof_shdr :: u32 where "sizeof_shdr = 40"

definition ef_elf_memory :: "addr \<Rightarrow> addr" where [layout]: "ef_elf_memory f = f + 112"
definition ef_virtual_base :: "addr \<Rightarrow> addr" where [layout]: "ef_virtual_base f = f + 116"
definition ef_virtual_end :: "addr \<Rightarrow> addr" where [layout]: "ef_virtual_end f = f + 120"
definition ef_physical_base :: "addr \<Rightarrow> addr" where [layout]: "ef_physical_base f = f + 124"
definition ef_physical_end :: "addr \<Rightarrow> addr" where [layout]: "ef_physical_end f = f + 128"
definition sizeof_elf_file :: u32 where "sizeof_elf_file = 132"

section \<open>The code\<close>

definition elf_get_entry_ptr :: "addr \<Rightarrow> mem \<Rightarrow> addr" where
  "elf_get_entry_ptr elf_header m = load32 m (e_entry elf_header)"

definition elf_get_entry :: "addr \<Rightarrow> mem \<Rightarrow> u32" where
  "elf_get_entry elf_header m = load32 m (e_entry elf_header)"

text \<open>\<open>sig\<close> is the address of the constant \<open>elf_signature\<close>, which holds these bytes.\<close>

definition elf_signature :: "u8 list" where
  "elf_signature = [0x7f, 0x45, 0x4C, 0x46]"

definition elf_valid_signature :: "addr \<Rightarrow> addr \<Rightarrow> mem \<Rightarrow> bool" where
  "elf_valid_signature sig buf m = (memcmp m buf sig (of_nat (length elf_signature)) = 0)"

definition elf_valid_class :: "addr \<Rightarrow> mem \<Rightarrow> bool" where
  "elf_valid_class header m =
     (m (e_ident header EI_CLASS) = ELFCLASSNONE \<or> m (e_ident header EI_CLASS) = ELFCLASS32)"

definition elf_valid_encoding :: "addr \<Rightarrow> mem \<Rightarrow> bool" where
  "elf_valid_encoding header m =
     (m (e_ident header EI_DATA) = ELFDATANONE \<or> m (e_ident header EI_DATA) = ELFDATA2LSB)"

definition elf_is_executable :: "addr \<Rightarrow> mem \<Rightarrow> bool" where
  "elf_is_executable header m =
     (load16 m (e_type header) = ET_EXEC \<and> PHIX_PROGRAM_VIRTUAL_ADDRESS \<le> load32 m (e_entry header))"

definition elf_has_program_header :: "addr \<Rightarrow> mem \<Rightarrow> bool" where
  "elf_has_program_header header m = (load32 m (e_phoff header) \<noteq> 0)"

definition elf_memory :: "addr \<Rightarrow> mem \<Rightarrow> addr" where
  "elf_memory file m = load32 m (ef_elf_memory file)"

definition elf_header :: "addr \<Rightarrow> mem \<Rightarrow> addr" where
  "elf_header file m = load32 m (ef_elf_memory file)"

definition elf_sheaders :: "addr \<Rightarrow> mem \<Rightarrow> addr" where
  "elf_sheaders header m = header + load32 m (e_shoff header)"

definition elf_pheaders :: "addr \<Rightarrow> mem \<Rightarrow> addr" where
  "elf_pheaders header m =
     (if load32 m (e_phoff header) = 0 then 0 else header + load32 m (e_phoff header))"

definition elf_program_header :: "addr \<Rightarrow> i32 \<Rightarrow> mem \<Rightarrow> addr" where
  "elf_program_header header index m = elf_pheaders header m + index * sizeof_phdr"

definition elf_section :: "addr \<Rightarrow> i32 \<Rightarrow> mem \<Rightarrow> addr" where
  "elf_section header index m = elf_sheaders header m + index * sizeof_shdr"

definition elf_phdr_paddr :: "addr \<Rightarrow> addr \<Rightarrow> mem \<Rightarrow> addr" where
  "elf_phdr_paddr elf_file phdr m = load32 m (ef_elf_memory elf_file) + load32 m (p_offset phdr)"

definition elf32_str_table :: "addr \<Rightarrow> mem \<Rightarrow> addr" where
  "elf32_str_table header m =
     header + load32 m (sh_offset (elf_section header (ucast (load16 m (e_shstrndx header))) m))"

definition elf_virtual_base :: "addr \<Rightarrow> mem \<Rightarrow> addr" where
  "elf_virtual_base file m = load32 m (ef_virtual_base file)"

definition elf_virtual_end :: "addr \<Rightarrow> mem \<Rightarrow> addr" where
  "elf_virtual_end file m = load32 m (ef_virtual_end file)"

definition elf_physical_base :: "addr \<Rightarrow> mem \<Rightarrow> addr" where
  "elf_physical_base file m = load32 m (ef_physical_base file)"

definition elf_physical_end :: "addr \<Rightarrow> mem \<Rightarrow> addr" where
  "elf_physical_end file m = load32 m (ef_physical_end file)"

definition elf_validate_load :: "addr \<Rightarrow> addr \<Rightarrow> mem \<Rightarrow> i32" where
  "elf_validate_load sig header m =
     (if \<not> (elf_valid_signature sig header m \<and> elf_valid_class header m \<and> elf_valid_encoding header m \<and>
            elf_has_program_header header m) then - EBADFORMAT else 0)"

definition elf_process_phdr_pt_load :: "addr \<Rightarrow> addr \<Rightarrow> mem \<Rightarrow> i32 \<times> mem" where
  "elf_process_phdr_pt_load elf_file phdr m =
     (let m = (if elf_virtual_base elf_file m = 0 \<or> load32 m (p_vaddr phdr) \<le> elf_virtual_base elf_file m
               then let m = store32 m (ef_virtual_base elf_file) (load32 m (p_vaddr phdr))
                    in store32 m (ef_physical_base elf_file) (elf_memory elf_file m + load32 m (p_offset phdr))
               else m);
          m = (if elf_virtual_end elf_file m = 0 \<or>
                  elf_virtual_end elf_file m \<le> load32 m (p_vaddr phdr) + load32 m (p_memsz phdr)
               then let m = store32 m (ef_virtual_end elf_file) (load32 m (p_vaddr phdr) + load32 m (p_memsz phdr))
                    in store32 m (ef_physical_end elf_file)
                         (elf_memory elf_file m + load32 m (p_offset phdr) + load32 m (p_memsz phdr))
               else m)
      in (0, m))"

definition elf_process_pheader :: "addr \<Rightarrow> addr \<Rightarrow> mem \<Rightarrow> i32 \<times> mem" where
  "elf_process_pheader elf_file phdr m =
     (if load32 m (p_type phdr) = PT_LOAD then elf_process_phdr_pt_load elf_file phdr m
      else (- EINVAL, m))"

text \<open>\<open>e_phnum\<close> is read before each round; \<open>n\<close> bounds the rounds, which are at most \<open>2 ^ 16\<close>.\<close>

fun elf_pheaders_loop :: "addr \<Rightarrow> addr \<Rightarrow> i32 \<Rightarrow> nat \<Rightarrow> mem \<Rightarrow> i32 \<times> mem" where
  "elf_pheaders_loop elf_file header i 0 m = (0, m)"
| "elf_pheaders_loop elf_file header i (Suc n) m =
     (if \<not> sint i < sint (ucast (load16 m (e_phnum header)) :: i32) then (0, m)
      else let (ret, m) = elf_process_pheader elf_file (elf_program_header header i m) m
           in if sint ret < 0 then (ret, m) else elf_pheaders_loop elf_file header (i + 1) n m)"

definition elf_process_pheaders :: "addr \<Rightarrow> mem \<Rightarrow> i32 \<times> mem" where
  "elf_process_pheaders elf_file m = elf_pheaders_loop elf_file (elf_header elf_file m) 0 65536 m"

definition elf_process_loaded :: "addr \<Rightarrow> addr \<Rightarrow> mem \<Rightarrow> i32 \<times> mem" where
  "elf_process_loaded sig elf_file m =
     (let header = elf_header elf_file m; ret = elf_validate_load sig header m
      in if sint ret < 0 then (ret, m)
         else let (ret, m) = elf_process_pheaders elf_file m
              in if sint ret < 0 then (ret, m) else (0, m))"

section \<open>Properties\<close>

text \<open>A program header: its type, address, offset in the file and size in memory.\<close>

type_synonym segment = "u32 \<times> u32 \<times> u32 \<times> u32"

abbreviation seg_type :: "segment \<Rightarrow> u32" where "seg_type \<equiv> fst"
abbreviation seg_start :: "segment \<Rightarrow> u32" where "seg_start g \<equiv> fst (snd g)"
abbreviation seg_offset :: "segment \<Rightarrow> u32" where "seg_offset g \<equiv> fst (snd (snd g))"
abbreviation seg_size :: "segment \<Rightarrow> u32" where "seg_size g \<equiv> snd (snd (snd g))"
abbreviation seg_end :: "segment \<Rightarrow> u32" where "seg_end g \<equiv> seg_start g + seg_size g"

text \<open>The four bounds of a \<open>struct elf_file\<close> are its last 16 bytes.\<close>

definition off_bounds :: "addr \<Rightarrow> addr \<Rightarrow> nat \<Rightarrow> bool" where
  "off_bounds f p n = (\<forall>i < n. 16 \<le> unat (p + of_nat i - (f + 116)))"

definition bounds_frame :: "addr \<Rightarrow> mem \<Rightarrow> mem \<Rightarrow> bool" where
  "bounds_frame f m m' = (\<forall>a. 16 \<le> unat (a - (f + 116)) \<longrightarrow> m' a = m a)"

lemma bounds_frame_byte:
  assumes "bounds_frame f m m'" and "off_bounds f p n" and "unat i < n"
  shows "m' (p + i) = m (p + i)"
proof -
  have "16 \<le> unat (p + of_nat (unat i) - (f + 116))" using assms(2,3) unfolding off_bounds_def by blast
  with assms(1) show ?thesis by (simp add: bounds_frame_def)
qed

lemma bounds_frame_load:
  assumes "bounds_frame f m m'" and "off_bounds f p n" and "unat i + 4 \<le> n"
  shows "load32 m' (p + i) = load32 m (p + i)"
proof (rule load32_same)
  fix k :: u32 assume "k < 4"
  then have "unat (i + k) < n" using assms(3) by (simp add: word_less_nat_alt unat_word_ariths le_less_trans [OF mod_less_eq_dividend])
  from bounds_frame_byte [OF assms(1,2) this] show "m' (p + i + k) = m (p + i + k)" by (simp add: add.assoc)
qed

definition segment_at :: "mem \<Rightarrow> addr \<Rightarrow> addr \<Rightarrow> segment \<Rightarrow> bool" where
  "segment_at m f p g = (load32 m (p_type p) = seg_type g \<and> load32 m (p_vaddr p) = seg_start g \<and>
     load32 m (p_offset p) = seg_offset g \<and> load32 m (p_memsz p) = seg_size g \<and> off_bounds f p 32)"

definition segments_at :: "mem \<Rightarrow> addr \<Rightarrow> addr \<Rightarrow> segment list \<Rightarrow> bool" where
  "segments_at m f h gs = (load16 m (e_phnum h) = of_nat (length gs) \<and> length gs < 65536 \<and> load32 m (e_phoff h) \<noteq> 0 \<and>
     off_bounds f h 52 \<and> (\<forall>k < length gs. segment_at m f (h + load32 m (e_phoff h) + of_nat k * 32) (gs ! k)))"

lemma segment_at_frame: "bounds_frame f m m' \<Longrightarrow> segment_at m f p g \<Longrightarrow> segment_at m' f p g"
  using bounds_frame_load [of f m m' p 32 0] bounds_frame_load [of f m m' p 32 4]
    bounds_frame_load [of f m m' p 32 8] bounds_frame_load [of f m m' p 32 20]
  by (simp add: segment_at_def layout)

lemma segments_at_frame:
  assumes "bounds_frame f m m'" and "segments_at m f h gs"
  shows "segments_at m' f h gs"
  using assms(2) bounds_frame_load [OF assms(1), of h 52 28] bounds_frame_byte [OF assms(1), of h 52 44]
    bounds_frame_byte [OF assms(1), of h 52 45] segment_at_frame [OF assms(1)]
  by (simp add: segments_at_def layout load16_def add.assoc)

text \<open>
  The bounds of the segments \<open>gs\<close> seen so far: nothing yet, or the first and the last
  address, each with the place in memory of a segment that has it.
\<close>

definition bounds_of :: "mem \<Rightarrow> addr \<Rightarrow> segment list \<Rightarrow> bool" where
  "bounds_of m f gs =
     (if gs = [] then elf_virtual_base f m = 0 \<and> elf_virtual_end f m = 0
      else (\<exists>g \<in> set gs. elf_virtual_base f m = seg_start g \<and> elf_physical_base f m = elf_memory f m + seg_offset g \<and>
              (\<forall>g' \<in> set gs. seg_start g \<le> seg_start g')) \<and>
           (\<exists>g \<in> set gs. elf_virtual_end f m = seg_end g \<and>
              elf_physical_end f m = elf_memory f m + seg_offset g + seg_size g \<and>
              (\<forall>g' \<in> set gs. seg_end g' \<le> seg_end g)))"

lemma bounds_frame_store:
  assumes "116 \<le> unat k" and "unat k \<le> 128"
  shows "bounds_frame f m (store32 m (f + k) v)"
  unfolding bounds_frame_def
proof (intro allI impI)
  fix a assume a: "16 \<le> unat (a - (f + 116))"
  have "a \<noteq> f + k + j" if "j < 4" for j
  proof
    assume e: "a = f + k + j"
    have "a - (f + 116) = k - 116 + j" by (simp add: e)
    moreover have "unat (k - 116) = unat k - 116" using assms by (subst unat_sub) (simp_all add: word_le_nat_alt)
    moreover have "unat j < 4" using that by (simp add: word_less_nat_alt)
    ultimately have "unat (a - (f + 116)) < 16" using assms by (subst \<open>a - (f + 116) = _\<close>, subst unat_add_less) simp_all
    with a show False by simp
  qed
  from this [of 0] this [of 1] this [of 2] this [of 3] show "store32 m (f + k) v a = m a" by (simp add: store32_def)
qed

lemma bounds_frame_trans: "bounds_frame f m m' \<Longrightarrow> bounds_frame f m' m'' \<Longrightarrow> bounds_frame f m m''"
  by (simp add: bounds_frame_def)

lemma bounds_frame_memory: "bounds_frame f m m' \<Longrightarrow> elf_memory f m' = elf_memory f m"
proof -
  assume fr: "bounds_frame f m m'"
  have same: "m' a = m a" if "16 \<le> unat (a - (f + 116))" for a using fr that by (simp add: bounds_frame_def)
  have last: "f + 115 - (f + 116) = (0xFFFFFFFF :: u32)" by simp
  have "m' (f + 115) = m (f + 115)" by (rule same) (simp only: last, simp)
  moreover have "m' (f + 112) = m (f + 112)" "m' (f + 113) = m (f + 113)" "m' (f + 114) = m (f + 114)"
    by (rule same; simp)+
  ultimately show ?thesis by (simp add: elf_memory_def layout load32_def add.assoc)
qed

lemma elf_pt_load_step:
  assumes seg: "segment_at m f p g" and b: "bounds_of m f gs" and nz: "seg_start g \<noteq> 0" "seg_end g \<noteq> 0"
    and nzs: "\<And>g. g \<in> set gs \<Longrightarrow> seg_start g \<noteq> 0 \<and> seg_end g \<noteq> 0"
  obtains m' where "elf_process_phdr_pt_load f p m = (0, m')" and "bounds_frame f m m'" and "bounds_of m' f (gs @ [g])"
proof -
  let ?lower = "elf_virtual_base f m = 0 \<or> seg_start g \<le> elf_virtual_base f m"
  let ?upper = "elf_virtual_end f m = 0 \<or> elf_virtual_end f m \<le> seg_end g"
  let ?m0 = "store32 m (ef_virtual_base f) (seg_start g)"
  define m1 where "m1 = (if ?lower then store32 ?m0 (ef_physical_base f) (elf_memory f m + seg_offset g) else m)"
  let ?m1 = "store32 m1 (ef_virtual_end f) (seg_end g)"
  define m2 where "m2 = (if ?upper then store32 ?m1 (ef_physical_end f) (elf_memory f m + seg_offset g + seg_size g) else m1)"
  have st: "bounds_frame f x (store32 x (ef_virtual_base f) v)" "bounds_frame f x (store32 x (ef_physical_base f) v)"
      "bounds_frame f x (store32 x (ef_virtual_end f) v)" "bounds_frame f x (store32 x (ef_physical_end f) v)" for x v
    by (simp_all add: layout bounds_frame_store)
  have fr1: "bounds_frame f m m1"
    using bounds_frame_trans [OF st(1) st(2)] by (simp add: m1_def bounds_frame_def [of f m m])
  have fr2: "bounds_frame f m m2"
    using fr1 bounds_frame_trans [OF fr1 bounds_frame_trans [OF st(3) st(4)]] by (simp add: m2_def)
  have mem: "elf_memory f m2 = elf_memory f m" "elf_memory f m1 = elf_memory f m" "elf_memory f ?m0 = elf_memory f m"
      "elf_memory f ?m1 = elf_memory f m"
    using bounds_frame_memory fr1 fr2 st by metis+
  have r: "load32 m (p_vaddr p) = seg_start g" "load32 ?m0 (p_offset p) = seg_offset g" "load32 m1 (p_vaddr p) = seg_start g"
      "load32 m1 (p_memsz p) = seg_size g" "load32 ?m1 (p_offset p) = seg_offset g" "load32 ?m1 (p_memsz p) = seg_size g"
    using seg segment_at_frame [OF fr1 seg] segment_at_frame [OF st(1) seg]
      segment_at_frame [OF bounds_frame_trans [OF fr1 st(3)] seg] by (simp_all add: segment_at_def)
  have end1: "elf_virtual_end f m1 = elf_virtual_end f m"
    by (simp add: m1_def elf_virtual_end_def layout load32_store32_apart)
  have res: "elf_process_phdr_pt_load f p m = (0, m2)"
    unfolding elf_process_phdr_pt_load_def Let_def r(1,2) mem(3) m1_def [symmetric] end1 r(3-6) mem(4) m2_def [symmetric] ..
  have low: "elf_virtual_base f m2 = (if ?lower then seg_start g else elf_virtual_base f m)"
      "elf_physical_base f m2 = (if ?lower then elf_memory f m + seg_offset g else elf_physical_base f m)"
    by (simp_all add: m1_def m2_def elf_virtual_base_def elf_physical_base_def layout load32_store32_apart)
  have up: "elf_virtual_end f m2 = (if ?upper then seg_end g else elf_virtual_end f m)"
      "elf_physical_end f m2 = (if ?upper then elf_memory f m + seg_offset g + seg_size g else elf_physical_end f m)"
    by (simp_all add: m1_def m2_def elf_virtual_end_def elf_physical_end_def layout load32_store32_apart)
  have "bounds_of m2 f (gs @ [g])"
  proof (cases "gs = []")
    case True
    with b low up mem show ?thesis by (simp add: bounds_of_def)
  next
    case False
    then have "\<exists>g \<in> set gs. elf_virtual_base f m = seg_start g \<and> elf_physical_base f m = elf_memory f m + seg_offset g \<and>
          (\<forall>g' \<in> set gs. seg_start g \<le> seg_start g')"
      and "\<exists>g \<in> set gs. elf_virtual_end f m = seg_end g \<and>
          elf_physical_end f m = elf_memory f m + seg_offset g + seg_size g \<and> (\<forall>g' \<in> set gs. seg_end g' \<le> seg_end g)"
      using b by (simp_all only: bounds_of_def if_False)
    then obtain a z where a: "a \<in> set gs" "elf_virtual_base f m = seg_start a" "elf_physical_base f m = elf_memory f m + seg_offset a"
        "\<And>g'. g' \<in> set gs \<Longrightarrow> seg_start a \<le> seg_start g'"
      and z: "z \<in> set gs" "elf_virtual_end f m = seg_end z" "elf_physical_end f m = elf_memory f m + seg_offset z + seg_size z"
        "\<And>g'. g' \<in> set gs \<Longrightarrow> seg_end g' \<le> seg_end z"
      by blast
    have "\<exists>x \<in> set (gs @ [g]). elf_virtual_base f m2 = seg_start x \<and> elf_physical_base f m2 = elf_memory f m2 + seg_offset x \<and>
        (\<forall>g' \<in> set (gs @ [g]). seg_start x \<le> seg_start g')"
    proof (cases "seg_start g \<le> seg_start a")
      case True
      then have "\<forall>g' \<in> set (gs @ [g]). seg_start g \<le> seg_start g'" using a(4) order.trans [OF True] by simp
      then show ?thesis using True low a(2) mem by (intro bexI [of _ g]) simp_all
    next
      case lt: False
      then have "\<forall>g' \<in> set (gs @ [g]). seg_start a \<le> seg_start g'" using a(4) by simp
      then show ?thesis using lt low a(1-3) mem nzs [OF a(1)] by (intro bexI [of _ a]) simp_all
    qed
    moreover have "\<exists>x \<in> set (gs @ [g]). elf_virtual_end f m2 = seg_end x \<and>
        elf_physical_end f m2 = elf_memory f m2 + seg_offset x + seg_size x \<and> (\<forall>g' \<in> set (gs @ [g]). seg_end g' \<le> seg_end x)"
    proof (cases "seg_end z \<le> seg_end g")
      case True
      then have "\<forall>g' \<in> set (gs @ [g]). seg_end g' \<le> seg_end g" using z(4) order.trans [OF _ True] by simp
      then show ?thesis using True up z(2) mem by (intro bexI [of _ g]) simp_all
    next
      case lt: False
      then have "\<forall>g' \<in> set (gs @ [g]). seg_end g' \<le> seg_end z" using z(4) by simp
      then show ?thesis using lt up z(1-3) mem nzs [OF z(1)] by (intro bexI [of _ z]) simp_all
    qed
    ultimately show ?thesis by (simp only: bounds_of_def) simp
  qed
  with res fr2 show thesis using that by blast
qed

lemma elf_pheaders_loop_spec:
  assumes "segments_at m f (elf_memory f m) gs" and "gs = pre @ rest" and "bounds_of m f pre"
    and "\<And>g. g \<in> set gs \<Longrightarrow> seg_start g \<noteq> 0 \<and> seg_end g \<noteq> 0" and "length rest < n"
  shows "\<exists>m'. elf_pheaders_loop f (elf_memory f m) (of_nat (length pre)) n m =
      (if \<forall>g \<in> set rest. seg_type g = PT_LOAD then 0 else - EINVAL, m') \<and> bounds_frame f m m' \<and>
      ((\<forall>g \<in> set rest. seg_type g = PT_LOAD) \<longrightarrow> bounds_of m' f gs)"
  using assms
proof (induction rest arbitrary: pre m n)
  case Nil
  obtain n' where n: "n = Suc n'" using Nil.prems(5) by (cases n) auto
  have "elf_pheaders_loop f (elf_memory f m) (of_nat (length pre)) n m = (0, m)"
    using Nil.prems(1,2) by (simp add: n segments_at_def sint_of_nat unsigned_of_nat take_bit_nat_eq_self)
  with Nil.prems show ?case by (intro exI [of _ m]) (simp add: bounds_frame_def)
next
  case (Cons g rest)
  obtain n' where n: "n = Suc n'" using Cons.prems(5) by (cases n) auto
  let ?h = "elf_memory f m"
  let ?p = "?h + load32 m (e_phoff ?h) + of_nat (length pre) * 32"
  have s: "load16 m (e_phnum ?h) = of_nat (length gs)" "length gs < 65536" "load32 m (e_phoff ?h) \<noteq> 0"
    using Cons.prems(1) unfolding segments_at_def by blast+
  have "length pre < length gs" by (simp add: Cons.prems(2))
  then have "segment_at m f ?p (gs ! length pre)" using Cons.prems(1) unfolding segments_at_def by blast
  then have s4: "segment_at m f ?p g" by (simp add: Cons.prems(2))
  have p: "elf_program_header ?h (of_nat (length pre)) m = ?p"
    using s(3) by (simp add: elf_program_header_def elf_pheaders_def sizeof_phdr_def)
  have go: "sint (of_nat (length pre) :: i32) < sint (ucast (load16 m (e_phnum ?h)) :: i32)"
  proof -
    have "sint (ucast (of_nat (length gs) :: u16) :: i32) = int (length gs)"
      using s(2) by (simp add: sint_of_nat unsigned_of_nat take_bit_nat_eq_self)
    moreover have "sint (of_nat (length pre) :: i32) = int (length pre)" "length pre < length gs"
      using s(2) Cons.prems(2) by (simp_all add: sint_of_nat)
    ultimately show ?thesis using s(1) by simp
  qed
  show ?case
  proof (cases "seg_type g = PT_LOAD")
    case False
    then have "elf_process_pheader f ?p m = (- EINVAL, m)" using s4 by (simp add: elf_process_pheader_def segment_at_def)
    moreover have "sint (- EINVAL) < 0" by (simp add: EINVAL_def)
    ultimately have "elf_pheaders_loop f ?h (of_nat (length pre)) n m = (- EINVAL, m)"
      using go by (simp add: n p)
    with False show ?thesis by (intro exI [of _ m]) (simp add: bounds_frame_def)
  next
    case True
    have nz: "seg_start g \<noteq> 0" "seg_end g \<noteq> 0" using Cons.prems(2) Cons.prems(4) [of g] by simp_all
    have nzs: "seg_start x \<noteq> 0 \<and> seg_end x \<noteq> 0" if "x \<in> set pre" for x using Cons.prems(2) Cons.prems(4) [of x] that by simp
    obtain m1 where m1: "elf_process_phdr_pt_load f ?p m = (0, m1)" "bounds_frame f m m1" "bounds_of m1 f (pre @ [g])"
      by (rule elf_pt_load_step [OF s4 Cons.prems(3) nz nzs])
    have h: "elf_memory f m1 = ?h" by (rule bounds_frame_memory [OF m1(2)])
    have "elf_process_pheader f ?p m = (0, m1)" using True s4 m1(1) by (simp add: elf_process_pheader_def segment_at_def)
    then have step: "elf_pheaders_loop f ?h (of_nat (length pre)) n m = elf_pheaders_loop f ?h (of_nat (length (pre @ [g]))) n' m1"
      using go by (simp add: n p add.commute)
    have "segments_at m1 f (elf_memory f m1) gs" unfolding h by (rule segments_at_frame [OF m1(2) Cons.prems(1)])
    from Cons.IH [OF this _ m1(3) Cons.prems(4), of n'] obtain m' where
      "elf_pheaders_loop f ?h (of_nat (length (pre @ [g]))) n' m1 =
        (if \<forall>g \<in> set rest. seg_type g = PT_LOAD then 0 else - EINVAL, m')" "bounds_frame f m1 m'"
      "(\<forall>g \<in> set rest. seg_type g = PT_LOAD) \<longrightarrow> bounds_of m' f gs"
      using Cons.prems(2,5) by (auto simp: h n)
    with step True bounds_frame_trans [OF m1(2)] show ?thesis by auto
  qed
qed

text \<open>
  C20. When the program headers of a file are all loadable, the loader finds the lowest
  start and the highest end of them, with their places in memory, changes nothing but these
  four words and returns 0; a header of another type makes it fail with \<open>- EINVAL\<close>.
\<close>

theorem elf_process_pheaders_bounds:
  assumes "segments_at m f (elf_header f m) gs" and "elf_virtual_base f m = 0" and "elf_virtual_end f m = 0"
    and "\<And>g. g \<in> set gs \<Longrightarrow> seg_start g \<noteq> 0 \<and> seg_end g \<noteq> 0"
  shows "\<exists>m'. elf_process_pheaders f m = (if \<forall>g \<in> set gs. seg_type g = PT_LOAD then 0 else - EINVAL, m') \<and>
     (\<forall>a. 16 \<le> unat (a - ef_virtual_base f) \<longrightarrow> m' a = m a) \<and>
     ((\<forall>g \<in> set gs. seg_type g = PT_LOAD) \<longrightarrow> bounds_of m' f gs)"
proof -
  have h: "elf_header f m = elf_memory f m" by (simp add: elf_header_def elf_memory_def)
  have "length gs < 65536" using assms(1) by (simp add: segments_at_def)
  moreover have "bounds_of m f []" using assms(2,3) by (simp add: bounds_of_def)
  ultimately show ?thesis
    using elf_pheaders_loop_spec [of m f gs "[]" gs 65536] assms(1,4) h
    by (simp add: elf_process_pheaders_def bounds_frame_def layout)
qed

text \<open>A file at \<open>0x50000\<close> with a text and a data segment, described at \<open>0x40000\<close>.\<close>

definition elf_example :: mem where
  "elf_example = store32 (store32 (store32 (store32 (store32 (store32 (store32 (store32 (store32 (store32
     ((\<lambda>_. 0)(0x5002C := 2))
     0x40070 0x50000) 0x5001C 0x34)
     0x50034 1) 0x50038 0x1000) 0x5003C 0x400000) 0x50048 0x800)
     0x50054 1) 0x50058 0x2000) 0x5005C 0x402000) 0x50068 0x100"

definition elf_segments :: "segment list" where
  "elf_segments = [(1, 0x400000, 0x1000, 0x800), (1, 0x402000, 0x2000, 0x100)]"

lemma elf_example_values:
  "elf_header 0x40000 elf_example = 0x50000" "elf_virtual_base 0x40000 elf_example = 0"
  "elf_virtual_end 0x40000 elf_example = 0" "load32 elf_example (e_phoff 0x50000) = 0x34"
  "load16 elf_example (e_phnum 0x50000) = 2"
  by (simp_all add: elf_example_def elf_header_def elf_virtual_base_def elf_virtual_end_def layout load32_store32_apart)
    (simp_all add: load32_def load16_def store32_def)

lemma off_bounds_example: "0x50000 \<le> unat p \<Longrightarrow> unat p + n < 0x60000 \<Longrightarrow> off_bounds 0x40000 p n"
  unfolding off_bounds_def
proof (intro allI impI)
  fix i assume a: "0x50000 \<le> unat p" "unat p + n < 0x60000" "i < n"
  then have "unat (p + of_nat i) = unat p + i" by (subst unat_add_less) (simp_all add: unat_of_nat32)
  with a have "unat (p + of_nat i - 0x40074) = unat p + i - 0x40074" by (subst unat_sub) (simp_all add: word_le_nat_alt)
  with a show "16 \<le> unat (p + of_nat i - (0x40000 + 116))" by simp
qed

lemma elf_example_segments: "segments_at elf_example 0x40000 0x50000 elf_segments"
proof -
  have "segment_at elf_example 0x40000 0x50034 (1, 0x400000, 0x1000, 0x800)"
    "segment_at elf_example 0x40000 0x50054 (1, 0x402000, 0x2000, 0x100)"
    by (simp_all add: segment_at_def elf_example_def layout load32_store32_apart off_bounds_example)
  then show ?thesis
    using elf_example_values
    by (auto simp: segments_at_def elf_segments_def off_bounds_example less_Suc_eq)
qed

theorem elf_process_pheaders_bounds_witness:
  "\<exists>m'. elf_process_pheaders 0x40000 elf_example = (0, m') \<and> bounds_of m' 0x40000 elf_segments"
proof -
  have s: "segments_at elf_example 0x40000 (elf_header 0x40000 elf_example) elf_segments"
    using elf_example_segments by (simp add: elf_example_values)
  have "seg_start g \<noteq> 0 \<and> seg_end g \<noteq> 0" if "g \<in> set elf_segments" for g
    using that by (auto simp: elf_segments_def)
  from elf_process_pheaders_bounds [OF s elf_example_values(2,3) this]
  show ?thesis by (auto simp: elf_segments_def PT_LOAD_def)
qed

end
