(* ===== verification/Task.thy ===== *)
theory Task
  imports Machine Elf
begin

text \<open>
  \<open>phix/src/task/task.c\<close>: tasks, a doubly linked list of structures on kernel heap pages.
  The file's variables are a record over the machine; \<open>kchunk\<close> of \<open>kernel.c\<close>, which
  \<open>kernel_page\<close> uses, is with them. The segment registers that \<open>user_registers\<close> and
  \<open>kernel_registers\<close> set are not modelled, and \<open>task_return\<close> (assembly) leaves the kernel.
\<close>

record tasks = machine +
  current_task :: addr
  task_tail :: addr
  task_head :: addr
  kchunk :: addr

definition PROCESS_FILETYPE_ELF :: u8 where [config_defs]: "PROCESS_FILETYPE_ELF = 0"
definition PROCESS_FILETYPE_BINARY :: u8 where [config_defs]: "PROCESS_FILETYPE_BINARY = 1"

definition task_current :: "'a tasks_scheme \<Rightarrow> addr" where
  "task_current s = current_task s"

text \<open>
  \<open>copy_string_from_task\<close>: the copy runs under the task's directory, in which \<open>tmp\<close> is
  mapped to itself for the time of the copy. A failing \<open>paging_get\<close> returns without
  freeing \<open>tmp\<close>.
\<close>

definition copy_string_from_task ::
    "addr \<Rightarrow> addr \<Rightarrow> addr \<Rightarrow> i32 \<Rightarrow> mem \<Rightarrow> (i32 \<times> mem) outcome" where
  "copy_string_from_task task virtual phys mx m =
     (if sint PAGING_PAGE_SIZE \<le> sint mx then Done (- EINVAL, m)
      else let (tmp, m) = kzalloc mx m in
        if tmp = 0 then Done (- ENOMEM, m)
        else let chunk = load32 m (task_page_directory task);
                 (ret, old_directory) = paging_get (load32 m chunk) tmp 0 m
             in if sint ret < 0 then Done (ret, m)
                else let (_, m) = paging_map chunk tmp tmp
                            (PAGING_IS_WRITABLE OR PAGING_IS_PRESENT OR PAGING_ACCESS_FROM_ALL) m
                     in obind (vstrncpy (paging_switch chunk m) tmp virtual (unat mx - 1) m) (\<lambda>m.
                          let (ret, m) = paging_set (load32 m chunk) tmp old_directory m
                          in if sint ret < 0 then Done (ret, kfree tmp m)
                             else Done (ret, kfree tmp (strncpy m phys tmp mx))))"

definition task_switch :: "addr \<Rightarrow> 'a tasks_scheme \<Rightarrow> 'a tasks_scheme" where
  "task_switch task s =
     (let s = s\<lparr>current_task := task\<rparr>
      in switch_chunk (load32 (ram s) (task_page_directory task)) s)"

text \<open>The interrupt frame lies on the kernel stack, at the offsets of \<open>idt.h\<close>.\<close>

definition frame_edi :: "addr \<Rightarrow> addr" where [layout]: "frame_edi f = f"
definition frame_esi :: "addr \<Rightarrow> addr" where [layout]: "frame_esi f = f + 4"
definition frame_ebp :: "addr \<Rightarrow> addr" where [layout]: "frame_ebp f = f + 8"
definition frame_ebx :: "addr \<Rightarrow> addr" where [layout]: "frame_ebx f = f + 16"
definition frame_edx :: "addr \<Rightarrow> addr" where [layout]: "frame_edx f = f + 20"
definition frame_ecx :: "addr \<Rightarrow> addr" where [layout]: "frame_ecx f = f + 24"
definition frame_eax :: "addr \<Rightarrow> addr" where [layout]: "frame_eax f = f + 28"
definition frame_ip :: "addr \<Rightarrow> addr" where [layout]: "frame_ip f = f + 32"
definition frame_cs :: "addr \<Rightarrow> addr" where [layout]: "frame_cs f = f + 36"
definition frame_flags :: "addr \<Rightarrow> addr" where [layout]: "frame_flags f = f + 40"
definition frame_esp :: "addr \<Rightarrow> addr" where [layout]: "frame_esp f = f + 44"
definition frame_ss :: "addr \<Rightarrow> addr" where [layout]: "frame_ss f = f + 48"

definition task_save_state :: "addr \<Rightarrow> addr \<Rightarrow> mem \<Rightarrow> mem" where
  "task_save_state task frame m =
     (let r = task_registers task;
          m = store32 m (reg_ip r) (load32 m (frame_ip frame));
          m = store32 m (reg_cs r) (load32 m (frame_cs frame));
          m = store32 m (reg_flags r) (load32 m (frame_flags frame));
          m = store32 m (reg_esp r) (load32 m (frame_esp frame));
          m = store32 m (reg_ss r) (load32 m (frame_ss frame));
          m = store32 m (reg_eax r) (load32 m (frame_eax frame));
          m = store32 m (reg_ebp r) (load32 m (frame_ebp frame));
          m = store32 m (reg_ebx r) (load32 m (frame_ebx frame));
          m = store32 m (reg_ecx r) (load32 m (frame_ecx frame));
          m = store32 m (reg_edi r) (load32 m (frame_edi frame));
          m = store32 m (reg_edx r) (load32 m (frame_edx frame))
      in store32 m (reg_esi r) (load32 m (frame_esi frame)))"

definition task_current_save_state :: "addr \<Rightarrow> 'a tasks_scheme \<Rightarrow> 'a tasks_scheme outcome" where
  "task_current_save_state frame s =
     (if current_task s = 0 then Panic ''No current task to save''
      else Done (s\<lparr>ram := task_save_state (current_task s) frame (ram s)\<rparr>))"

definition task_page :: "'a tasks_scheme \<Rightarrow> 'a tasks_scheme" where
  "task_page s = task_switch (current_task s) s"

definition task_page_task :: "addr \<Rightarrow> 'a tasks_scheme \<Rightarrow> 'a tasks_scheme" where
  "task_page_task task s = switch_chunk (load32 (ram s) (task_page_directory task)) s"

text \<open>The state in which \<open>task_return\<close> is entered, with the address of the registers.\<close>

definition task_run_first_task :: "'a tasks_scheme \<Rightarrow> (addr \<times> 'a tasks_scheme) outcome" where
  "task_run_first_task s =
     (if current_task s = 0 then Panic ''task_run_first_check: No current_task exists''
      else Done (task_registers (task_head s), task_switch (task_head s) s))"

definition task_init :: "addr \<Rightarrow> addr \<Rightarrow> mem \<Rightarrow> (i32 \<times> mem) outcome" where
  "task_init task process m =
     (let m = memset m task 0 sizeof_task
      in obind (paging_new_chunk (PAGING_IS_PRESENT OR PAGING_ACCESS_FROM_ALL) m) (\<lambda>(chunk, m).
           let m = store32 m (task_page_directory task) chunk
           in if chunk = 0 then Done (- EIO, m)
              else let r = task_registers task;
                       m = store32 m (reg_ip r) PHIX_PROGRAM_VIRTUAL_ADDRESS;
                       m = (if m (process_filetype process) = PROCESS_FILETYPE_ELF
                            then store32 m (reg_ip r)
                                   (load32 m (e_entry (elf_header (load32 m (process_elf_file process)) m)))
                            else m);
                       m = store32 m (reg_ss r) USER_DATA_SEGMENT;
                       m = store32 m (reg_cs r) USER_CODE_SEGMENT;
                       m = store32 m (reg_esp r) PHIX_PROGRAM_VIRTUAL_STACK_ADDRESS_START
                   in Done (0, store32 m (task_process task) process)))"

text \<open>Linking a new task into the list.\<close>

definition task_link :: "addr \<Rightarrow> 'a tasks_scheme \<Rightarrow> 'a tasks_scheme" where
  "task_link task s =
     (if task_head s = 0
      then s\<lparr>task_head := task, task_tail := task, current_task := task\<rparr>
      else let m = store32 (ram s) (task_next (task_tail s)) task;
               m = store32 m (task_prev task) (task_tail s)
           in s\<lparr>ram := m, task_tail := task\<rparr>)"

definition task_new :: "addr \<Rightarrow> 'a tasks_scheme \<Rightarrow> (addr \<times> 'a tasks_scheme) outcome" where
  "task_new process s =
     (let (task, m) = kzalloc sizeof_task (ram s)
      in if task = 0 then Done (- ENOMEM, s\<lparr>ram := m\<rparr>)
         else obind (task_init task process m) (\<lambda>(ret, m).
           if sint ret < 0 then Done (ret, s\<lparr>ram := m\<rparr>)
           else Done (task, task_link task (s\<lparr>ram := m\<rparr>))))"

definition task_get_next :: "'a tasks_scheme \<Rightarrow> addr" where
  "task_get_next s =
     (if load32 (ram s) (task_next (current_task s)) = 0 then task_head s
      else load32 (ram s) (task_next (current_task s)))"

definition task_list_remove :: "addr \<Rightarrow> 'a tasks_scheme \<Rightarrow> 'a tasks_scheme" where
  "task_list_remove task s =
     (let s = (if load32 (ram s) (task_prev task) \<noteq> 0
               then s\<lparr>ram := store32 (ram s) (task_next (load32 (ram s) (task_prev task)))
                                (load32 (ram s) (task_next task))\<rparr> else s);
          s = (if task = task_head s then s\<lparr>task_head := load32 (ram s) (task_next task)\<rparr> else s);
          s = (if task = task_tail s then s\<lparr>task_tail := load32 (ram s) (task_prev task)\<rparr> else s)
      in if task = current_task s then s\<lparr>current_task := task_get_next s\<rparr> else s)"

definition task_free :: "addr \<Rightarrow> 'a tasks_scheme \<Rightarrow> 'a tasks_scheme" where
  "task_free task s =
     (if task = 0 then s
      else let s = s\<lparr>ram := paging_free_chunk (load32 (ram s) (task_page_directory task)) (ram s)\<rparr>;
               s = task_list_remove task s
           in s\<lparr>ram := kfree task (ram s)\<rparr>)"

definition task_get_stack_item :: "addr \<Rightarrow> i32 \<Rightarrow> 'a tasks_scheme \<Rightarrow> (u32 \<times> 'a tasks_scheme) outcome" where
  "task_get_stack_item task index s =
     (let sp_ptr = load32 (ram s) (reg_esp (task_registers task));
          s = task_page_task task s
      in obind (vload32 (cr3 s) (sp_ptr + 4 * index) (ram s)) (\<lambda>ret.
           Done (ret, kernel_page (kchunk s) s)))"

section \<open>The list of tasks\<close>

text \<open>
  Fields of heap objects are 4 byte slots of their pages: a store to one changes no other.
\<close>

lemma slot_update:
  assumes "t \<in> kheap_pool" and "u \<in> kheap_pool" and "i < 1024" and "j < 1024"
  shows "load32 (store32 m (pte_slot t i) v) (pte_slot u j)
       = (if t = u \<and> i = j then v else load32 m (pte_slot u j))"
proof (cases "t = u \<and> i = j")
  case False
  have al: "t mod 4096 = 0" "u mod 4096 = 0" using assms(1,2) kheap_pool_page by blast+
  have "pte_slot t i \<noteq> pte_slot u j"
  proof (cases "t = u")
    case True
    with False have "i \<noteq> j" by simp
    then show ?thesis using pte_slot_inj [OF al(1) assms(3,4)] True by blast
  next
    case False
    then show ?thesis by (intro pte_slot_other_table al assms(3,4))
  qed
  then have "load32 (store32 m (pte_slot t i) v) (pte_slot u j) = load32 m (pte_slot u j)"
    using pte_slot_page(2) [OF al(1) assms(3)] pte_slot_page(2) [OF al(2) assms(4)]
    by (intro load32_store32_other)
  with False show ?thesis by (simp only: if_False)
qed auto

lemma task_link_slots: "task_next t = pte_slot t 14" "task_prev t = pte_slot t 15"
  by (simp_all add: task_next_def task_prev_def pte_slot_def)

lemma task_link_update:
  assumes "t \<in> kheap_pool" and "u \<in> kheap_pool"
  shows "load32 (store32 m (task_next t) v) (task_next u) = (if t = u then v else load32 m (task_next u))"
    and "load32 (store32 m (task_next t) v) (task_prev u) = load32 m (task_prev u)"
    and "load32 (store32 m (task_prev t) v) (task_prev u) = (if t = u then v else load32 m (task_prev u))"
    and "load32 (store32 m (task_prev t) v) (task_next u) = load32 m (task_next u)"
  unfolding task_link_slots using slot_update [OF assms] by simp_all

text \<open>\<open>fwd m a ts\<close>: the tasks reached from \<open>a\<close> along \<open>next\<close> are \<open>ts\<close>.\<close>

fun fwd :: "mem \<Rightarrow> addr \<Rightarrow> addr list \<Rightarrow> bool" where
  "fwd m a [] = (a = 0)"
| "fwd m a (t # ts) = (a = t \<and> t \<in> kheap_pool \<and> fwd m (load32 m (task_next t)) ts)"

fun bwd :: "mem \<Rightarrow> addr \<Rightarrow> addr list \<Rightarrow> bool" where
  "bwd m a [] = True"
| "bwd m a (t # ts) = (load32 m (task_prev t) = a \<and> bwd m t ts)"

definition task_list :: "'a tasks_scheme \<Rightarrow> addr list \<Rightarrow> bool" where
  "task_list s ts = (fwd (ram s) (task_head s) ts \<and> bwd (ram s) 0 ts \<and> distinct ts \<and>
     task_tail s = (if ts = [] then 0 else last ts))"

lemma fwd_pool: "fwd m a ts \<Longrightarrow> set ts \<subseteq> kheap_pool"
  by (induction ts arbitrary: a) auto

lemma fwd_store_out:
  "fwd m a ts \<Longrightarrow> t \<in> kheap_pool \<Longrightarrow> t \<notin> set ts \<Longrightarrow> fwd (store32 m (task_next t) v) a ts"
  by (induction ts arbitrary: a) (auto simp: task_link_update)

lemma fwd_store_prev: "fwd m a ts \<Longrightarrow> t \<in> kheap_pool \<Longrightarrow> fwd (store32 m (task_prev t) v) a ts"
  by (induction ts arbitrary: a) (auto simp: task_link_update)

lemma fwd_append:
  "fwd m a (xs @ ys) \<longleftrightarrow> set xs \<subseteq> kheap_pool \<and>
     (if xs = [] then fwd m a ys else fwd m a (xs @ ys))"
  using fwd_pool [of m a "xs @ ys"] by auto

text \<open>Redirecting the last \<open>next\<close> of a segment replaces what follows it.\<close>

lemma fwd_redirect:
  assumes "fwd m a (xs @ p # ys)" and "distinct (xs @ [p])" and "fwd m b zs" and "p \<notin> set zs"
  shows "fwd (store32 m (task_next p) b) a (xs @ p # zs)"
  using assms
proof (induction xs arbitrary: a)
  case Nil
  then show ?case using fwd_store_out [OF Nil(3), of p b] by (auto simp: task_link_update)
next
  case (Cons x xs)
  then have "p \<in> kheap_pool" "x \<in> kheap_pool" using fwd_pool [OF Cons.prems(1)] by auto
  with Cons show ?case by (auto simp: task_link_update)
qed

lemma fwd_suffix: "fwd m a (xs @ p # ys) \<Longrightarrow> fwd m p (p # ys) \<and> fwd m (load32 m (task_next p)) ys"
  by (induction xs arbitrary: a) auto

lemma fwd_hd: "fwd m a ts \<Longrightarrow> a = (if ts = [] then 0 else hd ts)"
  by (cases ts) auto

lemma bwd_suffix: "bwd m a (xs @ p # ys) \<Longrightarrow> load32 m (task_prev p) = (if xs = [] then a else last xs) \<and> bwd m p ys"
  by (induction xs arbitrary: a) auto

lemma bwd_store_next:
  "bwd m a ts \<Longrightarrow> t \<in> kheap_pool \<Longrightarrow> set ts \<subseteq> kheap_pool \<Longrightarrow> bwd (store32 m (task_next t) v) a ts"
  by (induction ts arbitrary: a) (auto simp: task_link_update)

lemma bwd_store_out:
  "bwd m a ts \<Longrightarrow> t \<in> kheap_pool \<Longrightarrow> set ts \<subseteq> kheap_pool \<Longrightarrow> t \<notin> set ts \<Longrightarrow>
   bwd (store32 m (task_prev t) v) a ts"
  by (induction ts arbitrary: a) (auto simp: task_link_update)

lemma bwd_snoc: "bwd m a (ts @ [t]) \<longleftrightarrow> bwd m a ts \<and> load32 m (task_prev t) = (if ts = [] then a else last ts)"
  by (induction ts arbitrary: a) auto

text \<open>Three tasks on the first pages of the heap, for the witnesses.\<close>

definition three_tasks :: tasks where
  "three_tasks = \<lparr>ram = store32 (store32 (store32 (store32 (\<lambda>_. 0)
       (task_next 0x1000000) 0x1001000) (task_prev 0x1001000) 0x1000000)
       (task_next 0x1001000) 0x1002000) (task_prev 0x1002000) 0x1001000,
     cr3 = 0, io = [], cr0 = 0, gdt_register = (0, 0), idt_register = (0, 0), task_register = 0, current_task = 0x1001000, task_tail = 0x1002000, task_head = 0x1000000, kchunk = 0\<rparr>"

lemma kheap_pool_mem: "n < 25600 \<Longrightarrow> 0x1000000 + of_nat n * 4096 \<in> kheap_pool"
  by (auto simp: kheap_pool_def block_addr_def)

lemma example_pages: "0x1000000 \<in> kheap_pool" "0x1001000 \<in> kheap_pool" "0x1002000 \<in> kheap_pool" "0x1003000 \<in> kheap_pool"
  using kheap_pool_mem [of 0] kheap_pool_mem [of 1] kheap_pool_mem [of 2] kheap_pool_mem [of 3] by simp_all

lemma three_tasks_list: "task_list three_tasks [0x1000000, 0x1001000, 0x1002000]"
  by (simp add: task_list_def three_tasks_def task_link_update example_pages load32_zero)

section \<open>Properties\<close>

text \<open>
  C24. \<open>task_new\<close>'s linking appends the new task to the doubly linked list and keeps it in
  order; the first task becomes the current one.
\<close>

theorem task_link_appends:
  assumes "task_list s ts" and "t \<in> kheap_pool" and "t \<notin> set ts"
    and "load32 (ram s) (task_next t) = 0" and "load32 (ram s) (task_prev t) = 0"
  shows "task_list (task_link t s) (ts @ [t]) \<and>
     current_task (task_link t s) = (if ts = [] then t else current_task s)"
proof (cases "ts = []")
  case True
  with assms show ?thesis by (simp add: task_list_def task_link_def)
next
  case False
  then obtain xs p where ts: "ts = xs @ [p]" by (metis append_butlast_last_id)
  have l: "fwd (ram s) (task_head s) ts" "bwd (ram s) 0 ts" "distinct ts" "task_tail s = p"
    using assms(1) ts by (auto simp: task_list_def)
  have pool: "p \<in> kheap_pool" "set ts \<subseteq> kheap_pool" using fwd_pool [OF l(1)] ts by auto
  have "task_head s \<noteq> 0" using l(1) ts kheap_pool_page by (cases xs) auto
  let ?m1 = "store32 (ram s) (task_next p) t" and ?m = "store32 (store32 (ram s) (task_next p) t) (task_prev t) p"
  have link: "task_link t s = s\<lparr>ram := ?m, task_tail := t\<rparr>"
    using \<open>task_head s \<noteq> 0\<close> l(4) by (simp add: task_link_def)
  have "fwd (ram s) t [t]" using assms(2,4) by simp
  then have "fwd ?m1 (task_head s) (xs @ p # [t])"
    using l(1,3) ts assms(3) by (intro fwd_redirect [of _ _ _ _ "[]"]) auto
  then have f: "fwd ?m (task_head s) (ts @ [t])" using ts assms(2) fwd_store_prev by simp
  have "bwd ?m1 0 ts" using bwd_store_next [OF l(2) pool(1,2)] .
  then have "bwd ?m 0 ts" using bwd_store_out assms(2,3) pool(2) by blast
  then have b: "bwd ?m 0 (ts @ [t])" unfolding bwd_snoc using ts assms(2) by (simp add: task_link_update)
  show ?thesis using f b l(3) assms(3) False by (simp add: task_list_def link)
qed

theorem task_link_appends_witness:
  "task_list (task_link 0x1003000 three_tasks) [0x1000000, 0x1001000, 0x1002000, 0x1003000]"
  using task_link_appends [OF three_tasks_list example_pages(4)]
  by (simp add: three_tasks_def task_link_update example_pages load32_zero)

text \<open>
  \<open>task_list_remove\<close> takes a task out of the list along \<open>next\<close> and keeps the tail; a
  removed current task is followed by its successor, or by the head of the list.
\<close>

theorem task_list_remove_unlinks:
  assumes "task_list s (xs @ t # ys)"
  shows "fwd (ram (task_list_remove t s)) (task_head (task_list_remove t s)) (xs @ ys) \<and>
     task_tail (task_list_remove t s) = (if xs @ ys = [] then 0 else last (xs @ ys)) \<and>
     current_task (task_list_remove t s) = (if current_task s = t
       then (if ys \<noteq> [] then hd ys else if xs \<noteq> [] then hd xs else 0) else current_task s)"
proof -
  let ?m = "ram s"
  have l: "fwd ?m (task_head s) (xs @ t # ys)" "bwd ?m 0 (xs @ t # ys)" "distinct (xs @ t # ys)"
    "task_tail s = last (xs @ t # ys)" using assms by (auto simp: task_list_def)
  have pool: "t \<in> kheap_pool" "set xs \<subseteq> kheap_pool" using fwd_pool [OF l(1)] by auto
  have nx: "load32 ?m (task_next t) = (if ys = [] then 0 else hd ys)"
    using fwd_suffix [OF l(1)] fwd_hd by blast
  have pr: "load32 ?m (task_prev t) = (if xs = [] then 0 else last xs)"
    using bwd_suffix [OF l(2)] by simp
  have hd: "task_head s = (if xs = [] then t else hd xs)" using fwd_hd [OF l(1)] by (cases xs) auto
  have tl: "task_tail s = t \<longleftrightarrow> ys = []" using l(3,4) by (cases ys rule: rev_cases) auto
  have ynz: "ys \<noteq> [] \<Longrightarrow> hd ys \<noteq> 0"
    using fwd_pool [OF l(1)] kheap_pool_page by (cases ys) auto
  show ?thesis
  proof (cases "xs = []")
    case True
    then have "fwd ?m (load32 ?m (task_next t)) ys" using l(1) by simp
    with True nx pr hd tl l(4) ynz show ?thesis by (auto simp: task_list_remove_def task_get_next_def Let_def)
  next
    case False
    then obtain zs p where xs: "xs = zs @ [p]" by (metis append_butlast_last_id)
    have p: "p \<in> kheap_pool" "p \<noteq> 0" "p \<noteq> t" using pool(2) xs kheap_pool_page l(3) by auto
    let ?m1 = "store32 ?m (task_next p) (load32 ?m (task_next t))"
    have "fwd ?m (load32 ?m (task_next t)) ys" using fwd_suffix [OF l(1)] by blast
    then have "fwd ?m1 (task_head s) (zs @ p # ys)"
      using l(1,3) xs by (intro fwd_redirect [of _ _ _ _ "t # ys"]) auto
    moreover have "task_head s \<noteq> t" using hd False l(3) by (cases xs) auto
    moreover have "load32 ?m1 (task_next t) = load32 ?m (task_next t)" "load32 ?m1 (task_prev t) = p"
      using p pool(1) pr xs by (simp_all add: task_link_update)
    moreover have "hd xs = task_head s" using hd False by simp
    ultimately show ?thesis using False xs p nx pr tl l(4) ynz
      by (auto simp: task_list_remove_def task_get_next_def Let_def)
  qed
qed

theorem task_list_remove_unlinks_witness:
  "current_task (task_list_remove 0x1001000 three_tasks) = 0x1002000"
  using task_list_remove_unlinks [of three_tasks "[0x1000000]" "0x1001000" "[0x1002000]"] three_tasks_list
  by (simp add: three_tasks_def)

text \<open>
  \<open>task_list_remove\<close> never updates \<open>prev\<close>: the successor still points back to the
  task that was taken out. When the successor is taken out next, the link of that freed
  task is written, and the list goes on to contain the second task after it was removed.
\<close>

theorem task_list_remove_stale_prev:
  assumes "task_list s (xs @ p # t # u # ys)"
  shows "load32 (ram (task_list_remove t s)) (task_prev u) = t \<and>
     fwd (ram (task_list_remove u (task_list_remove t s)))
         (task_head (task_list_remove u (task_list_remove t s))) (xs @ p # u # ys)"
proof -
  let ?m = "ram s"
  have l: "fwd ?m (task_head s) (xs @ p # t # u # ys)" "bwd ?m 0 (xs @ p # t # u # ys)"
    "distinct (xs @ p # t # u # ys)" using assms by (auto simp: task_list_def)
  have pool: "p \<in> kheap_pool" "t \<in> kheap_pool" "u \<in> kheap_pool" using fwd_pool [OF l(1)] by auto
  have "p \<noteq> 0" "t \<noteq> 0" using pool kheap_pool_page by blast+
  have nx: "load32 ?m (task_next t) = u" using fwd_suffix [of ?m "task_head s" "xs @ [p]" t "u # ys"] l(1) by simp
  have pr: "load32 ?m (task_prev t) = p" "load32 ?m (task_prev u) = t"
    using bwd_suffix [of ?m 0 "xs @ [p]" t "u # ys"] bwd_suffix [of ?m 0 "xs @ [p, t]" u ys] l(2) by auto
  have hd: "task_head s \<noteq> t" "task_head s \<noteq> u" using fwd_hd [OF l(1)] l(3) by (cases xs; auto)+
  let ?m1 = "store32 ?m (task_next p) u"
  have ram1: "ram (task_list_remove t s) = ?m1" and head1: "task_head (task_list_remove t s) = task_head s"
    using pr nx \<open>p \<noteq> 0\<close> hd by (auto simp: task_list_remove_def Let_def)
  have "fwd ?m u (u # ys)" using fwd_suffix [of ?m "task_head s" "xs @ [p, t]" u ys] l(1) by simp
  then have f1: "fwd ?m1 (task_head s) (xs @ p # u # ys)"
    using l(1,3) by (intro fwd_redirect [of _ _ _ _ "t # u # ys"]) auto
  have pr1: "load32 ?m1 (task_prev u) = t" using pr pool by (simp add: task_link_update)
  have "ram (task_list_remove u (task_list_remove t s)) = store32 ?m1 (task_next t) (load32 ?m1 (task_next u))"
    and "task_head (task_list_remove u (task_list_remove t s)) = task_head s"
    using pr1 \<open>t \<noteq> 0\<close> hd ram1 head1 by (auto simp: task_list_remove_def [of u] Let_def)
  moreover have "fwd (store32 ?m1 (task_next t) (load32 ?m1 (task_next u))) (task_head s) (xs @ p # u # ys)"
    using l(3) by (intro fwd_store_out f1 pool) auto
  ultimately show ?thesis using ram1 pr1 by simp
qed

theorem task_list_remove_stale_prev_witness:
  "fwd (ram (task_list_remove 0x1002000 (task_list_remove 0x1001000 three_tasks)))
     (task_head (task_list_remove 0x1002000 (task_list_remove 0x1001000 three_tasks))) [0x1000000, 0x1002000]"
  using task_list_remove_stale_prev [of three_tasks "[]" "0x1000000" "0x1001000" "0x1002000" "[]"] three_tasks_list
  by simp

end
