(* ===== verification/Idt.thy ===== *)
theory Idt
  imports Task Gdt
begin

text \<open>
  \<open>phix/src/idt/idt.c\<close>: the interrupt descriptor table and the dispatch of interrupts and
  system calls. A function pointer is the address of the function; \<open>call\<close> gives the
  function at an address and is a parameter. The record adds to the tasks the tables of
  this file and the variables of \<open>process.c\<close> and \<open>keyboard.c\<close> that handlers use.
\<close>

record kernel = tasks +
  interrupt_callbacks :: "addr list"
  syscalls :: "addr list"
  current_process :: addr
  keyboards_head :: addr
  keyboards_tail :: addr

section \<open>The descriptor table\<close>

text \<open>\<open>struct idt_desc\<close> and \<open>struct idtr_desc\<close>, both packed.\<close>

definition desc_offset_1 :: "addr \<Rightarrow> addr" where [layout]: "desc_offset_1 d = d"
definition desc_selector :: "addr \<Rightarrow> addr" where [layout]: "desc_selector d = d + 2"
definition desc_zero :: "addr \<Rightarrow> addr" where [layout]: "desc_zero d = d + 4"
definition desc_type_attr :: "addr \<Rightarrow> addr" where [layout]: "desc_type_attr d = d + 5"
definition desc_offset_2 :: "addr \<Rightarrow> addr" where [layout]: "desc_offset_2 d = d + 6"
definition idtr_limit :: "addr \<Rightarrow> addr" where [layout]: "idtr_limit d = d"
definition idtr_base :: "addr \<Rightarrow> addr" where [layout]: "idtr_base d = d + 2"

definition idt_set :: "addr \<Rightarrow> i32 \<Rightarrow> addr \<Rightarrow> mem \<Rightarrow> mem" where
  "idt_set idt_descriptors i address m =
     (let d = idt_descriptors + 8 * i;
          m = store16 m (desc_offset_1 d) (ucast (address AND 0x0000ffff));
          m = store16 m (desc_selector d) (ucast KERNEL_CODE_SELECTOR);
          m = m(desc_zero d := 0);
          m = m(desc_type_attr d := 0xEE)
      in store16 m (desc_offset_2 d) (ucast (drop_bit 16 address)))"

text \<open>
  \<open>idt_init\<close>, with the addresses of the static table, of \<open>idtr_descriptor\<close> and of the two
  handlers set apart; \<open>stubs i\<close> is \<open>interrupt_pointer_table[i]\<close>. \<open>idt_tables\<close> is what it
  writes, \<open>idt_load\<close> of \<open>idt.asm\<close> the \<open>lidt\<close> that takes limit and base from memory.
\<close>

definition idt_load :: "addr \<Rightarrow> 'a machine_scheme \<Rightarrow> 'a machine_scheme" where
  "idt_load p s = s\<lparr>idt_register := (load16 (ram s) (idtr_limit p), load32 (ram s) (idtr_base p))\<rparr>"

definition idt_tables :: "addr \<Rightarrow> addr \<Rightarrow> (nat \<Rightarrow> addr) \<Rightarrow> addr \<Rightarrow> addr \<Rightarrow> mem \<Rightarrow> mem" where
  "idt_tables idt_descriptors idtr_descriptor stubs isr80h_wrapper page_fault m =
     (let m = memset m idt_descriptors 0 (8 * of_nat PHIX_TOTAL_INTERRUPTS);
          m = store16 m (idtr_limit idtr_descriptor) (8 * of_nat PHIX_TOTAL_INTERRUPTS - 1);
          m = store32 m (idtr_base idtr_descriptor) idt_descriptors;
          m = for_up PHIX_TOTAL_INTERRUPTS (\<lambda>i. idt_set idt_descriptors (of_nat i) (stubs i)) m;
          m = idt_set idt_descriptors 0x80 isr80h_wrapper m
      in idt_set idt_descriptors 14 page_fault m)"

definition idt_init ::
    "addr \<Rightarrow> addr \<Rightarrow> (nat \<Rightarrow> addr) \<Rightarrow> addr \<Rightarrow> addr \<Rightarrow> 'a machine_scheme \<Rightarrow> 'a machine_scheme" where
  "idt_init idt_descriptors idtr_descriptor stubs isr80h_wrapper page_fault s =
     idt_load idtr_descriptor
       (s\<lparr>ram := idt_tables idt_descriptors idtr_descriptor stubs isr80h_wrapper page_fault (ram s)\<rparr>)"

section \<open>Interrupts and system calls\<close>

definition ACK_INTR :: "'a machine_scheme \<Rightarrow> 'a machine_scheme" where
  "ACK_INTR s = outb 0x20 0x20 s"

definition no_interrupt_handler :: "'a machine_scheme \<Rightarrow> 'a machine_scheme" where
  "no_interrupt_handler s = ACK_INTR s"

definition interrupt_handler ::
    "(addr \<Rightarrow> addr \<Rightarrow> 'a kernel_scheme \<Rightarrow> 'a kernel_scheme outcome) \<Rightarrow> i32 \<Rightarrow> addr \<Rightarrow> 'a kernel_scheme \<Rightarrow> 'a kernel_scheme outcome" where
  "interrupt_handler call interrupt frame s =
     (let s = kernel_page (kchunk s) s;
          cb = interrupt_callbacks s ! nat (sint interrupt)
      in obind (if cb \<noteq> 0 then obind (task_current_save_state frame s) (call cb frame) else Done s)
           (\<lambda>s. Done (ACK_INTR (task_page s))))"

definition idt_register_intr_cb :: "i32 \<Rightarrow> addr \<Rightarrow> 'a kernel_scheme \<Rightarrow> i32 \<times> 'a kernel_scheme" where
  "idt_register_intr_cb interrupt cb s =
     (if sint interrupt < 0 \<or> int PHIX_TOTAL_INTERRUPTS \<le> sint interrupt then (- EINVAL, s)
      else (0, s\<lparr>interrupt_callbacks := (interrupt_callbacks s)[nat (sint interrupt) := cb]\<rparr>))"

definition syscall_register :: "i32 \<Rightarrow> addr \<Rightarrow> 'a kernel_scheme \<Rightarrow> 'a kernel_scheme outcome" where
  "syscall_register command_id command s =
     (if sint command_id < 0 \<or> int PHIX_MAX_SYSCALLS \<le> sint command_id
      then Panic ''Command ID is out of bounds''
      else if syscalls s ! nat (sint command_id) \<noteq> 0 then Panic ''Command already in use''
      else Done (s\<lparr>syscalls := (syscalls s)[nat (sint command_id) := command]\<rparr>))"

definition isr80h_handle_command ::
    "(addr \<Rightarrow> addr \<Rightarrow> 'a kernel_scheme \<Rightarrow> (u32 \<times> 'a kernel_scheme) outcome) \<Rightarrow> i32 \<Rightarrow> addr \<Rightarrow> 'a kernel_scheme \<Rightarrow> (u32 \<times> 'a kernel_scheme) outcome" where
  "isr80h_handle_command call command frame s =
     (if sint command < 0 \<or> int PHIX_MAX_SYSCALLS \<le> sint command then Done (0, s)
      else let func = syscalls s ! nat (sint command)
           in if func = 0 then Done (0, s) else call func frame s)"

definition isr80h_handler ::
    "(addr \<Rightarrow> addr \<Rightarrow> 'a kernel_scheme \<Rightarrow> (u32 \<times> 'a kernel_scheme) outcome) \<Rightarrow> i32 \<Rightarrow> addr \<Rightarrow> 'a kernel_scheme \<Rightarrow> (u32 \<times> 'a kernel_scheme) outcome" where
  "isr80h_handler call command frame s =
     obind (task_current_save_state frame (kernel_page (kchunk s) s)) (\<lambda>s.
     obind (isr80h_handle_command call command frame s) (\<lambda>(ret, s).
       Done (ret, ACK_INTR (task_page s))))"

text \<open>\<open>enum Syscalls\<close> of \<open>isr80h.h\<close>; the constructors stand for the constants.\<close>

datatype syscall = SYSCALL_SUM | SYSCALL_PRINT | SYSCALL_GETKEY | SYSCALL_PUTCHAR | SYSCALL_MALLOC | SYSCALL_FREE
  | SYSCALL_EXEC | SYSCALL_GET_PADDR | SYSCALL_GET_FLAGS

fun syscall_number :: "syscall \<Rightarrow> i32" where
  "syscall_number SYSCALL_SUM = 0"
| "syscall_number SYSCALL_PRINT = 1"
| "syscall_number SYSCALL_GETKEY = 2"
| "syscall_number SYSCALL_PUTCHAR = 3"
| "syscall_number SYSCALL_MALLOC = 4"
| "syscall_number SYSCALL_FREE = 5"
| "syscall_number SYSCALL_EXEC = 6"
| "syscall_number SYSCALL_GET_PADDR = 7"
| "syscall_number SYSCALL_GET_FLAGS = 8"

text \<open>\<open>isr80h_register_commands\<close> of \<open>isr80h.c\<close>, with the addresses of the nine functions.\<close>

definition isr80h_register_commands :: "addr list \<Rightarrow> 'a kernel_scheme \<Rightarrow> 'a kernel_scheme outcome" where
  "isr80h_register_commands funs s =
     obind (syscall_register (syscall_number SYSCALL_SUM) (funs ! 0) s) (\<lambda>s.
     obind (syscall_register (syscall_number SYSCALL_PRINT) (funs ! 1) s) (\<lambda>s.
     obind (syscall_register (syscall_number SYSCALL_GETKEY) (funs ! 2) s) (\<lambda>s.
     obind (syscall_register (syscall_number SYSCALL_PUTCHAR) (funs ! 3) s) (\<lambda>s.
     obind (syscall_register (syscall_number SYSCALL_MALLOC) (funs ! 4) s) (\<lambda>s.
     obind (syscall_register (syscall_number SYSCALL_FREE) (funs ! 5) s) (\<lambda>s.
     obind (syscall_register (syscall_number SYSCALL_EXEC) (funs ! 6) s) (\<lambda>s.
     obind (syscall_register (syscall_number SYSCALL_GET_PADDR) (funs ! 7) s) (\<lambda>s.
       syscall_register (syscall_number SYSCALL_GET_FLAGS) (funs ! 8) s))))))))"

section \<open>The processor's reading of a gate\<close>

definition gate_handler :: "mem \<Rightarrow> addr \<Rightarrow> addr" where
  "gate_handler m d = ucast (load16 m d) OR push_bit 16 (ucast (load16 m (d + 6)))"

definition gate :: "mem \<Rightarrow> addr \<Rightarrow> addr \<times> u16 \<times> u8" where
  "gate m d = (gate_handler m d, load16 m (d + 2), m (d + 5))"

definition gate_slot :: "addr \<Rightarrow> nat \<Rightarrow> addr" where
  "gate_slot tbl i = tbl + of_nat (8 * i)"

lemma halves: "ucast (ucast (a AND 0x0000ffff :: u32) :: u16) OR push_bit 16 (ucast (ucast (drop_bit 16 a) :: u16)) = a"
proof (rule bit_word_eqI)
  have m: "(0x0000ffff :: u32) = mask 16" by (simp add: mask_eq_exp_minus_1)
  fix n :: nat assume "n < LENGTH(32)"
  then show "bit (ucast (ucast (a AND 0x0000ffff :: u32) :: u16)
      OR push_bit 16 (ucast (ucast (drop_bit 16 a) :: u16)) :: u32) n = bit a n"
    unfolding m by (cases "n < 16") (auto simp: bit_simps)
qed

lemma load16_cong: "m' a = m a \<Longrightarrow> m' (a + 1) = m (a + 1) \<Longrightarrow> load16 m' a = load16 m a"
  by (simp add: load16_def)

lemma gate_cong:
  assumes "\<And>k. k < 8 \<Longrightarrow> m' (d + of_nat k) = m (d + of_nat k)"
  shows "gate m' d = gate m d"
  using assms [of 0] assms [of 1] assms [of 2] assms [of 3] assms [of 5] assms [of 6] assms [of 7]
  by (simp add: gate_def gate_handler_def load16_def add.assoc)

lemma gate_idt_set:
  assumes "i < 268435456"
  shows "gate (idt_set tbl (of_nat i) a m) (gate_slot tbl i) = (a, 0x08, 0xEE)"
proof -
  have "tbl + 8 * of_nat i = gate_slot tbl i" by (simp add: gate_slot_def)
  moreover have "gate (store16 ((store16 (store16 m d x) (d + 2) y)(d + 4 := 0, d + 5 := z)) (d + 6) w) d
      = (ucast x OR push_bit 16 (ucast w), y, z)" for d x y z w
  proof -
    let ?m = "store16 ((store16 (store16 m d x) (d + 2) y)(d + 4 := 0, d + 5 := z)) (d + 6) w"
    have "load16 ?m d = load16 (store16 m d x) d"
      by (rule load16_cong) (simp_all add: store16_def)
    moreover have "load16 ?m (d + 2) = load16 (store16 (store16 m d x) (d + 2) y) (d + 2)"
      by (rule load16_cong) (simp_all add: store16_def)
    moreover have "?m (d + 5) = z" by (simp add: store16_def)
    ultimately show ?thesis by (simp add: gate_def gate_handler_def)
  qed
  ultimately show ?thesis
    by (simp add: idt_set_def Let_def halves KERNEL_CODE_SELECTOR_def layout)
qed

lemma idt_set_out:
  assumes "8 \<le> unat (x - gate_slot tbl i)"
  shows "idt_set tbl (of_nat i) a m x = m x"
proof -
  have "tbl + 8 * of_nat i = gate_slot tbl i" by (simp add: gate_slot_def)
  moreover have "x \<noteq> gate_slot tbl i + k" if "k < 8" for k
    using assms that by (auto simp: word_less_nat_alt)
  from this [of 0] this [of 1] this [of 2] this [of 3] this [of 4] this [of 5] this [of 6] this [of 7]
  have "store16 ((store16 (store16 m (gate_slot tbl i) b) (gate_slot tbl i + 2) c)
      (gate_slot tbl i + 4 := 0, gate_slot tbl i + 5 := e)) (gate_slot tbl i + 6) f x = m x" for b c e f
    by (simp add: store16_def add.assoc)
  ultimately show ?thesis by (simp add: idt_set_def Let_def layout)
qed

lemma gate_idt_set_other:
  assumes "i < 512" and "j < 512" and "i \<noteq> j"
  shows "gate (idt_set tbl (of_nat i) a m) (gate_slot tbl j) = gate m (gate_slot tbl j)"
proof (rule gate_cong)
  fix k :: nat assume k: "k < 8"
  have "8 \<le> unat (gate_slot tbl j + of_nat k - gate_slot tbl i)"
  proof (cases "j < i")
    case True
    then show ?thesis using slot_distance [of j i k tbl] assms(1) k by (simp add: gate_slot_def)
  next
    case False
    with assms(3) have "i < j" by simp
    then have "gate_slot tbl j + of_nat k - gate_slot tbl i = of_nat (8 * (j - i) + k)"
      by (simp add: gate_slot_def of_nat_diff algebra_simps)
    moreover have "unat (of_nat (8 * (j - i) + k) :: u32) = 8 * (j - i) + k"
      using assms(2) k by (intro unat_of_nat32) simp
    ultimately show ?thesis using \<open>i < j\<close> by (simp only:)
  qed
  then show "idt_set tbl (of_nat i) a m (gate_slot tbl j + of_nat k) = m (gate_slot tbl j + of_nat k)"
    by (rule idt_set_out)
qed

lemma idt_tables_gates:
  assumes "i < 512"
  shows "gate (idt_tables tbl p stubs wrapper fault m) (gate_slot tbl i) =
     (if i = 14 then fault else if i = 0x80 then wrapper else stubs i, 0x08, 0xEE)"
proof -
  define m0 where "m0 = store32 (store16 (memset m tbl 0 (8 * of_nat PHIX_TOTAL_INTERRUPTS)) p
      (8 * of_nat PHIX_TOTAL_INTERRUPTS - 1)) (p + 2) tbl"
  let ?f = "\<lambda>i. idt_set tbl (of_nat i) (stubs i)"
  let ?P = "\<lambda>n m. \<forall>j < n. gate m (gate_slot tbl j) = (stubs j, 0x08, 0xEE)"
  have "?P 512 (for_up 512 ?f m0)"
  proof (rule for_up_inv [of ?P])
    fix k t assume k: "k < (512 :: nat)" and P: "?P k t"
    show "?P (Suc k) (?f k t)"
    proof (intro allI impI)
      fix j assume "j < Suc k"
      then consider "j = k" | "j < k" by linarith
      then show "gate (?f k t) (gate_slot tbl j) = (stubs j, 0x08, 0xEE)"
      proof cases
        case 1
        then show ?thesis using gate_idt_set [of k] k by simp
      next
        case 2
        then show ?thesis using gate_idt_set_other [of k j] k P by simp
      qed
    qed
  qed simp
  then have tbl: "gate (for_up 512 ?f m0) (gate_slot tbl i) = (stubs i, 0x08, 0xEE)" using assms by blast
  have "idt_tables tbl p stubs wrapper fault m
      = idt_set tbl (of_nat 14) fault (idt_set tbl (of_nat 0x80) wrapper (for_up 512 ?f m0))"
    by (simp add: idt_tables_def PHIX_TOTAL_INTERRUPTS_def m0_def Let_def layout)
  then show ?thesis
    using tbl gate_idt_set [of 14] gate_idt_set [of "0x80"] gate_idt_set_other [of 14 i]
      gate_idt_set_other [of "0x80" i] assms by auto
qed

text \<open>What lies outside the table is as \<open>idtr_descriptor\<close> was filled in.\<close>

lemma idt_tables_out:
  assumes "4096 \<le> unat (x - tbl)"
  shows "idt_tables tbl p stubs wrapper fault m x =
     store32 (store16 (memset m tbl 0 4096) (idtr_limit p) 4095) (idtr_base p) tbl x"
proof -
  have out: "idt_set tbl (of_nat i) a m' x = m' x" if "i < 512" for i a m'
  proof (rule idt_set_out)
    have "x - tbl = (x - gate_slot tbl i) + of_nat (8 * i)" by (simp add: gate_slot_def)
    moreover have "unat (of_nat (8 * i) :: u32) = 8 * i" using that by (intro unat_of_nat32) simp
    ultimately have "unat (x - tbl) \<le> unat (x - gate_slot tbl i) + 8 * i"
      by (metis unat_plus_if' diff_le_self le_refl)
    with assms that show "8 \<le> unat (x - gate_slot tbl i)" by simp
  qed
  have "for_up 512 (\<lambda>i. idt_set tbl (of_nat i) (stubs i)) m' x = m' x" for m'
    using out by (intro for_up_inv [of "\<lambda>_ m. m x = m' x"]) simp_all
  then show ?thesis
    using out [of 14 fault] out [of "0x80" wrapper]
    by (simp add: idt_tables_def PHIX_TOTAL_INTERRUPTS_def Let_def)
qed

section \<open>Properties\<close>

text \<open>
  C29. After \<open>idt_init\<close> the processor has the limit and the base of the table in its register
  and finds in each of the 512 gates the stub of its number, but the system call wrapper
  at \<open>0x80\<close> and the page fault handler at \<open>14\<close>, all with the kernel's code selector and
  open to ring 3.
\<close>

theorem idt_init_gates:
  assumes "i < 512" and "\<And>k. k < 6 \<Longrightarrow> 4096 \<le> unat (idtr + k - tbl)"
  shows "gate (ram (idt_init tbl idtr stubs wrapper fault s)) (gate_slot tbl i) =
       (if i = 14 then fault else if i = 0x80 then wrapper else stubs i, 0x08, 0xEE) \<and>
     idt_register (idt_init tbl idtr stubs wrapper fault s) = (4095, tbl)"
proof -
  let ?m = "store32 (store16 (memset (ram s) tbl 0 4096) (idtr_limit idtr) 4095) (idtr_base idtr) tbl"
  have out: "idt_tables tbl idtr stubs wrapper fault (ram s) (idtr + k) = ?m (idtr + k)" if "k < 6" for k
    by (rule idt_tables_out [OF assms(2) [OF that]])
  have "load16 (idt_tables tbl idtr stubs wrapper fault (ram s)) idtr = load16 ?m idtr"
    using out [of 0] out [of 1] by (intro load16_cong) simp_all
  moreover have "load16 ?m idtr = 4095"
  proof -
    have "load16 ?m idtr = load16 (store16 (memset (ram s) tbl 0 4096) idtr 4095) idtr"
      by (rule load16_cong) (simp_all add: store32_def layout)
    then show ?thesis by simp
  qed
  moreover have "load32 (idt_tables tbl idtr stubs wrapper fault (ram s)) (idtr + 2) = load32 ?m (idtr + 2)"
    using out [of 2] out [of 3] out [of 4] out [of 5] by (simp add: load32_def add.assoc)
  moreover have "load32 ?m (idtr + 2) = tbl" by (simp add: layout)
  ultimately show ?thesis
    using idt_tables_gates [OF assms(1)] by (simp add: idt_init_def idt_load_def layout)
qed

theorem idt_init_gates_witness:
  "gate (ram (idt_init 0x10000 0x12000 (\<lambda>i. 0x100000 + of_nat i) 0x110000 0x120000
       \<lparr>ram = \<lambda>_. 0, cr3 = 0, io = [], cr0 = 0, gdt_register = (0, 0), idt_register = (0, 0), task_register = 0\<rparr>))
     (gate_slot 0x10000 0x80) = (0x110000, 0x08, 0xEE)"
proof -
  have "4096 \<le> unat (0x12000 + k - 0x10000 :: u32)" if "k < 6" for k :: u32
  proof -
    have "unat k < 6" using that by (simp add: word_less_nat_alt)
    then have "unat (0x2000 + k) = 0x2000 + unat k" by (simp add: unat_word_ariths)
    then show ?thesis by (simp add: algebra_simps)
  qed
  then show ?thesis by (simp add: idt_init_gates)
qed

text \<open>
  Once the nine system calls are registered on an empty table, command \<open>c\<close> from \<open>0\<close>
  to \<open>8\<close> runs its function and every other command, whatever its value, returns \<open>NULL\<close>
  and changes nothing.
\<close>

theorem syscall_dispatch:
  assumes "syscalls s = replicate 1024 0" and "length funs = 9" and "0 \<notin> set funs"
  shows "\<exists>s'. isr80h_register_commands funs s = Done s' \<and>
     (\<forall>c. isr80h_handle_command call c frame s' =
        (if 0 \<le> sint c \<and> sint c < 9 then call (funs ! nat (sint c)) frame s' else Done (0, s')))"
proof -
  have nz: "funs ! i \<noteq> 0" if "i < 9" for i using assms(2,3) that by (metis nth_mem)
  have reg: "syscall_register (of_nat i) f (s\<lparr>syscalls := take i funs @ replicate (1024 - i) 0\<rparr>)
      = Done (s\<lparr>syscalls := (take i funs @ replicate (1024 - i) 0)[i := f]\<rparr>)" if "i < 9" for i f
  proof -
    have "sint (of_nat i :: i32) = int i" using that by (simp add: sint_of_nat)
    moreover have "(take i funs @ replicate (1024 - i) (0 :: addr)) ! i = 0"
      using that assms(2) by (simp add: nth_append)
    ultimately show ?thesis using that by (simp add: syscall_register_def PHIX_MAX_SYSCALLS_def)
  qed
  have upd: "(take i funs @ replicate (1024 - i) 0)[i := funs ! i] = take (Suc i) funs @ replicate (1024 - Suc i) 0"
    if "i < 9" for i
  proof -
    have "1024 - i = Suc (1024 - Suc i)" using that by simp
    then have "replicate (1024 - i) (0 :: addr) = 0 # replicate (1024 - Suc i) 0"
      by (simp only: replicate_Suc)
    then show ?thesis using that assms(2) by (simp add: list_update_append take_Suc_conv_app_nth)
  qed
  define S where "S i = s\<lparr>syscalls := take i funs @ replicate (1024 - i) 0\<rparr>" for i
  let ?s = S
  have step: "syscall_register (of_nat i) (funs ! i) (S i) = Done (S (Suc i))" if "i < 9" for i
    using reg [OF that] upd [OF that] by (simp add: S_def)
  have start: "s = S 0" using assms(1) by (simp add: S_def)
  have "isr80h_register_commands funs (S 0) = Done (S 9)"
    unfolding isr80h_register_commands_def
    using step [of 0] step [of 1] step [of 2] step [of 3] step [of 4] step [of 5] step [of 6] step [of 7]
      step [of 8] by (simp add: numeral_2_eq_2 [symmetric])
  then have "isr80h_register_commands funs s = Done (S 9)" using start by simp
  moreover have "isr80h_handle_command call c frame (?s 9) =
        (if 0 \<le> sint c \<and> sint c < 9 then call (funs ! nat (sint c)) frame (?s 9) else Done (0, ?s 9))" for c
  proof (cases "0 \<le> sint c \<and> sint c < 1024")
    case True
    then have k: "nat (sint c) < 1024" by linarith
    have "syscalls (?s 9) ! nat (sint c) = (if nat (sint c) < 9 then funs ! nat (sint c) else 0)"
      using k assms(2) by (simp add: S_def nth_append)
    then show ?thesis using True nz [of "nat (sint c)"]
      by (auto simp: isr80h_handle_command_def PHIX_MAX_SYSCALLS_def)
  qed (auto simp: isr80h_handle_command_def PHIX_MAX_SYSCALLS_def)
  ultimately show ?thesis by blast
qed

theorem syscall_dispatch_witness:
  "\<exists>s'. isr80h_register_commands (map of_nat [1..<10])
       (\<lparr>ram = \<lambda>_. 0, cr3 = 0, io = [], cr0 = 0, gdt_register = (0, 0), idt_register = (0, 0), task_register = 0, current_task = 0, task_tail = 0, task_head = 0, kchunk = 0,
         interrupt_callbacks = replicate 512 0, syscalls = replicate 1024 0, current_process = 0,
         keyboards_head = 0, keyboards_tail = 0\<rparr>) = Done s' \<and>
     isr80h_handle_command (\<lambda>a f s. Done (a, s)) 4 0 s' = Done (5, s') \<and>
     isr80h_handle_command (\<lambda>a f s. Done (a, s)) 9 0 s' = Done (0, s')"
proof -
  let ?s = "\<lparr>ram = \<lambda>_. 0, cr3 = 0, io = [], cr0 = 0, gdt_register = (0, 0), idt_register = (0, 0), task_register = 0, current_task = 0, task_tail = 0, task_head = 0, kchunk = 0,
         interrupt_callbacks = replicate 512 0, syscalls = replicate 1024 0, current_process = 0,
         keyboards_head = 0, keyboards_tail = 0\<rparr>"
  have "0 \<notin> set (map of_nat [1..<10] :: addr list)" by (auto simp: word_of_nat_eq_0_iff dest!: dvd_imp_le)
  from syscall_dispatch [of ?s, OF _ _ this, of "\<lambda>a f s. Done (a, s)" 0]
  obtain s' where "isr80h_register_commands (map of_nat [1..<10]) ?s = Done s'"
    "\<And>c. isr80h_handle_command (\<lambda>a f s. Done (a, s)) c 0 s' =
        (if 0 \<le> sint c \<and> sint c < 9 then Done (map of_nat [1..<10] ! nat (sint c), s') else Done (0, s'))"
    by auto
  moreover have "(map of_nat [1..<10] :: addr list) ! 4 = 5" by (simp add: upt_rec)
  ultimately show ?thesis by simp
qed

end
