(* ===== verification/Keyboard.thy ===== *)
theory Keyboard
  imports Idt
begin

text \<open>
  \<open>phix/src/keyboard/keyboard.c\<close> and \<open>ps2.c\<close>: the keyboard buffer of a process, a ring of
  1024 characters with two counters, and the PS/2 driver that fills it from the keyboard
  interrupt. The ring is proved to be a queue while it is not full.
\<close>

section \<open>The keyboard buffer\<close>

text \<open>\<open>writer % sizeof buffer\<close> is computed on unsigned numbers.\<close>

definition keyboard_write_index :: "addr \<Rightarrow> mem \<Rightarrow> i32" where
  "keyboard_write_index process m = load32 m (keyboard_writer process) mod PHIX_KEYBOARD_BUFFER_SIZE"

definition keyboard_read_index :: "addr \<Rightarrow> mem \<Rightarrow> i32" where
  "keyboard_read_index process m = load32 m (keyboard_reader process) mod PHIX_KEYBOARD_BUFFER_SIZE"

definition keyboard_backspace :: "addr \<Rightarrow> mem \<Rightarrow> mem" where
  "keyboard_backspace process m =
     (let index = keyboard_write_index process m;
          m = store32 m (keyboard_writer process) (load32 m (keyboard_writer process) - 1)
      in m(keyboard_buffer process + index := 0x00))"

text \<open>\<open>process\<close> is \<open>process_current()\<close>.\<close>

definition keyboard_push :: "addr \<Rightarrow> u8 \<Rightarrow> mem \<Rightarrow> mem" where
  "keyboard_push process c m =
     (if process = 0 then m
      else if c = 0x00 then m
      else let m = m(keyboard_buffer process + keyboard_write_index process m := c)
           in store32 m (keyboard_writer process) (load32 m (keyboard_writer process) + 1))"

text \<open>\<open>task\<close> is \<open>task_current()\<close>.\<close>

definition keyboard_pop :: "addr \<Rightarrow> mem \<Rightarrow> u8 \<times> mem" where
  "keyboard_pop task m =
     (if task = 0 then (0, m)
      else let process = load32 m (task_process task);
               c = m (keyboard_buffer process + keyboard_read_index process m)
           in if c = 0x00 then (0, m)
              else let m = m(keyboard_buffer process + keyboard_read_index process m := 0x00)
                   in (c, store32 m (keyboard_reader process) (load32 m (keyboard_reader process) + 1)))"

section \<open>Keyboards\<close>

text \<open>The fields of \<open>struct keyboard\<close> used; \<open>call\<close> runs the function at an address.\<close>

definition keyboard_init_field :: "addr \<Rightarrow> addr" where [layout]: "keyboard_init_field k = k"
definition keyboard_next :: "addr \<Rightarrow> addr" where [layout]: "keyboard_next k = k + 24"

definition keyboard_insert ::
    "(addr \<Rightarrow> 'a kernel_scheme \<Rightarrow> i32 \<times> 'a kernel_scheme) \<Rightarrow> addr \<Rightarrow> 'a kernel_scheme \<Rightarrow> i32 \<times> 'a kernel_scheme" where
  "keyboard_insert call keyboard s =
     (if load32 (ram s) (keyboard_init_field keyboard) = 0 then (- EINVAL, s)
      else let s = (if keyboards_tail s \<noteq> 0
                    then s\<lparr>ram := store32 (ram s) (keyboard_next (keyboards_tail s)) keyboard\<rparr> else s);
               s = s\<lparr>keyboards_head := keyboard, keyboards_tail := keyboard\<rparr>
           in call (load32 (ram s) (keyboard_init_field keyboard)) s)"

text \<open>\<open>ps2\<close> is the address of the static \<open>ps2_keyboard\<close>.\<close>

definition ps2_init :: "addr \<Rightarrow> addr" where
  "ps2_init ps2 = ps2"

definition keyboard_init :: "(addr \<Rightarrow> 'a kernel_scheme \<Rightarrow> i32 \<times> 'a kernel_scheme) \<Rightarrow> addr \<Rightarrow> 'a kernel_scheme \<Rightarrow> 'a kernel_scheme" where
  "keyboard_init call ps2 s = snd (keyboard_insert call (ps2_init ps2) s)"

section \<open>The PS/2 driver\<close>

definition ISR_KEYBOARD_INTERRUPT :: i32 where [config_defs]: "ISR_KEYBOARD_INTERRUPT = 0x21"
definition KEYBOARD_INPUT_PORT :: u16 where [config_defs]: "KEYBOARD_INPUT_PORT = 0x60"
definition PS2_PORT :: u16 where [config_defs]: "PS2_PORT = 0x64"
definition PS2_CMD_ENABLE_FIRST_PORT :: u8 where [config_defs]: "PS2_CMD_ENABLE_FIRST_PORT = 0xAE"
definition PS2_KEY_RELEASED :: u8 where [config_defs]: "PS2_KEY_RELEASED = 0x80"

text \<open>\<open>handler\<close> is the address of \<open>ps2_keyboard_handle_interrupt\<close>.\<close>

definition ps2_keyboard_init :: "addr \<Rightarrow> 'a kernel_scheme \<Rightarrow> i32 \<times> 'a kernel_scheme" where
  "ps2_keyboard_init handler s =
     (let s = outb PS2_PORT PS2_CMD_ENABLE_FIRST_PORT s;
          (_, s) = idt_register_intr_cb ISR_KEYBOARD_INTERRUPT handler s
      in (0, s))"

definition ps2_scan_set_one :: "u8 list" where
  "ps2_scan_set_one =
     [0x00, 0x1B, 0x31, 0x32, 0x33, 0x34, 0x35, 0x36, 0x37, 0x38, 0x39, 0x30, 0x2D, 0x3D,
      0x08, 0x09, 0x51, 0x57, 0x45, 0x52, 0x54, 0x59, 0x55, 0x49, 0x4F, 0x50, 0x5B, 0x5D,
      0x0d, 0x00, 0x41, 0x53, 0x44, 0x46, 0x47, 0x48, 0x4A, 0x4B, 0x4C, 0x3B, 0x27, 0x60,
      0x00, 0x5C, 0x5A, 0x58, 0x43, 0x56, 0x42, 0x4E, 0x4D, 0x2C, 0x2E, 0x2F, 0x00, 0x2A,
      0x00, 0x20, 0x00, 0x00, 0x00, 0x00, 0x00, 0x00, 0x00, 0x00, 0x00, 0x00, 0x37, 0x38,
      0x39, 0x2D, 0x34, 0x35, 0x36, 0x2B, 0x31, 0x32, 0x33, 0x30, 0x2E]"

definition PS2_SCAN_SET_SIZE :: nat where
  "PS2_SCAN_SET_SIZE = length ps2_scan_set_one"

text \<open>\<open>beyond\<close> is the byte that the linker puts after the table.\<close>

definition ps2_keyboard_scancode_to_char :: "u8 \<Rightarrow> u8 \<Rightarrow> u8" where
  "ps2_keyboard_scancode_to_char beyond scan_code =
     (if PS2_SCAN_SET_SIZE < unat scan_code then 0
      else (ps2_scan_set_one @ [beyond]) ! unat scan_code)"

definition ps2_keyboard_handle_interrupt :: "device \<Rightarrow> u8 \<Rightarrow> 'a kernel_scheme \<Rightarrow> 'a kernel_scheme" where
  "ps2_keyboard_handle_interrupt dev beyond s =
     (let s = kernel_page (kchunk s) s;
          (scan_code, s) = insb dev KEYBOARD_INPUT_PORT s;
          (_, s) = insb dev KEYBOARD_INPUT_PORT s
      in if scan_code AND PS2_KEY_RELEASED \<noteq> 0 then s
         else let character = ps2_keyboard_scancode_to_char beyond scan_code;
                  s = (if character \<noteq> 0
                       then s\<lparr>ram := keyboard_push (current_process s) character (ram s)\<rparr> else s)
              in task_page s)"

section \<open>A queue of characters\<close>

text \<open>
  The runs of a writer (the keyboard interrupt) and a reader (the system call) on a memory
  that was \<open>m0\<close>, in any order: the memory, the characters typed and the characters read.
  The writer stays at most \<open>capacity\<close> ahead; an empty read gives \<open>0\<close>.
\<close>

inductive queue_run :: "(u8 \<Rightarrow> mem \<Rightarrow> mem) \<Rightarrow> (mem \<Rightarrow> u8 \<times> mem) \<Rightarrow> nat \<Rightarrow> mem \<Rightarrow>
    mem \<Rightarrow> u8 list \<Rightarrow> u8 list \<Rightarrow> bool" for push pop capacity m0 where
  start: "queue_run push pop capacity m0 m0 [] []"
| type_char: "queue_run push pop capacity m0 m ts rs \<Longrightarrow> c \<noteq> 0 \<Longrightarrow> length ts < length rs + capacity \<Longrightarrow>
    queue_run push pop capacity m0 (push c m) (ts @ [c]) rs"
| read_char: "queue_run push pop capacity m0 m ts rs \<Longrightarrow> pop m = (c, m') \<Longrightarrow>
    queue_run push pop capacity m0 m' ts (if c = 0 then rs else rs @ [c])"

text \<open>
  What the driver and the readers rely on: \<open>holds m xs\<close> says that the buffer in memory
  \<open>m\<close> has the characters \<open>xs\<close>, in order.
\<close>

locale byte_queue =
  fixes holds :: "mem \<Rightarrow> u8 list \<Rightarrow> bool"
    and push :: "u8 \<Rightarrow> mem \<Rightarrow> mem"
    and pop :: "mem \<Rightarrow> u8 \<times> mem"
    and capacity :: nat
  assumes push_holds: "holds m xs \<Longrightarrow> length xs < capacity \<Longrightarrow> c \<noteq> 0 \<Longrightarrow> holds (push c m) (xs @ [c])"
    and pop_empty: "holds m [] \<Longrightarrow> pop m = (0, m)"
    and pop_holds: "holds m (c # xs) \<Longrightarrow> \<exists>m'. pop m = (c, m') \<and> holds m' xs"
    and no_nul: "holds m xs \<Longrightarrow> 0 \<notin> set xs"
begin

primrec pushes :: "u8 list \<Rightarrow> mem \<Rightarrow> mem" where
  "pushes [] m = m"
| "pushes (c # cs) m = pushes cs (push c m)"

primrec pops :: "nat \<Rightarrow> mem \<Rightarrow> u8 list \<times> mem" where
  "pops 0 m = ([], m)"
| "pops (Suc n) m = (let (c, m) = pop m; (cs, m) = pops n m in (c # cs, m))"

lemma pushes_holds:
  "holds m xs \<Longrightarrow> length xs + length cs \<le> capacity \<Longrightarrow> 0 \<notin> set cs \<Longrightarrow> holds (pushes cs m) (xs @ cs)"
proof (induction cs arbitrary: m xs)
  case (Cons c cs)
  then have "holds (push c m) (xs @ [c])" by (intro push_holds) auto
  with Cons.IH [of "push c m" "xs @ [c]"] Cons.prems show ?case by simp
qed simp

lemma pops_holds: "holds m (xs @ ys) \<Longrightarrow> \<exists>m'. pops (length xs) m = (xs, m') \<and> holds m' ys"
proof (induction xs arbitrary: m)
  case (Cons x xs)
  then obtain m1 where "pop m = (x, m1)" "holds m1 (xs @ ys)" using pop_holds by fastforce
  with Cons.IH [of m1] show ?case by auto
qed simp

text \<open>In every run the characters read are the first ones typed; the buffer has the others.\<close>

lemma run_holds:
  assumes "queue_run push pop capacity m0 m ts rs" and "holds m0 []"
  shows "\<exists>xs. ts = rs @ xs \<and> holds m xs"
  using assms
proof (induction rule: queue_run.induct)
  case start
  then show ?case by simp
next
  case (type_char m ts rs c)
  then obtain xs where "ts = rs @ xs" "holds m xs" by blast
  with type_char.hyps push_holds [of m xs c] show ?case by auto
next
  case (read_char m ts rs c m')
  then obtain xs where xs: "ts = rs @ xs" "holds m xs" by blast
  show ?case
  proof (cases xs)
    case Nil
    with xs pop_empty read_char.hyps(2) show ?thesis by auto
  next
    case (Cons x ys)
    with xs pop_holds [of m x ys] read_char.hyps(2) have "c = x" "holds m' ys" by auto
    moreover have "x \<noteq> 0" using no_nul [OF xs(2)] Cons by auto
    ultimately show ?thesis using xs(1) Cons by simp
  qed
qed

text \<open>First in, first out.\<close>

lemma fifo:
  assumes "holds m []" and "length cs \<le> capacity" and "0 \<notin> set cs"
  shows "\<exists>m'. pops (length cs) (pushes cs m) = (cs, m') \<and> holds m' []"
  using pops_holds [of "pushes cs m" cs "[]"] pushes_holds [OF assms(1), of cs] assms(2,3) by simp

end

section \<open>The buffer of a process is such a queue\<close>

text \<open>
  \<open>kb_holds p t m xs\<close>: the buffer of process \<open>p\<close>, whose current task is \<open>t\<close>, has the
  characters \<open>xs\<close> from the reader's slot on, the other slots are empty and the writer is
  \<open>length xs\<close> ahead of the reader. The task lies apart from the buffer.
\<close>

definition kb_slot :: "addr \<Rightarrow> u32 \<Rightarrow> addr" where
  "kb_slot p i = keyboard_buffer p + i mod 1024"

definition kb_apart :: "addr \<Rightarrow> addr \<Rightarrow> bool" where
  "kb_apart p t = (p \<noteq> 0 \<and> t \<noteq> 0 \<and> 1036 \<le> unat (task_process t - keyboard_buffer p) \<and>
     unat (task_process t - keyboard_buffer p) \<le> 4294967292)"

definition kb_holds :: "addr \<Rightarrow> addr \<Rightarrow> mem \<Rightarrow> u8 list \<Rightarrow> bool" where
  "kb_holds p t m xs = (kb_apart p t \<and> load32 m (task_process t) = p \<and> 0 \<notin> set xs \<and> length xs \<le> 1024 \<and>
     load32 m (keyboard_writer p) = load32 m (keyboard_reader p) + of_nat (length xs) \<and>
     (\<forall>k < 1024. m (kb_slot p (load32 m (keyboard_reader p) + of_nat k)) = (if k < length xs then xs ! k else 0)))"

lemma kb_slot_inj:
  assumes "j < 1024" and "k < 1024"
  shows "kb_slot p (r + of_nat j) = kb_slot p (r + of_nat k) \<longleftrightarrow> j = k"
proof
  have u: "unat ((r + of_nat i) mod 1024) = (unat r + i) mod 1024" if "i < 1024" for i
  proof -
    have "unat (r + of_nat i) = (unat r + i) mod 4294967296" using that by (simp add: unat_word_ariths unat_of_nat32)
    moreover have "(unat r + i) mod 4294967296 mod 1024 = (unat r + i) mod 1024" by (rule mod_mod_cancel) simp
    ultimately show ?thesis by (simp add: unat_mod)
  qed
  assume "kb_slot p (r + of_nat j) = kb_slot p (r + of_nat k)"
  then have "(unat r + j) mod 1024 = (unat r + k) mod 1024" using u [OF assms(1)] u [OF assms(2)] by (simp add: kb_slot_def)
  then show "j = k" using assms by (rule mod_add_inj)
qed simp

lemma kb_slot_wrap: "kb_slot p (r + 1024) = kb_slot p r"
proof -
  have "unat ((r + 1024) mod 1024) = (unat r + 1024) mod 4294967296 mod 1024" by (simp add: unat_mod unat_word_ariths)
  also have "\<dots> = (unat r + 1024) mod 1024" by (rule mod_mod_cancel) simp
  finally have "(r + 1024) mod 1024 = r mod 1024" by (simp add: word_unat_eq_iff unat_mod)
  then show ?thesis by (simp add: kb_slot_def)
qed

text \<open>The slots and the fields behind them do not overlap.\<close>

lemma kb_field_out:
  fixes i :: u32
  shows "4 \<le> unat (kb_slot p i - keyboard_reader p)" and "4 \<le> unat (kb_slot p i - keyboard_writer p)"
    and "kb_apart p t \<Longrightarrow> 4 \<le> unat (kb_slot p i - task_process t)"
proof -
  define j where "j = i mod 1024"
  have j: "unat j < 1024" by (simp add: j_def unat_mod)
  have r: "kb_slot p i - keyboard_reader p = j - 1024" and w: "kb_slot p i - keyboard_writer p = j - 1028"
    by (simp_all add: kb_slot_def j_def layout)
  have "unat (1024 - j) = 1024 - unat j" "unat (1028 - j) = 1028 - unat j"
    using j by (simp_all add: unat_sub word_le_nat_alt)
  with j show "4 \<le> unat (kb_slot p i - keyboard_reader p)" "4 \<le> unat (kb_slot p i - keyboard_writer p)"
    unfolding r w by (auto simp: unat_minus_iff [of j])
  assume ap: "kb_apart p t"
  define d where "d = task_process t - keyboard_buffer p"
  have "kb_slot p i - task_process t = j - d" by (simp add: kb_slot_def j_def d_def)
  moreover have d: "1036 \<le> unat d" "unat d \<le> 4294967292" using ap by (simp_all add: kb_apart_def d_def)
  moreover have "unat (d - j) = unat d - unat j" using d j by (simp add: unat_sub word_le_nat_alt)
  ultimately show "4 \<le> unat (kb_slot p i - task_process t)" using j by (auto simp: unat_minus_iff [of j])
qed

lemma kb_slot_out:
  "4 \<le> unat (kb_slot p i - keyboard_writer p)" "4 \<le> unat (kb_slot p i - keyboard_reader p)"
  by (rule kb_field_out)+

lemma kb_fields_apart:
  "4 \<le> unat (keyboard_reader p - keyboard_writer p)" "4 \<le> unat (keyboard_writer p - keyboard_reader p)"
  by (simp_all add: layout)

lemma kb_task_out:
  assumes "kb_apart p t"
  shows "4 \<le> unat (task_process t - keyboard_writer p)" and "4 \<le> unat (keyboard_writer p - task_process t)"
    and "4 \<le> unat (task_process t - keyboard_reader p)" and "4 \<le> unat (keyboard_reader p - task_process t)"
proof -
  define d where "d = task_process t - keyboard_buffer p"
  have d: "1036 \<le> unat d" "unat d \<le> 4294967292" using assms by (simp_all add: kb_apart_def d_def)
  have e: "task_process t - keyboard_writer p = d - 1028" "task_process t - keyboard_reader p = d - 1024"
    by (simp_all add: d_def layout)
  have u: "unat (d - 1028) = unat d - 1028" "unat (d - 1024) = unat d - 1024"
    using d by (simp_all add: unat_sub word_le_nat_alt)
  with d show a: "4 \<le> unat (task_process t - keyboard_writer p)" "4 \<le> unat (task_process t - keyboard_reader p)"
    unfolding e by simp_all
  then have "keyboard_writer p \<noteq> task_process t" "keyboard_reader p \<noteq> task_process t" by auto
  with d u show "4 \<le> unat (keyboard_writer p - task_process t)" "4 \<le> unat (keyboard_reader p - task_process t)"
    unfolding unat_minus_iff [of "keyboard_writer p"] unat_minus_iff [of "keyboard_reader p"] e by simp_all
qed

lemmas kb_frame = load32_upd_out load32_store32_apart store32_byte_out kb_field_out kb_slot_out
  kb_fields_apart kb_task_out

lemma kb_index: "keyboard_buffer p + keyboard_write_index p m = kb_slot p (load32 m (keyboard_writer p))"
    "keyboard_buffer p + keyboard_read_index p m = kb_slot p (load32 m (keyboard_reader p))"
  by (simp_all add: kb_slot_def keyboard_write_index_def keyboard_read_index_def PHIX_KEYBOARD_BUFFER_SIZE_def)

lemma kb_push:
  assumes "kb_holds p t m xs" and "length xs < 1024" and "c \<noteq> 0"
  shows "kb_holds p t (keyboard_push p c m) (xs @ [c])"
proof -
  let ?r = "load32 m (keyboard_reader p)" and ?n = "length xs"
  have h: "kb_apart p t" "load32 m (task_process t) = p" "0 \<notin> set xs"
    "load32 m (keyboard_writer p) = ?r + of_nat ?n"
    "\<forall>k < 1024. m (kb_slot p (?r + of_nat k)) = (if k < ?n then xs ! k else 0)"
    using assms(1) by (simp_all add: kb_holds_def)
  let ?m1 = "m(kb_slot p (?r + of_nat ?n) := c)"
  let ?m = "store32 ?m1 (keyboard_writer p) (?r + of_nat ?n + 1)"
  have "p \<noteq> 0" using h(1) by (simp add: kb_apart_def)
  then have push: "keyboard_push p c m = ?m"
    using assms(3) by (simp add: keyboard_push_def kb_index h(4) kb_frame)
  have "?m (kb_slot p (?r + of_nat k)) = (if k < ?n + 1 then (xs @ [c]) ! k else 0)" if k: "k < 1024" for k
  proof -
    have "?m (kb_slot p (?r + of_nat k)) = (if k = ?n then c else m (kb_slot p (?r + of_nat k)))"
      using kb_slot_inj [OF k assms(2)] by (auto simp: kb_frame)
    then show ?thesis using h(5) k by (auto simp: nth_append)
  qed
  then show ?thesis unfolding push using h assms(2,3) by (simp add: kb_holds_def kb_frame)
qed

lemma kb_pop_empty: "kb_holds p t m [] \<Longrightarrow> keyboard_pop t m = (0, m)"
proof -
  assume "kb_holds p t m []"
  then have "t \<noteq> 0" "load32 m (task_process t) = p" "m (kb_slot p (load32 m (keyboard_reader p))) = 0"
    by (auto simp: kb_holds_def kb_apart_def dest: spec [of _ 0])
  then show ?thesis by (simp add: keyboard_pop_def kb_index)
qed

lemma kb_pop:
  assumes "kb_holds p t m (c # xs)"
  shows "\<exists>m'. keyboard_pop t m = (c, m') \<and> kb_holds p t m' xs"
proof -
  let ?r = "load32 m (keyboard_reader p)" and ?n = "length xs"
  have h: "kb_apart p t" "load32 m (task_process t) = p" "0 \<notin> set (c # xs)" "?n < 1024"
    "load32 m (keyboard_writer p) = ?r + of_nat (Suc ?n)"
    "\<forall>k < 1024. m (kb_slot p (?r + of_nat k)) = (if k < Suc ?n then (c # xs) ! k else 0)"
    using assms by (simp_all add: kb_holds_def Suc_le_eq)
  have c: "m (kb_slot p ?r) = c" using h(6) by (auto dest: spec [of _ 0])
  let ?m = "store32 (m(kb_slot p ?r := 0)) (keyboard_reader p) (?r + 1)"
  have pop: "keyboard_pop t m = (c, ?m)"
    using h(1-3) c by (simp add: keyboard_pop_def kb_index kb_frame kb_apart_def)
  have "?m (kb_slot p (?r + 1 + of_nat k)) = (if k < ?n then xs ! k else 0)" if k: "k < 1024" for k
  proof (cases "k = 1023")
    case True
    then have "kb_slot p (?r + 1 + of_nat k) = kb_slot p ?r" using kb_slot_wrap [of p ?r] by (simp add: add.commute)
    then show ?thesis using True h(4) by (simp add: kb_frame)
  next
    case False
    with k have k': "Suc k < 1024" by simp
    have a: "?r + 1 + of_nat k = ?r + of_nat (Suc k)" by simp
    have "kb_slot p (?r + of_nat (Suc k)) \<noteq> kb_slot p (?r + of_nat 0)"
      using kb_slot_inj [OF k', of 0 p ?r] by (simp del: of_nat_Suc of_nat_0)
    then have "?m (kb_slot p (?r + of_nat (Suc k))) = m (kb_slot p (?r + of_nat (Suc k)))"
      by (simp add: kb_frame del: of_nat_Suc)
    then show ?thesis unfolding a using h(6) k' by (simp del: of_nat_Suc)
  qed
  then have "kb_holds p t ?m xs" using h by (simp add: kb_holds_def kb_frame)
  with pop show ?thesis by blast
qed

interpretation kb: byte_queue "kb_holds p t" "keyboard_push p" "keyboard_pop t" 1024 for p t
proof
  show "kb_holds p t m [] \<Longrightarrow> keyboard_pop t m = (0, m)" for m by (rule kb_pop_empty)
  show "kb_holds p t m xs \<Longrightarrow> 0 \<notin> set xs" for m xs by (simp add: kb_holds_def)
qed (fact kb_push kb_pop)+

section \<open>Properties\<close>

text \<open>A process at the start of the heap with an empty buffer, and a task of it.\<close>

definition kb_example :: mem where
  "kb_example = store32 (\<lambda>_. 0) (task_process 0x1003000) 0x1000000"

lemma kb_example_holds: "kb_holds 0x1000000 0x1003000 kb_example []"
proof -
  have "kb_apart 0x1000000 0x1003000" by (simp add: kb_apart_def layout)
  then show ?thesis
    by (simp add: kb_holds_def kb_example_def kb_frame load32_zero)
qed

text \<open>
  C4. Whatever the order in which keyboard interrupts and \<open>getkey\<close> calls come, the
  characters read are the first of the characters typed, in order, as long as the writer is
  at most 1024 ahead: none is lost, repeated or swapped.
\<close>

theorem keyboard_in_order:
  assumes "queue_run (keyboard_push p) (keyboard_pop t) 1024 m0 m typed got" and "kb_holds p t m0 []"
  shows "\<exists>rest. typed = got @ rest \<and> kb_holds p t m rest"
  using assms by (rule kb.run_holds)

theorem keyboard_in_order_witness:
  "\<exists>m rest. queue_run (keyboard_push 0x1000000) (keyboard_pop 0x1003000) 1024 kb_example m [0x41, 0x42] [] \<and>
     [0x41, 0x42] = [] @ rest \<and> kb_holds 0x1000000 0x1003000 m rest"
proof -
  let ?R = "queue_run (keyboard_push 0x1000000) (keyboard_pop 0x1003000) 1024 kb_example"
  let ?m = "keyboard_push 0x1000000 0x42 (keyboard_push 0x1000000 0x41 kb_example)"
  have "?R (keyboard_push 0x1000000 0x41 kb_example) ([] @ [0x41]) []"
    by (intro queue_run.type_char queue_run.start) simp_all
  then have "?R ?m (([] @ [0x41]) @ [0x42]) []" by (rule queue_run.type_char) simp_all
  then have r: "?R ?m [0x41, 0x42] []" by simp
  from keyboard_in_order [OF r kb_example_holds] r show ?thesis by blast
qed

text \<open>
  A character typed into a full buffer is not refused: it replaces the oldest character,
  which is lost, and is read before all the others.
\<close>

theorem keyboard_overrun:
  assumes "kb_holds p t m xs" and "length xs = 1024" and "c \<noteq> 0"
  shows "fst (keyboard_pop t (keyboard_push p c m)) = c"
proof -
  let ?r = "load32 m (keyboard_reader p)"
  have h: "kb_apart p t" "load32 m (task_process t) = p" "load32 m (keyboard_writer p) = ?r + 1024"
    using assms(1,2) by (simp_all add: kb_holds_def)
  then have "p \<noteq> 0" "t \<noteq> 0" by (simp_all add: kb_apart_def)
  then show ?thesis using h assms(3)
    by (simp add: keyboard_push_def keyboard_pop_def kb_index kb_frame kb_slot_wrap)
qed

theorem keyboard_overrun_witness:
  "\<exists>m. kb_holds 0x1000000 0x1003000 m (replicate 1024 0x41) \<and>
     fst (keyboard_pop 0x1003000 (keyboard_push 0x1000000 0x42 m)) = 0x42"
proof -
  let ?m = "kb.pushes 0x1000000 (replicate 1024 0x41) kb_example"
  have "kb_holds 0x1000000 0x1003000 ?m ([] @ replicate 1024 0x41)"
    by (rule kb.pushes_holds [OF kb_example_holds]) simp_all
  then have m: "kb_holds 0x1000000 0x1003000 ?m (replicate 1024 0x41)" by simp
  from keyboard_overrun [OF m, of "0x42"] m show ?thesis by auto
qed

text \<open>
  \<open>keyboard_backspace\<close> clears the slot the writer points at, which is empty, and then
  steps back: the character it is to delete stays in the buffer and is still read.
\<close>

theorem keyboard_backspace_keeps:
  assumes "kb_holds p t m [c]"
  shows "fst (keyboard_pop t (keyboard_backspace p m)) = c"
proof -
  let ?r = "load32 m (keyboard_reader p)"
  have h: "kb_apart p t" "load32 m (task_process t) = p" "load32 m (keyboard_writer p) = ?r + 1" "c \<noteq> 0"
    "\<forall>k < 1024. m (kb_slot p (?r + of_nat k)) = (if k < 1 then [c] ! k else 0)"
    using assms by (auto simp: kb_holds_def)
  have c: "m (kb_slot p ?r) = c" using h(5) by (auto dest: spec [of _ 0])
  have "kb_slot p (?r + of_nat 1) \<noteq> kb_slot p (?r + of_nat 0)" using kb_slot_inj [of 1 0 p ?r] by (simp del: of_nat_1 of_nat_0)
  then have "kb_slot p (?r + 1) \<noteq> kb_slot p ?r" by simp
  moreover have "t \<noteq> 0" using h(1) by (simp add: kb_apart_def)
  ultimately show ?thesis using h(1-4) c
    by (simp add: keyboard_backspace_def keyboard_pop_def kb_index kb_frame)
qed

theorem keyboard_backspace_keeps_witness:
  "fst (keyboard_pop 0x1003000 (keyboard_backspace 0x1000000 (keyboard_push 0x1000000 0x41 kb_example))) = 0x41"
proof (rule keyboard_backspace_keeps)
  show "kb_holds 0x1000000 0x1003000 (keyboard_push 0x1000000 0x41 kb_example) [0x41]"
    using kb_push [OF kb_example_holds, of "0x41"] by simp
qed

text \<open>
  The scan code table has 81 entries, but code 81 passes the check: the result is the
  byte that happens to follow the table. All other codes give their entry or \<open>0\<close>.
\<close>

theorem ps2_scancode_past_table:
  "ps2_keyboard_scancode_to_char beyond sc =
     (if unat sc < 81 then ps2_scan_set_one ! unat sc else if unat sc = 81 then beyond else 0)"
proof -
  have "length ps2_scan_set_one = 81" by (simp add: ps2_scan_set_one_def)
  then show ?thesis by (auto simp: ps2_keyboard_scancode_to_char_def PS2_SCAN_SET_SIZE_def nth_append)
qed

end
