(* ===== verification/Env.thy ===== *)
theory Env
  imports Machine
begin

text \<open>
  What the compiler, the linker and the machine fix and the C sources leave open: the
  device behind the ports, the addresses of static objects and of string literals, and the
  addresses at which the local variables whose address is taken lie on the kernel stack.
  The functions that use them have this record as a parameter.
\<close>

record env =
  dev :: device
  disk0 :: addr               \<comment> \<open>\<open>disk0\<close> of \<open>disk.c\<close>\<close>
  fat16_fs :: addr            \<comment> \<open>\<open>fat16_fs\<close> of \<open>fat16.c\<close>\<close>
  elf_sig :: addr             \<comment> \<open>\<open>elf_signature\<close> of \<open>elfloader.c\<close>\<close>
  lit_sep :: addr             \<comment> \<open>the literal \<open>:/\<close> of \<open>pparser.c\<close>\<close>
  lit_r :: addr               \<comment> \<open>the literal \<open>r\<close>\<close>
  lit_w :: addr               \<comment> \<open>the literal \<open>w\<close>\<close>
  lit_a :: addr               \<comment> \<open>the literal \<open>a\<close>\<close>
  lit_fat16 :: addr           \<comment> \<open>the literal \<open>FAT16\<close>\<close>
  lit_shell :: addr           \<comment> \<open>the literal \<open>0:/shell\<close> of \<open>kernel.c\<close>\<close>
  sector_local :: "nat \<Rightarrow> addr" \<comment> \<open>\<open>buf\<close> of the \<open>n\<close>-th nested \<open>diskstreamer_read\<close>\<close>
  empty_local :: addr         \<comment> \<open>\<open>empty\<close> of \<open>fat16_get_total_items_for_directory\<close>\<close>
  item_local :: addr          \<comment> \<open>\<open>item\<close> of the same\<close>
  result_local :: addr        \<comment> \<open>\<open>result\<close> of \<open>fat16_get_fat_entry\<close>\<close>
  name_local :: addr          \<comment> \<open>\<open>tmp_filename\<close> of \<open>fat16_find_item_in_directory\<close>\<close>
  stat_local :: addr          \<comment> \<open>\<open>stat\<close> of \<open>elf_load\<close> and of \<open>process_load_binary\<close>\<close>
  exec_local :: addr          \<comment> \<open>\<open>filename\<close> of \<open>syscall6_process_load_start\<close>\<close>
  gdt_real :: addr            \<comment> \<open>\<open>gdt_real\<close> of \<open>kernel.c\<close>\<close>
  tss_static :: addr          \<comment> \<open>\<open>tss\<close> of \<open>kernel.c\<close>\<close>
  idt_table :: addr           \<comment> \<open>the descriptor table of \<open>idt.c\<close>\<close>
  idtr_static :: addr         \<comment> \<open>\<open>idtr_descriptor\<close> of \<open>idt.c\<close>\<close>
  idt_stubs :: "nat \<Rightarrow> addr"    \<comment> \<open>\<open>interrupt_pointer_table\<close> of \<open>idt.asm\<close>\<close>
  isr80h_stub :: addr         \<comment> \<open>\<open>isr80h_wrapper\<close> of \<open>idt.asm\<close>\<close>
  page_fault_stub :: addr     \<comment> \<open>\<open>page_fault_intr_cb\<close> of \<open>paging.c\<close>\<close>
  syscall_funs :: "addr list" \<comment> \<open>the nine system call functions\<close>
  ps2_static :: addr          \<comment> \<open>\<open>ps2_keyboard\<close> of \<open>ps2.c\<close>\<close>
  ps2_handler :: addr         \<comment> \<open>\<open>ps2_keyboard_handle_interrupt\<close>\<close>
  gdt_desc :: addr            \<comment> \<open>\<open>gdt_descriptor\<close> of \<open>gdt.asm\<close>\<close>
  print_local :: addr         \<comment> \<open>\<open>buf\<close> of \<open>syscall1_print\<close>\<close>

text \<open>An environment for the witnesses: everything between the kernel's table and its heap.\<close>

definition env_example :: env where
  "env_example = \<lparr>dev = \<lambda>_ _. 0, disk0 = 0x20000, fat16_fs = 0x20100, elf_sig = 0x20200, lit_sep = 0xF007,
     lit_r = 0x20210, lit_w = 0x20220, lit_a = 0x20230, lit_fat16 = 0x20240, lit_shell = 0x20250,
     sector_local = (\<lambda>n. 0x4F0000 + of_nat (n mod 64) * 1024), empty_local = 0x501000, item_local = 0x501100,
     result_local = 0x501200, name_local = 0x501300, stat_local = 0x501400, exec_local = 0x501500,
     gdt_real = 0x20300, tss_static = 0x20400, idt_table = 0x21000, idtr_static = 0x20500,
     idt_stubs = (\<lambda>i. 0x100000 + of_nat i * 16), isr80h_stub = 0x110000, page_fault_stub = 0x110100,
     syscall_funs = map (\<lambda>i. 0x120000 + of_nat i * 256) [0..<9], ps2_static = 0x20600, ps2_handler = 0x130000,
     gdt_desc = 0x20700, print_local = 0x502000\<rparr>"

end
