(* ===== verification/Path_Parser.thy ===== *)
theory Path_Parser
  imports Env
begin

text \<open>
  \<open>phix/src/fs/pparser.c\<close>: a path \<open>d:/a/b\<close> is parsed into a list of parts, a
  \<open>struct path_root\<close> and \<open>struct path_part\<close>s on kernel heap pages. A parsed list is
  proved to be the parts of the path up to the first empty one, and freeing it to give back
  every page.
\<close>

section \<open>The code\<close>

definition pparser_path_valid_format :: "env \<Rightarrow> addr \<Rightarrow> mem \<Rightarrow> bool" where
  "pparser_path_valid_format e path m =
     (let len = strnlen m path PHIX_MAX_PATH
      in 3 \<le> sint len \<and> is_digit (m path) \<and> memcmp m (path + 1) (lit_sep e) 2 = 0)"

text \<open>The result and the new value of the caller's pointer.\<close>

definition pparser_get_drive_by_path :: "env \<Rightarrow> addr \<Rightarrow> mem \<Rightarrow> i32 \<times> addr" where
  "pparser_get_drive_by_path e path m =
     (if \<not> pparser_path_valid_format e path m then (- EBADPATH, path)
      else (to_digit (m path), path + 3))"

text \<open>\<open>drive_no\<close> is written before the caller tests the pointer.\<close>

definition sizeof_path_root :: u32 where "sizeof_path_root = 8"
definition sizeof_path_part :: u32 where "sizeof_path_part = 8"

definition pparser_create_root :: "i32 \<Rightarrow> mem \<Rightarrow> addr \<times> mem" where
  "pparser_create_root drive_no m =
     (let (root, m) = kzalloc sizeof_path_root m in (root, store32 m (root_drive_no root) drive_no))"

partial_function (option) path_part_loop :: "addr \<Rightarrow> i32 \<Rightarrow> addr \<Rightarrow> mem \<Rightarrow> (i32 \<times> addr \<times> mem) option" where
  "path_part_loop path_part i path m =
     (if m path \<noteq> 0 \<and> m path \<noteq> 0x2F
      then path_part_loop path_part (i + 1) (path + 1) (m(path_part + i := m path))
      else Some (i, path, m))"

definition pparser_get_path_part :: "addr \<Rightarrow> mem \<Rightarrow> (addr \<times> addr \<times> mem) option" where
  "pparser_get_path_part path m =
     (let (path_part, m) = kzalloc PHIX_MAX_PATH m
      in case path_part_loop path_part 0 path m of None \<Rightarrow> None
         | Some (i, path, m) \<Rightarrow>
             let path = (if m path = 0x2F then path + 1 else path)
             in Some (if i = 0 then (0, path, kfree path_part m) else (path_part, path, m)))"

definition pparser_parse_path_part :: "addr \<Rightarrow> addr \<Rightarrow> mem \<Rightarrow> (addr \<times> addr \<times> mem) option" where
  "pparser_parse_path_part prev path m =
     (case pparser_get_path_part path m of None \<Rightarrow> None
      | Some (path_part_str, path, m) \<Rightarrow>
          if path_part_str = 0 then Some (0, path, m)
          else let (part, m) = kzalloc sizeof_path_part m;
                   m = store32 m (part_part part) path_part_str;
                   m = store32 m (part_next part) 0;
                   m = (if prev \<noteq> 0 then store32 m (part_next prev) part else m)
               in Some (part, path, m))"

partial_function (option) path_parts_loop :: "addr \<Rightarrow> addr \<Rightarrow> mem \<Rightarrow> mem option" where
  "path_parts_loop part path m =
     (if part \<noteq> 0
      then (case pparser_parse_path_part part path m of None \<Rightarrow> None
            | Some (part, path, m) \<Rightarrow> path_parts_loop part path m)
      else Some m)"

text \<open>
  \<open>drive_no = pparser_get_drive_by_path(&tmp) < 0\<close> assigns the comparison: \<open>drive_no\<close> is
  \<open>0\<close> where the call succeeds. \<open>cwd\<close> is not used.
\<close>

definition pparser_parse :: "env \<Rightarrow> addr \<Rightarrow> addr \<Rightarrow> mem \<Rightarrow> (addr \<times> mem) option" where
  "pparser_parse e path cwd m =
     (case strlen m path of None \<Rightarrow> None
      | Some len \<Rightarrow>
        if PHIX_MAX_PATH < len then Some (0, m)
        else let (r, tmp) = pparser_get_drive_by_path e path m;
                 drive_no = (if sint r < 0 then 1 else 0)
             in if drive_no \<noteq> 0 then Some (0, m)
                else let (root, m) = pparser_create_root drive_no m
                     in if root = 0 then Some (0, m)
                        else (case pparser_parse_path_part 0 tmp m of None \<Rightarrow> None
                              | Some (first, tmp, m) \<Rightarrow>
                                if first = 0 then Some (root, m)
                                else let m = store32 m (root_first root) first
                                     in (case pparser_parse_path_part first tmp m of None \<Rightarrow> None
                                         | Some (part, tmp, m) \<Rightarrow>
                                             map_option (Pair root) (path_parts_loop part tmp m))))"

partial_function (option) path_free_loop :: "addr \<Rightarrow> mem \<Rightarrow> mem option" where
  "path_free_loop part m =
     (if part \<noteq> 0
      then let next = load32 m (part_next part)
           in path_free_loop next (kfree part (kfree (load32 m (part_part part)) m))
      else Some m)"

definition pparser_free :: "addr \<Rightarrow> mem \<Rightarrow> mem option" where
  "pparser_free root m = map_option (kfree root) (path_free_loop (load32 m (root_first root)) m)"

section \<open>Reading a path\<close>

text \<open>The parts of a path up to the first empty one, the reference for the parser.\<close>

function path_spec :: "u8 list \<Rightarrow> u8 list list" where
  "path_spec xs = (if takeWhile (\<lambda>c. c \<noteq> 0x2F) xs = [] then []
     else takeWhile (\<lambda>c. c \<noteq> 0x2F) xs # path_spec (tl (dropWhile (\<lambda>c. c \<noteq> 0x2F) xs)))"
  by pat_completeness auto
termination
proof (relation "measure length")
  fix xs :: "u8 list" assume "takeWhile (\<lambda>c. c \<noteq> 0x2F) xs \<noteq> []"
  then have "xs \<noteq> []" by auto
  then show "(tl (dropWhile (\<lambda>c. c \<noteq> 0x2F) xs), xs) \<in> measure length"
    using length_dropWhile_le [of "\<lambda>c. c \<noteq> 0x2F" xs] by (cases xs) auto
qed simp

declare path_spec.simps [simp del]

abbreviation word_of :: "u8 list \<Rightarrow> u8 list" where
  "word_of xs \<equiv> takeWhile (\<lambda>c. c \<noteq> 0x2F) xs"

abbreviation rest_of :: "u8 list \<Rightarrow> u8 list" where
  "rest_of xs \<equiv> dropWhile (\<lambda>c. c \<noteq> 0x2F) xs"

lemma path_part_loop_word:
  assumes "cstr m path xs" and "length xs < 2 ^ 31" and "i + length xs < 2 ^ 31"
    and "\<And>j k. j \<le> length xs \<Longrightarrow> k < length xs \<Longrightarrow> path + of_nat j \<noteq> pp + of_nat (i + k)"
  shows "path_part_loop pp (of_nat i) path m =
     Some (of_nat (i + length (word_of xs)), path + of_nat (length (word_of xs)), poke m (pp + of_nat i) (word_of xs))"
  using assms
proof (induction xs arbitrary: i path m)
  case Nil
  then show ?case by (subst path_part_loop.simps) simp
next
  case (Cons x xs)
  show ?case
  proof (cases "x = 0x2F")
    case True
    with Cons.prems(1) show ?thesis by (subst path_part_loop.simps) simp
  next
    case False
    let ?m = "m(pp + of_nat i := x)"
    have c: "cstr ?m (path + 1) xs"
    proof (rule cstr_cong [of m])
      fix j assume "j \<le> length xs"
      then have "path + of_nat (Suc j) \<noteq> pp + of_nat (i + 0)" by (intro Cons.prems(4)) auto
      then show "?m (path + 1 + of_nat j) = m (path + 1 + of_nat j)" by (simp add: add.assoc)
    qed (use Cons.prems(1) in simp)
    have d: "path + 1 + of_nat j \<noteq> pp + of_nat (Suc i + k)" if "j \<le> length xs" "k < length xs" for j k
      using Cons.prems(4) [of "Suc j" "Suc k"] that by (simp add: ac_simps)
    have "path_part_loop pp (of_nat (Suc i)) (path + 1) ?m =
        Some (of_nat (Suc i + length (word_of xs)), path + 1 + of_nat (length (word_of xs)),
              poke ?m (pp + of_nat (Suc i)) (word_of xs))"
      using Cons.prems(2,3) by (intro Cons.IH [OF c _ _ d]) auto
    moreover have "path_part_loop pp (of_nat i) path m = path_part_loop pp (of_nat (Suc i)) (path + 1) ?m"
      using Cons.prems(1) False by (subst path_part_loop.simps) (simp add: add.commute)
    moreover have "length (word_of xs) + 1 < 2 ^ 32" using Cons.prems(2) length_takeWhile_le [of "\<lambda>c. c \<noteq> 0x2F" xs] by simp
    then have "poke ?m (pp + of_nat (Suc i)) (word_of xs) = poke m (pp + of_nat i) (x # word_of xs)"
      using poke_Cons [of "word_of xs" m "pp + of_nat i" x] by (simp add: ac_simps)
    ultimately show ?thesis using False by (simp add: ac_simps)
  qed
qed

text \<open>A string that lies outside the heap's free memory.\<close>

definition cstr_safe :: "mem \<Rightarrow> addr \<Rightarrow> u8 list \<Rightarrow> bool" where
  "cstr_safe m p xs = (cstr m p xs \<and> (\<forall>j \<le> length xs. kheap_safe m (p + of_nat j)))"

lemma cstr_safe_frame:
  assumes "cstr_safe m p xs" and "kheap_avail m' \<subseteq> kheap_avail m" and "\<And>a. kheap_safe m a \<Longrightarrow> m' a = m a"
  shows "cstr_safe m' p xs"
  using assms cstr_cong [of m p xs m'] kheap_safe_mono [OF _ assms(2)] by (auto simp: cstr_safe_def)

lemma cstr_safe_drop: "cstr_safe m p xs \<Longrightarrow> k \<le> length xs \<Longrightarrow> cstr_safe m (p + of_nat k) (drop k xs)"
proof (induction k arbitrary: p xs)
  case (Suc k)
  then obtain x ys where xs: "xs = x # ys" by (cases xs) auto
  have "kheap_safe m (p + 1 + of_nat j)" if "j \<le> length ys" for j
    using Suc.prems(1) that by (auto simp: cstr_safe_def xs ac_simps dest!: spec [of _ "Suc j"])
  then have "cstr_safe m (p + 1) ys" using Suc.prems(1) by (simp add: cstr_safe_def xs)
  from Suc.IH [OF this] Suc.prems(2) show ?case by (simp add: xs ac_simps)
qed simp

lemma page_bytes_unsafe:
  assumes "p \<in> kheap_avail m" and "unat (a - p) < 4096"
  shows "\<not> kheap_safe m a"
proof -
  have "a - p < 4096" using assms(2) by (simp add: word_less_nat_alt)
  moreover have "p \<in> kheap_pool" using assms(1) kh.avail_pool by auto
  ultimately have "a div 4096 = p div 4096" using kh.page_offset [of p "a - p"] by simp
  with assms(1) show ?thesis by (auto simp: kheap_safe_def)
qed

lemma kheap_safe_poke:
  assumes "p \<in> kheap_avail m" and "length bs \<le> 4096" and "kheap_safe m a"
  shows "poke m' p bs a = m' a"
proof (rule poke_out)
  have "\<not> unat (a - p) < 4096" using page_bytes_unsafe [OF assms(1), of a] assms(3) by blast
  with assms(2) show "length bs \<le> unat (a - p)" by linarith
qed

lemma drop_word:
  "drop (length (word_of xs)) xs = rest_of xs"
  by (metis dropWhile_eq_drop)

lemma get_path_part:
  assumes path: "cstr_safe m path xs" and len: "length xs \<le> 107" and av: "kheap_avail m \<noteq> {}"
  shows "\<exists>p path' m'. pparser_get_path_part path m = Some (if word_of xs = [] then 0 else p, path', m') \<and>
     p \<in> kheap_avail m \<and> p \<in> kheap_pool \<and> p \<noteq> 0 \<and> cstr_safe m path' (tl (rest_of xs)) \<and>
     path' = path + of_nat (length xs - length (tl (rest_of xs))) \<and>
     kheap_avail m' = (if word_of xs = [] then kheap_avail m else kheap_avail m - {p}) \<and>
     (word_of xs \<noteq> [] \<longrightarrow> cstr m' p (word_of xs)) \<and> (\<forall>a. kheap_safe m a \<longrightarrow> m' a = m a)"
proof -
  let ?w = "word_of xs" and ?r = "rest_of xs"
  have wl: "length ?w \<le> length xs" by (rule length_takeWhile_le)
  obtain p m1 where alloc: "kzalloc PHIX_MAX_PATH m = (p, m1)" "p \<in> kheap_avail m" "p \<in> kheap_pool" "p \<noteq> 0"
    "kheap_avail m1 = kheap_avail m - {p}" "\<And>a. a - p < PHIX_MAX_PATH \<Longrightarrow> m1 a = 0"
    "\<And>a. kheap_safe m a \<Longrightarrow> m1 a = m a"
    by (rule kzalloc_safe [of PHIX_MAX_PATH m]) (simp_all add: PHIX_MAX_PATH_def av)
  have s1: "cstr_safe m1 path xs" using alloc(5,7) by (intro cstr_safe_frame [OF path]) auto
  have apart: "path + of_nat j \<noteq> p + of_nat k" if "j \<le> length xs" "k < length xs" for j k
  proof
    assume e: "path + of_nat j = p + of_nat k"
    have "k < 4096" using that(2) len by simp
    then have "unat (path + of_nat j - p) < 4096" by (simp add: e unat_of_nat32)
    moreover have "kheap_safe m (path + of_nat j)" using path that(1) by (simp add: cstr_safe_def)
    ultimately show False using page_bytes_unsafe [OF alloc(2)] by blast
  qed
  let ?m2 = "poke m1 p ?w" and ?p1 = "path + of_nat (length ?w)"
  have loop: "path_part_loop p 0 path m1 = Some (of_nat (length ?w), ?p1, ?m2)"
    using path_part_loop_word [of m1 path xs 0 p] s1 len apart by (simp add: cstr_safe_def)
  have f2: "?m2 a = m a" if "kheap_safe m a" for a
    using kheap_safe_poke [OF alloc(2) _ that] wl len alloc(7) [OF that] by simp
  have a2: "kheap_avail ?m2 = kheap_avail m - {p}"
    using kheap_avail_poke [OF alloc(3)] wl len alloc(5) by simp
  have p1: "cstr_safe m ?p1 ?r" using cstr_safe_drop [OF path wl] by (simp add: drop_word)
  have same: "?m2 ?p1 = m ?p1" using path wl by (intro f2) (simp add: cstr_safe_def)
  let ?path = "if m ?p1 = 0x2F then ?p1 + 1 else ?p1"
  have p2: "cstr_safe m ?path (tl ?r)"
  proof (cases ?r)
    case Nil
    have "m ?p1 = 0" using p1 unfolding Nil cstr_safe_def by simp
    then have "?path = ?p1" by simp
    then show ?thesis using p1 unfolding Nil by simp
  next
    case (Cons y ys)
    then have "y = 0x2F" using hd_dropWhile [of "\<lambda>c. c \<noteq> 0x2F" xs] by auto
    moreover have "m ?p1 = y" using p1 Cons by (simp add: cstr_safe_def)
    ultimately show ?thesis using cstr_safe_drop [OF p1, of 1] Cons by simp
  qed
  have pe: "?path = path + of_nat (length xs - length (tl ?r))"
  proof -
    have l: "length xs = length ?w + length ?r" by (metis length_append takeWhile_dropWhile_id)
    show ?thesis
    proof (cases ?r)
      case Nil
      have "m ?p1 = 0" using p1 unfolding Nil cstr_safe_def by simp
      then show ?thesis using l unfolding Nil by simp
    next
      case (Cons y ys)
      then have "y = 0x2F" using hd_dropWhile [of "\<lambda>c. c \<noteq> 0x2F" xs] by auto
      moreover have "m ?p1 = y" using p1 Cons by (simp add: cstr_safe_def)
      moreover have "length xs - length (tl ?r) = length ?w + 1" using l Cons by simp
      ultimately show ?thesis by (simp add: add.assoc)
    qed
  qed
  have n0: "(of_nat (length ?w) = (0 :: u32)) = (?w = [])"
    using word_of_nat_inj [of "length ?w" 0] wl len by (simp del: takeWhile_eq_Nil_iff)
  show ?thesis
  proof (cases "?w = []")
    case True
    then have fr: "\<And>a. kheap_safe m a \<Longrightarrow> kfree p ?m2 a = m a"
      using f2 kfree_frame [OF alloc(3)] by (simp add: kheap_safe_def)
    have av': "kheap_avail (kfree p ?m2) = kheap_avail m"
      using kfree_page [OF alloc(3), of ?m2] a2 alloc(2) by auto
    have "pparser_get_path_part path m = Some (0, ?path, kfree p ?m2)"
      using alloc(1) loop n0 True same by (simp add: pparser_get_path_part_def)
    with True alloc(2-4) p2 pe av' fr show ?thesis by auto
  next
    case False
    have "cstr ?m2 p ?w" unfolding cstr_iff
    proof (intro conjI allI impI)
      show "0 \<notin> set ?w" using path cstr_nonzero [of m path xs] set_takeWhileD by (fastforce simp: cstr_safe_def)
      show "?m2 (p + of_nat i) = ?w ! i" if "i < length ?w" for i
        using poke_in [OF that] wl len by simp
      have u: "unat (of_nat (length ?w) :: u32) = length ?w" using wl len by (intro unat_of_nat32) simp
      have "?m2 (p + of_nat (length ?w)) = m1 (p + of_nat (length ?w))" by (rule poke_out) (simp add: u)
      also have "\<dots> = 0" using wl len by (intro alloc(6)) (simp add: PHIX_MAX_PATH_def word_less_nat_alt u)
      finally show "?m2 (p + of_nat (length ?w)) = 0" .
    qed
    moreover have "pparser_get_path_part path m = Some (p, ?path, ?m2)"
      using alloc(1) loop n0 False same by (simp add: pparser_get_path_part_def)
    ultimately show ?thesis using False alloc(2-4) p2 pe a2 f2 by auto
  qed
qed

text \<open>The bytes that a parse may not touch: none of the heap's free memory, none of \<open>prev\<close>.\<close>

definition path_frame :: "mem \<Rightarrow> addr \<Rightarrow> addr \<Rightarrow> bool" where
  "path_frame m prev a = (kheap_safe m a \<and> (prev \<noteq> 0 \<longrightarrow> 4 \<le> unat (a - part_next prev)))"

lemma part_fields: "part_part q = q + 0" "part_next q = q + 4"
  by (simp_all add: layout)

lemma parse_path_part_end:
  assumes "cstr_safe m path xs" and "length xs \<le> 107" and "kheap_avail m \<noteq> {}" and "word_of xs = []"
  shows "\<exists>path' m'. pparser_parse_path_part prev path m = Some (0, path', m') \<and>
     kheap_avail m' = kheap_avail m \<and> (\<forall>a. kheap_safe m a \<longrightarrow> m' a = m a)"
  using get_path_part [OF assms(1-3)] assms(4) by (fastforce simp: pparser_parse_path_part_def)

lemma parse_path_part_word:
  assumes path: "cstr_safe m path xs" and len: "length xs \<le> 107" and av: "2 \<le> card (kheap_avail m)"
    and w: "word_of xs \<noteq> []" and prev: "prev = 0 \<or> prev \<in> kheap_pool \<and> prev \<notin> kheap_avail m"
  shows "\<exists>q p path' m'. pparser_parse_path_part prev path m = Some (q, path', m') \<and>
     q \<in> kheap_avail m \<and> p \<in> kheap_avail m \<and> q \<noteq> p \<and> q \<noteq> 0 \<and> cstr_safe m path' (tl (rest_of xs)) \<and>
     path' = path + of_nat (length xs - length (tl (rest_of xs))) \<and>
     kheap_avail m' = kheap_avail m - {p, q} \<and> load32 m' (part_part q) = p \<and> load32 m' (part_next q) = 0 \<and>
     cstr m' p (word_of xs) \<and> (prev \<noteq> 0 \<longrightarrow> load32 m' (part_next prev) = q) \<and>
     (\<forall>a. path_frame m prev a \<longrightarrow> m' a = m a)"
proof -
  have ne: "kheap_avail m \<noteq> {}" using av by auto
  from get_path_part [OF path len ne] w obtain p path' m1 where
    g: "pparser_get_path_part path m = Some (p, path', m1)" "p \<in> kheap_avail m" "p \<in> kheap_pool" "p \<noteq> 0"
      "cstr_safe m path' (tl (rest_of xs))" "path' = path + of_nat (length xs - length (tl (rest_of xs)))"
      "kheap_avail m1 = kheap_avail m - {p}" "cstr m1 p (word_of xs)"
      "\<And>a. kheap_safe m a \<Longrightarrow> m1 a = m a"
    by auto
  have "card (kheap_avail m1) \<noteq> 0" using g(2,7) av kh.card_alloc [of m] by (simp add: card_Diff_singleton)
  then have ne1: "kheap_avail m1 \<noteq> {}" by auto
  obtain q m2 where a: "kzalloc sizeof_path_part m1 = (q, m2)" "q \<in> kheap_avail m1" "q \<in> kheap_pool" "q \<noteq> 0"
    "kheap_avail m2 = kheap_avail m1 - {q}" "\<And>a. kheap_safe m1 a \<Longrightarrow> m2 a = m1 a"
    by (rule kzalloc_safe [of sizeof_path_part m1]) (simp_all add: sizeof_path_part_def ne1)
  let ?m3 = "store32 (store32 m2 (q + 0) p) (q + 4) 0"
  let ?m = "if prev \<noteq> 0 then store32 ?m3 (prev + 4) q else ?m3"
  have parse: "pparser_parse_path_part prev path m = Some (q, path', ?m)"
    using g(1,4) a(1) by (simp add: pparser_parse_path_part_def part_fields)
  have qp: "q \<noteq> p" "q \<in> kheap_avail m" using a(2) g(7) by auto
  have pq: "prev \<noteq> q" "prev \<noteq> p" using prev a(2-4) g(2,4,7) by auto
  have pp: "prev \<noteq> 0 \<Longrightarrow> prev \<in> kheap_pool" using prev by blast
  have av3: "kheap_avail ?m3 = kheap_avail m - {p, q}"
    using kheap_avail_field [OF a(3), of 0] kheap_avail_field [OF a(3), of 4] a(5) g(7) by auto
  have av': "kheap_avail ?m = kheap_avail m - {p, q}"
    using av3 kheap_avail_field [of prev 4] pp by simp
  have other: "?m x = m2 x" if "x div 4096 = r div 4096" "r \<in> kheap_pool" "r \<noteq> q" "r \<noteq> prev \<or> prev = 0" for x r
    using that kheap_field_other [OF a(3) that(2), of 0 x] kheap_field_other [OF a(3) that(2), of 4 x]
      kheap_field_other [OF pp that(2), of 4 x] by auto
  have nx: "load32 ?m3 (q + 4) = 0" "load32 ?m3 (q + 0) = p"
    by (simp_all add: load32_store32_apart)
  have nq: "load32 ?m (q + 4) = 0" "load32 ?m (q + 0) = p"
    using nx kheap_field_load_other [OF pp a(3), of 4 4] kheap_field_load_other [OF pp a(3), of 4 0] pq by auto
  have str: "cstr ?m p (word_of xs)"
  proof (rule cstr_cong [OF g(8)])
    fix i assume "i \<le> length (word_of xs)"
    then have "i < 4096" using len length_takeWhile_le [of "\<lambda>c. c \<noteq> 0x2F" xs] by simp
    then have "(of_nat i :: u32) < 4096" by (simp add: word_of_nat_less_iff)
    then have pg: "(p + of_nat i) div 4096 = p div 4096" using kh.page_offset [OF g(3)] by blast
    have "?m (p + of_nat i) = m2 (p + of_nat i)" using other [OF pg g(3)] qp pq by auto
    also have "\<dots> = m1 (p + of_nat i)"
      using g(2,3,7) pg by (intro a(6) kheap_safe_page [of p]) auto
    finally show "?m (p + of_nat i) = m1 (p + of_nat i)" .
  qed
  have fr: "?m x = m x" if "path_frame m prev x" for x
  proof -
    have safe: "kheap_safe m x" and apart: "prev \<noteq> 0 \<Longrightarrow> 4 \<le> unat (x - (prev + 4))"
      using that by (auto simp: path_frame_def part_fields)
    have s1: "kheap_safe m1 x" using safe by (rule kheap_safe_mono) (auto simp: g(7))
    have "x \<noteq> q + i + j" if "i \<le> 4092" "j < 4" for i j
      using kheap_field(1) [OF a(3) that] safe qp(2) by (auto simp: kheap_safe_def)
    from this [of 0 0] this [of 0 1] this [of 0 2] this [of 0 3]
      this [of 4 0] this [of 4 1] this [of 4 2] this [of 4 3]
    have "?m3 x = m2 x" by (simp add: store32_def add.assoc)
    moreover have "?m x = ?m3 x" using apart by (auto simp: store32_byte_out)
    ultimately show ?thesis using a(6) [OF s1] g(9) [OF safe] by simp
  qed
  have last: "prev \<noteq> 0 \<longrightarrow> load32 ?m (prev + 4) = q" by simp
  have frame: "\<forall>a. path_frame m prev a \<longrightarrow> ?m a = m a" by (intro allI impI fr)
  show ?thesis unfolding part_fields
  proof (intro exI conjI)
    show "pparser_parse_path_part prev path m = Some (q, path', ?m)" by (rule parse)
  qed (fact qp a(4) g(2) g(5) g(6) av' nq str last frame)+
qed

text \<open>
  The list of parts from \<open>a\<close> on: the node, the page of its string and its characters.
\<close>

fun path_nodes :: "mem \<Rightarrow> addr \<Rightarrow> (addr \<times> addr \<times> u8 list) list \<Rightarrow> bool" where
  "path_nodes m a [] = (a = 0)"
| "path_nodes m a ((q, p, w) # ns) = (a = q \<and> q \<in> kheap_pool \<and> p \<in> kheap_pool \<and> load32 m (part_part q) = p \<and>
     length w \<le> 107 \<and> cstr m p w \<and> path_nodes m (load32 m (part_next q)) ns)"

fun node_pages :: "(addr \<times> addr \<times> u8 list) list \<Rightarrow> addr list" where
  "node_pages [] = []"
| "node_pages ((q, p, w) # ns) = q # p # node_pages ns"

definition node_words :: "(addr \<times> addr \<times> u8 list) list \<Rightarrow> u8 list list" where
  "node_words ns = map (\<lambda>(q, p, w). w) ns"

lemma cstr_page_cong:
  assumes "cstr m p w" and "p \<in> kheap_pool" and "length w \<le> 107"
    and "\<And>x. x div 4096 = p div 4096 \<Longrightarrow> m' x = m x"
  shows "cstr m' p w"
proof (rule cstr_cong [OF assms(1)])
  fix i assume "i \<le> length w"
  then have "i < 4096" using assms(3) by simp
  then have "(of_nat i :: u32) < 4096" by (simp add: word_of_nat_less_iff)
  then show "m' (p + of_nat i) = m (p + of_nat i)" using kh.page_offset [OF assms(2)] by (intro assms(4)) blast
qed

lemma load32_page_cong:
  assumes "q \<in> kheap_pool" and "i \<le> 4092" and "\<And>x. x div 4096 = q div 4096 \<Longrightarrow> m' x = m x"
  shows "load32 m' (q + i) = load32 m (q + i)"
  using kheap_field(1) [OF assms(1,2)] by (intro load32_same assms(3))

lemma path_nodes_cong:
  "path_nodes m a ns \<Longrightarrow> (\<And>x r. r \<in> set (node_pages ns) \<Longrightarrow> x div 4096 = r div 4096 \<Longrightarrow> m' x = m x) \<Longrightarrow>
   path_nodes m' a ns"
proof (induction ns arbitrary: a)
  case (Cons n ns)
  obtain q p w where n: "n = (q, p, w)" by (cases n) auto
  have h: "q \<in> kheap_pool" "p \<in> kheap_pool" "cstr m p w" "length w \<le> 107"
    "path_nodes m (load32 m (part_next q)) ns" using Cons.prems(1) by (simp_all add: n)
  have pg: "m' x = m x" if "r = q \<or> r = p \<or> r \<in> set (node_pages ns)" "x div 4096 = r div 4096" for x r
    using Cons.prems(2) [of r x] that by (simp add: n)
  have c: "load32 m' (q + i) = load32 m (q + i)" if "i \<le> 4092" for i
    using h(1) that by (rule load32_page_cong) (rule pg [of q], simp_all)
  have "cstr m' p w" using h(3,2,4) by (rule cstr_page_cong) (rule pg [of p], simp_all)
  moreover have "path_nodes m' (load32 m (part_next q)) ns" using h(5) by (rule Cons.IH) (rule pg, simp_all)
  ultimately show ?case using Cons.prems(1) c [of 0] c [of 4] by (simp add: n part_fields)
qed simp

lemma part_next_page:
  assumes "q \<in> kheap_pool" and "x div 4096 \<noteq> q div 4096"
  shows "4 \<le> unat (x - part_next q)"
proof (rule ccontr)
  assume "\<not> 4 \<le> unat (x - part_next q)"
  then have "x - part_next q < 4" by (simp add: word_less_nat_alt)
  then have "(q + 4 + (x - part_next q)) div 4096 = q div 4096" using kheap_field(1) [OF assms(1), of 4] by simp
  with assms(2) show False by (simp add: part_fields)
qed

lemma part_next_part:
  assumes "k < 4"
  shows "4 \<le> unat (q + 0 + k - part_next q)"
proof -
  have "unat (4 - k) = 4 - unat k" using assms by (simp add: unat_sub word_less_nat_alt word_le_nat_alt)
  then have "4 \<le> unat (k - 4)" using unat_minus_iff [of k 4] assms by (auto simp: word_less_nat_alt)
  moreover have "q + 0 + k - part_next q = k - 4" by (simp add: part_fields)
  ultimately show ?thesis by (simp only:)
qed

text \<open>Bytes off the free pages stay off the node just allocated.\<close>

lemma path_frame_step:
  assumes "path_frame m prev a" and "q \<in> kheap_avail m" and "kheap_avail m1 \<subseteq> kheap_avail m"
  shows "path_frame m1 q a"
proof -
  have safe: "kheap_safe m a" using assms(1) by (simp add: path_frame_def)
  then have "a div 4096 \<noteq> q div 4096" using assms(2) by (simp add: kheap_safe_def)
  moreover have "q \<in> kheap_pool" using assms(2) kh.avail_pool by auto
  ultimately show ?thesis using part_next_page kheap_safe_mono [OF safe assms(3)] by (simp add: path_frame_def)
qed

lemma path_frame_page:
  assumes "s \<in> kheap_pool" and "s \<notin> kheap_avail m" and "s \<noteq> q" and "q \<in> kheap_pool"
    and "x div 4096 = s div 4096"
  shows "path_frame m q x"
  using assms kheap_safe_page [OF assms(1,2,5)] part_next_page [of q x] kh.pool_same_page [of s q]
  by (auto simp: path_frame_def)

lemma path_frame_part:
  assumes "q \<in> kheap_pool" and "q \<notin> kheap_avail m" and "k < 4"
  shows "path_frame m q (q + 0 + k)"
  using part_next_part [OF assms(3)] kheap_safe_page [OF assms(1,2)] kheap_field(1) [OF assms(1) _ assms(3), of 0]
  by (simp add: path_frame_def)

lemma cstr_safe_step:
  assumes "cstr_safe m path xs" and "\<And>j. j \<le> length xs \<Longrightarrow> path_frame m prev (path + of_nat j)"
    and "\<And>a. path_frame m prev a \<Longrightarrow> m1 a = m a" and "kheap_avail m1 \<subseteq> kheap_avail m"
  shows "cstr_safe m1 path xs"
  unfolding cstr_safe_def
proof (intro conjI allI impI)
  have "cstr m path xs" using assms(1) by (simp add: cstr_safe_def)
  then show "cstr m1 path xs" by (rule cstr_cong) (rule assms(3), rule assms(2))
  show "kheap_safe m1 (path + of_nat j)" if "j \<le> length xs" for j
    using assms(2) [OF that] kheap_safe_mono [OF _ assms(4)] by (simp add: path_frame_def)
qed

lemma length_rest: "word_of xs \<noteq> [] \<Longrightarrow> length (tl (rest_of xs)) < length xs"
  using length_dropWhile_le [of "\<lambda>c. c \<noteq> 0x2F" xs] by (cases xs) auto

lemma path_parts_loop_end: "path_parts_loop 0 path m = Some m"
  by (simp add: path_parts_loop.simps)

lemma path_parts_loop_spec:
  assumes "cstr_safe m path xs" and "length xs \<le> 107" and "2 * length (path_spec xs) < card (kheap_avail m)"
    and "prev \<in> kheap_pool" and "prev \<notin> kheap_avail m" and "load32 m (part_next prev) = 0"
    and "\<And>j. j \<le> length xs \<Longrightarrow> path_frame m prev (path + of_nat j)"
  shows "\<exists>m' ns. path_parts_loop prev path m = Some m' \<and> path_nodes m' (load32 m' (part_next prev)) ns \<and>
     node_words ns = path_spec xs \<and> kheap_avail m' = kheap_avail m - set (node_pages ns) \<and>
     set (node_pages ns) \<subseteq> kheap_avail m \<and> distinct (node_pages ns) \<and> (\<forall>a. path_frame m prev a \<longrightarrow> m' a = m a)"
  using assms
proof (induction "length xs" arbitrary: xs m path prev rule: less_induct)
  case less
  have pz: "prev \<noteq> 0" using less.prems(4) kheap_pool_page by blast
  have ne: "kheap_avail m \<noteq> {}" using less.prems(3) by auto
  show ?case
  proof (cases "word_of xs = []")
    case True
    from parse_path_part_end [OF less.prems(1,2) ne True, of prev] obtain path' m' where
      r: "pparser_parse_path_part prev path m = Some (0, path', m')" "kheap_avail m' = kheap_avail m"
        "\<And>a. kheap_safe m a \<Longrightarrow> m' a = m a" by blast
    have "path_parts_loop prev path m = Some m'"
      using r(1) pz by (subst path_parts_loop.simps) (simp add: path_parts_loop_end)
    moreover have "load32 m' (prev + 4) = load32 m (prev + 4)"
      by (intro kheap_safe_load [of m] r(3) less.prems(4,5)) simp_all
    then have "path_nodes m' (load32 m' (part_next prev)) []" using less.prems(6) by (simp add: part_fields)
    moreover have "path_spec xs = []" using True by (subst path_spec.simps) simp
    ultimately show ?thesis using r(2,3) by (intro exI [of _ m'] exI [of _ "[]"]) (simp add: node_words_def path_frame_def)
  next
    case False
    let ?xs = "tl (rest_of xs)"
    have spec: "path_spec xs = word_of xs # path_spec ?xs" using False by (subst path_spec.simps) simp
    have "prev = 0 \<or> prev \<in> kheap_pool \<and> prev \<notin> kheap_avail m" using less.prems(4,5) by simp
    moreover have "2 \<le> card (kheap_avail m)" using less.prems(3) by (simp add: spec)
    ultimately obtain q p path' m1 where
      r: "pparser_parse_path_part prev path m = Some (q, path', m1)" "q \<in> kheap_avail m" "p \<in> kheap_avail m"
        "q \<noteq> p" "q \<noteq> 0" "cstr_safe m path' ?xs"
        "path' = path + of_nat (length xs - length ?xs)" "kheap_avail m1 = kheap_avail m - {p, q}"
        "load32 m1 (part_part q) = p" "load32 m1 (part_next q) = 0" "cstr m1 p (word_of xs)"
        "prev \<noteq> 0 \<longrightarrow> load32 m1 (part_next prev) = q" "\<And>a. path_frame m prev a \<Longrightarrow> m1 a = m a"
      using parse_path_part_word [OF less.prems(1,2) _ False, of prev] by blast
    note next_frame = r(13)
    have q: "q \<in> kheap_pool" and p: "p \<in> kheap_pool" using r(2,3) kh.avail_pool by auto
    have on: "path_frame m prev (path' + of_nat j)" if "j \<le> length ?xs" for j
    proof -
      have "length xs - length ?xs + j \<le> length xs" using that length_rest [OF False] by linarith
      then have "path_frame m prev (path + of_nat (length xs - length ?xs + j))" by (rule less.prems(7))
      then show ?thesis by (simp add: r(7) add.assoc)
    qed
    have sub: "kheap_avail m1 \<subseteq> kheap_avail m" by (auto simp: r(8))
    have c1: "cstr_safe m1 path' ?xs" using r(6) on next_frame sub by (rule cstr_safe_step)
    have fq: "path_frame m1 q a" if "path_frame m prev a" for a
      using that r(2) sub by (rule path_frame_step)
    have card1: "2 * length (path_spec ?xs) < card (kheap_avail m1)"
    proof -
      have "card (kheap_avail m - {p, q}) = card (kheap_avail m) - 2"
        using r(2-4) kh.card_alloc by (simp add: card_Diff_subset)
      then show ?thesis using less.prems(3) by (simp add: spec r(8))
    qed
    have qa: "q \<notin> kheap_avail m1" by (simp add: r(8))
    have len1: "length ?xs \<le> 107" using length_rest [OF False] less.prems(2) by linarith
    have "\<exists>m' ns. path_parts_loop q path' m1 = Some m' \<and> path_nodes m' (load32 m' (part_next q)) ns \<and>
       node_words ns = path_spec ?xs \<and> kheap_avail m' = kheap_avail m1 - set (node_pages ns) \<and>
       set (node_pages ns) \<subseteq> kheap_avail m1 \<and> distinct (node_pages ns) \<and> (\<forall>a. path_frame m1 q a \<longrightarrow> m' a = m1 a)"
      by (rule less.hyps [OF length_rest [OF False] c1 len1 card1 q qa r(10)], rule fq, rule on)
    then obtain m' ns where h: "path_parts_loop q path' m1 = Some m'" "path_nodes m' (load32 m' (part_next q)) ns"
      "node_words ns = path_spec ?xs" "kheap_avail m' = kheap_avail m1 - set (node_pages ns)"
      "set (node_pages ns) \<subseteq> kheap_avail m1" "distinct (node_pages ns)" "\<And>a. path_frame m1 q a \<Longrightarrow> m' a = m1 a"
      by blast
    have loop: "path_parts_loop prev path m = Some m'"
      using r(1) h(1) pz by (subst path_parts_loop.simps) simp
    have keep: "m' x = m1 x" if "x div 4096 = s div 4096" "s \<in> kheap_pool" "s \<notin> kheap_avail m1" "s \<noteq> q" for x s
      using path_frame_page [OF that(2,3,4) q that(1)] by (rule h(7))
    have "load32 m' (prev + 4) = load32 m1 (prev + 4)"
      using less.prems(4,5) r(2) by (intro load32_page_cong keep [of _ prev]) (auto simp: r(8))
    then have pn: "load32 m' (part_next prev) = q" using r(12) pz by (simp add: part_fields)
    have "load32 m' (q + 0) = load32 m1 (q + 0)"
      by (rule load32_same, rule h(7), rule path_frame_part [OF q qa])
    then have pq: "load32 m' (part_part q) = p" using r(9) by (simp add: part_fields)
    have wl: "length (word_of xs) \<le> 107" using length_takeWhile_le [of "\<lambda>c. c \<noteq> 0x2F" xs] less.prems(2) by linarith
    have "p \<notin> kheap_avail m1" by (simp add: r(8))
    then have cp: "cstr m' p (word_of xs)"
      using r(4) by (intro cstr_page_cong [OF r(11) p wl] keep [of _ p] p) auto
    have "path_nodes m' (load32 m' (part_next prev)) ((q, p, word_of xs) # ns)"
      using pn pq cp wl q p h(2) by simp
    moreover have "node_words ((q, p, word_of xs) # ns) = path_spec xs" using h(3) by (simp add: spec node_words_def)
    moreover have "kheap_avail m' = kheap_avail m - set (node_pages ((q, p, word_of xs) # ns))"
      using h(4) by (auto simp: r(8))
    moreover have "set (node_pages ((q, p, word_of xs) # ns)) \<subseteq> kheap_avail m" using h(5) r(2,3) by (auto simp: r(8))
    moreover have "distinct (node_pages ((q, p, word_of xs) # ns))" using h(5,6) r(4) by (auto simp: r(8))
    moreover have "\<forall>a. path_frame m prev a \<longrightarrow> m' a = m a" using fq h(7) next_frame by metis
    ultimately show ?thesis using loop by blast
  qed
qed

text \<open>\<open>first\<close> lies in the root where \<open>next\<close> lies in a part: the root is a first \<open>prev\<close>.\<close>

lemma root_fields: "root_first r = part_next r" "root_drive_no r = r + 0"
  by (simp_all add: layout)

lemma pparser_parse_loop:
  assumes "cstr_safe m path xs" and "length xs \<le> 107" and "2 * length (path_spec xs) < card (kheap_avail m)"
    and "root \<in> kheap_pool" and "root \<notin> kheap_avail m"
  shows "(case pparser_parse_path_part 0 path m of None \<Rightarrow> None
     | Some (first, tmp, m) \<Rightarrow>
         if first = 0 then Some (root, m)
         else let m = store32 m (root_first root) first
              in (case pparser_parse_path_part first tmp m of None \<Rightarrow> None
                  | Some (part, tmp, m) \<Rightarrow> map_option (Pair root) (path_parts_loop part tmp m)))
     = map_option (Pair root) (path_parts_loop root path m)"
proof -
  have rz: "root \<noteq> 0" using assms(4) kheap_pool_page by blast
  have ne: "kheap_avail m \<noteq> {}" using assms(3) by auto
  from get_path_part [OF assms(1,2) ne] obtain p path' m1 where
    g: "pparser_get_path_part path m = Some (if word_of xs = [] then 0 else p, path', m1)" "p \<noteq> 0" by blast
  have loop: "path_parts_loop root path m = (case pparser_parse_path_part root path m of None \<Rightarrow> None
      | Some (part, tmp, m) \<Rightarrow> path_parts_loop part tmp m)"
    using rz by (subst path_parts_loop.simps) simp
  show ?thesis
  proof (cases "word_of xs = []")
    case True
    then show ?thesis unfolding loop using g(1) by (simp add: pparser_parse_path_part_def path_parts_loop_end)
  next
    case False
    have "path_spec xs \<noteq> []" using False by (subst path_spec.simps) simp
    then have "2 \<le> card (kheap_avail m)" using assms(3) by (cases "path_spec xs") auto
    then obtain q tmp m2 where w: "pparser_parse_path_part root path m = Some (q, tmp, m2)" "q \<noteq> 0"
      using parse_path_part_word [OF assms(1,2) _ False, of root] assms(4,5) by blast
    obtain q' m3 where a: "kzalloc sizeof_path_part m1 = (q', m3)" by fastforce
    let ?m = "store32 (store32 m3 (part_part q') p) (part_next q') 0"
    have z: "pparser_parse_path_part 0 path m = Some (q', path', ?m)"
      using g a False by (simp add: pparser_parse_path_part_def)
    have r: "pparser_parse_path_part root path m = Some (q', path', store32 ?m (part_next root) q')"
      using g a False rz by (simp add: pparser_parse_path_part_def)
    with w have qz: "q' \<noteq> 0" by simp
    then have "path_parts_loop q' path' x = (case pparser_parse_path_part q' path' x of None \<Rightarrow> None
      | Some (part, tmp, m) \<Rightarrow> path_parts_loop part tmp m)" for x
      by (subst path_parts_loop.simps) simp
    then show ?thesis unfolding loop r z using qz by (simp add: root_fields Let_def split: option.splits)
  qed
qed

lemma path_free_loop_spec:
  assumes "path_nodes m a ns" and "distinct (node_pages ns)"
  shows "\<exists>m'. path_free_loop a m = Some m' \<and> kheap_avail m' = kheap_avail m \<union> set (node_pages ns) \<and>
     (\<forall>x. \<not> kheap_meta x \<longrightarrow> m' x = m x)"
  using assms
proof (induction ns arbitrary: a m)
  case Nil
  then show ?case by (simp add: path_free_loop.simps)
next
  case (Cons n ns)
  obtain q p w where n: "n = (q, p, w)" by (cases n) auto
  have h: "a = q" "q \<in> kheap_pool" "p \<in> kheap_pool" "load32 m (part_part q) = p"
    "path_nodes m (load32 m (part_next q)) ns" using Cons.prems(1) by (simp_all add: n)
  let ?m = "kfree q (kfree p m)"
  have fr: "?m x = m x" if "\<not> kheap_meta x" for x
    using kfree_frame [OF h(2) that] kfree_frame [OF h(3) that] by simp
  have "path_nodes ?m (load32 m (part_next q)) ns"
  proof (rule path_nodes_cong [OF h(5)])
    fix x r assume "r \<in> set (node_pages ns)" "x div 4096 = r div 4096"
    moreover have "set (node_pages ns) \<subseteq> kheap_pool" if "path_nodes m a' ns" for a'
      using that by (induction ns arbitrary: a' rule: node_pages.induct) auto
    ultimately show "?m x = m x" using h(5) kheap_pool_meta by (intro fr) blast
  qed
  moreover have "distinct (node_pages ns)" using Cons.prems(2) by (simp add: n)
  ultimately obtain m' where m': "path_free_loop (load32 m (part_next q)) ?m = Some m'"
    "kheap_avail m' = kheap_avail ?m \<union> set (node_pages ns)" "\<And>x. \<not> kheap_meta x \<Longrightarrow> m' x = ?m x"
    using Cons.IH by blast
  have "path_free_loop a m = Some m'"
    using m'(1) h(1,4) kheap_pool_page [OF h(2)] by (subst path_free_loop.simps) (simp add: Let_def)
  moreover have "kheap_avail m' = kheap_avail m \<union> set (node_pages (n # ns))"
    using m'(2) kfree_page [OF h(2)] kfree_page [OF h(3)] by (auto simp: n)
  moreover have "m' x = m x" if "\<not> kheap_meta x" for x using m'(3) [OF that] fr [OF that] by simp
  ultimately show ?case by blast
qed

text \<open>What a call needs: a path \<open>d:/...\<close> outside the free memory, and pages for its parts.\<close>

definition path_ready :: "env \<Rightarrow> addr \<Rightarrow> u8 \<Rightarrow> u8 list \<Rightarrow> mem \<Rightarrow> bool" where
  "path_ready e path d xs m = (cstr_safe m path ([d, 0x3A, 0x2F] @ xs) \<and> is_digit d \<and> length xs \<le> 105 \<and>
     m (lit_sep e) = 0x3A \<and> m (lit_sep e + 1) = 0x2F \<and> 2 * length (path_spec xs) + 1 < card (kheap_avail m))"

lemma valid_path:
  assumes "path_ready e path d xs m"
  shows "pparser_path_valid_format e path m" and "strlen m path = Some (of_nat (length xs + 3))"
    and "0 \<le> sint (to_digit d)"
proof -
  have h: "cstr m path ([d, 0x3A, 0x2F] @ xs)" "is_digit d" "length xs \<le> 105"
    using assms by (auto simp: path_ready_def cstr_safe_def)
  show "strlen m path = Some (of_nat (length xs + 3))" using strlen_cstr [OF h(1)] by (simp add: add.commute)
  define n where "n = length xs + 3"
  have n: "3 \<le> n" "n \<le> 108" using h(3) by (simp_all add: n_def)
  have "strnlen m path PHIX_MAX_PATH = min (of_nat n) PHIX_MAX_PATH"
    using strnlen_cstr [OF h(1)] n by (simp add: n_def add.commute)
  moreover have "(of_nat n :: u32) \<le> PHIX_MAX_PATH" using n by (simp add: PHIX_MAX_PATH_def word_le_nat_alt unat_of_nat32)
  ultimately have l: "strnlen m path PHIX_MAX_PATH = of_nat n" by (simp add: min_def)
  have "sint (of_nat n :: i32) = int n" using n by (intro sint_of_nat) simp
  then have "3 \<le> sint (strnlen m path PHIX_MAX_PATH)" using n l by simp
  moreover have "memcmp m (path + 1) (lit_sep e) 2 = 0"
  proof -
    have two: "unat (2 :: u32) = Suc (Suc 0)" by simp
    have "m (path + 1) = 0x3A" "m (path + 1 + 1) = 0x2F" using h(1) by (simp_all add: add.assoc)
    then show ?thesis using assms unfolding memcmp_def two by (simp add: path_ready_def)
  qed
  moreover have "m path = d" using h(1) by simp
  ultimately show "pparser_path_valid_format e path m" using h(2) by (simp add: pparser_path_valid_format_def)
  have d: "48 \<le> sint d" "sint d \<le> 57" using h(2) by (simp_all add: is_digit_def)
  have "char_to_int d - 48 = word_of_int (sint d - 48)" by (simp add: char_to_int_def)
  moreover have "sint (word_of_int (sint d - 48) :: i32) = sint d - 48" using d by (intro sint_of_int32) simp_all
  ultimately have "sint (char_to_int d - 48) = sint d - 48" by (simp only:)
  then show "0 \<le> sint (to_digit d)" using h(2) d by (simp add: to_digit_def)
qed

lemma pparser_parse_nodes:
  assumes "path_ready e path d xs m"
  obtains root m' ns where "pparser_parse e path cwd m = Some (root, m')" and "root \<in> kheap_avail m"
    and "load32 m' (root_drive_no root) = 0" and "path_nodes m' (load32 m' (root_first root)) ns"
    and "node_words ns = path_spec xs" and "kheap_avail m' = kheap_avail m - insert root (set (node_pages ns))"
    and "set (node_pages ns) \<subseteq> kheap_avail m - {root}" and "distinct (node_pages ns)"
    and "\<And>a. kheap_safe m a \<Longrightarrow> m' a = m a"
proof -
  have ready: "cstr_safe m path ([d, 0x3A, 0x2F] @ xs)" "length xs \<le> 105"
    "2 * length (path_spec xs) + 1 < card (kheap_avail m)" using assms by (simp_all add: path_ready_def)
  have ne: "kheap_avail m \<noteq> {}" using ready(3) by auto
  obtain root m1 where a: "kzalloc sizeof_path_root m = (root, m1)" "root \<in> kheap_avail m" "root \<in> kheap_pool" "root \<noteq> 0"
    "kheap_avail m1 = kheap_avail m - {root}" "\<And>a. a - root < sizeof_path_root \<Longrightarrow> m1 a = 0"
    "\<And>a. kheap_safe m a \<Longrightarrow> m1 a = m a"
    by (rule kzalloc_safe [of sizeof_path_root m]) (simp_all add: sizeof_path_root_def ne)
  let ?m = "store32 m1 (root + 0) 0" and ?p = "path + of_nat 3"
  have av: "kheap_avail ?m = kheap_avail m - {root}" using kheap_avail_field [OF a(3), of 0] a(5) by simp
  have fr: "?m x = m x" if "kheap_safe m x" for x
  proof -
    have "x \<noteq> root + 0 + j" if "j < 4" for j
      using kheap_field(1) [OF a(3) _ that, of 0] \<open>kheap_safe m x\<close> a(2) by (auto simp: kheap_safe_def)
    from this [of 0] this [of 1] this [of 2] this [of 3] a(7) [OF that] show ?thesis by (simp add: store32_def)
  qed
  have s0: "cstr_safe m ?p xs" using cstr_safe_drop [OF ready(1), of 3] by simp
  have s1: "cstr_safe ?m ?p xs" using av fr by (intro cstr_safe_frame [OF s0]) auto
  have off: "path_frame ?m root (?p + of_nat j)" if "j \<le> length xs" for j
  proof -
    have safe: "kheap_safe m (?p + of_nat j)" using s0 that by (simp add: cstr_safe_def)
    then have "(?p + of_nat j) div 4096 \<noteq> root div 4096" using a(2) by (simp add: kheap_safe_def)
    with part_next_page [OF a(3)] kheap_safe_mono [OF safe, of ?m] av show ?thesis by (simp add: path_frame_def)
  qed
  have rf: "load32 ?m (part_next root) = 0"
  proof -
    have "load32 ?m (part_next root) = load32 m1 (part_next root)"
      by (rule load32_store32_apart) (simp_all add: part_fields)
    also have "\<dots> = 0" using a(6) [of "root + 4"] a(6) [of "root + 5"] a(6) [of "root + 6"] a(6) [of "root + 7"]
      by (simp add: load32_def part_fields sizeof_path_root_def add.assoc)
    finally show ?thesis .
  qed
  have len: "length xs \<le> 107" using ready(2) by simp
  have card: "2 * length (path_spec xs) < card (kheap_avail ?m)"
    unfolding av using ready(3) a(2) kh.card_alloc [of m] by (simp add: card_Diff_singleton)
  have ra: "root \<notin> kheap_avail ?m" unfolding av by simp
  from path_parts_loop_spec [OF s1 len card a(3) ra rf off] obtain m' ns where
    l: "path_parts_loop root ?p ?m = Some m'" "path_nodes m' (load32 m' (part_next root)) ns"
      "node_words ns = path_spec xs" "kheap_avail m' = kheap_avail ?m - set (node_pages ns)"
      "set (node_pages ns) \<subseteq> kheap_avail ?m" "distinct (node_pages ns)" "\<And>a. path_frame ?m root a \<Longrightarrow> m' a = ?m a"
    by blast
  have small: "\<not> PHIX_MAX_PATH < of_nat (length xs + 3)"
    using ready(2) by (simp add: PHIX_MAX_PATH_def word_less_nat_alt unat_of_nat32 del: of_nat_add)
  have dr: "pparser_get_drive_by_path e path m = (to_digit d, ?p)" and pos: "\<not> sint (to_digit d) < 0"
    using valid_path [OF assms] ready(1) by (simp_all add: pparser_get_drive_by_path_def cstr_safe_def)
  have "pparser_parse e path cwd m = map_option (Pair root) (path_parts_loop root ?p ?m)"
    unfolding pparser_parse_loop [OF s1 len card a(3) ra, symmetric]
    using valid_path(2) [OF assms] small dr pos a(1,4)
    by (simp add: pparser_parse_def pparser_create_root_def root_fields(2) del: of_nat_add)
  then have "pparser_parse e path cwd m = Some (root, m')" using l(1) by simp
  moreover have "load32 m' (root + 0) = load32 ?m (root + 0)"
    by (rule load32_same, rule l(7), rule path_frame_part [OF a(3) ra])
  then have "load32 m' (root_drive_no root) = 0" by (simp add: root_fields)
  moreover have "m' x = m x" if "kheap_safe m x" for x
  proof -
    have "x div 4096 \<noteq> root div 4096" using that a(2) by (simp add: kheap_safe_def)
    with part_next_page [OF a(3)] kheap_safe_mono [OF that, of ?m] av have "path_frame ?m root x"
      by (simp add: path_frame_def)
    with l(7) fr [OF that] show ?thesis by simp
  qed
  ultimately show thesis using that [of root m' ns] a(2) l(2-6) av by (auto simp: root_fields)
qed

section \<open>Properties\<close>

text \<open>A path in memory below the heap.\<close>

definition path_example :: mem where
  "path_example = poke (\<lambda>_. 0) 0xF000 [0x31, 0x3A, 0x2F, 0x61, 0x2F, 0x62, 0, 0x3A, 0x2F]"

lemma path_example_ready: "lit_sep e = 0xF007 \<Longrightarrow> path_ready e 0xF000 0x31 [0x61, 0x2F, 0x62] path_example"
proof -
  assume e: "lit_sep e = 0xF007"
  have av: "kheap_avail path_example = kheap_pool"
    unfolding path_example_def by (subst kheap_avail_poke_low) (simp_all add: kheap_avail_zero)
  have byte: "path_example (0xF000 + of_nat i) = [0x31, 0x3A, 0x2F, 0x61, 0x2F, 0x62, 0, 0x3A, 0x2F] ! i" if "i < 9" for i
    unfolding path_example_def using that by (intro poke_in) simp_all
  have "kheap_safe path_example (0xF000 + of_nat j)" if "j \<le> 6" for j
  proof -
    have "unat (0xF000 + of_nat j :: u32) = 61440 + j" using that by (subst unat_add_less) (simp_all add: unat_of_nat32)
    with that show ?thesis by (intro kheap_safe_low) simp_all
  qed
  moreover have "cstr path_example 0xF000 [0x31, 0x3A, 0x2F, 0x61, 0x2F, 0x62]"
    using byte [of 0] byte [of 1] byte [of 2] byte [of 3] byte [of 4] byte [of 5] byte [of 6] by simp
  moreover have "path_spec [0x61, 0x2F, 0x62] = [[0x61], [0x62]]" by (simp add: path_spec.simps)
  ultimately show ?thesis
    using byte [of 7] byte [of 8] by (simp add: path_ready_def cstr_safe_def e av card_kheap_pool is_digit_def)
qed

text \<open>
  C5. A path \<open>d:/...\<close> of at most 108 characters is parsed, while there are pages for it, into
  the list of its parts up to the first empty one; the drive is \<open>0\<close> whatever the digit
  \<open>d\<close>, and no byte outside the free memory changes.
\<close>

theorem pparser_parse_parts:
  assumes "path_ready e path d xs m"
  shows "\<exists>root m' ns. pparser_parse e path cwd m = Some (root, m') \<and> load32 m' (root_drive_no root) = 0 \<and>
     path_nodes m' (load32 m' (root_first root)) ns \<and> node_words ns = path_spec xs \<and>
     (\<forall>a. kheap_safe m a \<longrightarrow> m' a = m a)"
  using pparser_parse_nodes [OF assms] by metis

theorem pparser_parse_parts_witness:
  "\<exists>root m' ns. pparser_parse env_example 0xF000 0 path_example = Some (root, m') \<and>
     load32 m' (root_drive_no root) = 0 \<and> path_nodes m' (load32 m' (root_first root)) ns \<and>
     node_words ns = [[0x61], [0x62]]"
proof -
  have "path_spec [0x61, 0x2F, 0x62] = [[0x61], [0x62]]" by (simp add: path_spec.simps)
  with pparser_parse_parts [OF path_example_ready, of env_example 0] show ?thesis
    by (simp add: env_example_def) metis
qed

text \<open>
  C31. \<open>pparser_free\<close> on a parsed path ends and gives back exactly the pages that
  \<open>pparser_parse\<close> took.
\<close>

theorem pparser_free_parse:
  assumes "path_ready e path d xs m"
  shows "\<exists>root m' m''. pparser_parse e path cwd m = Some (root, m') \<and> kheap_avail m' \<subset> kheap_avail m \<and>
     pparser_free root m' = Some m'' \<and> kheap_avail m'' = kheap_avail m"
proof -
  from pparser_parse_nodes [OF assms, of cwd] obtain root m' ns where
    p: "pparser_parse e path cwd m = Some (root, m')" "root \<in> kheap_avail m"
      "path_nodes m' (load32 m' (root_first root)) ns" "distinct (node_pages ns)"
      "kheap_avail m' = kheap_avail m - insert root (set (node_pages ns))"
      "set (node_pages ns) \<subseteq> kheap_avail m - {root}" by metis
  from path_free_loop_spec [OF p(3,4)] obtain m1 where
    f: "path_free_loop (load32 m' (root_first root)) m' = Some m1" "kheap_avail m1 = kheap_avail m' \<union> set (node_pages ns)"
    by blast
  have "root \<in> kheap_pool" using p(2) kh.avail_pool by auto
  then have "kheap_avail (kfree root m1) = insert root (kheap_avail m1)" by (rule kfree_page)
  then have "kheap_avail (kfree root m1) = kheap_avail m" using f(2) p(2,5,6) by auto
  moreover have "pparser_free root m' = Some (kfree root m1)" using f(1) by (simp add: pparser_free_def)
  moreover have "kheap_avail m' \<subset> kheap_avail m" using p(2,5) by auto
  ultimately show ?thesis using p(1) by blast
qed

theorem pparser_free_parse_witness:
  "\<exists>root m' m''. pparser_parse env_example 0xF000 0 path_example = Some (root, m') \<and>
     pparser_free root m' = Some m'' \<and> kheap_avail m'' = kheap_avail path_example"
  using pparser_free_parse [OF path_example_ready, of env_example 0] by (simp add: env_example_def) metis

end
