(* ===== verification/Disk.thy ===== *)
theory Disk
  imports Env
begin

unbundle bit_operations_syntax

text \<open>
  \<open>phix/src/disk/disk.c\<close> and \<open>streamer.c\<close>: reading sectors from the ATA drive through
  ports and a stream of bytes over it. The drive is \<open>dev\<close>; the wait for its buffer may
  last for ever (\<open>None\<close>). \<open>disk_search_and_init\<close> is in theory \<open>File\<close>, with the
  file systems it asks.
\<close>

definition disk_type_real :: u32 where [config_defs]: "disk_type_real = 0"

definition disk_get :: "env \<Rightarrow> i32 \<Rightarrow> addr" where
  "disk_get e index = (if index \<noteq> 0 then 0 else disk0 e)"

partial_function (option) disk_wait :: "device \<Rightarrow> 'a machine_scheme \<Rightarrow> 'a machine_scheme option" where
  "disk_wait d s = (let (v, s) = insb d 0x1F7 s in if v AND 0x08 = 0 then disk_wait d s else Some s)"

text \<open>The 256 words of one sector; \<open>p\<close> is the pointer before the loop.\<close>

definition disk_copy_sector :: "device \<Rightarrow> addr \<Rightarrow> 'a machine_scheme \<Rightarrow> 'a machine_scheme" where
  "disk_copy_sector d p s =
     for_up 256 (\<lambda>i s. let (w, s) = insw d 0x1F0 s
                       in s\<lparr>ram := store16 (ram s) (p + 2 * of_nat i) w\<rparr>) s"

primrec disk_sectors_loop :: "device \<Rightarrow> nat \<Rightarrow> addr \<Rightarrow> 'a machine_scheme \<Rightarrow> 'a machine_scheme option" where
  "disk_sectors_loop d 0 p s = Some s"
| "disk_sectors_loop d (Suc n) p s =
     (case disk_wait d s of None \<Rightarrow> None
      | Some s \<Rightarrow> disk_sectors_loop d n (p + 512) (disk_copy_sector d p s))"

definition disk_command :: "i32 \<Rightarrow> i32 \<Rightarrow> 'a machine_scheme \<Rightarrow> 'a machine_scheme" where
  "disk_command lba total_sectors s =
     (let s = outb 0x1F6 (ucast (signed_drop_bit 24 lba OR 0xE0)) s;
          s = outb 0x1F2 (ucast total_sectors) s;
          s = outb 0x1F3 (ucast (lba AND 0xff)) s;
          s = outb 0x1F4 (ucast (signed_drop_bit 8 lba)) s;
          s = outb 0x1F5 (ucast (signed_drop_bit 16 lba)) s
      in outb 0x1F7 0x20 s)"

definition disk_read_sector ::
    "device \<Rightarrow> i32 \<Rightarrow> i32 \<Rightarrow> addr \<Rightarrow> 'a machine_scheme \<Rightarrow> (i32 \<times> 'a machine_scheme) option" where
  "disk_read_sector d lba total_sectors buf s =
     map_option (Pair 0) (disk_sectors_loop d (nat (sint total_sectors)) buf (disk_command lba total_sectors s))"

definition disk_read_block ::
    "env \<Rightarrow> addr \<Rightarrow> u32 \<Rightarrow> i32 \<Rightarrow> addr \<Rightarrow> 'a machine_scheme \<Rightarrow> (i32 \<times> 'a machine_scheme) option" where
  "disk_read_block e disk lba total_sectors buf s =
     (if disk \<noteq> disk0 e then Some (- EIO, s) else disk_read_sector (dev e) lba total_sectors buf s)"

section \<open>Streams\<close>

definition sizeof_disk_stream :: u32 where "sizeof_disk_stream = 8"

definition diskstreamer_new :: "env \<Rightarrow> i32 \<Rightarrow> mem \<Rightarrow> addr \<times> mem" where
  "diskstreamer_new e disk_no m =
     (let disk = disk_get e disk_no
      in if disk = 0 then (0, m)
         else let (streamer, m) = kzalloc sizeof_disk_stream m;
                  m = store32 m (stream_pos streamer) 0
              in (streamer, store32 m (stream_disk streamer) disk))"

definition diskstreamer_seek :: "addr \<Rightarrow> i32 \<Rightarrow> mem \<Rightarrow> i32 \<times> mem" where
  "diskstreamer_seek stream pos m = (0, store32 m (stream_pos stream) pos)"

text \<open>The bytes to read from the sector at hand.\<close>

definition stream_chunk :: "i32 \<Rightarrow> i32 \<Rightarrow> i32" where
  "stream_chunk offset total_bytes =
     (if sint PHIX_SECTOR_SIZE \<le> sint (offset + total_bytes)
      then total_bytes - ((offset + total_bytes) - PHIX_SECTOR_SIZE) else total_bytes)"

lemma stream_chunk_less:
  assumes "stream_chunk (int_mod pos PHIX_SECTOR_SIZE) n \<noteq> n"
  shows "unat (n - stream_chunk (int_mod pos PHIX_SECTOR_SIZE) n) < unat n"
proof -
  let ?o = "int_mod pos PHIX_SECTOR_SIZE"
  have sz: "sint PHIX_SECTOR_SIZE = 512" by (simp add: PHIX_SECTOR_SIZE_def)
  have le: "512 \<le> sint (?o + n)" and c: "stream_chunk ?o n = n - ((?o + n) - PHIX_SECTOR_SIZE)"
    using assms by (auto simp: stream_chunk_def sz split: if_splits)
  have rest: "n - stream_chunk ?o n = ?o + n - PHIX_SECTOR_SIZE" by (simp add: c)
  have "\<bar>sint pos smod 512\<bar> < 512"
    by (simp add: signed_modulo_int_def signed_divide_int_def sgn_if abs_if minus_div_mult_eq_mod) presburger
  then have o: "\<bar>sint ?o\<bar> < 512" unfolding int_mod_def sz by (subst sint_of_int32) linarith+
  define x where "x = nat (sint (?o + n) - 512)"
  have x: "x < 2147483136" using le sint32_bounds [of "?o + n"] by (simp add: x_def)
  have "?o + n - PHIX_SECTOR_SIZE = word_of_int (sint (?o + n) - 512)"
    by (simp add: PHIX_SECTOR_SIZE_def)
  also have "\<dots> = of_nat x" using le by (simp add: x_def)
  finally have rx: "?o + n - PHIX_SECTOR_SIZE = of_nat x" .
  then have "n = of_nat x + 512 - ?o" by (simp add: PHIX_SECTOR_SIZE_def algebra_simps)
  also have "\<dots> = word_of_int (int x + 512 - sint ?o)" by simp
  also have "\<dots> = of_nat (x + nat (512 - sint ?o))" using o by (simp add: of_nat_nat [symmetric])
  finally have n: "n = of_nat (x + nat (512 - sint ?o))" .
  have k: "0 < nat (512 - sint ?o)" "nat (512 - sint ?o) < 1024" using o by arith+
  with x have "unat (of_nat (x + nat (512 - sint ?o)) :: u32) = x + nat (512 - sint ?o)"
    by (intro unat_of_nat32) simp
  then have "unat n = x + nat (512 - sint ?o)" by (simp only: n)
  moreover note k(1)
  moreover have "unat (of_nat x :: u32) = x" using x by (intro unat_of_nat32) simp
  ultimately show ?thesis unfolding rest rx by simp
qed

text \<open>\<open>n\<close> is the depth of the recursion; every call has a \<open>buf\<close> of its own.\<close>

function diskstreamer_read ::
    "env \<Rightarrow> nat \<Rightarrow> addr \<Rightarrow> addr \<Rightarrow> i32 \<Rightarrow> 'a machine_scheme \<Rightarrow> (i32 \<times> 'a machine_scheme) option" where
  "diskstreamer_read e n stream out total_bytes s =
     (let pos = load32 (ram s) (stream_pos stream);
          sector = int_div pos PHIX_SECTOR_SIZE;
          offset = int_mod pos PHIX_SECTOR_SIZE;
          total_to_read = stream_chunk offset total_bytes;
          buf = sector_local e n
      in case disk_read_block e (load32 (ram s) (stream_disk stream)) sector 1 buf s of None \<Rightarrow> None
         | Some (ret, s) \<Rightarrow>
             if sint ret < 0 then Some (ret, s)
             else let s = s\<lparr>ram := for_up (nat (sint total_to_read))
                        (\<lambda>i m. m(out + of_nat i := m (buf + (offset + of_nat i)))) (ram s)\<rparr>;
                      s = s\<lparr>ram := store32 (ram s) (stream_pos stream)
                                     (load32 (ram s) (stream_pos stream) + total_to_read)\<rparr>
                  in if total_to_read \<noteq> total_bytes
                     then diskstreamer_read e (Suc n) stream (out + of_int (max 0 (sint total_to_read)))
                            (total_bytes - total_to_read) s
                     else Some (ret, s))"
  by pat_completeness auto
termination
  by (relation "measure (\<lambda>(e, n, stream, out, total_bytes, s). unat total_bytes)")
    (auto intro: stream_chunk_less)

declare diskstreamer_read.simps [simp del]

definition diskstreamer_free :: "addr \<Rightarrow> mem \<Rightarrow> mem" where
  "diskstreamer_free stream m = kfree stream m"

section \<open>An ATA drive\<close>

text \<open>
  The documented behaviour of the drive that the driver relies on. What the drive has been
  told is read off the history of port accesses, newest first: \<open>Some (lba, n, k, drq)\<close> says
  that the last command was READ SECTORS (\<open>0x20\<close>) for the \<open>n\<close> sectors from \<open>lba\<close> on (a count of
  \<open>0\<close> stands for 256, the drive register selects the first drive and LBA), that \<open>k\<close> words
  have been read from the data port since, and that the status port has shown the bit DRQ
  (\<open>0x08\<close>) for the sector at hand: a sector is 256 words, and after its last word the bit must
  be seen again. A word read before that, like a byte read from the data port, leaves the
  protocol, and nothing is known then (\<open>None\<close>) until the next command.
\<close>

definition lba_of :: "u8 \<Rightarrow> u8 \<Rightarrow> u8 \<Rightarrow> u8 \<Rightarrow> u32" where
  "lba_of b0 b1 b2 b3 = ucast b0 OR push_bit 8 (ucast b1) OR push_bit 16 (ucast b2)
     OR push_bit 24 (ucast (b3 AND 0x0F))"

type_synonym ata_status = "(u32 \<times> nat \<times> nat \<times> bool) option"

fun ata_poll :: "u8 \<Rightarrow> ata_status \<Rightarrow> ata_status" where
  "ata_poll v (Some (lba, n, k, drq)) = Some (lba, n, k, drq \<or> v AND 0x08 \<noteq> 0)"
| "ata_poll v None = None"

fun ata_word :: "ata_status \<Rightarrow> ata_status" where
  "ata_word (Some (lba, n, k, True)) = Some (lba, n, Suc k, Suc k mod 256 \<noteq> 0)"
| "ata_word _ = None"

fun ata_state :: "io_event list \<Rightarrow> ata_status" where
  "ata_state (InB p v # h) =
     (if p = 0x1F7 then ata_poll v (ata_state h) else if p = 0x1F0 then None else ata_state h)"
| "ata_state (InW p w # h) = (if p = 0x1F0 then ata_word (ata_state h) else ata_state h)"
| "ata_state (OutB p7 c # h) =
     (case h of OutB p5 b2 # OutB p4 b1 # OutB p3 b0 # OutB p2 n # OutB p6 b3 # _ \<Rightarrow>
        if p7 = 0x1F7 \<and> c = 0x20 \<and> p5 = 0x1F5 \<and> p4 = 0x1F4 \<and> p3 = 0x1F3 \<and> p2 = 0x1F2 \<and> p6 = 0x1F6
           \<and> b3 AND 0xF0 = 0xE0
        then Some (lba_of b0 b1 b2 b3, if n = 0 then 256 else unat n, 0, False) else None
      | _ \<Rightarrow> None)"
| "ata_state _ = None"

fun polls :: "device \<Rightarrow> nat \<Rightarrow> io_event list \<Rightarrow> io_event list" where
  "polls d 0 h = h"
| "polls d (Suc n) h = polls d n (InB 0x1F7 (ucast (d h 0x1F7)) # h)"

definition data_word :: "(nat \<Rightarrow> u8) \<Rightarrow> nat \<Rightarrow> u16" where
  "data_word img i = ucast (img i) OR push_bit 8 (ucast (img (i + 1)))"

text \<open>
  Two promises. Once DRQ has been seen, the data port gives the words of the sector at hand.
  While sectors of the command are left, DRQ shows after finitely many reads of the status.
  Nothing is promised of the data port before DRQ has been seen, of the time the drive takes,
  or of the status when no command is pending. The driver looks at no other bit of the
  status: a drive that shows DRQ while it is busy, or one that fails, is excluded.
\<close>

definition ata_drive :: "device \<Rightarrow> (nat \<Rightarrow> u8) \<Rightarrow> bool" where
  "ata_drive d img =
     ((\<forall>h lba n k. ata_state h = Some (lba, n, k, True) \<longrightarrow> k < 256 * n \<longrightarrow>
         d h 0x1F0 = data_word img (512 * unat lba + 2 * k)) \<and>
      (\<forall>h lba n k. ata_state h = Some (lba, n, k, False) \<longrightarrow> k < 256 * n \<longrightarrow>
         (\<exists>i. (ucast (d (polls d i h) 0x1F7) :: u8) AND 0x08 \<noteq> 0)))"

text \<open>
  Such a drive. It is busy (\<open>0x80\<close>) at the first look at its status for a sector and ready
  (\<open>0x58\<close>) from the second on, and its data port gives \<open>0\<close> until that has been seen.
\<close>

fun ready_drive :: "(nat \<Rightarrow> u8) \<Rightarrow> device" where
  "ready_drive img h port =
     (case ata_state h of None \<Rightarrow> 0
      | Some (lba, n, k, drq) \<Rightarrow>
          if port = 0x1F0 then if drq then data_word img (512 * unat lba + 2 * k) else 0
          else if 256 * n \<le> k then 0x50
          else if drq \<or> (case h of InB p v # _ \<Rightarrow> p = 0x1F7 | _ \<Rightarrow> False) then 0x58 else 0x80)"

declare ready_drive.simps [simp del]

lemma ready_drive: "ata_drive (ready_drive img) img"
proof -
  have "(ucast (ready_drive img (polls (ready_drive img) 1 h) 0x1F7) :: u8) AND 0x08 \<noteq> 0"
    if "ata_state h = Some (lba, n, k, False)" "k < 256 * n" for h lba n k
    using that by (simp add: ready_drive.simps not_le split: list.splits io_event.splits)
  moreover have "ready_drive img h 0x1F0 = data_word img (512 * unat lba + 2 * k)"
    if "ata_state h = Some (lba, n, k, True)" for h lba n k
    using that by (simp add: ready_drive.simps)
  ultimately show ?thesis unfolding ata_drive_def by blast
qed

section \<open>Reading a sector\<close>

text \<open>The wait ends once the drive shows DRQ, and the history then says that it was seen.\<close>

lemma disk_wait_polls:
  assumes "(ucast (d (polls d i (io s)) 0x1F7) :: u8) AND 0x08 \<noteq> 0" and "ata_state (io s) = Some (lba, n, k, drq)"
  shows "\<exists>h. disk_wait d s = Some (s\<lparr>io := h\<rparr>) \<and> ata_state h = Some (lba, n, k, True)"
  using assms
proof (induction i arbitrary: s drq)
  case 0
  then show ?case by (subst disk_wait.simps) (auto simp: insb_def Let_def)
next
  case (Suc i)
  let ?v = "ucast (d (io s) 0x1F7) :: u8" and ?s = "s\<lparr>io := InB 0x1F7 (ucast (d (io s) 0x1F7)) # io s\<rparr>"
  show ?case
  proof (cases "?v AND 0x08 = 0")
    case True
    then have "disk_wait d s = disk_wait d ?s" by (subst disk_wait.simps) (simp add: insb_def Let_def)
    with Suc.IH [of ?s drq] Suc.prems True show ?thesis by auto
  next
    case False
    with Suc.prems(2) show ?thesis by (subst disk_wait.simps) (auto simp: insb_def Let_def)
  qed
qed

lemma disk_wait_ready:
  assumes "ata_drive d img" and "ata_state (io s) = Some (lba, n, k, False)" and "k < 256 * n"
  shows "\<exists>h. disk_wait d s = Some (s\<lparr>io := h\<rparr>) \<and> ata_state h = Some (lba, n, k, True)"
proof -
  obtain i where "(ucast (d (polls d i (io s)) 0x1F7) :: u8) AND 0x08 \<noteq> 0"
    using assms unfolding ata_drive_def by blast
  from disk_wait_polls [of d i s, OF this assms(2)] show ?thesis .
qed

definition img_bytes :: "(nat \<Rightarrow> u8) \<Rightarrow> nat \<Rightarrow> nat \<Rightarrow> u8 list" where
  "img_bytes img i n = map img [i..<i + n]"

lemma length_img_bytes [simp]: "length (img_bytes img i n) = n"
  by (simp add: img_bytes_def)

lemma nth_img_bytes [simp]: "j < n \<Longrightarrow> img_bytes img i n ! j = img (i + j)"
  by (simp add: img_bytes_def)

lemma store16_data: "store16 m a (data_word img i) = m(a := img i, a + 1 := img (i + 1))"
proof -
  have "ucast (data_word img i) = img i" "ucast (drop_bit 8 (data_word img i)) = img (i + 1)"
    unfolding data_word_def by (rule bit_word_eqI; auto simp: bit_simps dest: bit_imp_le_length)+
  then show ?thesis by (simp add: store16_def)
qed

lemma disk_copy_sector_img:
  assumes "ata_drive d img" and "ata_state (io s) = Some (lba, n, 256 * j, True)" and "j < n"
  shows "\<exists>h. disk_copy_sector d p s = s\<lparr>ram := poke (ram s) p (img_bytes img (512 * (unat lba + j)) 512), io := h\<rparr> \<and>
     ata_state h = Some (lba, n, 256 * Suc j, False)"
proof -
  let ?b = "512 * (unat lba + j)"
  let ?P = "\<lambda>i t. \<exists>h. t = s\<lparr>ram := poke (ram s) p (img_bytes img ?b (2 * i)), io := h\<rparr> \<and>
     ata_state h = Some (lba, n, 256 * j + i, i < 256)"
  have "?P 256 (disk_copy_sector d p s)" unfolding disk_copy_sector_def
  proof (rule for_up_inv [of ?P])
    show "?P 0 s" using assms(2) by (intro exI [of _ "io s"]) (simp add: img_bytes_def)
  next
    fix i t assume i: "i < (256 :: nat)" and P: "?P i t"
    then obtain h where t: "t = s\<lparr>ram := poke (ram s) p (img_bytes img ?b (2 * i)), io := h\<rparr>"
      and h: "ata_state h = Some (lba, n, 256 * j + i, True)" using i by auto
    let ?o = "?b + 2 * i"
    have "256 * j + i < 256 * n" using assms(3) i by linarith
    then have w: "d h 0x1F0 = data_word img ?o" using assms(1) h by (simp add: ata_drive_def algebra_simps)
    have "poke (ram s) p (img_bytes img ?b (2 * Suc i))
        = (poke (ram s) p (img_bytes img ?b (2 * i)))(p + of_nat (2 * i) := img ?o,
             p + of_nat (2 * i) + 1 := img (?o + 1))"
    proof -
      have b: "img_bytes img ?b (2 * Suc i) = (img_bytes img ?b (2 * i) @ [img ?o]) @ [img (?o + 1)]"
        by (simp add: img_bytes_def)
      show ?thesis unfolding b using i
        by (subst poke_snoc [symmetric], simp, subst poke_snoc [symmetric]) (simp_all add: ac_simps)
    qed
    moreover have "(Suc (256 * j + i) mod 256 \<noteq> 0) = (Suc i < 256)" using i by (auto simp: mod_Suc)
    ultimately show "?P (Suc i) (let (w, s) = insw d 0x1F0 t in s\<lparr>ram := store16 (ram s) (p + 2 * of_nat i) w\<rparr>)"
      using h w by (intro exI [of _ "InW 0x1F0 (d h 0x1F0) # h"]) (simp add: t insw_def Let_def store16_data)
  qed
  then show ?thesis by auto
qed

lemma disk_sectors_loop_img:
  assumes "ata_drive d img" and "ata_state (io s) = Some (lba, c, 256 * j, False)" and "j + n \<le> c" and "n \<le> 256"
  shows "\<exists>h. disk_sectors_loop d n p s = Some (s\<lparr>ram := poke (ram s) p (img_bytes img (512 * (unat lba + j)) (512 * n)), io := h\<rparr>)"
  using assms(2-)
proof (induction n arbitrary: j p s)
  case 0
  then show ?case by (intro exI [of _ "io s"]) (simp add: img_bytes_def)
next
  case (Suc n)
  have "j < c" "256 * j < 256 * c" using Suc.prems(2) by simp_all
  with disk_wait_ready [OF assms(1) Suc.prems(1)] obtain h where
    w: "disk_wait d s = Some (s\<lparr>io := h\<rparr>)" "ata_state (io (s\<lparr>io := h\<rparr>)) = Some (lba, c, 256 * j, True)" by auto
  let ?b = "512 * (unat lba + j)" and ?s = "s\<lparr>io := h\<rparr>"
  from disk_copy_sector_img [OF assms(1) w(2) \<open>j < c\<close>, of p] obtain h' where
    c: "disk_copy_sector d p ?s = s\<lparr>ram := poke (ram s) p (img_bytes img ?b 512), io := h'\<rparr>"
      "ata_state h' = Some (lba, c, 256 * Suc j, False)" by auto
  let ?t = "s\<lparr>ram := poke (ram s) p (img_bytes img ?b 512), io := h'\<rparr>"
  have "Suc j + n \<le> c" using Suc.prems(2) by simp
  with Suc.IH [of ?t "Suc j" "p + 512"] c(2) Suc.prems(3) obtain h'' where
    l: "disk_sectors_loop d n (p + 512) ?t = Some (?t\<lparr>ram := poke (poke (ram s) p (img_bytes img ?b 512)) (p + 512)
      (img_bytes img (512 * (unat lba + Suc j)) (512 * n)), io := h''\<rparr>)" by auto
  have "img_bytes img ?b 512 @ img_bytes img (512 * (unat lba + Suc j)) (512 * n) = img_bytes img ?b (512 * Suc n)"
    by (auto intro!: nth_equalityI simp: nth_append algebra_simps)
  moreover have "poke (poke (ram s) p (img_bytes img ?b 512)) (p + of_nat (length (img_bytes img ?b 512)))
      (img_bytes img (512 * (unat lba + Suc j)) (512 * n))
    = poke (ram s) p (img_bytes img ?b 512 @ img_bytes img (512 * (unat lba + Suc j)) (512 * n))"
    using Suc.prems(3) by (intro poke_append) simp
  ultimately show ?case using w(1) c(1) l by auto
qed

lemma not_bit_above:
  assumes "unat (w :: u32) < 2 ^ k" and "k \<le> n"
  shows "\<not> bit w n"
proof -
  have "(2 :: nat) ^ k \<le> 2 ^ n" using assms(2) by (intro power_increasing) simp_all
  with assms(1) have "unat w < 2 ^ n" by (rule less_le_trans)
  then have "\<not> bit (unat w) n" by (simp add: bit_iff_odd)
  then show ?thesis by (auto simp: bit_simps dest: bit_imp_le_length)
qed

lemma lba_of_command:
  assumes "unat lba < 2 ^ 28"
  shows "lba_of (ucast (lba AND 0xff)) (ucast (signed_drop_bit 8 lba)) (ucast (signed_drop_bit 16 lba))
     (ucast (signed_drop_bit 24 lba OR 0xE0)) = (lba :: u32)"
proof (rule bit_word_eqI)
  have m: "(0xff :: u32) = mask 8" "(0x0F :: u8) = mask 4" by (simp_all add: mask_eq_exp_minus_1)
  have e: "(0xE0 :: u32) = push_bit 5 (mask 3)" by (simp add: mask_eq_exp_minus_1 push_bit_eq_mult)
  note z = not_bit_above [OF assms]
  fix n :: nat assume n: "n < LENGTH(32)"
  then show "bit (lba_of (ucast (lba AND 0xff)) (ucast (signed_drop_bit 8 lba)) (ucast (signed_drop_bit 16 lba))
     (ucast (signed_drop_bit 24 lba OR 0xE0))) n = bit lba n"
    unfolding lba_of_def m e using z
    by (cases "n < 8"; cases "n < 16"; cases "n < 24"; cases "n < 28") (auto simp: bit_simps)
qed

lemma lba_drive_bits:
  assumes "unat lba < 2 ^ 28"
  shows "ucast (signed_drop_bit 24 (lba :: u32) OR 0xE0) AND (0xF0 :: u8) = 0xE0"
proof (rule bit_word_eqI)
  have e: "(0xE0 :: 'a :: len word) = push_bit 5 (mask 3)" "(0xF0 :: u8) = push_bit 4 (mask 4)"
    by (simp_all add: mask_eq_exp_minus_1 push_bit_eq_mult)
  note z = not_bit_above [OF assms]
  fix n :: nat assume n: "n < LENGTH(8)"
  then show "bit (ucast (signed_drop_bit 24 lba OR 0xE0) AND (0xF0 :: u8)) n = bit (0xE0 :: u8) n"
    unfolding e using z by (cases "n < 4"; cases "n = 4") (auto simp: bit_simps)
qed

lemma disk_read_sectors_img:
  assumes "ata_drive d img" and "unat lba < 2 ^ 28" and "0 < n" and "n < 256"
  shows "\<exists>h. disk_read_sector d lba (of_nat n) buf s =
     Some (0, s\<lparr>ram := poke (ram s) buf (img_bytes img (512 * unat lba) (512 * n)), io := h\<rparr>)"
proof -
  let ?c = "disk_command lba (of_nat n) s"
  have n: "ucast (of_nat n :: u32) = (of_nat n :: u8)" by (rule bit_word_eqI) (simp add: bit_simps)
  have u: "unat (of_nat n :: u8) = n" using assms(4) by (simp add: unat_of_nat)
  then have "(of_nat n :: u8) \<noteq> 0" using assms(3) by (metis unat_0 less_numeral_extra(3))
  with n u have c: "?c = s\<lparr>io := io ?c\<rparr>" "ata_state (io ?c) = Some (lba, n, 256 * 0, False)"
    using lba_of_command [OF assms(2)] lba_drive_bits [OF assms(2)] by (simp_all add: disk_command_def outb_def)
  from disk_sectors_loop_img [OF assms(1) c(2), of n buf] assms(4) obtain h where
    "disk_sectors_loop d n buf ?c = Some (?c\<lparr>ram := poke (ram ?c) buf (img_bytes img (512 * unat lba) (512 * n)), io := h\<rparr>)"
    by auto
  moreover have "?c\<lparr>ram := m, io := h\<rparr> = s\<lparr>ram := m, io := h\<rparr>" for m by (subst c(1)) simp
  moreover have "ram ?c = ram s" by (subst c(1)) simp
  moreover have "nat (sint (of_nat n :: i32)) = n" using assms(4) by (simp add: sint_of_nat)
  ultimately show ?thesis by (auto simp: disk_read_sector_def)
qed

lemma disk_read_sector_img:
  assumes "ata_drive d img" and "unat lba < 2 ^ 28"
  shows "\<exists>h. disk_read_sector d lba 1 buf s =
     Some (0, s\<lparr>ram := poke (ram s) buf (img_bytes img (512 * unat lba) 512), io := h\<rparr>)"
  using disk_read_sectors_img [OF assms, of 1 buf s] by simp

section \<open>A stream of bytes\<close>

text \<open>
  What the file system relies on: \<open>at s p\<close> says that the stream is at byte \<open>p\<close> in state
  \<open>s\<close>; reading \<open>n\<close> bytes puts the content of the disk into the buffer, moves on by \<open>n\<close>
  and changes nothing but the buffer and the bytes that the stream itself uses (\<open>own\<close>).
\<close>

locale byte_stream =
  fixes at :: "'s \<Rightarrow> nat \<Rightarrow> bool"
    and seek :: "nat \<Rightarrow> 's \<Rightarrow> 's"
    and read :: "addr \<Rightarrow> nat \<Rightarrow> 's \<Rightarrow> 's option"
    and content :: "nat \<Rightarrow> u8"
    and memory :: "'s \<Rightarrow> mem"
    and own :: "addr \<Rightarrow> bool"
  assumes seek_at: "at s p \<Longrightarrow> q < 2147483648 \<Longrightarrow> at (seek q s) q"
    and seek_frame: "at s p \<Longrightarrow> \<not> own a \<Longrightarrow> memory (seek q s) a = memory s a"
    and read_at: "at s p \<Longrightarrow> p + n < 2147483648 \<Longrightarrow> (\<And>i. i < n \<Longrightarrow> \<not> own (out + of_nat i)) \<Longrightarrow>
      \<exists>s'. read out n s = Some s' \<and> at s' (p + n) \<and>
        (\<forall>a. \<not> own a \<longrightarrow> memory s' a = poke (memory s) out (img_bytes content p n) a)"
begin

text \<open>Reading at a position gives the bytes of the disk from there on.\<close>

lemma seek_read:
  assumes "at s p" and "q + n < 2147483648" and "\<And>i. i < n \<Longrightarrow> \<not> own (out + of_nat i)"
  shows "\<exists>s'. read out n (seek q s) = Some s' \<and> at s' (q + n) \<and>
     (\<forall>i < n. memory s' (out + of_nat i) = content (q + i)) \<and>
     (\<forall>a. \<not> own a \<longrightarrow> n \<le> unat (a - out) \<longrightarrow> memory s' a = memory s a)"
proof -
  have at: "at (seek q s) q" using assms(1,2) by (intro seek_at) simp_all
  from read_at [OF at assms(2,3)] obtain s' where
    r: "read out n (seek q s) = Some s'" "at s' (q + n)"
      "\<And>a. \<not> own a \<Longrightarrow> memory s' a = poke (memory (seek q s)) out (img_bytes content q n) a" by blast
  have "memory s' (out + of_nat i) = content (q + i)" if "i < n" for i
    using r(3) [OF assms(3) [OF that]] that assms(2) by (simp add: poke_in)
  moreover have "memory s' a = memory s a" if "\<not> own a" "n \<le> unat (a - out)" for a
    using r(3) [OF that(1)] seek_frame [OF assms(1) that(1)] that(2) by (simp add: poke_out)
  ultimately show ?thesis using r(1,2) by blast
qed

text \<open>Two reads in a row are one read of both.\<close>

lemma read_append:
  assumes "at s p" and "p + (n + k) < 2147483648" and "\<And>i. i < n + k \<Longrightarrow> \<not> own (out + of_nat i)"
    and "read out n s = Some s1" and "read (out + of_nat n) k s1 = Some s2"
  shows "at s2 (p + (n + k))" and "\<not> own a \<Longrightarrow> memory s2 a = poke (memory s) out (img_bytes content p (n + k)) a"
proof -
  have "p + n < 2147483648" using assms(2) by simp
  from read_at [OF assms(1) this, of out] assms(3,4) have
    1: "at s1 (p + n)" "\<And>a. \<not> own a \<Longrightarrow> memory s1 a = poke (memory s) out (img_bytes content p n) a" by auto
  have o: "\<not> own (out + of_nat n + of_nat i)" if "i < k" for i
    using assms(3) [of "n + i"] that by (simp add: add.assoc)
  have b: "p + n + k < 2147483648" using assms(2) by simp
  from read_at [OF 1(1) b o] assms(5) have
    2: "at s2 (p + n + k)" "\<And>a. \<not> own a \<Longrightarrow>
      memory s2 a = poke (memory s1) (out + of_nat n) (img_bytes content (p + n) k) a" by auto
  show "at s2 (p + (n + k))" using 2(1) by (simp add: add.assoc)
  assume a: "\<not> own a"
  have "img_bytes content p (n + k) = img_bytes content p n @ img_bytes content (p + n) k"
    using upt_add_eq_append [of p "p + n" k] by (simp add: img_bytes_def add.assoc)
  then have "poke (memory s) out (img_bytes content p (n + k))
      = poke (poke (memory s) out (img_bytes content p n)) (out + of_nat n) (img_bytes content (p + n) k)"
    using assms(2) poke_append [of "img_bytes content p n" "img_bytes content (p + n) k"] by simp
  then show "memory s2 a = poke (memory s) out (img_bytes content p (n + k)) a"
    using 2(2) [OF a] 1(2) [OF a] by (simp add: poke_def)
qed

end

section \<open>The disk stream is such a stream\<close>

definition sector_buffer :: "env \<Rightarrow> addr \<Rightarrow> bool" where
  "sector_buffer e a = (\<exists>k. unat (a - sector_local e k) < 512)"

definition stream_own :: "env \<Rightarrow> addr \<Rightarrow> addr \<Rightarrow> bool" where
  "stream_own e st a = (sector_buffer e a \<or> unat (a - st) < 8)"

text \<open>\<open>stream_at\<close>: the drive has the content \<open>img\<close> and the stream at \<open>st\<close> is at byte \<open>p\<close> of it.\<close>

definition stream_at :: "env \<Rightarrow> (nat \<Rightarrow> u8) \<Rightarrow> addr \<Rightarrow> 'a machine_scheme \<Rightarrow> nat \<Rightarrow> bool" where
  "stream_at e img st s p = (ata_drive (dev e) img \<and> (\<forall>a. sector_buffer e a \<longrightarrow> 8 \<le> unat (a - st)) \<and>
     load32 (ram s) (stream_disk st) = disk0 e \<and> load32 (ram s) (stream_pos st) = of_nat p \<and> p < 2147483648)"

lemma copy_poke:
  fixes out src :: addr
  assumes "\<And>i j. i < n \<Longrightarrow> j < n \<Longrightarrow> src + of_nat i \<noteq> out + of_nat j" and "n < 2 ^ 32"
    and "\<And>i. i < n \<Longrightarrow> m (src + of_nat i) = bs ! i" and "length bs = n"
  shows "for_up n (\<lambda>i m. m(out + of_nat i := m (src + of_nat i))) m = poke m out bs"
proof -
  let ?P = "\<lambda>i t. t = poke m out (take i bs)"
  have "?P n (for_up n (\<lambda>i m. m(out + of_nat i := m (src + of_nat i))) m)"
  proof (rule for_up_inv [of ?P])
    fix i t assume i: "i < n" and t: "?P i t"
    have "t (src + of_nat i) = bs ! i"
    proof -
      have "i \<le> unat (src + of_nat i - out)"
      proof (rule ccontr)
        assume "\<not> i \<le> unat (src + of_nat i - out)"
        then have "src + of_nat i \<noteq> out + of_nat (unat (src + of_nat i - out))"
          using i by (intro assms(1)) simp_all
        then show False by simp
      qed
      then show ?thesis unfolding t using assms(3) [OF i] by (subst poke_out) auto
    qed
    then show "?P (Suc i) (t(out + of_nat i := t (src + of_nat i)))"
      using poke_snoc [of "take i bs" m out "bs ! i"] i assms(2,4) t by (simp add: take_Suc_conv_app_nth)
  qed simp
  then show ?thesis using assms(4) by simp
qed

lemma chunk_word:
  assumes "p + n < 2147483648"
  shows "stream_chunk (of_nat (p mod 512)) (of_nat n) = of_nat (min n (512 - p mod 512))"
proof -
  have "int_mod 0 0 = (0 :: i32)" by (simp add: int_mod_def)
  have m: "p mod 512 < 512" by simp
  have "p mod 512 + n < 2147483648" using assms mod_less_eq_dividend [of p 512] by linarith
  then have s: "sint (of_nat (p mod 512) + of_nat n :: i32) = int (p mod 512 + n)"
    using sint_of_nat [of "p mod 512 + n"] by simp
  have sz: "sint PHIX_SECTOR_SIZE = 512" "PHIX_SECTOR_SIZE = of_nat 512" by (simp_all add: PHIX_SECTOR_SIZE_def)
  show ?thesis
  proof (cases "512 \<le> p mod 512 + n")
    case True
    then have "min n (512 - p mod 512) = 512 - p mod 512" by simp
    moreover have "of_nat n - (of_nat (p mod 512) + of_nat n - PHIX_SECTOR_SIZE) = (of_nat (512 - p mod 512) :: i32)"
      using m by (simp add: sz(2) of_nat_diff)
    ultimately show ?thesis using True s by (simp add: stream_chunk_def sz(1))
  next
    case False
    then have "min n (512 - p mod 512) = n" by simp
    with False s show ?thesis by (simp add: stream_chunk_def sz(1))
  qed
qed

lemma pos_words:
  assumes "p < 2147483648"
  shows "int_div (of_nat p) PHIX_SECTOR_SIZE = of_nat (p div 512)"
    and "int_mod (of_nat p) PHIX_SECTOR_SIZE = of_nat (p mod 512)"
proof -
  have s: "sint (of_nat p :: i32) = int p" "sint PHIX_SECTOR_SIZE = int 512"
    using assms by (simp_all add: sint_of_nat PHIX_SECTOR_SIZE_def)
  show "int_div (of_nat p) PHIX_SECTOR_SIZE = of_nat (p div 512)"
    unfolding int_div_def s sdiv_of_nat by simp
  have "int p smod int 512 = int (p mod 512)" by (cases "p = 0") (simp_all add: signed_modulo_int_def signed_divide_int_def sgn_if minus_div_mult_eq_mod zmod_int)
  then show "int_mod (of_nat p) PHIX_SECTOR_SIZE = of_nat (p mod 512)"
    unfolding int_mod_def s by simp
qed

text \<open>One call up to its recursion: \<open>k\<close> bytes come from the sector at hand.\<close>

lemma diskstreamer_step:
  assumes at: "stream_at e img st s p" and pn: "p + n < 2147483648"
    and out: "\<And>i. i < n \<Longrightarrow> \<not> stream_own e st (out + of_nat i)" and k: "k = min n (512 - p mod 512)"
  shows "\<exists>s'. diskstreamer_read e d st out (of_nat n) s =
       (if k \<noteq> n then diskstreamer_read e (Suc d) st (out + of_nat k) (of_nat (n - k)) s' else Some (0, s')) \<and>
     stream_at e img st s' (p + k) \<and>
     (\<forall>a. \<not> stream_own e st a \<longrightarrow> ram s' a = poke (ram s) out (img_bytes img p k) a)"
proof -
  let ?buf = "sector_local e d" and ?o = "p mod 512"
  let ?sec = "img_bytes img (512 * (p div 512)) 512"
  have h: "ata_drive (dev e) img" "\<And>a. sector_buffer e a \<Longrightarrow> 8 \<le> unat (a - st)"
    "load32 (ram s) (stream_disk st) = disk0 e" "load32 (ram s) (stream_pos st) = of_nat p" "p < 2147483648"
    using at by (auto simp: stream_at_def)
  have kn: "k \<le> n" "k \<le> 512" "k \<le> 512 - ?o" using k by auto
  have u: "unat (of_nat (p div 512) :: u32) = p div 512" using h(5) by (intro unat_of_nat32) simp
  have "unat (of_nat (p div 512) :: u32) < 2 ^ 28" using h(5) unfolding u by simp
  from disk_read_sector_img [OF h(1) this, of ?buf s] obtain hist where
    rd: "disk_read_sector (dev e) (of_nat (p div 512)) 1 ?buf s = Some (0, s\<lparr>ram := poke (ram s) ?buf ?sec, io := hist\<rparr>)"
    unfolding u by blast
  let ?m1 = "poke (ram s) ?buf ?sec"
  have buf: "sector_buffer e (?buf + of_nat i)" if "i < 512" for i
    using that unfolding sector_buffer_def by (intro exI [of _ d]) (simp add: unat_of_nat32)
  have bnd: "k < 2 ^ 32" "nat (sint (of_nat k :: i32)) = k" "of_int (max 0 (sint (of_nat k :: i32))) = (of_nat k :: u32)"
    using kn(2) by (simp_all add: sint_of_nat)
  have copy: "for_up k (\<lambda>i m. m(out + of_nat i := m (?buf + (of_nat ?o + of_nat i)))) ?m1 = poke ?m1 out (img_bytes img p k)"
  proof -
    have e: "?buf + (of_nat ?o + of_nat i) = (?buf + of_nat ?o) + of_nat i" for i by (simp add: add.assoc)
    show ?thesis unfolding e
    proof (rule copy_poke)
      fix i j assume ij: "i < k" "j < k"
      have "sector_buffer e (?buf + of_nat (?o + i))" using ij kn(3) by (intro buf) linarith
      moreover have "\<not> sector_buffer e (out + of_nat j)" using out [of j] ij(2) kn(1) by (simp add: stream_own_def)
      ultimately show "?buf + of_nat ?o + of_nat i \<noteq> out + of_nat j" by (auto simp: add.assoc)
    next
      fix i assume i: "i < k"
      then have b: "?o + i < 512" using kn(3) by linarith
      have "?m1 (?buf + of_nat (?o + i)) = ?sec ! (?o + i)" using b by (intro poke_in) simp_all
      also have "\<dots> = img (512 * (p div 512) + (?o + i))" using b by simp
      also have "512 * (p div 512) + (?o + i) = p + i" by simp
      finally show "?m1 (?buf + of_nat ?o + of_nat i) = img_bytes img p k ! i" using i by (simp add: add.assoc)
    qed (use bnd(1) in simp_all)
  qed
  let ?m2 = "poke ?m1 out (img_bytes img p k)"
  let ?m3 = "store32 ?m2 (stream_pos st) (of_nat (p + k))"
  let ?s = "s\<lparr>io := hist, ram := ?m3\<rparr>"
  have st: "stream_own e st (st + i)" if "i < 8" for i
    using that by (simp add: stream_own_def word_less_nat_alt)
  have m1: "?m1 a = ram s a" if "\<not> sector_buffer e a" for a
    using that by (intro poke_out) (auto simp: sector_buffer_def not_less)
  have m2: "?m2 a = ram s a" if "\<not> sector_buffer e a" "k \<le> unat (a - out)" for a
    using m1 [OF that(1)] that(2) by (simp add: poke_out)
  have keep: "?m2 (st + i) = ram s (st + i)" if "i < 8" for i
  proof (rule m2)
    show "\<not> sector_buffer e (st + i)" using h(2) [of "st + i"] that by (auto simp: word_less_nat_alt)
    show "k \<le> unat (st + i - out)"
    proof (rule ccontr)
      assume "\<not> k \<le> unat (st + i - out)"
      then have "\<not> stream_own e st (out + of_nat (unat (st + i - out)))" using kn(1) by (intro out) simp
      then show False using st [OF that] by simp
    qed
  qed
  have pos: "load32 ?m2 (stream_pos st) = of_nat p" "load32 ?m2 (stream_disk st) = disk0 e"
  proof -
    have "load32 ?m2 (st + i) = load32 (ram s) (st + i)" if "i \<le> 4" for i
    proof (rule load32_same)
      fix j :: u32 assume "j < 4"
      then have "i + j < 8" using that by (simp add: word_less_nat_alt word_le_nat_alt unat_add_less)
      from keep [OF this] show "?m2 (st + i + j) = ram s (st + i + j)" by (simp add: add.assoc)
    qed
    from this [of 0] this [of 4] show "load32 ?m2 (stream_pos st) = of_nat p" "load32 ?m2 (stream_disk st) = disk0 e"
      using h(3,4) by (simp_all add: layout)
  qed
  have blk: "disk_read_block e (disk0 e) (of_nat (p div 512)) 1 ?buf s
      = Some (0, s\<lparr>ram := ?m1, io := hist\<rparr>)" using rd by (simp add: disk_read_block_def)
  have sz: "nk \<noteq> n \<longleftrightarrow> of_nat nk \<noteq> (of_nat n :: u32)" if "nk \<le> n" for nk
    using that pn word_of_nat_inj [of nk n] by auto
  have rest: "of_nat n - of_nat k = (of_nat (n - k) :: u32)" using kn(1) by (simp add: of_nat_diff)
  have res: "diskstreamer_read e d st out (of_nat n) s =
       (if k \<noteq> n then diskstreamer_read e (Suc d) st (out + of_nat k) (of_nat (n - k)) ?s else Some (0, ?s))"
    using h(3,4) pos_words [OF h(5)] chunk_word [OF pn] blk copy bnd(2,3) pos sz [OF kn(1)] rest k [symmetric]
    by (subst diskstreamer_read.simps) (simp add: Let_def add.commute)
  have "stream_at e img st ?s (p + k)"
    unfolding stream_at_def using h(1,2) pos(2) pn kn(1)
    by (simp add: load32_store32_apart layout)
  moreover have "ram ?s a = poke (ram s) out (img_bytes img p k) a" if "\<not> stream_own e st a" for a
  proof -
    have "4 \<le> unat (a - st)" "\<not> sector_buffer e a" using that by (auto simp: stream_own_def)
    then show ?thesis using m1 by (simp add: store32_byte_out stream_pos_def poke_def)
  qed
  ultimately show ?thesis using res by blast
qed

lemma poke_img_append:
  assumes "k \<le> n" and "n < 2 ^ 32"
  shows "poke (poke m out (img_bytes img p k)) (out + of_nat k) (img_bytes img (p + k) (n - k)) = poke m out (img_bytes img p n)"
proof -
  have "img_bytes img p n = img_bytes img p k @ img_bytes img (p + k) (n - k)"
    using assms(1) upt_add_eq_append [of p "p + k" "n - k"] by (simp add: img_bytes_def)
  then show ?thesis
    using poke_append [of "img_bytes img p k" "img_bytes img (p + k) (n - k)" m out] assms by simp
qed

lemma diskstreamer_read_img:
  assumes "stream_at e img st s p" and "p + n < 2147483648"
    and "\<And>i. i < n \<Longrightarrow> \<not> stream_own e st (out + of_nat i)"
  shows "\<exists>s'. diskstreamer_read e d st out (of_nat n) s = Some (0, s') \<and> stream_at e img st s' (p + n) \<and>
     (\<forall>a. \<not> stream_own e st a \<longrightarrow> ram s' a = poke (ram s) out (img_bytes img p n) a)"
  using assms
proof (induction n arbitrary: d out s p rule: less_induct)
  case (less n)
  define k where k: "k = min n (512 - p mod 512)"
  from diskstreamer_step [OF less.prems k] obtain s1 where
    r: "diskstreamer_read e d st out (of_nat n) s =
       (if k \<noteq> n then diskstreamer_read e (Suc d) st (out + of_nat k) (of_nat (n - k)) s1 else Some (0, s1))"
    and at1: "stream_at e img st s1 (p + k)"
    and m1: "\<And>a. \<not> stream_own e st a \<Longrightarrow> ram s1 a = poke (ram s) out (img_bytes img p k) a" by blast
  show ?case
  proof (cases "k = n")
    case True
    then show ?thesis using r at1 m1 by auto
  next
    case False
    have kn: "k \<le> n" "0 < k" using False by (auto simp: k)
    have less': "n - k < n" using kn False by simp
    have b: "p + k + (n - k) < 2147483648" using less.prems(2) kn by simp
    have o: "\<not> stream_own e st (out + of_nat k + of_nat i)" if "i < n - k" for i
      using less.prems(3) [of "k + i"] that by (simp add: add.assoc)
    from less.IH [OF less' at1 b o, of "Suc d"] obtain s' where
      s': "diskstreamer_read e (Suc d) st (out + of_nat k) (of_nat (n - k)) s1 = Some (0, s')"
        "stream_at e img st s' (p + k + (n - k))"
        "\<And>a. \<not> stream_own e st a \<Longrightarrow> ram s' a = poke (ram s1) (out + of_nat k) (img_bytes img (p + k) (n - k)) a" by blast
    have "ram s' a = poke (ram s) out (img_bytes img p n) a" if "\<not> stream_own e st a" for a
    proof -
      have "ram s' a = poke (poke (ram s) out (img_bytes img p k)) (out + of_nat k) (img_bytes img (p + k) (n - k)) a"
        using s'(3) [OF that] m1 [OF that] by (simp add: poke_def)
      then show ?thesis using poke_img_append [OF kn(1)] less.prems(2) by simp
    qed
    then show ?thesis using r False s'(1,2) kn(1) by auto
  qed
qed

text \<open>\<open>seek\<close> and \<open>read\<close> as a client calls them.\<close>

definition stream_seek :: "addr \<Rightarrow> nat \<Rightarrow> 'a machine_scheme \<Rightarrow> 'a machine_scheme" where
  "stream_seek st q s = s\<lparr>ram := snd (diskstreamer_seek st (of_nat q) (ram s))\<rparr>"

definition stream_read :: "env \<Rightarrow> addr \<Rightarrow> addr \<Rightarrow> nat \<Rightarrow> 'a machine_scheme \<Rightarrow> 'a machine_scheme option" where
  "stream_read e st out n s = map_option snd (diskstreamer_read e 0 st out (of_nat n) s)"

interpretation ds: byte_stream "stream_at e img st" "stream_seek st" "stream_read e st" img ram "stream_own e st"
  for e img st
proof
  fix s :: "'a machine_scheme" and p q :: nat assume at: "stream_at e img st s p" and q: "q < 2147483648"
  then show "stream_at e img st (stream_seek st q s) q"
    by (simp add: stream_at_def stream_seek_def diskstreamer_seek_def load32_store32_apart layout)
next
  fix s :: "'a machine_scheme" and p a assume "stream_at e img st s p" and "\<not> stream_own e st a"
  then have "4 \<le> unat (a - stream_pos st)" by (simp add: stream_own_def stream_pos_def)
  then show "ram (stream_seek st q s) a = ram s a" for q
    by (simp add: stream_seek_def diskstreamer_seek_def store32_byte_out)
next
  fix s :: "'a machine_scheme" and p n out
  assume "stream_at e img st s p" "p + n < 2147483648" "\<And>i. i < n \<Longrightarrow> \<not> stream_own e st (out + of_nat i)"
  from diskstreamer_read_img [OF this, of 0]
  show "\<exists>s'. stream_read e st out n s = Some s' \<and> stream_at e img st s' (p + n) \<and>
     (\<forall>a. \<not> stream_own e st a \<longrightarrow> ram s' a = poke (ram s) out (img_bytes img p n) a)"
    by (auto simp: stream_read_def)
qed

section \<open>Properties\<close>



text \<open>
  C3. A seek to byte \<open>q\<close> and a read of \<open>n\<close> bytes return and put the bytes \<open>q\<close>, ...,
  \<open>q + n - 1\<close> of the disk into the buffer, over as many sectors as that takes; nothing
  changes outside the buffer, the stream and the sector buffers of the calls.
\<close>

theorem stream_seek_read:
  assumes "stream_at e img st s p" and "q + n < 2147483648"
    and "\<And>i. i < n \<Longrightarrow> \<not> stream_own e st (out + of_nat i)"
  shows "\<exists>s'. stream_read e st out n (stream_seek st q s) = Some s' \<and> stream_at e img st s' (q + n) \<and>
     (\<forall>i < n. ram s' (out + of_nat i) = img (q + i)) \<and>
     (\<forall>a. \<not> stream_own e st a \<longrightarrow> n \<le> unat (a - out) \<longrightarrow> ram s' a = ram s a)"
  using assms by (rule ds.seek_read)

text \<open>A stream at byte 0 of a drive, apart from the sector buffers.\<close>

definition stream_env :: env where
  "stream_env = env_example\<lparr>dev := ready_drive of_nat\<rparr>"

definition stream_state :: machine where
  "stream_state = \<lparr>ram = store32 (\<lambda>_. 0) (stream_disk 0x30000) 0x20000, cr3 = 0, io = [], cr0 = 0, gdt_register = (0, 0), idt_register = (0, 0), task_register = 0\<rparr>"

lemma stream_env_buffers: "sector_buffer stream_env a \<Longrightarrow> 0x4F0000 \<le> unat a \<and> unat a < 0x500000"
proof -
  assume "sector_buffer stream_env a"
  then obtain k where k: "unat (a - (0x4F0000 + of_nat (k mod 64) * 1024)) < 512"
    by (auto simp: sector_buffer_def stream_env_def env_example_def)
  define x where "x = a - (0x4F0000 + of_nat (k mod 64) * 1024)"
  have "k mod 64 < 64" by simp
  then have "unat (of_nat (k mod 64) * 1024 :: u32) = k mod 64 * 1024"
    using unat_of_nat32 [of "k mod 64 * 1024"] by simp
  then have b: "unat (0x4F0000 + of_nat (k mod 64) * 1024 :: u32) = 0x4F0000 + k mod 64 * 1024"
    using \<open>k mod 64 < 64\<close> by (subst unat_add_less) simp_all
  have "a = x + (0x4F0000 + of_nat (k mod 64) * 1024)" by (simp add: x_def)
  then have "unat a = unat x + (0x4F0000 + k mod 64 * 1024)"
    using k b \<open>k mod 64 < 64\<close> by (simp only: x_def [symmetric]) (subst unat_add_less, simp_all)
  with k \<open>k mod 64 < 64\<close> show ?thesis by (simp add: x_def [symmetric])
qed

lemma low_offset: "unat (a - p) < n \<Longrightarrow> unat p + n < 4294967296 \<Longrightarrow> unat a < unat p + n \<and> unat p \<le> unat a" for a p :: addr
  using unat_add_less [of "a - p" p] by simp

lemma stream_state_at: "stream_at stream_env of_nat 0x30000 stream_state 0"
proof -
  have "8 \<le> unat (a - 0x30000)" if "sector_buffer stream_env a" for a
    using stream_env_buffers [OF that] low_offset [of a "0x30000" 8] by (cases "8 \<le> unat (a - 0x30000)") auto
  then show ?thesis
    by (simp add: stream_at_def stream_state_def stream_env_def ready_drive load32_store32_apart layout load32_zero env_example_def)
qed

lemma stream_env_free:
  assumes "i < 4096"
  shows "\<not> stream_own stream_env 0x30000 (0x40000 + of_nat i)"
proof -
  have u: "unat (0x40000 + of_nat i :: u32) = 0x40000 + i" using assms by (subst unat_add_less) (simp_all add: unat_of_nat32)
  have "\<not> unat (0x40000 + of_nat i - 0x30000 :: u32) < 8"
    using low_offset [of "0x40000 + of_nat i" "0x30000" 8] u by auto
  with stream_env_buffers [of "0x40000 + of_nat i"] u assms show ?thesis by (auto simp: stream_own_def)
qed

theorem stream_seek_read_witness:
  "\<exists>s'. stream_read stream_env 0x30000 0x40000 700 (stream_seek 0x30000 1000 stream_state) = Some s' \<and>
     (\<forall>i < 700. ram s' (0x40000 + of_nat i) = of_nat (1000 + i))"
proof -
  have f: "\<not> stream_own stream_env 0x30000 (0x40000 + of_nat i)" if "i < 700" for i
    using that by (intro stream_env_free) simp
  from stream_seek_read [OF stream_state_at, of 1000 700 "0x40000"] f show ?thesis by auto
qed

end
