(* ===== verification/Fat16.thy ===== *)
theory Fat16
  imports Disk
begin

text \<open>
  \<open>phix/src/fs/fat/fat16.c\<close>: the FAT16 file system over a stream of the disk. All its
  structures are bytes in memory, the packed ones at the offsets of the specification. A
  division by zero raises interrupt 0, for which no callback is registered: its handler
  returns to the same instruction, so the function never returns (\<open>None\<close>, \<open>Diverge\<close>).
\<close>

section \<open>Structures\<close>

definition PHIX_FAT16_SIGNATURE :: u8 where [config_defs]: "PHIX_FAT16_SIGNATURE = 0x29"
definition PHIX_FAT16_ENTRY_SIZE :: i32 where [config_defs]: "PHIX_FAT16_ENTRY_SIZE = 2"
definition PHIX_FAT16_BAD_SECTOR :: i32 where [config_defs]: "PHIX_FAT16_BAD_SECTOR = 0xFF7"
definition FAT_ITEM_TYPE_DIRECTORY :: u32 where [config_defs]: "FAT_ITEM_TYPE_DIRECTORY = 0"
definition FAT_ITEM_TYPE_FILE :: u32 where [config_defs]: "FAT_ITEM_TYPE_FILE = 1"
definition FAT_FILE_READ_ONLY :: u8 where [config_defs]: "FAT_FILE_READ_ONLY = 0x01"
definition FAT_FILE_SUBDIRECTORY :: u8 where [config_defs]: "FAT_FILE_SUBDIRECTORY = 0x10"

text \<open>\<open>struct fat_h\<close>: the packed headers, 36 and 26 bytes.\<close>

definition sectors_per_cluster :: "addr \<Rightarrow> addr" where [layout]: "sectors_per_cluster h = h + 13"
definition reserved_sectors :: "addr \<Rightarrow> addr" where [layout]: "reserved_sectors h = h + 14"
definition fat_copies :: "addr \<Rightarrow> addr" where [layout]: "fat_copies h = h + 16"
definition root_dir_entries :: "addr \<Rightarrow> addr" where [layout]: "root_dir_entries h = h + 17"
definition sectors_per_fat :: "addr \<Rightarrow> addr" where [layout]: "sectors_per_fat h = h + 22"
definition header_signature :: "addr \<Rightarrow> addr" where [layout]: "header_signature h = h + 38"
definition sizeof_fat_h :: i32 where "sizeof_fat_h = 62"

text \<open>\<open>struct fat_directory_item\<close>, packed.\<close>

definition item_filename :: "addr \<Rightarrow> addr" where [layout]: "item_filename i = i"
definition item_ext :: "addr \<Rightarrow> addr" where [layout]: "item_ext i = i + 8"
definition item_attributes :: "addr \<Rightarrow> addr" where [layout]: "item_attributes i = i + 11"
definition high_first_cluster :: "addr \<Rightarrow> addr" where [layout]: "high_first_cluster i = i + 20"
definition low_first_cluster :: "addr \<Rightarrow> addr" where [layout]: "low_first_cluster i = i + 26"
definition item_filesize :: "addr \<Rightarrow> addr" where [layout]: "item_filesize i = i + 28"
definition sizeof_directory_item :: u32 where "sizeof_directory_item = 32"

definition directory_item :: "addr \<Rightarrow> addr" where [layout]: "directory_item d = d"
definition directory_total :: "addr \<Rightarrow> addr" where [layout]: "directory_total d = d + 4"
definition directory_sector_pos :: "addr \<Rightarrow> addr" where [layout]: "directory_sector_pos d = d + 8"
definition directory_ending_sector_pos :: "addr \<Rightarrow> addr" where
  [layout]: "directory_ending_sector_pos d = d + 12"
definition sizeof_directory :: u32 where "sizeof_directory = 16"

text \<open>\<open>struct fat_item\<close> (a union and the type), the descriptor and \<open>struct fat_private\<close>.\<close>

definition fat_item_item :: "addr \<Rightarrow> addr" where [layout]: "fat_item_item f = f"
definition fat_item_type :: "addr \<Rightarrow> addr" where [layout]: "fat_item_type f = f + 4"
definition sizeof_fat_item :: u32 where "sizeof_fat_item = 8"

definition fat_fd_item :: "addr \<Rightarrow> addr" where [layout]: "fat_fd_item d = d"
definition fat_fd_pos :: "addr \<Rightarrow> addr" where [layout]: "fat_fd_pos d = d + 4"
definition sizeof_fat_fd :: u32 where "sizeof_fat_fd = 8"

definition private_header :: "addr \<Rightarrow> addr" where [layout]: "private_header p = p"
definition root_directory :: "addr \<Rightarrow> addr" where [layout]: "root_directory p = p + 64"
definition cluster_read_stream :: "addr \<Rightarrow> addr" where [layout]: "cluster_read_stream p = p + 80"
definition fat_read_stream :: "addr \<Rightarrow> addr" where [layout]: "fat_read_stream p = p + 84"
definition directory_stream :: "addr \<Rightarrow> addr" where [layout]: "directory_stream p = p + 88"
definition sizeof_fat_private :: u32 where "sizeof_fat_private = 92"

definition fs_name :: "addr \<Rightarrow> addr" where [layout]: "fs_name f = f + 24"

section \<open>Setting up\<close>

definition fat16_init :: "env \<Rightarrow> mem \<Rightarrow> (addr \<times> mem) option" where
  "fat16_init e m = map_option (Pair (fat16_fs e)) (strcpy m (fs_name (fat16_fs e)) (lit_fat16 e))"

definition fat16_init_private :: "env \<Rightarrow> addr \<Rightarrow> addr \<Rightarrow> mem \<Rightarrow> mem outcome" where
  "fat16_init_private e disk private m =
     (let m = memset m private 0 sizeof_fat_private;
          (st, m) = diskstreamer_new e (load32 m (disk_id disk)) m;
          m = store32 m (cluster_read_stream private) st
      in if st = 0 then Panic ''Failed to create new streamer for cluster_read''
         else let (st, m) = diskstreamer_new e (load32 m (disk_id disk)) m;
                  m = store32 m (fat_read_stream private) st
              in if st = 0 then Panic ''Failed to create new streamer for fat_read''
                 else let (st, m) = diskstreamer_new e (load32 m (disk_id disk)) m;
                          m = store32 m (directory_stream private) st
                      in if st = 0 then Panic ''Failed to create new streamer for directory''
                         else Done m)"

definition fat_sector_to_absolute :: "addr \<Rightarrow> i32 \<Rightarrow> mem \<Rightarrow> i32" where
  "fat_sector_to_absolute disk sector m = sector * load32 m (disk_sector_size disk)"

text \<open>The loop over directory items; \<open>ret\<close> counts.\<close>

partial_function (option) fat16_count_items ::
    "env \<Rightarrow> addr \<Rightarrow> i32 \<Rightarrow> 'a machine_scheme \<Rightarrow> (i32 \<times> 'a machine_scheme) option" where
  "fat16_count_items e stream ret s =
     (case diskstreamer_read e 0 stream (item_local e) sizeof_directory_item s of None \<Rightarrow> None
      | Some (r, s) \<Rightarrow>
          if sint r < 0 then Some (- EIO, s)
          else if ram s (item_filename (item_local e)) = 0 then Some (ret, s)
          else if ram s (item_filename (item_local e)) = 0xE5 then fat16_count_items e stream ret s
          else fat16_count_items e stream (ret + 1) s)"

definition fat16_get_total_items_for_directory ::
    "env \<Rightarrow> addr \<Rightarrow> addr \<Rightarrow> u32 \<Rightarrow> 'a machine_scheme \<Rightarrow> (i32 \<times> 'a machine_scheme) option" where
  "fat16_get_total_items_for_directory e disk private start_pos s =
     (let m = memset (ram s) (empty_local e) 0 sizeof_directory_item;
          directory_start_pos = start_pos * load32 m (disk_sector_size disk);
          stream = load32 m (directory_stream private);
          (r, m) = diskstreamer_seek stream directory_start_pos m;
          s = s\<lparr>ram := m\<rparr>
      in if sint r < 0 then Some (- EIO, s) else fat16_count_items e stream 0 s)"

definition div_faults :: "i32 \<Rightarrow> i32 \<Rightarrow> bool" where
  "div_faults a b = (b = 0 \<or> sint a = - 2147483648 \<and> sint b = - 1)"

definition fat16_get_root_directory ::
    "env \<Rightarrow> addr \<Rightarrow> addr \<Rightarrow> addr \<Rightarrow> 'a machine_scheme \<Rightarrow> (i32 \<times> 'a machine_scheme) option" where
  "fat16_get_root_directory e disk private directory s =
     (let m = ram s; primary_header = private_header private;
          root_dir_sector_pos = ucast (m (fat_copies primary_header)) *
              ucast (load16 m (sectors_per_fat primary_header)) + ucast (load16 m (reserved_sectors primary_header));
          entries_of_root = ucast (load16 m (root_dir_entries primary_header));
          root_dir_size = entries_of_root * sizeof_directory_item;
          sector_size = load32 m (disk_sector_size disk)
      in if div_faults root_dir_size sector_size then None
         else let total_sectors = int_div root_dir_size sector_size;
                  total_sectors = (if int_mod root_dir_size sector_size \<noteq> 0 then total_sectors + 1 else total_sectors)
              in (case fat16_get_total_items_for_directory e disk private root_dir_sector_pos s of None \<Rightarrow> None
                  | Some (total_items, s) \<Rightarrow>
                      let (dir, m) = kzalloc sizeof_directory_item (ram s); s = s\<lparr>ram := m\<rparr>
                      in if dir = 0 then Some (- ENOMEM, s)
                         else let stream = load32 m (directory_stream private);
                                  (r, m) = diskstreamer_seek stream (fat_sector_to_absolute disk root_dir_sector_pos m) m;
                                  s = s\<lparr>ram := m\<rparr>
                              in if sint r < 0 then Some (- EIO, s)
                                 else (case diskstreamer_read e 0 stream dir root_dir_size s of None \<Rightarrow> None
                                       | Some (r, s) \<Rightarrow>
                                           if sint r < 0 then Some (- EIO, s)
                                           else let m = ram s;
                                                    m = store32 m (directory_item directory) dir;
                                                    m = store32 m (directory_total directory) total_items;
                                                    m = store32 m (directory_sector_pos directory) root_dir_sector_pos;
                                                    m = store32 m (directory_ending_sector_pos directory)
                                                          (root_dir_sector_pos + total_sectors)
                                                in Some (0, s\<lparr>ram := m\<rparr>))))"

section \<open>Names and items\<close>

definition fat16_get_full_relative_filename :: "addr \<Rightarrow> addr \<Rightarrow> u32 \<Rightarrow> mem \<Rightarrow> mem option" where
  "fat16_get_full_relative_filename item out max_len m =
     (let m = memset m out 0 max_len; tmp = out
      in case strcpy_strip m tmp (item_filename item) of None \<Rightarrow> None
         | Some m \<Rightarrow>
             if m (item_ext item) \<noteq> 0 \<and> m (item_ext item) \<noteq> 0x20
             then (case strlen m tmp of None \<Rightarrow> None
                   | Some len \<Rightarrow> let tmp = tmp + len; m = m(tmp := 0x2E); tmp = tmp + 1
                                 in strcpy_strip m tmp (item_ext item))
             else Some m)"

definition fat16_clone_directory_item :: "addr \<Rightarrow> u32 \<Rightarrow> mem \<Rightarrow> addr \<times> mem" where
  "fat16_clone_directory_item item size_bytes m =
     (if size_bytes < sizeof_directory_item then (0, m)
      else let (cpy, m) = kzalloc size_bytes m
           in if cpy = 0 then (0, m) else (cpy, memcpy m cpy item size_bytes))"

definition fat16_get_first_cluser :: "addr \<Rightarrow> mem \<Rightarrow> u32" where
  "fat16_get_first_cluser item m =
     ucast (load16 m (high_first_cluster item)) OR ucast (load16 m (low_first_cluster item))"

section \<open>Clusters\<close>

definition fat16_cluster_to_sector :: "addr \<Rightarrow> i32 \<Rightarrow> mem \<Rightarrow> i32" where
  "fat16_cluster_to_sector private cluster m =
     load32 m (directory_ending_sector_pos (root_directory private)) +
       (cluster - 2) * ucast (m (sectors_per_cluster (private_header private)))"

definition fat16_get_first_fat_sector :: "addr \<Rightarrow> mem \<Rightarrow> u32" where
  "fat16_get_first_fat_sector private m = ucast (load16 m (reserved_sectors (private_header private)))"

text \<open>The position is a product, and \<open>ret\<close> is assigned the comparison, as in the code.\<close>

definition fat16_get_fat_entry ::
    "env \<Rightarrow> addr \<Rightarrow> i32 \<Rightarrow> 'a machine_scheme \<Rightarrow> (u16 \<times> 'a machine_scheme) option" where
  "fat16_get_fat_entry e disk cluster s =
     (let m = ram s; private = load32 m (disk_fs_private disk);
          stream = load32 m (fat_read_stream private);
          fat_table_position = fat16_get_first_fat_sector private m * load32 m (disk_sector_size disk);
          (r, m) = diskstreamer_seek stream (fat_table_position * (cluster * PHIX_FAT16_ENTRY_SIZE)) m;
          ret = (if sint r < 0 then 1 else 0 :: i32)
      in if ret \<noteq> 0 then Some (ucast ret, s\<lparr>ram := m\<rparr>)
         else let m = store16 m (result_local e) 0
              in (case diskstreamer_read e 0 stream (result_local e) 2 (s\<lparr>ram := m\<rparr>) of None \<Rightarrow> None
                  | Some (ret, s) \<Rightarrow>
                      if ret \<noteq> 0 then Some (ucast ret, s) else Some (load16 (ram s) (result_local e), s)))"

text \<open>The loop leaves with \<open>break\<close> at the end of its first round.\<close>

definition fat16_get_cluster_for_offset ::
    "env \<Rightarrow> addr \<Rightarrow> i32 \<Rightarrow> i32 \<Rightarrow> 'a machine_scheme \<Rightarrow> (i32 \<times> 'a machine_scheme) option" where
  "fat16_get_cluster_for_offset e disk cluster offset s =
     (let m = ram s; private = load32 m (disk_fs_private disk);
          size_of_cluster_bytes = ucast (m (sectors_per_cluster (private_header private))) * load32 m (disk_sector_size disk);
          cluster_to_use = cluster
      in if div_faults offset size_of_cluster_bytes then None
         else let clusters_ahead = int_div offset size_of_cluster_bytes
              in if 0 < sint clusters_ahead
                 then (case fat16_get_fat_entry e disk cluster_to_use s of None \<Rightarrow> None
                       | Some (r, s) \<Rightarrow>
                           let entry = ucast r :: i32
                           in if entry = 0xFF8 \<or> entry = 0xFFF then Some (- EIO, s)
                              else if entry = PHIX_FAT16_BAD_SECTOR then Some (- EIO, s)
                              else if entry = 0xFF0 \<or> entry = 0xFF6 then Some (- EIO, s)
                              else if entry = 0 then Some (- EIO, s)
                              else Some (entry, s))
                 else Some (cluster_to_use, s))"

partial_function (option) fat16_read_internal_from_stream ::
    "env \<Rightarrow> addr \<Rightarrow> addr \<Rightarrow> i32 \<Rightarrow> i32 \<Rightarrow> i32 \<Rightarrow> addr \<Rightarrow> 'a machine_scheme
      \<Rightarrow> (i32 \<times> 'a machine_scheme) option" where
  "fat16_read_internal_from_stream e stream disk cluster offset total_bytes out s =
     (let m = ram s; private = load32 m (disk_fs_private disk);
          size_of_cluster_bytes = ucast (m (sectors_per_cluster (private_header private))) * load32 m (disk_sector_size disk)
      in case fat16_get_cluster_for_offset e disk cluster offset s of None \<Rightarrow> None
         | Some (cluster_to_use, s) \<Rightarrow>
             if sint cluster_to_use < 0 then Some (cluster_to_use, s)
             else if div_faults offset size_of_cluster_bytes then None
             else let m = ram s;
                      offset_from_cluster = int_mod offset size_of_cluster_bytes;
                      start_sector = fat16_cluster_to_sector private cluster_to_use m;
                      start_pos = start_sector * load32 m (disk_sector_size disk) + offset_from_cluster;
                      total_to_read = (if sint size_of_cluster_bytes < sint total_bytes
                                       then size_of_cluster_bytes else total_bytes);
                      (ret, m) = diskstreamer_seek stream start_pos m
                  in if sint ret < 0 then Some (ret, s\<lparr>ram := m\<rparr>)
                     else (case diskstreamer_read e 0 stream out total_to_read (s\<lparr>ram := m\<rparr>) of None \<Rightarrow> None
                           | Some (ret, s) \<Rightarrow>
                               if sint ret < 0 then Some (ret, s)
                               else let total_bytes = total_bytes - total_to_read
                                    in if 0 < sint total_bytes
                                       then fat16_read_internal_from_stream e stream disk cluster
                                              (offset + total_to_read) total_bytes (out + total_to_read) s
                                       else Some (ret, s)))"

definition fat16_read_internal ::
    "env \<Rightarrow> addr \<Rightarrow> i32 \<Rightarrow> i32 \<Rightarrow> i32 \<Rightarrow> addr \<Rightarrow> 'a machine_scheme \<Rightarrow> (i32 \<times> 'a machine_scheme) option" where
  "fat16_read_internal e disk start_cluster offset total_bytes out s =
     (let private = load32 (ram s) (disk_fs_private disk);
          stream = load32 (ram s) (cluster_read_stream private)
      in fat16_read_internal_from_stream e stream disk start_cluster offset total_bytes out s)"

section \<open>Directories\<close>

definition fat16_free_directory :: "addr \<Rightarrow> mem \<Rightarrow> mem" where
  "fat16_free_directory directory m =
     (if directory = 0 then m
      else let m = (if load32 m (directory_item directory) \<noteq> 0
                    then kfree (load32 m (directory_item directory)) m else m)
           in kfree directory m)"

definition fat16_free_item :: "addr \<Rightarrow> mem \<Rightarrow> mem outcome" where
  "fat16_free_item item m =
     (if load32 m (fat_item_type item) = FAT_ITEM_TYPE_DIRECTORY
      then Done (fat16_free_directory (load32 m (fat_item_item item)) m)
      else if load32 m (fat_item_type item) = FAT_ITEM_TYPE_FILE
      then Done (kfree (load32 m (fat_item_item item)) m)
      else Panic ''Invalid fat16 item'')"

text \<open>The exit of \<open>fat16_load_fat_directory\<close> on an error: \<open>ERROR(-ret)\<close> is positive.\<close>

definition fat16_load_failed :: "addr \<Rightarrow> i32 \<Rightarrow> mem \<Rightarrow> addr \<times> mem" where
  "fat16_load_failed directory ret m = (- ret, fat16_free_directory directory m)"

definition fat16_load_fat_directory ::
    "env \<Rightarrow> addr \<Rightarrow> addr \<Rightarrow> 'a machine_scheme \<Rightarrow> (addr \<times> 'a machine_scheme) option" where
  "fat16_load_fat_directory e disk item s =
     (let private = load32 (ram s) (disk_fs_private disk)
      in if ram s (item_attributes item) AND FAT_FILE_SUBDIRECTORY = 0 then Some (- EINVAL, s)
         else let (directory, m) = kzalloc sizeof_directory (ram s); s = s\<lparr>ram := m\<rparr>
              in if directory = 0
                 then (let (r, m) = fat16_load_failed directory (- ENOMEM) (ram s) in Some (r, s\<lparr>ram := m\<rparr>))
                 else let cluster = fat16_get_first_cluser item (ram s);
                          cluser_sector = fat16_cluster_to_sector private cluster (ram s)
                      in (case fat16_get_total_items_for_directory e disk private cluser_sector s of None \<Rightarrow> None
                          | Some (total_items, s) \<Rightarrow>
                              let m = store32 (ram s) (directory_total directory) total_items;
                                  directory_size = load32 m (directory_total directory) * sizeof_directory_item;
                                  (items, m) = kzalloc directory_size m;
                                  m = store32 m (directory_item directory) items
                              in if items = 0
                                 then (let (r, m) = fat16_load_failed directory (- ENOMEM) m
                                       in Some (r, s\<lparr>ram := m\<rparr>))
                                 else (case fat16_read_internal e disk cluster 0 directory_size
                                              (load32 m (directory_item directory)) (s\<lparr>ram := m\<rparr>) of None \<Rightarrow> None
                                       | Some (ret, s) \<Rightarrow>
                                           if sint ret < 0
                                           then (let (r, m) = fat16_load_failed directory ret (ram s)
                                                 in Some (r, s\<lparr>ram := m\<rparr>))
                                           else Some (directory, s))))"

definition fat16_new_fat_item_for_directory_item ::
    "env \<Rightarrow> addr \<Rightarrow> addr \<Rightarrow> 'a machine_scheme \<Rightarrow> (addr \<times> 'a machine_scheme) option" where
  "fat16_new_fat_item_for_directory_item e disk item s =
     (let (f_item, m) = kzalloc sizeof_fat_item (ram s); s = s\<lparr>ram := m\<rparr>
      in if f_item = 0 then Some (0, s)
         else if ram s (item_attributes item) AND FAT_FILE_SUBDIRECTORY \<noteq> 0
         then (case fat16_load_fat_directory e disk item s of None \<Rightarrow> None
               | Some (directory, s) \<Rightarrow>
                   let m = store32 (ram s) (fat_item_item f_item) directory
                   in Some (f_item, s\<lparr>ram := store32 m (fat_item_type f_item) FAT_ITEM_TYPE_DIRECTORY\<rparr>))
         else let m = store32 (ram s) (fat_item_type f_item) FAT_ITEM_TYPE_FILE;
                  (cpy, m) = fat16_clone_directory_item item sizeof_directory_item m
              in Some (f_item, s\<lparr>ram := store32 m (fat_item_item f_item) cpy\<rparr>))"

text \<open>The search from item \<open>i\<close> on; \<open>total\<close> is read before each round.\<close>

function fat16_find_loop ::
    "env \<Rightarrow> addr \<Rightarrow> addr \<Rightarrow> addr \<Rightarrow> u32 \<Rightarrow> 'a machine_scheme \<Rightarrow> (addr \<times> 'a machine_scheme) option" where
  "fat16_find_loop e disk directory name i s =
     (if i < load32 (ram s) (directory_total directory)
      then let item = load32 (ram s) (directory_item directory) + i * sizeof_directory_item
           in (case fat16_get_full_relative_filename item (name_local e) PHIX_MAX_PATH (ram s) of None \<Rightarrow> None
               | Some m \<Rightarrow>
                   if istrncmp m (name_local e) name PHIX_MAX_PATH = 0
                   then fat16_new_fat_item_for_directory_item e disk
                          (load32 m (directory_item directory) + i * sizeof_directory_item) (s\<lparr>ram := m\<rparr>)
                   else fat16_find_loop e disk directory name (i + 1) (s\<lparr>ram := m\<rparr>))
      else Some (0, s))"
  by pat_completeness auto
termination
proof (relation "measure (\<lambda>(e, disk, directory, name, i, s). 2 ^ 32 - unat i)", goal_cases)
  case (2 e disk directory name i s)
  then have "unat i < unat (load32 (ram s) (directory_total directory))" by (simp add: word_less_nat_alt)
  with unat32_lt have "unat i + 1 < 4294967296" by (metis Suc_eq_plus1 less_trans_Suc Suc_lessI not_less_eq)
  then have "unat (i + 1) = unat i + 1" by (simp add: unat_word_ariths)
  then show ?case using unat32_lt [of i] by simp
qed simp

declare fat16_find_loop.simps [simp del]

definition fat16_find_item_in_directory ::
    "env \<Rightarrow> addr \<Rightarrow> addr \<Rightarrow> addr \<Rightarrow> 'a machine_scheme \<Rightarrow> (addr \<times> 'a machine_scheme) option" where
  "fat16_find_item_in_directory e disk directory name s = fat16_find_loop e disk directory name 0 s"

text \<open>
  The walk along the parts of a path. The condition compares the pointer \<open>current_item\<close>,
  not its type, with \<open>FAT_ITEM_TYPE_DIRECTORY\<close>. A path has at most 54 parts, so 64 rounds
  are enough.
\<close>

fun fat16_walk ::
    "env \<Rightarrow> addr \<Rightarrow> nat \<Rightarrow> addr \<Rightarrow> addr \<Rightarrow> 'a machine_scheme \<Rightarrow> (addr \<times> 'a machine_scheme) outcome" where
  "fat16_walk e disk 0 current_item next_part s = Diverge"
| "fat16_walk e disk (Suc n) current_item next_part s =
     (if next_part = 0 then Done (current_item, s)
      else if current_item \<noteq> FAT_ITEM_TYPE_DIRECTORY then Done (0, s)
      else obind (of_option (fat16_find_item_in_directory e disk (load32 (ram s) (fat_item_item current_item))
                    (load32 (ram s) (part_part next_part)) s)) (\<lambda>(tmp, s).
           obind (fat16_free_item current_item (ram s)) (\<lambda>m.
             fat16_walk e disk n tmp (load32 m (part_next next_part)) (s\<lparr>ram := m\<rparr>))))"

definition fat16_get_directory_entry ::
    "env \<Rightarrow> addr \<Rightarrow> addr \<Rightarrow> 'a machine_scheme \<Rightarrow> (addr \<times> 'a machine_scheme) outcome" where
  "fat16_get_directory_entry e disk path s =
     (let private = load32 (ram s) (disk_fs_private disk)
      in obind (of_option (fat16_find_item_in_directory e disk (root_directory private)
                  (load32 (ram s) (part_part path)) s)) (\<lambda>(root_item, s).
           if root_item = 0 then Done (0, s)
           else fat16_walk e disk 64 root_item (load32 (ram s) (part_next path)) s))"

section \<open>The operations of the file system\<close>

definition fat16_free_file_descriptor :: "addr \<Rightarrow> mem \<Rightarrow> mem outcome" where
  "fat16_free_file_descriptor desc m =
     obind (fat16_free_item (load32 m (fat_fd_item desc)) m) (\<lambda>m. Done (kfree desc m))"

text \<open>\<open>fat16_resolve\<close> frees \<open>private\<close> on an error and leaves the streams of it.\<close>

definition fat16_resolve_out :: "addr \<Rightarrow> addr \<Rightarrow> addr \<Rightarrow> i32 \<Rightarrow> mem \<Rightarrow> mem" where
  "fat16_resolve_out disk private stream ret m =
     (let m = diskstreamer_free stream m
      in if sint ret < 0 then store32 (kfree private m) (disk_fs_private disk) 0 else m)"

definition fat16_resolve ::
    "env \<Rightarrow> addr \<Rightarrow> 'a machine_scheme \<Rightarrow> (i32 \<times> 'a machine_scheme) outcome" where
  "fat16_resolve e disk s =
     (let (private, m) = kzalloc sizeof_fat_private (ram s)
      in obind (fat16_init_private e disk private m) (\<lambda>m.
         let (stream, m) = diskstreamer_new e (load32 m (disk_id disk)) m; s = s\<lparr>ram := m\<rparr>;
             leave = (\<lambda>ret s. Done (ret, s\<lparr>ram := fat16_resolve_out disk private stream ret (ram s)\<rparr>))
         in if stream = 0 then Done (- ENOMEM, s)
            else obind (of_option (diskstreamer_read e 0 stream (private_header private) sizeof_fat_h s)) (\<lambda>(r, s).
              if sint r < 0 then leave (- EIO) s
              else if ram s (header_signature (private_header private)) \<noteq> PHIX_FAT16_SIGNATURE
              then leave (- EFSNOTUS) s
              else obind (of_option (fat16_get_root_directory e disk private (root_directory private) s)) (\<lambda>(r, s).
                if sint r < 0 then leave (- EIO) s
                else let m = store32 (ram s) (disk_fs_private disk) private
                     in leave 0 (s\<lparr>ram := store32 m (disk_filesystem disk) (fat16_fs e)\<rparr>)))))"

definition fat16_open ::
    "env \<Rightarrow> addr \<Rightarrow> addr \<Rightarrow> u32 \<Rightarrow> 'a machine_scheme \<Rightarrow> (addr \<times> 'a machine_scheme) outcome" where
  "fat16_open e disk path mode s =
     (if mode \<noteq> FILE_MODE_READ then Done (- ERDONLY, s)
      else let (desc, m) = kzalloc sizeof_fat_fd (ram s); s = s\<lparr>ram := m\<rparr>
           in if desc = 0 then Done (- ENOMEM, s)
              else obind (fat16_get_directory_entry e disk path s) (\<lambda>(item, s).
                let m = store32 (ram s) (fat_fd_item desc) item
                in if item = 0 then Done (- EIO, s\<lparr>ram := kfree desc m\<rparr>)
                   else Done (desc, s\<lparr>ram := store32 m (fat_fd_pos desc) 0\<rparr>)))"

fun fat16_read_loop ::
    "env \<Rightarrow> addr \<Rightarrow> addr \<Rightarrow> i32 \<Rightarrow> u32 \<Rightarrow> addr \<Rightarrow> nat \<Rightarrow> 'a machine_scheme
      \<Rightarrow> (i32 option \<times> 'a machine_scheme) option" where
  "fat16_read_loop e disk item offset size_bytes out 0 s = Some (None, s)"
| "fat16_read_loop e disk item offset size_bytes out (Suc n) s =
     (case fat16_read_internal e disk (fat16_get_first_cluser item (ram s)) offset size_bytes out s of None \<Rightarrow> None
      | Some (ret, s) \<Rightarrow>
          if ISERR ret then Some (Some ret, s)
          else fat16_read_loop e disk item (offset + size_bytes) size_bytes (out + size_bytes) n s)"

definition fat16_read ::
    "env \<Rightarrow> addr \<Rightarrow> addr \<Rightarrow> u32 \<Rightarrow> u32 \<Rightarrow> addr \<Rightarrow> 'a machine_scheme \<Rightarrow> (i32 \<times> 'a machine_scheme) outcome" where
  "fat16_read e disk desc size_bytes n out s =
     (let item = load32 (ram s) (fat_item_item (load32 (ram s) (fat_fd_item desc)));
          offset = load32 (ram s) (fat_fd_pos desc)
      in obind (of_option (fat16_read_loop e disk item offset size_bytes out (unat n) s)) (\<lambda>(failed, s).
           case failed of Some ret \<Rightarrow> Done (ret, s) | None \<Rightarrow> Done (n, s)))"

definition fat16_seek :: "addr \<Rightarrow> u32 \<Rightarrow> u32 \<Rightarrow> mem \<Rightarrow> i32 \<times> mem" where
  "fat16_seek private offset seek_mode m =
     (let item = load32 m (fat_fd_item private)
      in if load32 m (fat_item_type item) \<noteq> FAT_ITEM_TYPE_FILE then (- EINVAL, m)
         else let ritem = load32 m (fat_item_item item)
              in if load32 m (item_filesize ritem) \<le> offset then (- EIO, m)
                 else if seek_mode = SEEK_SET then (0, store32 m (fat_fd_pos private) offset)
                 else if seek_mode = SEEK_END then (- EUNIMP, m)
                 else if seek_mode = SEEK_CUR
                 then (0, store32 m (fat_fd_pos private) (load32 m (fat_fd_pos private) + offset))
                 else (- EINVAL, m))"

definition fat16_stat :: "addr \<Rightarrow> addr \<Rightarrow> addr \<Rightarrow> mem \<Rightarrow> i32 \<times> mem" where
  "fat16_stat disk private stat m =
     (let desc_item = load32 m (fat_fd_item private)
      in if load32 m (fat_item_type desc_item) \<noteq> FAT_ITEM_TYPE_FILE then (- EINVAL, m)
         else let m = store32 m (stat_filesize stat) (load32 m (item_filesize (load32 m (fat_item_item desc_item))));
                  m = store32 m (stat_flags stat) 0
              in (0, if m (item_attributes (load32 m (fat_item_item desc_item))) AND FAT_FILE_READ_ONLY \<noteq> 0
                     then store32 m (stat_flags stat) (load32 m (stat_flags stat) OR FILE_STAT_READ_ONLY) else m))"

definition fat16_close :: "addr \<Rightarrow> mem \<Rightarrow> (i32 \<times> mem) outcome" where
  "fat16_close private m = obind (fat16_free_file_descriptor private m) (\<lambda>m. Done (0, m))"

section \<open>The names of a directory\<close>

text \<open>\<open>strcpy_strip\<close> on a word that a space or a NUL ends.\<close>

definition word_at :: "mem \<Rightarrow> addr \<Rightarrow> u8 list \<Rightarrow> bool" where
  "word_at m p w = ((\<forall>i < length w. m (p + of_nat i) = w ! i) \<and> 0 \<notin> set w \<and> 0x20 \<notin> set w \<and>
     (m (p + of_nat (length w)) = 0 \<or> m (p + of_nat (length w)) = 0x20))"

lemma strcpy_strip_word:
  assumes "word_at m src w" and "length w < 2 ^ 31"
    and "\<And>i j. i \<le> length w \<Longrightarrow> j < length w \<Longrightarrow> src + of_nat i \<noteq> dest + of_nat j"
  shows "strcpy_strip m dest src = Some (poke m dest (w @ [0]))"
  unfolding strcpy_strip_def using assms
proof (induction w arbitrary: m dest src)
  case Nil
  then show ?case using poke_snoc [of "[]" m dest 0]
    by (subst strcpy_strip_loop.simps) (auto simp: word_at_def)
next
  case (Cons x w)
  let ?m = "m(dest := x)"
  have x: "m src = x" "x \<noteq> 0" "x \<noteq> 0x20" using Cons.prems(1) by (auto simp: word_at_def)
  have keep: "?m (src + 1 + of_nat i) = m (src + of_nat (Suc i))" if "i \<le> length w" for i
    using Cons.prems(3) [of "Suc i" 0] that by (simp add: add.assoc)
  have w: "word_at ?m (src + 1) w" unfolding word_at_def
  proof (intro conjI allI impI)
    show "?m (src + 1 + of_nat i) = w ! i" if "i < length w" for i
      using keep [of i] that Cons.prems(1) by (auto simp: word_at_def simp del: of_nat_Suc fun_upd_apply dest: spec [of _ "Suc i"])
    show "?m (src + 1 + of_nat (length w)) = 0 \<or> ?m (src + 1 + of_nat (length w)) = 0x20"
      using keep [of "length w"] Cons.prems(1) by (simp add: word_at_def del: of_nat_Suc fun_upd_apply)
  qed (use Cons.prems(1) in \<open>auto simp: word_at_def\<close>)
  have a: "src + 1 + of_nat i \<noteq> dest + 1 + of_nat j" if "i \<le> length w" "j < length w" for i j
    using Cons.prems(3) [of "Suc i" "Suc j"] that by (simp add: add.assoc)
  have "length w < 2 ^ 31" using Cons.prems(2) by simp
  from Cons.IH [OF w this a]
  have "strcpy_strip_loop ?m (dest + 1) (src + 1) = Some (poke ?m (dest + 1) (w @ [0]))" .
  moreover have "poke ?m (dest + 1) (w @ [0]) = poke m dest (x # w @ [0])"
    using Cons.prems(2) by (intro poke_Cons) simp
  ultimately show ?case using x by (subst strcpy_strip_loop.simps) simp
qed

lemma cstr_poke:
  assumes "0 \<notin> set w" and "length w < 2 ^ 31"
  shows "cstr (poke m p (w @ [0])) p w"
  unfolding cstr_iff
proof (intro conjI allI impI)
  show "poke m p (w @ [0]) (p + of_nat i) = w ! i" if "i < length w" for i
    using poke_in [of i "w @ [0]" m p] that assms(2) by (simp add: nth_append)
  show "poke m p (w @ [0]) (p + of_nat (length w)) = 0"
    using poke_in [of "length w" "w @ [0]" m p] assms(2) by simp
qed (fact assms(1))

text \<open>What a copy from a field without its own end takes.\<close>

abbreviation up_to_space :: "u8 list \<Rightarrow> u8 list" where
  "up_to_space \<equiv> takeWhile (\<lambda>c. c \<noteq> 0 \<and> c \<noteq> 0x20)"

definition stops :: "u8 list \<Rightarrow> bool" where
  "stops xs = (\<exists>x \<in> set xs. x = 0 \<or> x = 0x20)"

lemma length_up_to_space: "stops xs \<Longrightarrow> length (up_to_space xs) < length xs"
  by (induction xs) (auto simp: stops_def)

lemma word_at_field:
  assumes "\<And>i. i < length xs \<Longrightarrow> m (p + of_nat i) = xs ! i" and "stops xs"
  shows "word_at m p (up_to_space xs)"
proof -
  let ?w = "up_to_space xs"
  have lt: "length ?w < length xs" using assms(2) by (rule length_up_to_space)
  have "m (p + of_nat i) = ?w ! i" if "i < length ?w" for i
    using assms(1) [of i] that lt by (simp add: takeWhile_nth)
  moreover have "m (p + of_nat (length ?w)) = xs ! length ?w" by (rule assms(1) [OF lt])
  moreover have "\<not> (xs ! length ?w \<noteq> 0 \<and> xs ! length ?w \<noteq> 0x20)" using nth_length_takeWhile [OF lt] .
  ultimately show ?thesis by (auto simp: word_at_def dest: set_takeWhileD)
qed

text \<open>The bytes of an item's name fields, and the string the search compares with.\<close>

definition item_fields :: "mem \<Rightarrow> addr \<Rightarrow> u8 list \<Rightarrow> u8 list \<Rightarrow> u8 \<Rightarrow> bool" where
  "item_fields m item fn ext attr = (length fn = 8 \<and> length ext = 3 \<and> stops (ext @ [attr]) \<and>
     (\<forall>i < 12. m (item + of_nat i) = (fn @ ext @ [attr]) ! i))"

definition item_name :: "u8 list \<Rightarrow> u8 list \<Rightarrow> u8 \<Rightarrow> u8 list" where
  "item_name fn ext attr = up_to_space (fn @ ext @ [attr]) @
     (if ext ! 0 \<noteq> 0 \<and> ext ! 0 \<noteq> 0x20 then 0x2E # up_to_space (ext @ [attr]) else [])"

text \<open>The local buffer of 108 bytes at \<open>out\<close> lies apart from an item.\<close>

definition off_buffer :: "addr \<Rightarrow> addr \<Rightarrow> nat \<Rightarrow> bool" where
  "off_buffer out p n = (\<forall>i < n. 108 \<le> unat (p + of_nat i - out))"

lemma poke_off_buffer:
  assumes "off_buffer out p n" and "i < n" and "length bs \<le> 108"
  shows "poke (memset m out 0 PHIX_MAX_PATH) out bs (p + of_nat i) = m (p + of_nat i)"
proof -
  have d: "108 \<le> unat (p + of_nat i - out)" using assms(1,2) by (simp add: off_buffer_def)
  have "poke (memset m out 0 PHIX_MAX_PATH) out bs (p + of_nat i) = memset m out 0 PHIX_MAX_PATH (p + of_nat i)"
    using d assms(3) by (intro poke_out) linarith
  also have "\<dots> = m (p + of_nat i)" using d by (intro memset_out) (simp add: PHIX_MAX_PATH_def word_less_nat_alt)
  finally show ?thesis .
qed

lemma item_words:
  assumes "item_fields m item fn ext attr"
  shows "length (up_to_space (fn @ ext @ [attr])) \<le> 11" and "length (up_to_space (ext @ [attr])) \<le> 3"
    and "stops (fn @ ext @ [attr])" and "length (item_name fn ext attr) \<le> 15"
proof -
  have l: "length fn = 8" "length ext = 3" "stops (ext @ [attr])" using assms by (auto simp: item_fields_def)
  then show s: "stops (fn @ ext @ [attr])" by (auto simp: stops_def)
  show a: "length (up_to_space (fn @ ext @ [attr])) \<le> 11" "length (up_to_space (ext @ [attr])) \<le> 3"
    using length_up_to_space [OF s] length_up_to_space [OF l(3)] l by simp_all
  then show "length (item_name fn ext attr) \<le> 15" by (simp add: item_name_def)
qed

text \<open>The first copy, and the second one behind the dot.\<close>

lemma item_copy_name:
  assumes it: "item_fields m item fn ext attr" and off: "off_buffer out item 12"
  shows "strcpy_strip (memset m out 0 PHIX_MAX_PATH) out item =
     Some (poke (memset m out 0 PHIX_MAX_PATH) out (up_to_space (fn @ ext @ [attr]) @ [0]))"
proof (rule strcpy_strip_word)
  have l: "length fn = 8" "length ext = 3" using it by (auto simp: item_fields_def)
  show "word_at (memset m out 0 PHIX_MAX_PATH) item (up_to_space (fn @ ext @ [attr]))"
    using poke_off_buffer [OF off, of _ "[]" m] it item_words(3) [OF it] l
    by (intro word_at_field) (auto simp: item_fields_def)
  fix i j assume "i \<le> length (up_to_space (fn @ ext @ [attr]))" "j < length (up_to_space (fn @ ext @ [attr]))"
  then have "i < 12" "j < 12" using item_words(1) [OF it] by simp_all
  then show "item + of_nat i \<noteq> out + of_nat j" using off by (auto simp: off_buffer_def unat_of_nat32 dest!: spec [of _ i])
qed (use item_words(1) [OF it] in simp)

lemma item_copy_ext:
  assumes it: "item_fields m item fn ext attr" and off: "off_buffer out item 12" and k: "k \<le> 12"
    and m: "m' = poke (memset m out 0 PHIX_MAX_PATH) out bs" and bs: "length bs = k"
  shows "strcpy_strip m' (out + of_nat k) (item + 8) = Some (poke m' (out + of_nat k) (up_to_space (ext @ [attr]) @ [0]))"
proof (rule strcpy_strip_word)
  have l: "length fn = 8" "length ext = 3" "stops (ext @ [attr])" using it by (auto simp: item_fields_def)
  have "m' (item + 8 + of_nat i) = (ext @ [attr]) ! i" if "i < 4" for i
  proof -
    have e: "item + 8 + of_nat i = item + of_nat (8 + i)" by (simp add: add.assoc)
    have "m' (item + of_nat (8 + i)) = m (item + of_nat (8 + i))"
      unfolding m using that bs k by (intro poke_off_buffer [OF off]) simp_all
    also have "\<dots> = (fn @ ext @ [attr]) ! (8 + i)" using it that unfolding item_fields_def by (auto simp del: of_nat_add)
    finally show ?thesis unfolding e using l(1) by (simp add: nth_append)
  qed
  then show "word_at m' (item + 8) (up_to_space (ext @ [attr]))" using l by (intro word_at_field) simp_all
  fix i j assume "i \<le> length (up_to_space (ext @ [attr]))" "j < length (up_to_space (ext @ [attr]))"
  then have b: "8 + i < 12" "k + j < 108" using item_words(2) [OF it] k by simp_all
  show "item + 8 + of_nat i \<noteq> out + of_nat k + of_nat j"
  proof
    assume "item + 8 + of_nat i = out + of_nat k + of_nat j"
    then have "item + of_nat (8 + i) - out = of_nat (k + j)" by (simp add: algebra_simps)
    moreover have "108 \<le> unat (item + of_nat (8 + i) - out)" using off b(1) unfolding off_buffer_def by blast
    ultimately show False using b(2) by (simp add: unat_of_nat32 del: of_nat_add)
  qed
qed (use item_words(2) [OF it] in simp)

lemma relative_filename:
  assumes it: "item_fields m item fn ext attr" and off: "off_buffer out item 12"
  shows "fat16_get_full_relative_filename item out PHIX_MAX_PATH m =
     Some (poke (memset m out 0 PHIX_MAX_PATH) out (item_name fn ext attr @ [0]))"
proof -
  let ?w = "up_to_space (fn @ ext @ [attr])" and ?v = "up_to_space (ext @ [attr])"
  let ?m0 = "memset m out 0 PHIX_MAX_PATH"
  let ?m1 = "poke ?m0 out (?w @ [0])"
  have l: "length fn = 8" "length ext = 3" using it by (auto simp: item_fields_def)
  note wl = item_words(1,2) [OF it]
  have nz: "0 \<notin> set ?w" by (auto dest: set_takeWhileD)
  have len: "strlen ?m1 out = Some (of_nat (length ?w))" using cstr_poke [OF nz] wl(1) by (intro strlen_cstr) simp
  have e0: "?m1 (item + 8) = ext ! 0"
  proof -
    have "?m1 (item + of_nat 8) = m (item + of_nat 8)" using wl(1) by (intro poke_off_buffer [OF off]) simp_all
    also have "\<dots> = (fn @ ext @ [attr]) ! 8" using it unfolding item_fields_def by (auto simp del: of_nat_numeral)
    finally show ?thesis using l by (simp add: nth_append)
  qed
  let ?m2 = "?m1(out + of_nat (length ?w) := 0x2E)" and ?k = "length ?w + 1"
  have m2: "?m2 = poke ?m0 out (?w @ [0x2E])"
  proof
    fix a show "?m2 a = poke ?m0 out (?w @ [0x2E]) a"
      using wl(1) offset_eq_iff [of "length ?w" a out] by (auto simp: poke_def nth_append less_Suc_eq)
  qed
  have copy2: "strcpy_strip ?m2 (out + of_nat ?k) (item + 8) = Some (poke ?m2 (out + of_nat ?k) (?v @ [0]))"
    using wl(1) by (intro item_copy_ext [OF it off _ m2]) simp_all
  have all: "poke ?m2 (out + of_nat ?k) (?v @ [0]) = poke ?m0 out ((?w @ 0x2E # ?v) @ [0])"
    unfolding m2 using poke_append [of "?w @ [0x2E]" "?v @ [0]" ?m0 out] wl by simp
  show ?thesis
    using item_copy_name [OF it off] copy2 all len e0
    by (simp add: fat16_get_full_relative_filename_def layout Let_def item_name_def add.assoc add.commute [of 1])
qed

section \<open>Properties\<close>

text \<open>
  The name the search compares with is the name field up to a space, a dot and the
  extension; but the field of a name of eight characters has no end, and the copy goes on
  into the extension, which so appears twice.
\<close>

theorem fat16_relative_filename:
  assumes "item_fields m item fn ext attr" and "off_buffer out item 12" and "ext ! 0 \<noteq> 0" and "ext ! 0 \<noteq> 0x20"
  shows "\<exists>m'. fat16_get_full_relative_filename item out PHIX_MAX_PATH m = Some m' \<and>
     cstr m' out ((if stops fn then up_to_space fn else fn @ up_to_space (ext @ [attr])) @
       [0x2E] @ up_to_space (ext @ [attr])) \<and> (\<forall>a. 108 \<le> unat (a - out) \<longrightarrow> m' a = m a)"
proof (intro exI conjI)
  let ?m = "poke (memset m out 0 PHIX_MAX_PATH) out (item_name fn ext attr @ [0])"
  show "fat16_get_full_relative_filename item out PHIX_MAX_PATH m = Some ?m" using assms(1,2) by (rule relative_filename)
  have n: "item_name fn ext attr =
      (if stops fn then up_to_space fn else fn @ up_to_space (ext @ [attr])) @ [0x2E] @ up_to_space (ext @ [attr])"
    using assms(3,4) by (auto simp: item_name_def stops_def takeWhile_append)
  have "0 \<notin> set (item_name fn ext attr)" by (auto simp: item_name_def dest: set_takeWhileD)
  then have "cstr ?m out (item_name fn ext attr)" using item_words(4) [OF assms(1)] by (intro cstr_poke) simp_all
  then show "cstr ?m out ((if stops fn then up_to_space fn else fn @ up_to_space (ext @ [attr])) @
       [0x2E] @ up_to_space (ext @ [attr]))" by (simp only: n)
  show "\<forall>a. 108 \<le> unat (a - out) \<longrightarrow> ?m a = m a"
    using item_words(4) [OF assms(1)] by (simp add: poke_out memset_out PHIX_MAX_PATH_def word_less_nat_alt)
qed

text \<open>The directory entry of \<open>SHELLABC.BIN\<close>.\<close>

definition item_example :: mem where
  "item_example = poke (\<lambda>_. 0) 0x30000
     ([0x53, 0x48, 0x45, 0x4C, 0x4C, 0x41, 0x42, 0x43] @ [0x42, 0x49, 0x4E] @ [0x20])"

theorem fat16_relative_filename_witness:
  "\<exists>m'. fat16_get_full_relative_filename 0x30000 0x40000 PHIX_MAX_PATH item_example = Some m' \<and>
     cstr m' 0x40000 ([0x53, 0x48, 0x45, 0x4C, 0x4C, 0x41, 0x42, 0x43] @ [0x42, 0x49, 0x4E] @
       [0x2E] @ [0x42, 0x49, 0x4E])"
proof -
  let ?fn = "[0x53, 0x48, 0x45, 0x4C, 0x4C, 0x41, 0x42, 0x43] :: u8 list" and ?ext = "[0x42, 0x49, 0x4E] :: u8 list"
  have "item_example (0x30000 + of_nat i) = (?fn @ ?ext @ [0x20]) ! i" if "i < 12" for i
    unfolding item_example_def using that by (intro poke_in) simp_all
  then have it: "item_fields item_example 0x30000 ?fn ?ext 0x20" by (simp add: item_fields_def stops_def)
  have "108 \<le> unat (0x30000 + of_nat i - 0x40000 :: u32)" if "i < 12" for i
  proof -
    have u: "unat (0x30000 + of_nat i :: u32) = 0x30000 + i" using that by (subst unat_add_less) (simp_all add: unat_of_nat32)
    then show ?thesis using low_offset [of "0x30000 + of_nat i" "0x40000" 108] that
      by (cases "108 \<le> unat (0x30000 + of_nat i - 0x40000 :: u32)") auto
  qed
  then have off: "off_buffer 0x40000 0x30000 12" by (simp add: off_buffer_def)
  from fat16_relative_filename [OF it off] show ?thesis by (auto simp: stops_def)
qed

text \<open>The disk of a mounted file system: the private data at \<open>pr\<close>, with sectors of 512 bytes.\<close>

definition fat_mounted :: "env \<Rightarrow> addr \<Rightarrow> mem \<Rightarrow> bool" where
  "fat_mounted e pr m = (load32 m (disk_fs_private (disk0 e)) = pr \<and> load32 m (disk_sector_size (disk0 e)) = 512)"

text \<open>A mounted disk for the witnesses: 200 reserved sectors, 128 sectors per cluster.\<close>

definition fat_ram :: mem where
  "fat_ram = store32 (store32 (store32 (store32 ((\<lambda>_. 0)(0x3100E := 200, 0x3100D := 128))
     0x20010 0x31000) 0x20004 512) 0x31054 0x30000) (stream_disk 0x30000) 0x20000"

definition fat_state :: machine where
  "fat_state = \<lparr>ram = fat_ram, cr3 = 0, io = [], cr0 = 0, gdt_register = (0, 0), idt_register = (0, 0), task_register = 0\<rparr>"

lemma fat_ram_values:
  "load32 fat_ram 0x20010 = 0x31000" "load32 fat_ram 0x20004 = 512" "load32 fat_ram 0x31054 = 0x30000"
  "load32 fat_ram (stream_disk 0x30000) = 0x20000" "load32 fat_ram (stream_pos 0x30000) = 0"
  "fat_ram 0x3100E = 200" "fat_ram 0x3100F = 0" "fat_ram 0x3100D = 128"
  by (simp_all add: fat_ram_def load32_store32_apart layout) (simp_all add: load32_def store32_def)

lemma fat_state_mounted: "fat_mounted stream_env 0x31000 (ram fat_state)"
  using fat_ram_values by (simp add: fat_mounted_def fat_state_def stream_env_def env_example_def layout)

lemma fat_state_at: "stream_at stream_env of_nat 0x30000 fat_state 0"
proof -
  have "8 \<le> unat (a - 0x30000)" if "sector_buffer stream_env a" for a
    using stream_env_buffers [OF that] low_offset [of a "0x30000" 8] by (cases "8 \<le> unat (a - 0x30000)") auto
  then show ?thesis using fat_ram_values
    by (simp add: stream_at_def fat_state_def stream_env_def ready_drive env_example_def)
qed

text \<open>
  The entry of cluster \<open>c\<close> lies \<open>2 * c\<close> bytes behind the reserved sectors, but the code
  multiplies: it reads the two bytes at \<open>512 * reserved * (2 * c)\<close>, which for every cluster
  of a file lie far behind the table.
\<close>

theorem fat16_get_fat_entry_position:
  assumes mnt: "fat_mounted e pr (ram s)" and st: "load32 (ram s) (fat_read_stream pr) = st"
    and at: "stream_at e img st s p" and pos: "512 * r * (2 * c) + 2 < 2147483648"
    and res: "load16 (ram s) (reserved_sectors (private_header pr)) = of_nat r" "r < 65536"
    and free: "\<And>i. i < 2 \<Longrightarrow> \<not> stream_own e st (result_local e + of_nat i)"
  shows "\<exists>s'. fat16_get_fat_entry e (disk0 e) (of_nat c) s = Some (data_word img (512 * r * (2 * c)), s')"
proof -
  let ?q = "512 * r * (2 * c)"
  have r: "ucast (load16 (ram s) (reserved_sectors (private_header pr))) = (of_nat r :: u32)"
    using res by (simp add: unsigned_of_nat take_bit_nat_eq_self)
  have q: "of_nat r * 512 * (of_nat c * 2) = (of_nat ?q :: u32)" by simp
  let ?s1 = "stream_seek st ?q s" and ?m1 = "snd (diskstreamer_seek st (of_nat ?q) (ram s))"
  let ?s2 = "s\<lparr>ram := store16 ?m1 (result_local e) 0\<rparr>"
  have at1: "stream_at e img st ?s1 ?q" using at pos by (intro ds.seek_at) simp_all
  have out: "result_local e + j \<noteq> st + i" if "i < 8" "j < 2" for i j
  proof
    assume a: "result_local e + j = st + i"
    have "result_local e + j - st = i" unfolding a by simp
    then have "unat (result_local e + of_nat (unat j) - st) < 8" using that by (simp add: word_less_nat_alt)
    then show False using free [of "unat j"] that by (simp add: stream_own_def word_less_nat_alt)
  qed
  have keep: "load32 (store16 ?m1 (result_local e) 0) (st + i) = load32 ?m1 (st + i)" if "i \<le> 4" for i
  proof (rule load32_same)
    fix k :: u32 assume "k < 4"
    then have "i + k < 8" using that by (simp add: word_less_nat_alt word_le_nat_alt unat_add_less)
    from out [OF this, of 0] out [OF this, of 1] show "store16 ?m1 (result_local e) 0 (st + i + k) = ?m1 (st + i + k)"
      by (auto simp: store16_def add.assoc)
  qed
  have at2: "stream_at e img st ?s2 ?q"
    using at1 keep [of 0] keep [of 4] by (simp add: stream_at_def stream_seek_def layout)
  have "?q + 2 < 2147483648" using pos by simp
  from diskstreamer_read_img [OF at2 this free, of 0] obtain s' where
    rd: "diskstreamer_read e 0 st (result_local e) (of_nat 2) ?s2 = Some (0, s')"
      "\<And>a. \<not> stream_own e st a \<Longrightarrow> ram s' a = poke (ram ?s2) (result_local e) (img_bytes img ?q 2) a" by blast
  have b: "ram s' (result_local e + of_nat i) = img (?q + i)" if "i < 2" for i
    using rd(2) [OF free [OF that]] that by (simp add: poke_in)
  have w: "load16 (ram s') (result_local e) = data_word img ?q"
    using b [of 0] b [of 1] by (simp add: load16_def data_word_def)
  have "fat16_get_fat_entry e (disk0 e) (of_nat c) s = Some (data_word img ?q, s')"
    using mnt st r q rd(1) w
    by (simp add: fat16_get_fat_entry_def fat_mounted_def fat16_get_first_fat_sector_def
        PHIX_FAT16_ENTRY_SIZE_def diskstreamer_seek_def Let_def mult.assoc mult.commute mult.left_commute)
  then show ?thesis by blast
qed

theorem fat16_get_fat_entry_position_witness:
  "\<exists>s'. fat16_get_fat_entry stream_env 0x20000 3 fat_state = Some (256, s')"
proof -
  have d: "disk0 stream_env = 0x20000" "result_local stream_env = 0x501200" by (simp_all add: stream_env_def env_example_def)
  have f: "\<not> stream_own stream_env 0x30000 (result_local stream_env + of_nat i)" if "i < 2" for i
  proof -
    have u: "unat (0x501200 + of_nat i :: u32) = 0x501200 + i" using that by (subst unat_add_less) (simp_all add: unat_of_nat32)
    have "\<not> unat (0x501200 + of_nat i - 0x30000 :: u32) < 8"
      using low_offset [of "0x501200 + of_nat i" "0x30000" 8] u by auto
    with stream_env_buffers [of "0x501200 + of_nat i"] u that show ?thesis by (auto simp: stream_own_def d)
  qed
  have "load32 (ram fat_state) (fat_read_stream 0x31000) = 0x30000"
    "load16 (ram fat_state) (reserved_sectors (private_header 0x31000)) = of_nat 200"
    using fat_ram_values by (simp_all add: fat_state_def layout load16_def)
  from fat16_get_fat_entry_position [OF fat_state_mounted this(1) fat_state_at _ this(2) _ f, of 3]
  show ?thesis by (simp add: d data_word_def)
qed

text \<open>
  C39. Of a chain of clusters only the first link is followed: every offset behind the first
  cluster leads to the same, the second, cluster.
\<close>

theorem fat16_second_cluster_only:
  assumes "fat_mounted e pr (ram s)" and "ram s (sectors_per_cluster (private_header pr)) = of_nat k" and "0 < k" and "k < 256"
    and "512 * k \<le> o1" and "512 * k \<le> o2" and "o1 < 2147483648" and "o2 < 2147483648"
  shows "fat16_get_cluster_for_offset e (disk0 e) c (of_nat o1) s = fat16_get_cluster_for_offset e (disk0 e) c (of_nat o2) s"
proof -
  have k: "ucast (ram s (sectors_per_cluster (private_header pr))) * 512 = (of_nat (512 * k) :: u32)"
    using assms(2,4) by (simp add: unsigned_of_nat take_bit_nat_eq_self)
  have kn: "(of_nat (512 * k) :: u32) \<noteq> 0" "sint (of_nat (512 * k) :: i32) = int (512 * k)"
    using word_of_nat_inj [of "512 * k" 0] assms(3,4) by (simp_all add: sint_of_nat del: of_nat_mult)
  have ahead: "0 < sint (int_div (of_nat x) (of_nat (512 * k)) :: i32)" "\<not> div_faults (of_nat x) (of_nat (512 * k))"
    if "512 * k \<le> x" "x < 2147483648" for x
  proof -
    have u: "unat (of_nat x :: i32) = x" "unat (of_nat (512 * k) :: i32) = 512 * k"
      using that assms(4) by (simp_all add: unat_of_nat32 del: of_nat_mult)
    have "int_div (of_nat x) (of_nat (512 * k)) = (of_nat (x div (512 * k)) :: i32)"
      using that u assms(4) by (subst int_div_nonneg) simp_all
    moreover have "0 < x div (512 * k)" using that(1) assms(3) by (simp add: div_greater_zero_iff)
    moreover have "x div (512 * k) < 2147483648" using that(2) by (meson div_le_dividend le_less_trans)
    ultimately show "0 < sint (int_div (of_nat x) (of_nat (512 * k)) :: i32)" by (simp add: sint_of_nat)
    have "sint (of_nat x :: i32) = int x" using that(2) by (rule sint_of_nat)
    then show "\<not> div_faults (of_nat x) (of_nat (512 * k))" using kn by (simp add: div_faults_def)
  qed
  show ?thesis
    using assms(1) k ahead [OF assms(5,7)] ahead [OF assms(6,8)]
    by (simp add: fat16_get_cluster_for_offset_def fat_mounted_def Let_def)
qed

theorem fat16_second_cluster_only_witness:
  "fat16_get_cluster_for_offset stream_env 0x20000 3 70000 fat_state =
     fat16_get_cluster_for_offset stream_env 0x20000 3 1000000 fat_state"
proof -
  have "ram fat_state (sectors_per_cluster (private_header 0x31000)) = of_nat 128"
    using fat_ram_values by (simp add: fat_state_def layout)
  from fat16_second_cluster_only [OF fat_state_mounted this, of 70000 1000000 3] show ?thesis
    by (simp add: stream_env_def env_example_def)
qed

section \<open>Searching a directory\<close>

text \<open>
  The search in a directory, against the list of its items: a name, an extension and the
  attributes each. Nothing but the buffer of the search changes on the way.
\<close>

type_synonym dir_item = "u8 list \<times> u8 list \<times> u8"

definition item_is :: "mem \<Rightarrow> addr \<Rightarrow> addr \<Rightarrow> dir_item \<Rightarrow> bool" where
  "item_is m out p it = (item_fields m p (fst it) (fst (snd it)) (snd (snd it)) \<and> off_buffer out p 32)"

definition directory_is :: "mem \<Rightarrow> addr \<Rightarrow> addr \<Rightarrow> addr \<Rightarrow> dir_item list \<Rightarrow> bool" where
  "directory_is m out d base items =
     (load32 m (directory_total d) = of_nat (length items) \<and> load32 m (directory_item d) = base \<and>
      length items < 2 ^ 27 \<and> off_buffer out d 8 \<and>
      (\<forall>k < length items. item_is m out (base + of_nat k * 32) (items ! k)))"

definition name_is :: "mem \<Rightarrow> addr \<Rightarrow> addr \<Rightarrow> u8 list \<Rightarrow> bool" where
  "name_is m out p nm = (cstr m p nm \<and> length nm < 2 ^ 31 \<and> off_buffer out p (length nm + 1))"

definition name_matches :: "u8 list \<Rightarrow> dir_item \<Rightarrow> bool" where
  "name_matches nm it = (map to_lower (item_name (fst it) (fst (snd it)) (snd (snd it))) = map to_lower nm)"

fun first_match :: "u8 list \<Rightarrow> dir_item list \<Rightarrow> nat option" where
  "first_match nm [] = None"
| "first_match nm (it # items) = (if name_matches nm it then Some 0 else map_option Suc (first_match nm items))"

lemma first_match_Some:
  "first_match nm items = Some k \<Longrightarrow> k < length items \<and> name_matches nm (items ! k)"
  by (induction items arbitrary: k) (auto split: if_splits)

definition buffer_frame :: "addr \<Rightarrow> mem \<Rightarrow> mem \<Rightarrow> bool" where
  "buffer_frame out m m' = (\<forall>a. 108 \<le> unat (a - out) \<longrightarrow> m' a = m a)"

lemma buffer_frame_byte: "buffer_frame out m m' \<Longrightarrow> off_buffer out p n \<Longrightarrow> i < n \<Longrightarrow> m' (p + of_nat i) = m (p + of_nat i)"
  by (simp add: buffer_frame_def off_buffer_def)

lemma buffer_frame_trans: "buffer_frame out m m' \<Longrightarrow> buffer_frame out m' m'' \<Longrightarrow> buffer_frame out m m''"
  by (simp add: buffer_frame_def)

lemma buffer_frame_load32:
  assumes "buffer_frame out m m'" and "off_buffer out p n" and "i + 4 \<le> n"
  shows "load32 m' (p + of_nat i) = load32 m (p + of_nat i)"
proof (rule load32_same)
  fix j :: u32 assume "j < 4"
  then have "i + unat j < n" using assms(3) by (simp add: word_less_nat_alt)
  from buffer_frame_byte [OF assms(1,2) this] show "m' (p + of_nat i + j) = m (p + of_nat i + j)"
    by (simp add: add.assoc)
qed

lemma off_buffer_less: "off_buffer out p n \<Longrightarrow> k \<le> n \<Longrightarrow> off_buffer out p k"
  by (simp add: off_buffer_def)

lemma off_buffer_low: "unat p + n \<le> unat out \<Longrightarrow> unat out + 108 < 4294967296 \<Longrightarrow> off_buffer out p n"
  unfolding off_buffer_def
proof (intro allI impI, rule ccontr)
  fix i assume a: "unat p + n \<le> unat out" "unat out + 108 < 4294967296" "i < n" "\<not> 108 \<le> unat (p + of_nat i - out)"
  then have "unat (p + of_nat i) = unat p + i" by (subst unat_add_less) (simp_all add: unat_of_nat32)
  with low_offset [of "p + of_nat i" out 108] a show False by simp
qed

lemma item_is_frame: "buffer_frame out m m' \<Longrightarrow> item_is m out p it \<Longrightarrow> item_is m' out p it"
  using buffer_frame_byte [of out m m' p 32] by (simp add: item_is_def item_fields_def)

lemma directory_is_frame:
  assumes "buffer_frame out m m'" and "directory_is m out d base items"
  shows "directory_is m' out d base items"
  using assms(2) buffer_frame_load32 [OF assms(1), of d 8 0] buffer_frame_load32 [OF assms(1), of d 8 4]
    item_is_frame [OF assms(1)]
  by (simp add: directory_is_def layout)

lemma name_is_frame:
  assumes "buffer_frame out m m'" and "name_is m out p nm"
  shows "name_is m' out p nm"
  using assms(2) buffer_frame_byte [OF assms(1), of p "length nm + 1"]
  by (simp add: name_is_def cstr_iff)

text \<open>One comparison: the name of the item is written to the buffer.\<close>

lemma find_compare:
  assumes it: "item_is m out p it" and nm: "name_is m out name nm"
  obtains m' where "fat16_get_full_relative_filename p out PHIX_MAX_PATH m = Some m'"
    and "buffer_frame out m m'" and "istrncmp m' out name PHIX_MAX_PATH = 0 \<longleftrightarrow> name_matches nm it"
proof -
  obtain fn ext attr where i: "it = (fn, ext, attr)" by (cases it)
  have f: "item_fields m p fn ext attr" "off_buffer out p 12" using it off_buffer_less [of out p 32 12] by (simp_all add: item_is_def i)
  let ?w = "item_name fn ext attr"
  let ?m = "poke (memset m out 0 PHIX_MAX_PATH) out (?w @ [0])"
  have len: "length ?w \<le> 15" by (rule item_words(4) [OF f(1)])
  have "?m a = m a" if "108 \<le> unat (a - out)" for a
  proof -
    have "?m a = memset m out 0 PHIX_MAX_PATH a" using that len by (intro poke_out) simp
    also have "\<dots> = m a" using that by (intro memset_out) (simp add: PHIX_MAX_PATH_def word_less_nat_alt)
    finally show ?thesis .
  qed
  then have fr: "buffer_frame out m ?m" by (simp add: buffer_frame_def)
  have "0 \<notin> set ?w" by (auto simp: item_name_def dest: set_takeWhileD)
  then have w: "cstr ?m out ?w" using len by (intro cstr_poke) simp_all
  have n: "cstr ?m name nm" using name_is_frame [OF fr nm] by (simp add: name_is_def)
  have u: "unat PHIX_MAX_PATH = 108" by (simp add: PHIX_MAX_PATH_def)
  have "istrncmp ?m out name PHIX_MAX_PATH = 0 \<longleftrightarrow> map to_lower (take 108 ?w) = map to_lower (take 108 nm)"
    using istrncmp_cstr [OF w n] by (simp only: u)
  also have "\<dots> \<longleftrightarrow> map to_lower ?w = map to_lower nm"
  proof
    assume e: "map to_lower (take 108 ?w) = map to_lower (take 108 nm)"
    then have "length (take 108 ?w) = length (take 108 nm)" by (rule map_eq_imp_length_eq)
    then have "length nm < 108" using len by simp
    with e len show "map to_lower ?w = map to_lower nm" by simp
  next
    assume "map to_lower ?w = map to_lower nm"
    then show "map to_lower (take 108 ?w) = map to_lower (take 108 nm)" by (simp flip: take_map)
  qed
  finally show thesis using that [of ?m] relative_filename [OF f] fr by (simp add: name_matches_def i)
qed

lemma find_loop_spec:
  assumes "directory_is (ram s) (name_local e) d base items" and "name_is (ram s) (name_local e) name nm"
    and "items = pre @ rest"
  shows "\<exists>m'. buffer_frame (name_local e) (ram s) m' \<and> fat16_find_loop e disk d name (of_nat (length pre)) s =
     (case first_match nm rest of None \<Rightarrow> Some (0, s\<lparr>ram := m'\<rparr>)
      | Some k \<Rightarrow> fat16_new_fat_item_for_directory_item e disk (base + of_nat (length pre + k) * 32) (s\<lparr>ram := m'\<rparr>))"
  using assms
proof (induction rest arbitrary: pre s)
  case Nil
  then have "fat16_find_loop e disk d name (of_nat (length pre)) s = Some (0, s)"
    by (subst fat16_find_loop.simps) (simp add: directory_is_def)
  then show ?case by (intro exI [of _ "ram s"]) (simp add: buffer_frame_def)
next
  case (Cons it rest)
  let ?out = "name_local e" and ?p = "base + of_nat (length pre) * 32"
  note d = Cons.prems(1)
  have tot: "load32 (ram s) (directory_total d) = of_nat (length items)" "load32 (ram s) (directory_item d) = base"
    "length items < 2 ^ 27" using d by (simp_all add: directory_is_def)
  have lt: "length pre < length items" using Cons.prems(3) by simp
  then have less: "(of_nat (length pre) :: u32) < of_nat (length items)"
    using tot(3) by (simp add: word_less_nat_alt unat_of_nat32)
  have "item_is (ram s) ?out ?p (items ! length pre)" using d lt unfolding directory_is_def by blast
  then have it: "item_is (ram s) ?out ?p it" by (simp add: Cons.prems(3))
  obtain m' where c: "fat16_get_full_relative_filename ?p ?out PHIX_MAX_PATH (ram s) = Some m'"
    "buffer_frame ?out (ram s) m'" "istrncmp m' ?out name PHIX_MAX_PATH = 0 \<longleftrightarrow> name_matches nm it"
    by (rule find_compare [OF it Cons.prems(2)])
  have d': "directory_is m' ?out d base items" by (rule directory_is_frame [OF c(2) d])
  have n': "name_is m' ?out name nm" by (rule name_is_frame [OF c(2) Cons.prems(2)])
  have b': "load32 m' (directory_item d) = base" using d' by (simp add: directory_is_def)
  show ?case
  proof (cases "name_matches nm it")
    case True
    then have "fat16_find_loop e disk d name (of_nat (length pre)) s =
        fat16_new_fat_item_for_directory_item e disk ?p (s\<lparr>ram := m'\<rparr>)"
      using less c b' tot by (subst fat16_find_loop.simps) (simp add: sizeof_directory_item_def Let_def)
    with True c(2) show ?thesis by auto
  next
    case False
    let ?s = "s\<lparr>ram := m'\<rparr>"
    have step: "fat16_find_loop e disk d name (of_nat (length pre)) s =
        fat16_find_loop e disk d name (of_nat (length (pre @ [it]))) ?s"
      using False less c b' tot
      by (subst fat16_find_loop.simps) (simp add: sizeof_directory_item_def Let_def add.commute)
    from Cons.IH [of ?s "pre @ [it]"] d' n' Cons.prems(3) obtain m'' where
      "buffer_frame ?out m' m''"
      and "fat16_find_loop e disk d name (of_nat (length (pre @ [it]))) ?s =
         (case first_match nm rest of None \<Rightarrow> Some (0, ?s\<lparr>ram := m''\<rparr>)
          | Some k \<Rightarrow> fat16_new_fat_item_for_directory_item e disk (base + of_nat (length (pre @ [it]) + k) * 32) (?s\<lparr>ram := m''\<rparr>))"
      by auto
    with step False show ?thesis
      by (intro exI [of _ m''])
        (auto simp: add.left_commute [of 32] intro: buffer_frame_trans [OF c(2)] split: option.splits)
  qed
qed

text \<open>The item made for a file: a copy of the 32 bytes behind a tagged pointer.\<close>

definition file_item :: "mem \<Rightarrow> addr \<Rightarrow> (nat \<Rightarrow> u8) \<Rightarrow> bool" where
  "file_item m f bs = (load32 m (fat_item_type f) = FAT_ITEM_TYPE_FILE \<and>
     (\<forall>i < 32. m (load32 m (fat_item_item f) + of_nat i) = bs i))"

lemma new_file_item:
  assumes plain: "ram s (item_attributes item) AND FAT_FILE_SUBDIRECTORY = 0"
    and pages: "2 \<le> card (kheap_avail (ram s))" and safe: "\<And>i. i < 32 \<Longrightarrow> kheap_safe (ram s) (item + of_nat i)"
  obtains f s' where "fat16_new_fat_item_for_directory_item e disk item s = Some (f, s')" and "f \<noteq> 0"
    and "file_item (ram s') f (\<lambda>i. ram s (item + of_nat i))" and "\<And>a. kheap_safe (ram s) a \<Longrightarrow> ram s' a = ram s a"
    and "{f, load32 (ram s') (fat_item_item f)} \<subseteq> kheap_avail (ram s)"
proof -
  let ?A = "kheap_avail (ram s)"
  have sz: "0 < unat sizeof_fat_item" "unat sizeof_fat_item \<le> 4096"
    "0 < unat sizeof_directory_item" "unat sizeof_directory_item \<le> 4096"
    by (simp_all add: sizeof_fat_item_def sizeof_directory_item_def)
  have ne: "?A \<noteq> {}" using pages by auto
  obtain f m1 where
    f: "kzalloc sizeof_fat_item (ram s) = (f, m1)" "f \<in> ?A" "f \<in> kheap_pool" "f \<noteq> 0" "kheap_avail m1 = ?A - {f}"
      "\<And>a. a - f < sizeof_fat_item \<Longrightarrow> m1 a = 0" "\<And>a. kheap_safe (ram s) a \<Longrightarrow> m1 a = ram s a" using kzalloc_safe [OF sz(1,2) ne] by blast
  let ?m2 = "store32 m1 (f + 4) FAT_ITEM_TYPE_FILE"
  have av2: "kheap_avail ?m2 = ?A - {f}" using kheap_avail_field [OF f(3), of 4] f(5) by simp
  have ne2: "kheap_avail ?m2 \<noteq> {}" unfolding av2
  proof
    assume "?A - {f} = {}"
    then have "?A = {f}" using f(2) by auto
    with pages show False by simp
  qed
  obtain c m3 where c: "kzalloc sizeof_directory_item ?m2 = (c, m3)" "c \<in> ?A - {f}" "c \<in> kheap_pool" "c \<noteq> 0"
      "kheap_avail m3 = ?A - {f} - {c}"
      "\<And>a. a - c < sizeof_directory_item \<Longrightarrow> m3 a = 0" "\<And>a. kheap_safe ?m2 a \<Longrightarrow> m3 a = ?m2 a"
    using kzalloc_safe [OF sz(3,4) ne2] unfolding av2 by blast
  let ?m4 = "memcpy m3 c item sizeof_directory_item"
  let ?m5 = "store32 ?m4 (f + 0) c"
  have m2: "?m2 a = ram s a" "kheap_safe ?m2 a" if "kheap_safe (ram s) a" for a
  proof -
    have p: "a div 4096 \<noteq> f div 4096" using that f(2) by (simp add: kheap_safe_def)
    have "a \<noteq> f + 4 + j" if "j < 4" for j using kheap_field(1) [OF f(3) _ that, of 4] p by auto
    from this [of 0] this [of 1] this [of 2] this [of 3] show "?m2 a = ram s a"
      using f(7) [OF that] by (simp add: store32_def)
    show "kheap_safe ?m2 a" using that av2 by (auto simp: kheap_safe_def)
  qed
  have item: "m3 (item + of_nat i) = ram s (item + of_nat i)" if "i < 32" for i
    using m2 [OF safe [OF that]] c(7) by simp
  have cr: "(c + of_nat i) div 4096 = c div 4096" if "i < 32" for i
    using kh.page_offset [OF c(3), of "of_nat i"] that by (simp add: word_less_nat_alt unat_of_nat32)
  have other: "c div 4096 \<noteq> f div 4096" using kh.pool_same_page [OF c(3) f(3)] c(2) by auto
  have cpy: "?m4 a = (if a - c < 32 then m3 (item + (a - c)) else m3 a)" for a
  proof -
    have "item + of_nat i \<noteq> c + of_nat j" if "i < 32" "j < 32" for i j
      using safe [OF that(1)] cr [OF that(2)] c(2) by (auto simp: kheap_safe_def)
    then show ?thesis by (subst memcpy_eq) (auto simp: sizeof_directory_item_def)
  qed
  have off: "\<not> a - c < 32" if "a div 4096 \<noteq> c div 4096" for a
    using cr [of "unat (a - c)"] that by (auto simp: word_less_nat_alt)
  have byte: "?m5 (c + of_nat i) = ram s (item + of_nat i)" if "i < 32" for i
  proof -
    have "?m5 (c + of_nat i) = ?m4 (c + of_nat i)"
      using c(2) by (intro kheap_field_other [OF f(3) c(3) _ _ cr [OF that]]) auto
    also have "\<dots> = m3 (item + of_nat i)" using that by (simp add: cpy word_less_nat_alt unat_of_nat32)
    finally show ?thesis using item [OF that] by simp
  qed
  have "load32 ?m5 (f + 4) = load32 ?m4 (f + 4)" by (intro load32_store32_apart) simp_all
  also have "\<dots> = load32 m3 (f + 4)"
  proof (rule load32_same)
    fix k :: u32 assume "k < 4"
    then have "(f + 4 + k) div 4096 = f div 4096" by (intro kheap_field(1) [OF f(3)]) simp_all
    then show "?m4 (f + 4 + k) = m3 (f + 4 + k)" using off other by (simp add: cpy)
  qed
  also have "\<dots> = load32 ?m2 (f + 4)" using c(7) f(3) av2 by (intro kheap_safe_load) simp_all
  finally have kind: "load32 ?m5 (fat_item_type f) = FAT_ITEM_TYPE_FILE" by (simp add: layout)
  have ptr: "load32 ?m5 (fat_item_item f) = c" by (simp add: layout)
  have frame: "?m5 a = ram s a" if "kheap_safe (ram s) a" for a
  proof -
    have p: "a div 4096 \<noteq> f div 4096" "a div 4096 \<noteq> c div 4096" using that f(2) c(2) by (auto simp: kheap_safe_def)
    have "a \<noteq> f + 0 + j" if "j < 4" for j using kheap_field(1) [OF f(3) _ that, of 0] p by auto
    from this [of 0] this [of 1] this [of 2] this [of 3] have "?m5 a = ?m4 a" by (simp add: store32_def)
    also have "\<dots> = ram s a" using off [OF p(2)] c(7) m2 [OF that] by (simp add: cpy)
    finally show ?thesis .
  qed
  have attr: "m1 (item + 11) = ram s (item + 11)" using f(7) safe [of 11] by simp
  have res: "fat16_new_fat_item_for_directory_item e disk item s = Some (f, s\<lparr>ram := ?m5\<rparr>)"
    using plain f(1,4) c(1,4) attr
    by (simp add: fat16_new_fat_item_for_directory_item_def fat16_clone_directory_item_def layout Let_def)
  show thesis
  proof (rule that [OF res f(4)])
    show "file_item (ram (s\<lparr>ram := ?m5\<rparr>)) f (\<lambda>i. ram s (item + of_nat i))"
      using kind ptr byte by (simp add: file_item_def)
    show "ram (s\<lparr>ram := ?m5\<rparr>) a = ram s a" if "kheap_safe (ram s) a" for a using frame [OF that] by simp
    show "{f, load32 (ram (s\<lparr>ram := ?m5\<rparr>)) (fat_item_item f)} \<subseteq> kheap_avail (ram s)" using ptr f(2) c(2) by simp
  qed
qed

lemma find_item_spec:
  assumes dir: "directory_is (ram s) (name_local e) d base items" and nm: "name_is (ram s) (name_local e) name nm"
    and heap: "2 \<le> card (kheap_avail (ram s))" "\<And>a. kheap_meta a \<Longrightarrow> 108 \<le> unat (a - name_local e)"
    and k: "first_match nm items = Some k" and plain: "snd (snd (items ! k)) AND FAT_FILE_SUBDIRECTORY = 0"
    and safe: "\<And>i. i < 32 \<Longrightarrow> kheap_safe (ram s) (base + of_nat k * 32 + of_nat i)"
  obtains f s' where "fat16_find_item_in_directory e disk d name s = Some (f, s')" and "f \<noteq> 0"
    and "file_item (ram s') f (\<lambda>i. ram s (base + of_nat k * 32 + of_nat i))"
    and "\<And>a. kheap_safe (ram s) a \<Longrightarrow> 108 \<le> unat (a - name_local e) \<Longrightarrow> ram s' a = ram s a"
    and "{f, load32 (ram s') (fat_item_item f)} \<subseteq> kheap_avail (ram s)"
proof -
  let ?p = "base + of_nat k * 32"
  from find_loop_spec [OF dir nm, of "[]" items disk] k obtain m' where
    fr: "buffer_frame (name_local e) (ram s) m'"
    and res: "fat16_find_item_in_directory e disk d name s =
      fat16_new_fat_item_for_directory_item e disk ?p (s\<lparr>ram := m'\<rparr>)"
    by (auto simp: fat16_find_item_in_directory_def)
  have av: "kheap_avail m' = kheap_avail (ram s)"
    using fr heap(2) by (intro kheap_avail_local) (simp add: buffer_frame_def)
  have same: "kheap_safe m' a \<longleftrightarrow> kheap_safe (ram s) a" for a by (simp add: kheap_safe_def av)
  have it: "item_is (ram s) (name_local e) ?p (items ! k)"
    using dir first_match_Some [OF k] unfolding directory_is_def by blast
  have byte: "m' (?p + of_nat i) = ram s (?p + of_nat i)" if "i < 32" for i
    using buffer_frame_byte [OF fr _ that] it by (simp add: item_is_def)
  have "ram s (?p + of_nat 11) = snd (snd (items ! k))"
    using it unfolding item_is_def item_fields_def by (auto simp: nth_append simp del: of_nat_numeral)
  then have attr: "ram (s\<lparr>ram := m'\<rparr>) (item_attributes ?p) AND FAT_FILE_SUBDIRECTORY = 0"
    using byte [of 11] plain by (simp add: layout)
  have pages: "2 \<le> card (kheap_avail (ram (s\<lparr>ram := m'\<rparr>)))"
    and safe': "\<And>i. i < 32 \<Longrightarrow> kheap_safe (ram (s\<lparr>ram := m'\<rparr>)) (?p + of_nat i)"
    using heap(1) safe by (simp_all add: av same)
  obtain f s' where f: "fat16_new_fat_item_for_directory_item e disk ?p (s\<lparr>ram := m'\<rparr>) = Some (f, s')" "f \<noteq> 0"
    "file_item (ram s') f (\<lambda>i. ram (s\<lparr>ram := m'\<rparr>) (?p + of_nat i))"
    "\<And>a. kheap_safe (ram (s\<lparr>ram := m'\<rparr>)) a \<Longrightarrow> ram s' a = ram (s\<lparr>ram := m'\<rparr>) a"
    "{f, load32 (ram s') (fat_item_item f)} \<subseteq> kheap_avail (ram (s\<lparr>ram := m'\<rparr>))"
    using new_file_item [OF attr pages safe', of e disk] by blast
  have "file_item (ram s') f (\<lambda>i. ram s (?p + of_nat i))" using f(3) byte by (simp add: file_item_def)
  with that f(1,2,4,5) fr res same show thesis by (simp add: buffer_frame_def av)
qed

text \<open>
  C7. The search in a directory gives nothing when no item has the name, up to the case of
  letters, and otherwise a copy of the first item that has it, when that is a file and two
  pages are free.
\<close>

theorem fat16_find_item:
  assumes "directory_is (ram s) (name_local e) d base items" and "name_is (ram s) (name_local e) name nm"
    and "2 \<le> card (kheap_avail (ram s))" and "\<And>a. kheap_meta a \<Longrightarrow> 108 \<le> unat (a - name_local e)"
    and "\<And>k. first_match nm items = Some k \<Longrightarrow> snd (snd (items ! k)) AND FAT_FILE_SUBDIRECTORY = 0"
    and "\<And>k i. first_match nm items = Some k \<Longrightarrow> i < 32 \<Longrightarrow> kheap_safe (ram s) (base + of_nat k * 32 + of_nat i)"
  shows "\<exists>f s'. fat16_find_item_in_directory e disk d name s = Some (f, s') \<and>
     (case first_match nm items of None \<Rightarrow> f = 0
      | Some k \<Rightarrow> f \<noteq> 0 \<and> file_item (ram s') f (\<lambda>i. ram s (base + of_nat k * 32 + of_nat i)))"
proof (cases "first_match nm items")
  case None
  with find_loop_spec [OF assms(1,2), of "[]" items disk] show ?thesis
    by (auto simp: fat16_find_item_in_directory_def)
next
  case (Some k)
  obtain f s' where "fat16_find_item_in_directory e disk d name s = Some (f, s')" "f \<noteq> 0"
    "file_item (ram s') f (\<lambda>i. ram s (base + of_nat k * 32 + of_nat i))"
    by (rule find_item_spec [OF assms(1-4) Some assms(5) [OF Some] assms(6) [OF Some], of disk]) (assumption | rule that)+
  with Some show ?thesis by auto
qed

text \<open>A directory with \<open>BLANK.BIN\<close> and \<open>SHELL.BIN\<close>, and the path \<open>shell.bin/\<close> below it.\<close>

definition find_items :: "dir_item list" where
  "find_items = [([0x42, 0x4C, 0x41, 0x4E, 0x4B, 0x20, 0x20, 0x20], [0x42, 0x49, 0x4E], 0x20),
     ([0x53, 0x48, 0x45, 0x4C, 0x4C, 0x20, 0x20, 0x20], [0x42, 0x49, 0x4E], 0x20)]"

definition find_name :: "u8 list" where
  "find_name = [0x73, 0x68, 0x65, 0x6C, 0x6C, 0x2E, 0x62, 0x69, 0x6E]"

definition find_bytes :: "u8 list" where
  "find_bytes = [0x42, 0x4C, 0x41, 0x4E, 0x4B, 0x20, 0x20, 0x20, 0x42, 0x49, 0x4E, 0x20] @ replicate 20 0 @
     [0x53, 0x48, 0x45, 0x4C, 0x4C, 0x20, 0x20, 0x20, 0x42, 0x49, 0x4E, 0x20] @ replicate 20 0 @
     find_name @ [0, 0, 0] @ [0, 0, 4, 0, 2, 0, 0, 0] @ [0x40, 0, 4, 0, 0, 0x10, 4, 0] @ replicate 16 0 @ [0x0C, 0, 4, 0]"

definition find_state :: machine where
  "find_state = \<lparr>ram = poke (\<lambda>_. 0) 0x40000 find_bytes, cr3 = 0, io = [], cr0 = 0, gdt_register = (0, 0), idt_register = (0, 0), task_register = 0\<rparr>"

lemma find_bytes_length: "length find_bytes = 112"
  by (simp add: find_bytes_def find_name_def)

lemma find_state_byte: "i < 112 \<Longrightarrow> ram find_state (0x40000 + of_nat i) = find_bytes ! i"
  using poke_in [of i find_bytes "\<lambda>_. 0" "0x40000"] by (simp add: find_state_def find_bytes_length)

lemma find_state_piece:
  "find_bytes = pre @ xs @ post \<Longrightarrow> i < length xs \<Longrightarrow> ram find_state (0x40000 + of_nat (length pre + i)) = xs ! i"
proof -
  assume f: "find_bytes = pre @ xs @ post" and i: "i < length xs"
  have "length pre + i < length (pre @ xs @ post)" using i by simp
  then have "length pre + i < length find_bytes" by (simp only: f)
  then have "ram find_state (0x40000 + of_nat (length pre + i)) = find_bytes ! (length pre + i)"
    using find_bytes_length by (intro find_state_byte) linarith
  also have "\<dots> = xs ! i" using i by (simp add: f nth_append)
  finally show ?thesis .
qed

lemma find_state_item:
  "item_fields (ram find_state) 0x40000 [0x42, 0x4C, 0x41, 0x4E, 0x4B, 0x20, 0x20, 0x20] [0x42, 0x49, 0x4E] 0x20"
  "item_fields (ram find_state) 0x40020 [0x53, 0x48, 0x45, 0x4C, 0x4C, 0x20, 0x20, 0x20] [0x42, 0x49, 0x4E] 0x20"
  using find_state_piece [of "[]" "[0x42, 0x4C, 0x41, 0x4E, 0x4B, 0x20, 0x20, 0x20, 0x42, 0x49, 0x4E, 0x20]"]
    find_state_piece [of "[0x42, 0x4C, 0x41, 0x4E, 0x4B, 0x20, 0x20, 0x20, 0x42, 0x49, 0x4E, 0x20] @ replicate 20 0"
      "[0x53, 0x48, 0x45, 0x4C, 0x4C, 0x20, 0x20, 0x20, 0x42, 0x49, 0x4E, 0x20]"]
  by (simp_all add: item_fields_def stops_def find_bytes_def)

lemma find_state_tail:
  "i < 48 \<Longrightarrow> ram find_state (0x40040 + of_nat i) = (find_name @ [0, 0, 0] @
     [0, 0, 4, 0, 2, 0, 0, 0] @ [0x40, 0, 4, 0, 0, 0x10, 4, 0] @ replicate 16 0 @ [0x0C, 0, 4, 0]) ! i"
  using find_state_piece [of "[0x42, 0x4C, 0x41, 0x4E, 0x4B, 0x20, 0x20, 0x20, 0x42, 0x49, 0x4E, 0x20] @ replicate 20 0 @
     [0x53, 0x48, 0x45, 0x4C, 0x4C, 0x20, 0x20, 0x20, 0x42, 0x49, 0x4E, 0x20] @ replicate 20 0" _ "[]" i]
  by (simp add: find_bytes_def find_name_def)

lemma find_state_values:
  "load32 (ram find_state) 0x4004C = 0x40000" "load32 (ram find_state) 0x40050 = 2"
  "load32 (ram find_state) 0x40054 = 0x40040" "load32 (ram find_state) 0x40058 = 0x41000"
  "load32 (ram find_state) 0x4006C = 0x4000C"
  using find_state_tail [of 12] find_state_tail [of 13] find_state_tail [of 14] find_state_tail [of 15]
    find_state_tail [of 16] find_state_tail [of 17] find_state_tail [of 18] find_state_tail [of 19]
    find_state_tail [of 20] find_state_tail [of 21] find_state_tail [of 22] find_state_tail [of 23]
    find_state_tail [of 24] find_state_tail [of 25] find_state_tail [of 26] find_state_tail [of 27]
    find_state_tail [of 44] find_state_tail [of 45] find_state_tail [of 46] find_state_tail [of 47]
  by (simp_all add: load32_def find_name_def nth_append)

lemma find_state_ready:
  "directory_is (ram find_state) 0x501300 0x4004C 0x40000 find_items"
  "name_is (ram find_state) 0x501300 0x40040 find_name"
  "kheap_avail (ram find_state) = kheap_pool"
proof -
  have off: "off_buffer 0x501300 p n" if "unat p + n \<le> 0x41000" for p n using that by (intro off_buffer_low) simp_all
  have "item_is (ram find_state) 0x501300 0x40000 (find_items ! 0)"
    "item_is (ram find_state) 0x501300 0x40020 (find_items ! 1)"
    using find_state_item off by (simp_all add: item_is_def find_items_def)
  then have "item_is (ram find_state) 0x501300 (0x40000 + of_nat k * 32) (find_items ! k)" if "k < 2" for k
    using that by (auto simp: less_2_cases_iff)
  moreover have "length find_items = 2" by (simp add: find_items_def)
  ultimately show "directory_is (ram find_state) 0x501300 0x4004C 0x40000 find_items"
    using find_state_values(1,2) off by (simp add: directory_is_def layout)
  have "cstr (ram find_state) 0x40040 find_name"
    unfolding cstr_iff
  proof (intro conjI allI impI)
    show "ram find_state (0x40040 + of_nat i) = find_name ! i" if "i < length find_name" for i
    proof -
      have "length find_name = 9" by (simp add: find_name_def)
      with find_state_tail [of i] that show ?thesis by (simp add: nth_append)
    qed
    show "ram find_state (0x40040 + of_nat (length find_name)) = 0"
      using find_state_tail [of 9] by (simp add: nth_append find_name_def)
  qed (simp add: find_name_def)
  then show "name_is (ram find_state) 0x501300 0x40040 find_name"
    using off by (simp add: name_is_def find_name_def)
  show "kheap_avail (ram find_state) = kheap_pool" unfolding find_state_def
    by (simp add: kheap_avail_poke_low find_bytes_length kheap_avail_zero)
qed

lemma find_state_match: "first_match find_name find_items = Some 1"
  by (simp add: find_items_def find_name_def name_matches_def item_name_def to_lower_def)

lemma find_state_heap:
  "2 \<le> card (kheap_avail (ram find_state))" "kheap_meta a \<Longrightarrow> 108 \<le> unat (a - 0x501300)"
  "i < 32 \<Longrightarrow> kheap_safe (ram find_state) (0x40000 + of_nat 1 * 32 + of_nat i)"
proof -
  show "2 \<le> card (kheap_avail (ram find_state))" by (simp add: find_state_ready card_kheap_pool)
  show "108 \<le> unat (a - 0x501300)" if "kheap_meta a"
    using kheap_meta_range [OF that] low_offset [of a "0x501300" 108] by (cases "108 \<le> unat (a - 0x501300)") auto
  show "kheap_safe (ram find_state) (0x40000 + of_nat 1 * 32 + of_nat i)" if "i < 32"
  proof -
    have "unat (0x40020 + of_nat i :: u32) = 0x40020 + i" using that by (subst unat_add_less) (simp_all add: unat_of_nat32)
    with that show ?thesis by (intro kheap_safe_low) simp_all
  qed
qed

theorem fat16_find_item_witness:
  "\<exists>f s'. fat16_find_item_in_directory env_example 0 0x4004C 0x40040 find_state = Some (f, s') \<and> f \<noteq> 0 \<and>
     file_item (ram s') f (\<lambda>i. ram find_state (0x40000 + of_nat 1 * 32 + of_nat i))"
proof -
  have e: "name_local env_example = 0x501300" by (simp add: env_example_def)
  have k: "k = 1" if "first_match find_name find_items = Some k" for k using that find_state_match by simp
  have plain: "snd (snd (find_items ! 1)) AND FAT_FILE_SUBDIRECTORY = 0"
    by (simp add: find_items_def FAT_FILE_SUBDIRECTORY_def)
  have safe: "kheap_safe (ram find_state) (0x40000 + of_nat k * 32 + of_nat i)"
    if "first_match find_name find_items = Some k" "i < 32" for k i
    using find_state_heap(3) [OF that(2)] k [OF that(1)] by simp
  from fat16_find_item [where s = find_state and e = env_example and disk = 0, unfolded e,
      OF find_state_ready(1,2) find_state_heap(1,2) _ safe] k plain show ?thesis
    by (auto simp: find_state_match)
qed
text \<open>The walk ends at once: one round is enough, and the 64 are never used up.\<close>

lemma fat16_walk_item:
  "item \<noteq> 0 \<Longrightarrow> fat16_walk e disk (Suc n) item next_part s = Done (if next_part = 0 then item else 0, s)"
  by (simp add: FAT_ITEM_TYPE_DIRECTORY_def)

text \<open>
  C38. A path of two or more parts is never found, whatever is on the disk: the walk compares
  the pointer to the item, not its type, with the type of a directory.
\<close>

theorem fat16_no_subdirectories:
  assumes "fat16_find_item_in_directory e disk (root_directory (load32 (ram s) (disk_fs_private disk)))
      (load32 (ram s) (part_part path)) s = Some (item, s')" and "load32 (ram s') (part_next path) \<noteq> 0"
  shows "fat16_get_directory_entry e disk path s = Done (0, s')"
proof -
  have "fat16_walk e disk 64 item next s' = Done (0, s')" if "item \<noteq> 0" "next \<noteq> 0" for "next"
    using that fat16_walk_item [of item e disk 63 "next" s'] by simp
  then show ?thesis using assms by (simp add: fat16_get_directory_entry_def Let_def)
qed

theorem fat16_no_subdirectories_witness:
  "\<exists>s'. fat16_get_directory_entry env_example 0x4005C 0x40054 find_state = Done (0, s')"
proof -
  have e: "name_local env_example = 0x501300" by (simp add: env_example_def)
  have plain: "snd (snd (find_items ! 1)) AND FAT_FILE_SUBDIRECTORY = 0"
    by (simp add: find_items_def FAT_FILE_SUBDIRECTORY_def)
  obtain f s' where f: "fat16_find_item_in_directory env_example 0x4005C 0x4004C 0x40040 find_state = Some (f, s')"
    "\<And>a. kheap_safe (ram find_state) a \<Longrightarrow> 108 \<le> unat (a - 0x501300) \<Longrightarrow> ram s' a = ram find_state a"
    by (rule find_item_spec [where s = find_state and e = env_example and disk = "0x4005C", unfolded e,
        OF find_state_ready(1,2) find_state_heap(1,2) find_state_match plain find_state_heap(3)]) (assumption | rule that)+
  have "load32 (ram s') 0x40058 = load32 (ram find_state) 0x40058"
  proof (rule load32_same)
    fix k :: u32 assume k: "k < 4"
    then have u4: "unat k < 4" by (simp add: word_less_nat_alt)
    then have u: "unat (0x40058 + k) = 0x40058 + unat k" by (subst unat_add_less) simp_all
    have "108 \<le> unat (0x40058 + k - 0x501300)"
      using u u4 low_offset [of "0x40058 + k" "0x501300" 108] by (cases "108 \<le> unat (0x40058 + k - 0x501300)") auto
    then show "ram s' (0x40058 + k) = ram find_state (0x40058 + k)"
      using u u4 by (intro f(2) kheap_safe_low) simp_all
  qed
  then have "load32 (ram s') (part_next 0x40054) \<noteq> 0" using find_state_values(4) by (simp add: layout)
  from fat16_no_subdirectories [OF _ this, of env_example "0x4005C" find_state f] f(1) find_state_values(3,5)
  show ?thesis by (auto simp: layout)
qed

section \<open>Reading a file\<close>

text \<open>Reading inside the first cluster of a file.\<close>

definition cluster_position :: "nat \<Rightarrow> nat \<Rightarrow> nat \<Rightarrow> nat" where
  "cluster_position root_end spc c = (root_end + (c - 2) * spc) * 512"

lemma fat16_read_first_cluster:
  assumes mnt: "fat_mounted e pr (ram s)" and st: "load32 (ram s) (cluster_read_stream pr) = st"
    and at: "stream_at e img st s p"
    and k: "ram s (sectors_per_cluster (private_header pr)) = of_nat k" "0 < k" "k < 256"
    and root: "load32 (ram s) (directory_ending_sector_pos (root_directory pr)) = of_nat r"
    and c: "2 \<le> c" and o: "offset < 512 * k" "n \<le> 512 * k" and pos: "cluster_position r k c + offset + n < 2147483648"
    and free: "\<And>i. i < n \<Longrightarrow> \<not> stream_own e st (out + of_nat i)"
  shows "\<exists>s'. fat16_read_internal e (disk0 e) (of_nat c) (of_nat offset) (of_nat n) out s = Some (0, s') \<and>
     (\<forall>i < n. ram s' (out + of_nat i) = img (cluster_position r k c + offset + i)) \<and>
     (\<forall>a. \<not> stream_own e st a \<longrightarrow> n \<le> unat (a - out) \<longrightarrow> ram s' a = ram s a)"
proof -
  let ?pos = "cluster_position r k c + offset"
  have size: "ucast (ram s (sectors_per_cluster (private_header pr))) * 512 = (of_nat (512 * k) :: u32)"
    using k(1,3) by (simp add: unsigned_of_nat take_bit_nat_eq_self)
  have sz: "unat (of_nat (512 * k) :: u32) = 512 * k" "sint (of_nat (512 * k) :: i32) = int (512 * k)"
      "(of_nat (512 * k) :: u32) \<noteq> 0"
    using k word_of_nat_inj [of "512 * k" 0] by (simp_all add: unat_of_nat32 sint_of_nat del: of_nat_mult)
  have os: "unat (of_nat offset :: u32) = offset" "sint (of_nat offset :: i32) = int offset"
    using o(1) k(3) by (simp_all add: unat_of_nat32 sint_of_nat)
  have ns: "sint (of_nat n :: i32) = int n" using o(2) k(3) by (simp add: sint_of_nat)
  have ok: "\<not> div_faults (of_nat offset) (of_nat (512 * k))" using sz(3) os(2) by (simp add: div_faults_def)
  have "int_div (of_nat offset) (of_nat (512 * k)) = (0 :: i32)"
    using o(1) os sz k(3) by (subst int_div_nonneg) simp_all
  moreover have md: "int_mod (of_nat offset) (of_nat (512 * k)) = (of_nat offset :: i32)"
    using o(1) os(2) sz(2) by (simp add: int_mod_def smod_int_alt_def)
  ultimately have cl: "fat16_get_cluster_for_offset e (disk0 e) (of_nat c) (of_nat offset) s = Some (of_nat c, s)"
    using mnt size ok by (simp add: fat16_get_cluster_for_offset_def fat_mounted_def Let_def)
  have sector: "fat16_cluster_to_sector pr (of_nat c) (ram s) * 512 + of_nat offset = of_nat ?pos"
  proof -
    have "(of_nat c :: u32) - 2 = of_nat (c - 2)" using c by (simp add: of_nat_diff)
    moreover have "ucast (ram s (sectors_per_cluster (private_header pr))) = (of_nat k :: u32)"
      using k(1,3) by (simp add: unsigned_of_nat take_bit_nat_eq_self)
    ultimately show ?thesis using root by (simp add: fat16_cluster_to_sector_def cluster_position_def)
  qed
  let ?s1 = "stream_seek st ?pos s"
  have at1: "stream_at e img st ?s1 ?pos" using at pos by (intro ds.seek_at) simp_all
  from diskstreamer_read_img [OF at1 pos free, of 0] obtain s' where
    rd: "diskstreamer_read e 0 st out (of_nat n) ?s1 = Some (0, s')"
      "\<And>a. \<not> stream_own e st a \<Longrightarrow> ram s' a = poke (ram ?s1) out (img_bytes img ?pos n) a" by blast
  have "fat16_read_internal e (disk0 e) (of_nat c) (of_nat offset) (of_nat n) out s = Some (0, s')"
  proof -
    have u: "ram ?s1 = snd (diskstreamer_seek st (of_nat ?pos) (ram s))" "?s1 = s\<lparr>ram := ram ?s1\<rparr>"
      by (simp_all add: stream_seek_def)
    have seek: "diskstreamer_seek st (of_nat ?pos) (ram s) = (0, ram ?s1)" by (simp add: u(1) diskstreamer_seek_def)
    have total: "(if sint (of_nat (512 * k) :: i32) < sint (of_nat n :: i32) then of_nat (512 * k) else of_nat n) = (of_nat n :: i32)"
      using sz(2) ns o(2) by simp
    have "c < 2147483648"
    proof -
      define x where "x = (c - 2) * k"
      have "c - 2 \<le> x" using k(2) by (simp add: x_def)
      then show ?thesis using pos by (simp add: cluster_position_def x_def [symmetric])
    qed
    then have cs: "\<not> sint (of_nat c :: i32) < 0" by (simp add: sint_of_nat)
    have m: "load32 (ram s) (disk_fs_private (disk0 e)) = pr" "load32 (ram s) (disk_sector_size (disk0 e)) = 512"
      using mnt by (simp_all add: fat_mounted_def)
    show ?thesis
      unfolding fat16_read_internal_def Let_def m st
      by (subst fat16_read_internal_from_stream.simps)
        (simp only: Let_def m size cl option.case prod.case cs ok md sector total seek u(2) [symmetric] rd(1) if_False, simp)
  qed
  moreover have "ram s' (out + of_nat i) = img (?pos + i)" if "i < n" for i
    using rd(2) [OF free [OF that]] that o(2) k(3) by (simp add: poke_in)
  moreover have "ram s' a = ram s a" if "\<not> stream_own e st a" "n \<le> unat (a - out)" for a
    using rd(2) [OF that(1)] that ds.seek_frame [OF at that(1), of ?pos] by (simp add: poke_out)
  ultimately show ?thesis by blast
qed

text \<open>
  C8. Reading \<open>n\<close> bytes of a file at its position, inside its first cluster, gives the
  bytes of the disk at that place of the cluster and writes nothing else outside the
  stream's own memory.
\<close>

theorem fat16_read_bytes:
  assumes "fat_mounted e pr (ram s)" and "load32 (ram s) (cluster_read_stream pr) = st" and "stream_at e img st s p"
    and "ram s (sectors_per_cluster (private_header pr)) = of_nat k" and "0 < k" and "k < 256"
    and "load32 (ram s) (directory_ending_sector_pos (root_directory pr)) = of_nat r"
    and "load32 (ram s) (fat_fd_item d) = f" and "load32 (ram s) (fat_item_item f) = it"
    and "fat16_get_first_cluser it (ram s) = of_nat c" and "2 \<le> c"
    and "load32 (ram s) (fat_fd_pos d) = of_nat offset" and "offset < 512 * k" and "n \<le> 512 * k"
    and "cluster_position r k c + offset + n < 2147483648"
    and "\<And>i. i < n \<Longrightarrow> \<not> stream_own e st (out + of_nat i)"
  shows "\<exists>s'. fat16_read e (disk0 e) d (of_nat n) 1 out s = Done (1, s') \<and>
     (\<forall>i < n. ram s' (out + of_nat i) = img (cluster_position r k c + offset + i)) \<and>
     (\<forall>a. \<not> stream_own e st a \<longrightarrow> n \<le> unat (a - out) \<longrightarrow> ram s' a = ram s a)"
proof -
  from fat16_read_first_cluster [OF assms(1-7,11,13-16)] obtain s' where
    r: "fat16_read_internal e (disk0 e) (of_nat c) (of_nat offset) (of_nat n) out s = Some (0, s')"
    and b: "\<forall>i < n. ram s' (out + of_nat i) = img (cluster_position r k c + offset + i)"
      "\<forall>a. \<not> stream_own e st a \<longrightarrow> n \<le> unat (a - out) \<longrightarrow> ram s' a = ram s a" by blast
  have "fat16_read e (disk0 e) d (of_nat n) 1 out s = Done (1, s')"
    using r assms(8-10,12) by (simp add: fat16_read_def ISERR_def of_option_def)
  with b show ?thesis by blast
qed

text \<open>An open file in cluster 5 at position 100, on the mounted disk.\<close>

definition file_ram :: mem where
  "file_ram = store32 (store32 (store32 (store32 (store32 (fat_ram(0x3203A := 5))
     0x31050 0x30000) 0x3104C 500) 0x32000 0x32010) 0x32004 100) 0x32010 0x32020"

definition file_state :: machine where
  "file_state = \<lparr>ram = file_ram, cr3 = 0, io = [], cr0 = 0, gdt_register = (0, 0), idt_register = (0, 0), task_register = 0\<rparr>"

lemma file_ram_values:
  "load32 file_ram 0x20010 = 0x31000" "load32 file_ram 0x20004 = 512" "load32 file_ram 0x31050 = 0x30000"
  "load32 file_ram 0x3104C = 500" "load32 file_ram 0x32000 = 0x32010" "load32 file_ram 0x32004 = 100"
  "load32 file_ram 0x32010 = 0x32020" "file_ram 0x3100D = 128" "load16 file_ram 0x3203A = 5" "load16 file_ram 0x32034 = 0"
  "load32 file_ram (stream_disk 0x30000) = 0x20000" "load32 file_ram (stream_pos 0x30000) = 0"
  by (simp_all add: file_ram_def load32_store32_apart layout)
    (simp_all add: fat_ram_def load32_def load16_def store32_def layout)

theorem fat16_read_bytes_witness:
  "\<exists>s'. fat16_read stream_env 0x20000 0x32000 10 1 0x40000 file_state = Done (1, s') \<and>
     (\<forall>i < 10. ram s' (0x40000 + of_nat i) = of_nat (452708 + i))"
proof -
  have d: "disk0 stream_env = 0x20000" by (simp add: stream_env_def env_example_def)
  have mnt: "fat_mounted stream_env 0x31000 (ram file_state)"
    using file_ram_values by (simp add: fat_mounted_def file_state_def d layout)
  have "8 \<le> unat (a - 0x30000)" if "sector_buffer stream_env a" for a
    using stream_env_buffers [OF that] low_offset [of a "0x30000" 8] by (cases "8 \<le> unat (a - 0x30000)") auto
  then have at: "stream_at stream_env of_nat 0x30000 file_state 0" using file_ram_values
    by (simp add: stream_at_def file_state_def stream_env_def ready_drive env_example_def)
  have v: "load32 (ram file_state) (cluster_read_stream 0x31000) = 0x30000"
      "ram file_state (sectors_per_cluster (private_header 0x31000)) = of_nat 128"
      "load32 (ram file_state) (directory_ending_sector_pos (root_directory 0x31000)) = of_nat 500"
      "load32 (ram file_state) (fat_fd_item 0x32000) = 0x32010" "load32 (ram file_state) (fat_item_item 0x32010) = 0x32020"
      "fat16_get_first_cluser 0x32020 (ram file_state) = of_nat 5"
      "load32 (ram file_state) (fat_fd_pos 0x32000) = of_nat 100"
    using file_ram_values by (simp_all add: file_state_def layout fat16_get_first_cluser_def)
  have f: "\<not> stream_own stream_env 0x30000 (0x40000 + of_nat i)" if "i < 10" for i
    using that by (intro stream_env_free) simp
  from fat16_read_bytes [where n = 10, OF mnt v(1) at v(2) _ _ v(3-6) _ v(7) _ _ _ f] show ?thesis
    unfolding d cluster_position_def by (simp, blast)
qed

end
