(* ===== verification/File.thy ===== *)
theory File
  imports Keyboard Path_Parser Fat16 Terminal
begin

text \<open>
  \<open>phix/src/fs/file.c\<close>: the table of file systems, the table of file descriptors and the
  functions \<open>fopen\<close>, \<open>fstat\<close>, \<open>fseek\<close>, \<open>fread\<close>, \<open>fclose\<close>, with
  \<open>disk_search_and_init\<close> of \<open>disk.c\<close>. A \<open>struct filesystem\<close> is its address; \<open>ops\<close>
  gives the functions its pointers lead to, and \<open>fs_vtable\<close> is the one of the program, which has one file system.
  The record completes the state of the kernel: the static tables of this file and of
  \<open>process.c\<close>, and the terminal.
\<close>

record system = kernel +
  filesystems :: "addr list"
  file_descriptors :: "addr list"
  processes :: "addr list"
  screen :: terminal

record 's fs_ops =
  resolve_op :: "addr \<Rightarrow> 's \<Rightarrow> (i32 \<times> 's) outcome"
  open_op :: "addr \<Rightarrow> addr \<Rightarrow> u32 \<Rightarrow> 's \<Rightarrow> (addr \<times> 's) outcome"
  read_op :: "addr \<Rightarrow> addr \<Rightarrow> u32 \<Rightarrow> u32 \<Rightarrow> addr \<Rightarrow> 's \<Rightarrow> (i32 \<times> 's) outcome"
  seek_op :: "addr \<Rightarrow> u32 \<Rightarrow> u32 \<Rightarrow> 's \<Rightarrow> (i32 \<times> 's) outcome"
  stat_op :: "addr \<Rightarrow> addr \<Rightarrow> addr \<Rightarrow> 's \<Rightarrow> (i32 \<times> 's) outcome"
  close_op :: "addr \<Rightarrow> 's \<Rightarrow> (i32 \<times> 's) outcome"

text \<open>A function on memory as a function on the state.\<close>

definition on_ram :: "(mem \<Rightarrow> 'b \<times> mem) \<Rightarrow> 'a machine_scheme \<Rightarrow> 'b \<times> 'a machine_scheme" where
  "on_ram f s = (let (r, m) = f (ram s) in (r, s\<lparr>ram := m\<rparr>))"

definition on_ramE ::
    "(mem \<Rightarrow> ('b \<times> mem) outcome) \<Rightarrow> 'a machine_scheme \<Rightarrow> ('b \<times> 'a machine_scheme) outcome" where
  "on_ramE f s = obind (f (ram s)) (\<lambda>(r, m). Done (r, s\<lparr>ram := m\<rparr>))"

text \<open>The initialiser of \<open>fat16_fs\<close>, and the functions at a file system's address.\<close>

definition fat16_ops :: "env \<Rightarrow> system fs_ops" where
  "fat16_ops e = \<lparr>resolve_op = fat16_resolve e, open_op = fat16_open e, read_op = fat16_read e,
     seek_op = (\<lambda>private offset mode s. Done (on_ram (fat16_seek private offset mode) s)),
     stat_op = (\<lambda>disk private stat s. Done (on_ram (fat16_stat disk private stat) s)),
     close_op = (\<lambda>private. on_ramE (fat16_close private))\<rparr>"

definition fs_vtable :: "env \<Rightarrow> addr \<Rightarrow> system fs_ops" where
  "fs_vtable e fs = fat16_ops e"

section \<open>File systems\<close>

text \<open>The first index from \<open>i\<close> on at which a table has a null pointer.\<close>

fun free_index :: "nat \<Rightarrow> addr list \<Rightarrow> nat option" where
  "free_index i [] = None"
| "free_index i (x # xs) = (if x = 0 then Some i else free_index (Suc i) xs)"

definition fs_get_free_filesystem :: "system \<Rightarrow> nat option" where
  "fs_get_free_filesystem s = free_index 0 (filesystems s)"

definition fs_insert_fs :: "addr \<Rightarrow> system \<Rightarrow> system outcome" where
  "fs_insert_fs filesystem s =
     (case fs_get_free_filesystem s of None \<Rightarrow> Panic ''Could not insert filesystem''
      | Some i \<Rightarrow> Done (s\<lparr>filesystems := (filesystems s)[i := filesystem]\<rparr>))"

definition fs_static_load :: "env \<Rightarrow> system \<Rightarrow> system outcome" where
  "fs_static_load e s =
     obind (of_option (fat16_init e (ram s))) (\<lambda>(fs, m). fs_insert_fs fs (s\<lparr>ram := m\<rparr>))"

fun fs_resolve_loop ::
    "(addr \<Rightarrow> system fs_ops) \<Rightarrow> addr \<Rightarrow> nat \<Rightarrow> nat \<Rightarrow> system \<Rightarrow> (addr \<times> system) outcome" where
  "fs_resolve_loop ops disk i 0 s = Done (0, s)"
| "fs_resolve_loop ops disk i (Suc n) s =
     (if filesystems s ! i = 0 then fs_resolve_loop ops disk (Suc i) n s
      else obind (resolve_op (ops (filesystems s ! i)) disk s) (\<lambda>(ret, s).
        if ret = 0 then Done (filesystems s ! i, s) else fs_resolve_loop ops disk (Suc i) n s))"

definition fs_resolve :: "(addr \<Rightarrow> system fs_ops) \<Rightarrow> addr \<Rightarrow> system \<Rightarrow> (addr \<times> system) outcome" where
  "fs_resolve ops disk s = fs_resolve_loop ops disk 0 PHIX_MAX_FILESYSTEMS s"

definition fs_load :: "env \<Rightarrow> system \<Rightarrow> system outcome" where
  "fs_load e s = fs_static_load e (s\<lparr>filesystems := replicate PHIX_MAX_FILESYSTEMS 0\<rparr>)"

definition fs_init :: "env \<Rightarrow> system \<Rightarrow> system outcome" where
  "fs_init e s = fs_load e (s\<lparr>file_descriptors := replicate PHIX_MAX_FILE_DESCRIPTORS 0\<rparr>)"

definition disk_search_and_init ::
    "env \<Rightarrow> (addr \<Rightarrow> system fs_ops) \<Rightarrow> system \<Rightarrow> system outcome" where
  "disk_search_and_init e ops s =
     (let m = memset (ram s) (disk0 e) 0 sizeof_disk;
          m = store32 m (disk_type (disk0 e)) disk_type_real;
          m = store32 m (disk_sector_size (disk0 e)) PHIX_SECTOR_SIZE;
          m = store32 m (disk_id (disk0 e)) 0
      in obind (fs_resolve ops (disk0 e) (s\<lparr>ram := m\<rparr>)) (\<lambda>(fs, s).
           Done (s\<lparr>ram := store32 (ram s) (disk_filesystem (disk0 e)) fs\<rparr>)))"

section \<open>Descriptors\<close>

text \<open>The descriptor is written without a test of the allocation.\<close>

definition file_descriptor_new :: "system \<Rightarrow> i32 \<times> addr \<times> system" where
  "file_descriptor_new s =
     (case free_index 0 (file_descriptors s) of None \<Rightarrow> (- ENOMEM, 0, s)
      | Some i \<Rightarrow>
          let (desc, m) = kzalloc sizeof_file_descriptor (ram s);
              m = store32 m (fd_index desc) (of_nat i + 1)
          in (0, desc, s\<lparr>ram := m, file_descriptors := (file_descriptors s)[i := desc]\<rparr>))"

definition file_descriptor_free :: "addr \<Rightarrow> system \<Rightarrow> system" where
  "file_descriptor_free desc s =
     (let i = unat (load32 (ram s) (fd_index desc) - 1)
      in s\<lparr>file_descriptors := (file_descriptors s)[i := 0], ram := kfree desc (ram s)\<rparr>)"

definition file_descriptor_get :: "i32 \<Rightarrow> system \<Rightarrow> addr" where
  "file_descriptor_get fd s =
     (if sint fd \<le> 0 \<or> int PHIX_MAX_FILE_DESCRIPTORS \<le> sint fd then 0
      else file_descriptors s ! nat (sint fd - 1))"

section \<open>Files\<close>

definition file_get_mode_by_string :: "env \<Rightarrow> addr \<Rightarrow> mem \<Rightarrow> u32" where
  "file_get_mode_by_string e str m =
     (if strncmp m str (lit_r e) 1 = 0 then FILE_MODE_READ
      else if strncmp m str (lit_w e) 1 = 0 then FILE_MODE_WRITE
      else if strncmp m str (lit_a e) 1 = 0 then FILE_MODE_APPEND
      else FILE_MODE_INVALID)"

text \<open>The parsed path is never freed.\<close>

definition fopen ::
    "env \<Rightarrow> (addr \<Rightarrow> system fs_ops) \<Rightarrow> addr \<Rightarrow> addr \<Rightarrow> system \<Rightarrow> (i32 \<times> system) outcome" where
  "fopen e ops filename mode_str s =
     obind (of_option (pparser_parse e filename 0 (ram s))) (\<lambda>(root, m).
     let s = s\<lparr>ram := m\<rparr>
     in if root = 0 then Done (- EINVAL, s)
        else if load32 m (root_first root) = 0 then Done (- EINVAL, s)
        else let disk = disk_get e (load32 m (root_drive_no root))
             in if disk = 0 then Done (- EIO, s)
                else if load32 m (disk_filesystem disk) = 0 then Done (- EIO, s)
                else let mode = file_get_mode_by_string e mode_str m
                     in if mode = FILE_MODE_INVALID then Done (- EINVAL, s)
                        else obind (open_op (ops (load32 m (disk_filesystem disk))) disk
                                      (load32 m (root_first root)) mode s) (\<lambda>(private, s).
                          if ISERR private then Done (private, s)
                          else let (ret, desc, s) = file_descriptor_new s
                               in if sint ret < 0 then Done (ret, s)
                                  else let m = store32 (ram s) (fd_fs desc) (load32 (ram s) (disk_filesystem disk));
                                           m = store32 m (fd_private desc) private;
                                           m = store32 m (fd_disk desc) disk
                                       in Done (load32 m (fd_index desc), s\<lparr>ram := m\<rparr>)))"

definition fstat ::
    "(addr \<Rightarrow> system fs_ops) \<Rightarrow> i32 \<Rightarrow> addr \<Rightarrow> system \<Rightarrow> (i32 \<times> system) outcome" where
  "fstat ops fd stat s =
     (let desc = file_descriptor_get fd s; m = ram s
      in if desc = 0 then Done (- EINVAL, s)
         else stat_op (ops (load32 m (fd_fs desc))) (load32 m (fd_disk desc)) (load32 m (fd_private desc)) stat s)"

definition fseek ::
    "(addr \<Rightarrow> system fs_ops) \<Rightarrow> i32 \<Rightarrow> i32 \<Rightarrow> u32 \<Rightarrow> system \<Rightarrow> (i32 \<times> system) outcome" where
  "fseek ops fd offset whence s =
     (let desc = file_descriptor_get fd s; m = ram s
      in if desc = 0 then Done (- EINVAL, s)
         else seek_op (ops (load32 m (fd_fs desc))) (load32 m (fd_private desc)) offset whence s)"

definition fread ::
    "(addr \<Rightarrow> system fs_ops) \<Rightarrow> addr \<Rightarrow> u32 \<Rightarrow> u32 \<Rightarrow> i32 \<Rightarrow> system \<Rightarrow> (i32 \<times> system) outcome" where
  "fread ops p size_bytes n fd s =
     (if size_bytes * n = 0 \<or> sint fd < 1 then Done (- EINVAL, s)
      else let desc = file_descriptor_get fd s; m = ram s
           in if desc = 0 then Done (- EINVAL, s)
              else read_op (ops (load32 m (fd_fs desc))) (load32 m (fd_disk desc)) (load32 m (fd_private desc))
                     size_bytes n p s)"

definition fclose :: "(addr \<Rightarrow> system fs_ops) \<Rightarrow> i32 \<Rightarrow> system \<Rightarrow> (i32 \<times> system) outcome" where
  "fclose ops fd s =
     (let desc = file_descriptor_get fd s; m = ram s
      in if desc = 0 then Done (- EINVAL, s)
         else obind (close_op (ops (load32 m (fd_fs desc))) (load32 m (fd_private desc)) s) (\<lambda>(ret, s).
           Done (ret, if ret = 0 then file_descriptor_free desc s else s)))"

section \<open>The descriptor table\<close>

text \<open>
  Runs of a table of handles: objects are opened while there is \<open>room\<close> for them, and
  open ones closed; \<open>cs\<close> are the objects closed so far.
\<close>

inductive handle_run ::
    "('s \<Rightarrow> bool) \<Rightarrow> ('s \<Rightarrow> nat \<Rightarrow> addr) \<Rightarrow> ('s \<Rightarrow> i32 \<times> addr \<times> 's) \<Rightarrow> (addr \<Rightarrow> 's \<Rightarrow> 's) \<Rightarrow> 's \<Rightarrow> 's \<Rightarrow> addr list \<Rightarrow> bool"
  for room entry new free s0 where
  start: "handle_run room entry new free s0 s0 []"
| open_handle: "handle_run room entry new free s0 s cs \<Longrightarrow> room s \<Longrightarrow> new s = (0, d, s') \<Longrightarrow>
    handle_run room entry new free s0 s' cs"
| close_handle: "handle_run room entry new free s0 s cs \<Longrightarrow> entry s i = d \<Longrightarrow> d \<noteq> 0 \<Longrightarrow>
    handle_run room entry new free s0 (free d s) (d # cs)"

text \<open>What the users of handles rely on: each operation changes one entry of the table.\<close>

locale handle_table =
  fixes ok :: "'s \<Rightarrow> bool" and room :: "'s \<Rightarrow> bool"
    and entry :: "'s \<Rightarrow> nat \<Rightarrow> addr" and new :: "'s \<Rightarrow> i32 \<times> addr \<times> 's" and free :: "addr \<Rightarrow> 's \<Rightarrow> 's"
  assumes new_entry: "ok s \<Longrightarrow> room s \<Longrightarrow> new s = (0, d, s') \<Longrightarrow>
      ok s' \<and> (\<exists>i. entry s i = 0 \<and> d \<noteq> 0 \<and> entry s' = (entry s)(i := d))"
    and free_entry: "ok s \<Longrightarrow> entry s i = d \<Longrightarrow> d \<noteq> 0 \<Longrightarrow> ok (free d s) \<and> entry (free d s) = (entry s)(i := 0)"
begin

lemma run_ok: "handle_run room entry new free s0 s cs \<Longrightarrow> ok s0 \<Longrightarrow> ok s"
  by (induction rule: handle_run.induct) (use new_entry free_entry in blast)+

lemma run_keeps:
  assumes "handle_run room entry new free s0 s cs" and "ok s0" and "entry s0 i = d" and "d \<noteq> 0" and "d \<notin> set cs"
  shows "entry s i = d"
  using assms
proof (induction rule: handle_run.induct)
  case (open_handle s cs d' s')
  from new_entry [OF run_ok [OF open_handle.hyps(1) open_handle.prems(1)] open_handle.hyps(2,3)]
  obtain j where "entry s j = 0" "entry s' = (entry s)(j := d')" by blast
  with open_handle show ?case by auto
next
  case (close_handle s cs j d')
  from free_entry [OF run_ok [OF close_handle.hyps(1) close_handle.prems(1)] close_handle.hyps(2,3)]
  have "entry (free d' s) = (entry s)(j := 0)" by blast
  with close_handle show ?case by auto
qed simp

end

text \<open>The table of the code: an open descriptor knows its number and lies in a page of its own.\<close>

definition fd_entry :: "system \<Rightarrow> nat \<Rightarrow> addr" where
  "fd_entry s i = (if i < PHIX_MAX_FILE_DESCRIPTORS then file_descriptors s ! i else 0)"

definition fd_table_ok :: "system \<Rightarrow> bool" where
  "fd_table_ok s = (length (file_descriptors s) = PHIX_MAX_FILE_DESCRIPTORS \<and>
     (\<forall>i. fd_entry s i \<noteq> 0 \<longrightarrow> fd_entry s i \<in> kheap_pool - kheap_avail (ram s) \<and>
        load32 (ram s) (fd_index (fd_entry s i)) = of_nat i + 1))"

definition fd_room :: "system \<Rightarrow> bool" where
  "fd_room s = (kheap_avail (ram s) \<noteq> {})"

lemma fd_entry_inj:
  assumes "fd_table_ok s" and "fd_entry s i = fd_entry s j" and "fd_entry s i \<noteq> 0"
  shows "i = j"
proof -
  have b: "i < PHIX_MAX_FILE_DESCRIPTORS" "j < PHIX_MAX_FILE_DESCRIPTORS"
    using assms(2,3) by (auto simp: fd_entry_def split: if_splits)
  have "load32 (ram s) (fd_index (fd_entry s i)) = of_nat i + 1" "load32 (ram s) (fd_index (fd_entry s j)) = of_nat j + 1"
    using assms unfolding fd_table_ok_def by metis+
  then have "(of_nat i :: u32) + 1 = of_nat j + 1" using assms(2) by simp
  then have "(of_nat i :: u32) = of_nat j" by simp
  with b show ?thesis using word_of_nat_inj [of i j] by (simp add: PHIX_MAX_FILE_DESCRIPTORS_def)
qed

lemma free_index_Some: "free_index i xs = Some k \<Longrightarrow> i \<le> k \<and> k < i + length xs \<and> xs ! (k - i) = 0"
proof (induction xs arbitrary: i)
  case (Cons x xs)
  then show ?case
  proof (cases "x = 0")
    case False
    with Cons.prems have "free_index (Suc i) xs = Some k" by simp
    from Cons.IH [OF this] show ?thesis by (auto simp: nth_Cons' Suc_diff_le)
  qed auto
qed simp

lemma file_descriptor_new_entry:
  assumes ok: "fd_table_ok s" and room: "fd_room s" and new: "file_descriptor_new s = (0, d, s')"
  shows "fd_table_ok s'" and "\<exists>i. fd_entry s i = 0 \<and> d \<noteq> 0 \<and> fd_entry s' = (fd_entry s)(i := d)"
    and "\<And>a. kheap_safe (ram s) a \<Longrightarrow> ram s' a = ram s a" and "d \<in> kheap_avail (ram s)" and "kheap_avail (ram s') = kheap_avail (ram s) - {d}"
proof -
  have len: "length (file_descriptors s) = 512" using ok by (simp add: fd_table_ok_def PHIX_MAX_FILE_DESCRIPTORS_def)
  have n0: "- ENOMEM \<noteq> (0 :: u32)" by (simp add: ENOMEM_def)
  have "free_index 0 (file_descriptors s) \<noteq> None"
  proof
    assume "free_index 0 (file_descriptors s) = None"
    then have "file_descriptor_new s = (- ENOMEM, 0, s)" unfolding file_descriptor_new_def by (simp only: option.case)
    from trans [OF sym [OF this] new] have "- ENOMEM = (0 :: i32)" by (simp only: prod.inject)
    with n0 show False by contradiction
  qed
  then obtain i where i: "free_index 0 (file_descriptors s) = Some i" by blast
  from free_index_Some [OF this] len have i512: "i < 512" "file_descriptors s ! i = 0" by auto
  have sz: "0 < unat sizeof_file_descriptor" "unat sizeof_file_descriptor \<le> 4096" by (simp_all add: sizeof_file_descriptor_def)
  have ne: "kheap_avail (ram s) \<noteq> {}" using room by (simp add: fd_room_def)
  obtain p m where p: "kzalloc sizeof_file_descriptor (ram s) = (p, m)" "p \<in> kheap_avail (ram s)" "p \<in> kheap_pool" "p \<noteq> 0"
    "kheap_avail m = kheap_avail (ram s) - {p}" "\<And>a. a - p < sizeof_file_descriptor \<Longrightarrow> m a = 0"
    "\<And>a. kheap_safe (ram s) a \<Longrightarrow> m a = ram s a" using kzalloc_safe [OF sz ne] by blast
  let ?m = "store32 m (p + 0) (of_nat i + 1)"
  have s': "s' = s\<lparr>ram := ?m, file_descriptors := (file_descriptors s)[i := p]\<rparr>" and d: "d = p"
    using new unfolding file_descriptor_new_def i p(1) by (auto simp add: layout)
  have av: "kheap_avail ?m = kheap_avail (ram s) - {p}" using kheap_avail_field [OF p(3), of 0] p(5) by simp
  have e: "fd_entry s' = (fd_entry s)(i := p)"
    using i512 len by (auto simp: fd_entry_def s' PHIX_MAX_FILE_DESCRIPTORS_def fun_eq_iff)
  have "fd_entry s i = 0" using i512 by (simp add: fd_entry_def)
  with e p(4) show "\<exists>i. fd_entry s i = 0 \<and> d \<noteq> 0 \<and> fd_entry s' = (fd_entry s)(i := d)" unfolding d by blast
  show same: "ram s' a = ram s a" if "kheap_safe (ram s) a" for a
  proof -
    have pg: "a div 4096 \<noteq> p div 4096" using that p(2) by (simp add: kheap_safe_def)
    have "a \<noteq> p + 0 + j" if "j < 4" for j using kheap_field(1) [OF p(3) _ that, of 0] pg by auto
    from this [of 0] this [of 1] this [of 2] this [of 3] show ?thesis using p(7) [OF that] by (simp add: s' store32_def)
  qed
  show "d \<in> kheap_avail (ram s)" "kheap_avail (ram s') = kheap_avail (ram s) - {d}" using p(2) av by (simp_all add: d s')
  have "fd_entry s' j \<in> kheap_pool - kheap_avail (ram s') \<and> load32 (ram s') (fd_index (fd_entry s' j)) = of_nat j + 1"
    if j: "fd_entry s' j \<noteq> 0" for j
  proof (cases "j = i")
    case True
    then show ?thesis using p(3) av by (simp add: e) (simp add: s' layout)
  next
    case False
    then have q: "fd_entry s' j = fd_entry s j" using e by simp
    then have o: "fd_entry s j \<in> kheap_pool" "fd_entry s j \<notin> kheap_avail (ram s)"
        "load32 (ram s) (fd_index (fd_entry s j)) = of_nat j + 1"
      using ok j by (auto simp: fd_table_ok_def)
    have "load32 (ram s') (fd_entry s j + 0) = load32 (ram s) (fd_entry s j + 0)"
      by (rule kheap_safe_load [OF same o(1,2)]) simp_all
    moreover have "fd_entry s j \<notin> kheap_avail (ram s')" using o(2) av by (simp add: s')
    ultimately show ?thesis using o q by (simp add: layout)
  qed
  then show "fd_table_ok s'" using len by (simp add: fd_table_ok_def s' PHIX_MAX_FILE_DESCRIPTORS_def)
qed

lemma file_descriptor_free_entry:
  assumes ok: "fd_table_ok s" and d: "fd_entry s i = d" "d \<noteq> 0"
  shows "fd_table_ok (file_descriptor_free d s) \<and> fd_entry (file_descriptor_free d s) = (fd_entry s)(i := 0)"
proof -
  let ?s = "file_descriptor_free d s"
  have len: "length (file_descriptors s) = 512" using ok by (simp add: fd_table_ok_def PHIX_MAX_FILE_DESCRIPTORS_def)
  have i: "i < 512" using d by (auto simp: fd_entry_def PHIX_MAX_FILE_DESCRIPTORS_def split: if_splits)
  have o: "d \<in> kheap_pool" "load32 (ram s) (fd_index d) = of_nat i + 1" using ok d by (auto simp: fd_table_ok_def)
  have s: "?s = s\<lparr>file_descriptors := (file_descriptors s)[i := 0], ram := kfree d (ram s)\<rparr>"
    using o(2) i by (simp add: file_descriptor_free_def unat_of_nat32)
  have e: "fd_entry ?s = (fd_entry s)(i := 0)"
    using i len by (auto simp: fd_entry_def s PHIX_MAX_FILE_DESCRIPTORS_def fun_eq_iff)
  have av: "kheap_avail (ram ?s) = insert d (kheap_avail (ram s))" using kfree_page [OF o(1)] by (simp add: s)
  have "fd_entry ?s j \<in> kheap_pool - kheap_avail (ram ?s) \<and> load32 (ram ?s) (fd_index (fd_entry ?s j)) = of_nat j + 1"
    if j: "fd_entry ?s j \<noteq> 0" for j
  proof -
    have ji: "j \<noteq> i" and q: "fd_entry ?s j = fd_entry s j" using j e by (auto split: if_splits)
    then have o2: "fd_entry s j \<in> kheap_pool" "fd_entry s j \<notin> kheap_avail (ram s)"
        "load32 (ram s) (fd_index (fd_entry s j)) = of_nat j + 1"
      using ok j by (auto simp: fd_table_ok_def)
    have "fd_entry s j \<noteq> d" using fd_entry_inj [OF ok, of j i] ji d j q by auto
    moreover have "load32 (ram ?s) (fd_entry s j + 0) = load32 (ram s) (fd_entry s j + 0)"
    proof (rule load32_same)
      fix k :: u32 assume "k < 4"
      then have "\<not> kheap_meta (fd_entry s j + 0 + k)" by (intro kheap_field(2) [OF o2(1)]) simp_all
      then show "ram ?s (fd_entry s j + 0 + k) = ram s (fd_entry s j + 0 + k)" using kfree_frame [OF o(1)] by (simp add: s)
    qed
    ultimately show ?thesis using o2 by (simp add: q av layout)
  qed
  with e show ?thesis using len by (simp add: fd_table_ok_def s PHIX_MAX_FILE_DESCRIPTORS_def)
qed

interpretation fdt: handle_table fd_table_ok fd_room fd_entry file_descriptor_new file_descriptor_free
  by unfold_locales (use file_descriptor_new_entry(1,2) file_descriptor_free_entry in blast)+

lemma file_descriptor_get_entry: "fd < 512 \<Longrightarrow> 0 < fd \<Longrightarrow> file_descriptor_get (of_nat fd) s = fd_entry s (fd - 1)"
  by (cases fd) (simp_all add: file_descriptor_get_def fd_entry_def PHIX_MAX_FILE_DESCRIPTORS_def sint_of_nat nat_diff_distrib' del: of_nat_Suc)


section \<open>Properties\<close>

text \<open>
  C21. The table of descriptors stays in order: in every sequence of successful opens and
  closes, a descriptor that is not closed keeps leading to its structure, which knows its
  number and lies in a page that is in use.
\<close>

theorem file_descriptor_stays:
  assumes "fd_table_ok s0"
    and "handle_run fd_room fd_entry file_descriptor_new file_descriptor_free s0 s cs"
    and "0 < fd" and "fd < 512" and "file_descriptor_get (of_nat fd) s0 = d" and "d \<noteq> 0" and "d \<notin> set cs"
  shows "fd_table_ok s \<and> file_descriptor_get (of_nat fd) s = d \<and> load32 (ram s) (fd_index d) = of_nat fd \<and>
     d \<in> kheap_pool - kheap_avail (ram s)"
proof -
  have ok: "fd_table_ok s" using fdt.run_ok [OF assms(2,1)] .
  have "fd_entry s0 (fd - 1) = d" using assms(3-5) by (simp add: file_descriptor_get_entry)
  from fdt.run_keeps [OF assms(2,1) this assms(6,7)] have e: "fd_entry s (fd - 1) = d" .
  then have "d \<in> kheap_pool - kheap_avail (ram s) \<and> load32 (ram s) (fd_index d) = of_nat (fd - 1) + 1"
    using ok assms(6) unfolding fd_table_ok_def by blast
  moreover have "of_nat (fd - 1) + 1 = (of_nat fd :: u32)" using assms(3) by (cases fd) simp_all
  ultimately show ?thesis using ok e assms(3,4) by (simp add: file_descriptor_get_entry)
qed

text \<open>The state of a machine that has just been switched on, with empty tables.\<close>

definition fd_state :: system where
  "fd_state = \<lparr>ram = \<lambda>_. 0, cr3 = 0, io = [], cr0 = 0, gdt_register = (0, 0), idt_register = (0, 0), task_register = 0, current_task = 0, task_tail = 0, task_head = 0, kchunk = 0,
     interrupt_callbacks = replicate 512 0, syscalls = replicate 1024 0, current_process = 0, keyboards_head = 0,
     keyboards_tail = 0, filesystems = replicate 12 0, file_descriptors = replicate 512 0,
     processes = replicate 12 0, screen = \<lparr>video_mem = 0xB8000, terminal_row = 0, terminal_col = 0\<rparr>\<rparr>"

theorem file_descriptor_stays_witness:
  "\<exists>d1 s1 d2 s2. file_descriptor_new fd_state = (0, d1, s1) \<and> file_descriptor_new s1 = (0, d2, s2) \<and> d2 \<noteq> d1 \<and>
     file_descriptor_get 1 (file_descriptor_free d2 s2) = d1 \<and> d1 \<noteq> 0"
proof -
  have fds: "file_descriptors fd_state = 0 # 0 # replicate 510 0"
    by (simp add: fd_state_def numeral_eq_Suc)
  obtain d1 s1 where n1: "file_descriptor_new fd_state = (0, d1, s1)"
    by (cases "kzalloc sizeof_file_descriptor (ram fd_state)") (simp add: file_descriptor_new_def fds)
  have f1: "file_descriptors s1 = d1 # 0 # replicate 510 0"
    using n1 by (auto simp: file_descriptor_new_def fds split: prod.splits)
  have ok0: "fd_table_ok fd_state" by (simp add: fd_table_ok_def fd_entry_def fd_state_def PHIX_MAX_FILE_DESCRIPTORS_def)
  have "kheap_avail (ram fd_state) = kheap_pool" by (simp add: fd_state_def kheap_avail_zero)
  then have c0: "card (kheap_avail (ram fd_state)) = 25600" by (simp add: card_kheap_pool)
  then have r0: "fd_room fd_state" by (auto simp: fd_room_def)
  note e1 = file_descriptor_new_entry [OF ok0 r0 n1]
  have "d1 \<noteq> 0" using e1(2) by blast
  have r1: "fd_room s1"
  proof -
    have "card (kheap_avail (ram s1)) = 25599" using e1(4,5) c0 by simp
    then show ?thesis by (auto simp: fd_room_def)
  qed
  obtain d2 s2 where n2: "file_descriptor_new s1 = (0, d2, s2)" using \<open>d1 \<noteq> 0\<close>
    by (cases "kzalloc sizeof_file_descriptor (ram s1)") (simp add: file_descriptor_new_def f1)
  note e2 = file_descriptor_new_entry [OF e1(1) r1 n2]
  have "d2 \<noteq> d1" using e2(4) e1(5) by blast
  obtain j where "fd_entry s2 = (fd_entry s1)(j := d2)" "d2 \<noteq> 0" using e2(2) by blast
  then have j: "fd_entry s2 j = d2" "d2 \<noteq> 0" by simp_all
  have "handle_run fd_room fd_entry file_descriptor_new file_descriptor_free s1 s2 []"
    using handle_run.start r1 n2 by (rule handle_run.open_handle)
  from handle_run.close_handle [OF this j]
  have run: "handle_run fd_room fd_entry file_descriptor_new file_descriptor_free s1 (file_descriptor_free d2 s2) [d2]" .
  have "file_descriptor_get (of_nat 1) s1 = d1" by (simp add: file_descriptor_get_def f1 PHIX_MAX_FILE_DESCRIPTORS_def)
  from file_descriptor_stays [OF e1(1) run _ _ this \<open>d1 \<noteq> 0\<close>] \<open>d2 \<noteq> d1\<close>
  have "file_descriptor_get 1 (file_descriptor_free d2 s2) = d1" by simp
  with n1 n2 \<open>d1 \<noteq> 0\<close> \<open>d2 \<noteq> d1\<close> show ?thesis by blast
qed

text \<open>The last slot of the table is given out, but its number 512 is refused.\<close>

theorem file_descriptor_last_lost:
  assumes "free_index 0 (file_descriptors s) = Some 511" and "file_descriptor_new s = (r, d, s')"
  shows "r = 0 \<and> load32 (ram s') (fd_index d) = 512 \<and> file_descriptor_get (load32 (ram s') (fd_index d)) s' = 0"
proof -
  have "r = 0 \<and> load32 (ram s') (fd_index d) = 512"
    using assms by (auto simp: file_descriptor_new_def layout split: prod.splits)
  then show ?thesis by (simp add: file_descriptor_get_def PHIX_MAX_FILE_DESCRIPTORS_def)
qed

end
