(* ===== verification/Elf_Load.thy ===== *)
theory Elf_Load
  imports File
begin

text \<open>
  \<open>elf_load\<close> and \<open>elf_close\<close> of \<open>phix/src/loader/formats/elfloader.c\<close>: reading a file
  through the file functions into memory and processing its headers.
\<close>

text \<open>
  \<open>old\<close> is what the caller's variable holds before; the second component of the result is
  what it holds after. The descriptor is not closed. Where the memory for the file cannot be
  allocated, \<open>ret\<close> is still \<open>0\<close>.
\<close>

definition elf_load_out :: "addr \<Rightarrow> i32 \<Rightarrow> mem \<Rightarrow> mem" where
  "elf_load_out elf_file ret m =
     (if ret \<noteq> 0 then kfree elf_file (kfree (load32 m (ef_elf_memory elf_file)) m) else m)"

definition elf_load ::
    "env \<Rightarrow> (addr \<Rightarrow> system fs_ops) \<Rightarrow> addr \<Rightarrow> addr \<Rightarrow> system \<Rightarrow> (i32 \<times> addr \<times> system) outcome" where
  "elf_load e ops filename old s =
     (let (elf_file, m) = kzalloc sizeof_elf_file (ram s); s = s\<lparr>ram := m\<rparr>;
          leave = (\<lambda>ret s. Done (ret, old, s\<lparr>ram := elf_load_out elf_file ret (ram s)\<rparr>))
      in if elf_file = 0 then Done (- ENOMEM, old, s)
         else obind (fopen e ops filename (lit_r e) s) (\<lambda>(fd, s).
           if sint fd < 0 then leave fd s
           else obind (fstat ops fd (stat_local e) s) (\<lambda>(ret, s).
             if sint ret < 0 then leave ret s
             else let (p, m) = kzalloc (load32 (ram s) (stat_filesize (stat_local e))) (ram s);
                      m = store32 m (ef_elf_memory elf_file) p; s = s\<lparr>ram := m\<rparr>
                  in if p = 0 then leave ret s
                     else obind (fread ops (load32 m (ef_elf_memory elf_file))
                                   (load32 m (stat_filesize (stat_local e))) 1 fd s) (\<lambda>(ret, s).
                       if sint ret < 0 then leave ret s
                       else let (ret, m) = elf_process_loaded (elf_sig e) elf_file (ram s); s = s\<lparr>ram := m\<rparr>
                            in if sint ret < 0 then leave ret s
                               else Done (ret, elf_file,
                                      s\<lparr>ram := elf_load_out elf_file ret (ram s)\<rparr>)))))"

definition elf_close :: "addr \<Rightarrow> mem \<Rightarrow> mem" where
  "elf_close elf_file m =
     (if elf_file = 0 then m else kfree elf_file (kfree (load32 m (ef_elf_memory elf_file)) m))"

end
