(* ===== verification/Process.thy ===== *)
theory Process
  imports Elf_Load
begin

text \<open>
  \<open>phix/src/task/process.c\<close>: loading a program into a slot of the process table, mapping
  its memory and the memory it allocates.
\<close>

section \<open>The process table\<close>

definition process_init :: "addr \<Rightarrow> mem \<Rightarrow> mem" where
  "process_init process m = memset m process 0 sizeof_process"

definition process_current :: "'a kernel_scheme \<Rightarrow> addr" where
  "process_current s = current_process s"

definition process_get :: "i32 \<Rightarrow> system \<Rightarrow> addr" where
  "process_get pid s =
     (if sint pid < 0 \<or> int PHIX_MAX_PROCESSES \<le> sint pid then - EINVAL
      else processes s ! nat (sint pid))"

definition process_get_free_slot :: "system \<Rightarrow> i32" where
  "process_get_free_slot s =
     (case free_index 0 (processes s) of Some i \<Rightarrow> of_nat i | None \<Rightarrow> - EISTKN)"

definition process_switch :: "addr \<Rightarrow> 'a kernel_scheme \<Rightarrow> i32 \<times> 'a kernel_scheme" where
  "process_switch process s = (0, s\<lparr>current_process := process\<rparr>)"

section \<open>Loading\<close>

text \<open>\<open>old\<close> is the uninitialised pointer that \<open>elf_load\<close> is to set.\<close>

definition process_load_elf ::
    "env \<Rightarrow> (addr \<Rightarrow> system fs_ops) \<Rightarrow> addr \<Rightarrow> addr \<Rightarrow> addr \<Rightarrow> system \<Rightarrow> (i32 \<times> system) outcome" where
  "process_load_elf e ops old filename process s =
     obind (elf_load e ops filename old s) (\<lambda>(ret, elf_file, s).
       if sint ret < 0 then Done (ret, s)
       else let m = (ram s)(process_filetype process := PROCESS_FILETYPE_ELF)
            in Done (0, s\<lparr>ram := store32 m (process_elf_file process) elf_file\<rparr>))"

text \<open>\<open>leave\<close> is the exit at \<open>out\<close>.\<close>

definition process_load_binary ::
    "env \<Rightarrow> (addr \<Rightarrow> system fs_ops) \<Rightarrow> addr \<Rightarrow> addr \<Rightarrow> system \<Rightarrow> (i32 \<times> system) outcome" where
  "process_load_binary e ops filename process s =
     obind (fopen e ops filename (lit_r e) s) (\<lambda>(fd, s).
       if sint fd < 0 then Done (fd, s)
       else let leave = (\<lambda>ret program_data s.
                  let s = (if sint ret < 0 then s\<lparr>ram := kfree program_data (ram s)\<rparr> else s)
                  in obind (fclose ops fd s) (\<lambda>(_, s). Done (ret, s)))
            in obind (fstat ops fd (stat_local e) s) (\<lambda>(ret, s).
              if sint ret < 0 then leave ret 0 s
              else let (program_data, m) = kzalloc (load32 (ram s) (stat_filesize (stat_local e))) (ram s);
                       s = s\<lparr>ram := m\<rparr>
                   in if program_data = 0 then leave (- ENOMEM) program_data s
                      else obind (fread ops program_data (load32 m (stat_filesize (stat_local e))) 1 fd s) (\<lambda>(ret, s).
                        if ret \<noteq> 1 then leave ret program_data s
                        else let m = (ram s)(process_filetype process := PROCESS_FILETYPE_BINARY);
                                 m = store32 m (process_p process) program_data;
                                 m = store32 m (process_size process) (load32 m (stat_filesize (stat_local e)))
                             in leave ret program_data (s\<lparr>ram := m\<rparr>))))"

definition process_load_data ::
    "env \<Rightarrow> (addr \<Rightarrow> system fs_ops) \<Rightarrow> addr \<Rightarrow> addr \<Rightarrow> addr \<Rightarrow> system \<Rightarrow> (i32 \<times> system) outcome" where
  "process_load_data e ops old filename process s =
     obind (process_load_elf e ops old filename process s) (\<lambda>(ret, s).
       if ret = - EBADFORMAT then process_load_binary e ops filename process s else Done (ret, s))"

section \<open>Mapping\<close>

definition process_chunk :: "addr \<Rightarrow> mem \<Rightarrow> addr" where
  "process_chunk process m = load32 m (task_page_directory (load32 m (process_task process)))"

text \<open>One program header; \<open>None\<close> in the first component is the next round.\<close>

definition process_map_phdr :: "addr \<Rightarrow> addr \<Rightarrow> addr \<Rightarrow> mem \<Rightarrow> i32 \<times> mem" where
  "process_map_phdr process elf_file phdr m =
     (let phdr_paddr = elf_phdr_paddr elf_file phdr m;
          flags = PAGING_IS_PRESENT OR PAGING_ACCESS_FROM_ALL;
          flags = (if load32 m (p_flags phdr) AND PF_W \<noteq> 0 then flags OR PAGING_IS_WRITABLE else flags);
          (nomem, phdr_paddr, m) =
            (if load32 m (p_filesz phdr) = 0
             then let (p, m) = kzalloc (PAGE_ALIGN (load32 m (p_memsz phdr))) m;
                      m = store32 m (process_bss_p process) p
                  in if p = 0 then (True, phdr_paddr, m)
                     else let m = store32 m (process_bss_size process) (load32 m (p_memsz phdr))
                          in (False, load32 m (process_bss_p process), m)
             else (False, phdr_paddr, m))
      in if nomem then (- ENOMEM, m)
         else paging_map_to (process_chunk process m) (PAGE_ALIGN_LOWER (load32 m (p_vaddr phdr)))
                (PAGE_ALIGN_LOWER phdr_paddr) (PAGE_ALIGN (phdr_paddr + load32 m (p_memsz phdr))) flags m)"

text \<open>\<open>e_phnum\<close> has 16 bits: \<open>2 ^ 16\<close> rounds are enough.\<close>

fun process_map_elf_loop :: "addr \<Rightarrow> addr \<Rightarrow> addr \<Rightarrow> i32 \<Rightarrow> i32 \<Rightarrow> nat \<Rightarrow> mem \<Rightarrow> i32 \<times> mem" where
  "process_map_elf_loop process elf_file header i ret 0 m = (ret, m)"
| "process_map_elf_loop process elf_file header i ret (Suc n) m =
     (if \<not> sint i < sint (ucast (load16 m (e_phnum header)) :: i32) then (ret, m)
      else let (ret, m) = process_map_phdr process elf_file (elf_program_header header i m) m
           in if sint ret < 0 then (ret, m)
              else process_map_elf_loop process elf_file header (i + 1) ret n m)"

definition process_map_elf :: "addr \<Rightarrow> mem \<Rightarrow> i32 \<times> mem" where
  "process_map_elf process m =
     (let elf_file = load32 m (process_elf_file process); header = elf_header elf_file m
      in process_map_elf_loop process elf_file header 0 0 65536 m)"

definition process_map_binary :: "addr \<Rightarrow> mem \<Rightarrow> i32 \<times> mem" where
  "process_map_binary process m =
     paging_map_to (process_chunk process m) PHIX_PROGRAM_VIRTUAL_ADDRESS (load32 m (process_p process))
       (PAGE_ALIGN (load32 m (process_p process) + load32 m (process_size process)))
       (PAGING_IS_PRESENT OR PAGING_IS_WRITABLE OR PAGING_ACCESS_FROM_ALL) m"

definition process_map_memory :: "addr \<Rightarrow> mem \<Rightarrow> (i32 \<times> mem) outcome" where
  "process_map_memory process m =
     obind (if m (process_filetype process) = PROCESS_FILETYPE_ELF then Done (process_map_elf process m)
            else if m (process_filetype process) = PROCESS_FILETYPE_BINARY then Done (process_map_binary process m)
            else Panic ''process_map_memory: Unexpected filetype'') (\<lambda>(ret, m).
       if sint ret < 0 then Done (ret, m)
       else Done (paging_map_to (process_chunk process m) PHIX_PROGRAM_VIRTUAL_STACK_ADDRESS_END
              (load32 m (process_stack process))
              (PAGE_ALIGN (load32 m (process_stack process) + PHIX_USER_PROGRAM_STACK_SIZE))
              (PAGING_IS_PRESENT OR PAGING_IS_WRITABLE OR PAGING_ACCESS_FROM_ALL) m))"

section \<open>Starting a program\<close>

definition process_load_failed :: "i32 \<Rightarrow> addr \<Rightarrow> addr \<Rightarrow> addr \<Rightarrow> system \<Rightarrow> i32 \<times> addr \<times> system" where
  "process_load_failed ret program_sp task out s =
     (ret, out, task_free task (s\<lparr>ram := kfree program_sp (ram s)\<rparr>))"

text \<open>The second component of the result is the caller's \<open>*process\<close>, which was \<open>out\<close>.\<close>

definition process_load_for_slot ::
    "env \<Rightarrow> (addr \<Rightarrow> system fs_ops) \<Rightarrow> addr \<Rightarrow> addr \<Rightarrow> addr \<Rightarrow> i32 \<Rightarrow> system \<Rightarrow> (i32 \<times> addr \<times> system) outcome" where
  "process_load_for_slot e ops old filename out process_slot s =
     (let p = process_get process_slot s
      in if ISERR p then Done (p, out, s)
         else if p \<noteq> 0 then Done (- EISTKN, out, s)
         else let (p, m) = kzalloc sizeof_process (ram s)
              in if p = 0 then Done (- ENOMEM, out, s\<lparr>ram := m\<rparr>)
                 else obind (process_load_data e ops old filename p (s\<lparr>ram := process_init p m\<rparr>)) (\<lambda>(ret, s).
                   if sint ret < 0 then Done (process_load_failed ret 0 0 out s)
                   else let (program_sp, m) = kzalloc PHIX_USER_PROGRAM_STACK_SIZE (ram s)
                        in if program_sp = 0
                           then Done (process_load_failed (- ENOMEM) program_sp 0 out (s\<lparr>ram := m\<rparr>))
                           else let m = strncpy m (process_filename p) filename PHIX_MAX_PATH;
                                    m = store32 m (process_stack p) program_sp;
                                    m = store16 m (process_id p) (ucast process_slot)
                                in obind (task_new p (s\<lparr>ram := m\<rparr>)) (\<lambda>(task, s).
                                  if ISERR task then Done (process_load_failed task program_sp task out s)
                                  else let m = store32 (ram s) (process_task p) task
                                       in obind (process_map_memory p m) (\<lambda>(ret, m).
                                         let s = s\<lparr>ram := m\<rparr>
                                         in if sint ret < 0 then Done (process_load_failed ret program_sp task out s)
                                            else Done (ret, p, s\<lparr>processes := (processes s)[nat (sint process_slot) := p]\<rparr>)))))"

definition process_load ::
    "env \<Rightarrow> (addr \<Rightarrow> system fs_ops) \<Rightarrow> addr \<Rightarrow> addr \<Rightarrow> addr \<Rightarrow> system \<Rightarrow> (i32 \<times> addr \<times> system) outcome" where
  "process_load e ops old filename out s =
     (let process_slot = process_get_free_slot s
      in if sint process_slot < 0 then Done (- ENOMEM, out, s)
         else process_load_for_slot e ops old filename out process_slot s)"

definition process_load_switch ::
    "env \<Rightarrow> (addr \<Rightarrow> system fs_ops) \<Rightarrow> addr \<Rightarrow> addr \<Rightarrow> addr \<Rightarrow> system \<Rightarrow> (i32 \<times> addr \<times> system) outcome" where
  "process_load_switch e ops old filename out s =
     obind (process_load e ops old filename out s) (\<lambda>(ret, out, s).
       if sint ret < 0 then Done (ret, out, s)
       else let (_, s) = process_switch out s in Done (0, out, s))"

section \<open>Memory of a process\<close>

text \<open>The first index from \<open>i\<close> on, of the \<open>n\<close> that are left, whose allocation is at \<open>p\<close>.\<close>

fun allocation_index :: "addr \<Rightarrow> addr \<Rightarrow> nat \<Rightarrow> nat \<Rightarrow> mem \<Rightarrow> nat option" where
  "allocation_index process p i 0 m = None"
| "allocation_index process p i (Suc n) m =
     (if load32 m (allocation_p process i) = p then Some i else allocation_index process p (Suc i) n m)"

definition process_find_free_allocatation_index :: "addr \<Rightarrow> mem \<Rightarrow> i32" where
  "process_find_free_allocatation_index process m =
     (case allocation_index process 0 0 PHIX_MAX_PROGRAM_ALLOCATIONS m of Some i \<Rightarrow> of_nat i | None \<Rightarrow> - ENOMEM)"

definition process_malloc :: "addr \<Rightarrow> u32 \<Rightarrow> mem \<Rightarrow> addr \<times> mem" where
  "process_malloc process size_bytes m =
     (let (p, m) = kzalloc size_bytes m
      in if p = 0 then (0, m)
         else let index = process_find_free_allocatation_index process m
              in if sint index < 0 then (0, kfree p m)
                 else let (ret, m) = paging_map_to (process_chunk process m) p p (PAGE_ALIGN (p + size_bytes))
                            (PAGING_IS_PRESENT OR PAGING_IS_WRITABLE OR PAGING_ACCESS_FROM_ALL) m
                      in if sint ret < 0 then (0, kfree p m)
                         else let m = store32 m (allocation_p process (unat index)) p
                              in (p, store32 m (allocation_size process (unat index)) size_bytes))"

definition process_free :: "addr \<Rightarrow> addr \<Rightarrow> mem \<Rightarrow> mem" where
  "process_free process p m =
     (case allocation_index process p 0 PHIX_MAX_PROGRAM_ALLOCATIONS m of None \<Rightarrow> m
      | Some i \<Rightarrow>
          let (_, m) = paging_map_to (process_chunk process m) p 0
                         (PAGE_ALIGN (p + load32 m (allocation_size process i))) 0 m;
              m = store32 m (allocation_p process i) 0;
              m = store32 m (allocation_size process i) 0
          in kfree p m)"

section \<open>Properties\<close>

lemma allocation_index_Some:
  "allocation_index process p i n m = Some k \<Longrightarrow> i \<le> k \<and> k < i + n \<and> load32 m (allocation_p process k) = p"
  by (induction process p i n m rule: allocation_index.induct) (auto split: if_splits)

text \<open>
  C25. \<open>process_free\<close> is to unmap the pages of one allocation. It gives the end address
  where the range is counted from the frame \<open>0\<close>: as many pages are unmapped as there are
  from address \<open>0\<close> to the end of the allocation, from the allocation on.
\<close>

theorem process_free_unmaps:
  assumes "allocation_index process p 0 PHIX_MAX_PROGRAM_ALLOCATIONS m = Some i" and "p \<in> kheap_pool"
    and "load32 m (allocation_size process i) = sz" and "chunk_ok m (process_chunk process m)"
    and "\<And>k. k < 8 \<Longrightarrow> \<not> kheap_meta (allocation_size process i + k) \<and>
      (\<forall>q \<in> chunk_pages m (process_chunk process m). (allocation_size process i + k) div 4096 \<noteq> q div 4096)"
    and "w mod 4096 = 0"
  shows "pte_at (process_free process p m) (load32 m (process_chunk process m)) w =
     (if unat (w - p) div 4096 < unat (PAGE_ALIGN (p + sz)) div 4096 then w - p
      else pte_at m (load32 m (process_chunk process m)) w)"
proof -
  let ?c = "process_chunk process m" and ?A = "allocation_size process i" and ?pend = "PAGE_ALIGN (p + sz)"
  let ?dir = "load32 m ?c"
  have pm: "p mod 4096 = 0" using kheap_pool_page [OF assms(2)] by simp
  have z: "(0 :: u32) mod 4096 = 0" "0 \<le> ?pend" by simp_all
  obtain m1 where m1: "paging_map_to ?c p 0 ?pend 0 m = (0, m1)" "chunk_ok m1 ?c" "load32 m1 ?c = ?dir"
      "chunk_tables m1 ?c = chunk_tables m ?c"
      "\<And>w. w mod 4096 = 0 \<Longrightarrow> pte_at m1 ?dir w = map_pages p 0 (unat (?pend - 0) div 4096) 0 (pte_at m ?dir) w"
    using paging_map_to_spec [where flags = 0, OF assms(4) pm z(1) PAGE_ALIGN_mod z(2)] by blast
  have S: "allocation_p process i = ?A + 4" by (simp add: layout)
  let ?m2 = "store32 (store32 m1 (?A + 4) 0) ?A 0"
  have res: "process_free process p m = kfree p ?m2"
    using assms(1,3) m1(1) by (simp add: process_free_def S)
  have pages: "chunk_pages m1 ?c = chunk_pages m ?c" using m1(3,4) by (simp add: chunk_pages_def)
  have same: "kfree p ?m2 a = m1 a" if q: "q \<in> chunk_pages m1 ?c" "a div 4096 = q div 4096" for q a
  proof -
    have "q \<in> kheap_pool" using q(1) m1(2) by (auto simp: chunk_pages_def chunk_tables_eq chunk_ok_def)
    then have "\<not> kheap_meta a" using kheap_pool_meta q(2) by blast
    then have "kfree p ?m2 a = ?m2 a" by (rule kfree_frame [OF assms(2)])
    also have "\<dots> = m1 a"
    proof -
      have "a \<noteq> ?A + k" if "k < 8" for k using assms(5) [OF that] q pages by auto
      from this [of 0] this [of 1] this [of 2] this [of 3] this [of 4] this [of 5] this [of 6] this [of 7]
      show ?thesis by (simp add: store32_def add.assoc)
    qed
    finally show ?thesis .
  qed
  have "pte_at (kfree p ?m2) ?dir w = pte_at m1 ?dir w"
    using chunk_frame(2) [OF m1(2) same] m1(3) by simp
  also have "\<dots> = map_pages p 0 (unat ?pend div 4096) 0 (pte_at m ?dir) w" using m1(5) [OF assms(6)] by simp
  finally show ?thesis unfolding res by (simp add: map_pages_def)
qed

theorem process_free_unmaps_witness:
  "\<exists>m dir p. p \<in> kheap_pool \<and> load32 m (allocation_p 0x30000 0) = p \<and> load32 m (allocation_size 0x30000 0) = 4096 \<and>
     pte_at m dir (p + 0x200000) = (p + 0x200000) OR 7 \<and> pte_at (process_free 0x30000 p m) dir (p + 0x200000) = 0x200000"
proof -
  obtain c m0 where "chunk_ok m0 c \<and> chunk_pages m0 c \<subseteq> kheap_pool \<and> kheap_avail m0 = kheap_pool - chunk_pages m0 c \<and>
      (\<forall>v. v mod 4096 = 0 \<longrightarrow> pte_at m0 (load32 m0 c) v = v OR ucast (7 :: u8))"
    using paging_new_chunk_spec [of "\<lambda>_. 0" 7] by (auto simp: kheap_avail_zero card_kheap_pool)
  then have c: "chunk_ok m0 c" "kheap_avail m0 = kheap_pool - chunk_pages m0 c"
    and pte: "\<And>v. v mod 4096 = 0 \<Longrightarrow> pte_at m0 (load32 m0 c) v = v OR 7" by simp_all
  obtain p where p: "p \<in> kheap_pool" using card_kheap_pool by fastforce
  then have pr: "16777216 \<le> unat p" "p mod 4096 = 0" using kheap_pool_range [OF p] kheap_pool_page [OF p] by simp_all
  have w: "(p + 0x200000) mod 4096 = 0" using pr(2) by (intro aligned_add4096) simp_all
  let ?m = "store32 (store32 (store32 (store32 m0 0x40000 c) 0x30070 0x40000) 0x30078 p) 0x30074 4096"
  have low: "?m a = m0 a" if "q \<in> chunk_pages m0 c" "a div 4096 = q div 4096" for q a
  proof -
    have "q \<in> kheap_pool" using that(1) c(1) by (auto simp: chunk_pages_def chunk_tables_eq chunk_ok_def)
    then have "16777216 \<le> unat a" using that(2) by (rule kheap_pool_range)
    then have "a \<noteq> x" if "unat x < 16777216" for x using that by auto
    then show ?thesis by (simp add: store32_def)
  qed
  note fr = chunk_frame [where m' = ?m, OF c(1) low]
  have v: "load32 ?m 0x30074 = 4096" "load32 ?m 0x30078 = p" "load32 ?m 0x30070 = 0x40000" "load32 ?m 0x40000 = c"
    by (simp_all add: load32_store32_apart)
  then have ch: "process_chunk 0x30000 ?m = c" by (simp add: process_chunk_def layout)
  have n: "PHIX_MAX_PROGRAM_ALLOCATIONS = Suc 1023" by (simp add: PHIX_MAX_PROGRAM_ALLOCATIONS_def)
  have a: "load32 ?m (allocation_p 0x30000 0) = p" "load32 ?m (allocation_size 0x30000 0) = 4096"
    using v(1,2) by (simp_all add: layout)
  have ix: "allocation_index 0x30000 p 0 PHIX_MAX_PROGRAM_ALLOCATIONS ?m = Some 0"
    unfolding n allocation_index.simps a(1) by simp
  have slot: "\<not> kheap_meta (allocation_size 0x30000 0 + k) \<and>
      (\<forall>q \<in> chunk_pages ?m (process_chunk 0x30000 ?m). (allocation_size 0x30000 0 + k) div 4096 \<noteq> q div 4096)"
    if "k < 8" for k
  proof -
    have "unat k < 8" using that by (simp add: word_less_nat_alt)
    then have u: "unat (0x30074 + k) = 0x30074 + unat k" by (subst unat_add_less) simp_all
    have pages: "chunk_pages ?m (process_chunk 0x30000 ?m) = chunk_pages m0 c" using fr(4) by (simp only: ch)
    have A: "allocation_size 0x30000 0 + k = 0x30074 + k" by (simp add: layout)
    show ?thesis unfolding pages A
    proof (intro conjI ballI notI)
      assume "kheap_meta (0x30074 + k)"
      with kheap_meta_range [OF this] u show False by simp
    next
      fix q assume q: "q \<in> chunk_pages m0 c" "(0x30074 + k) div 4096 = q div 4096"
      then have "q \<in> kheap_pool" using c(1) by (auto simp: chunk_pages_def chunk_tables_eq chunk_ok_def)
      from kheap_pool_range [OF this q(2)] u \<open>unat k < 8\<close> show False by simp
    qed
  qed
  have ok: "chunk_ok ?m (process_chunk 0x30000 ?m)" using fr(3) by (simp only: ch)
  have align: "512 < unat (PAGE_ALIGN (p + 4096)) div 4096"
  proof -
    from p obtain b where "b < 25600" "p = block_addr kernel_heap b" by (auto simp: kheap_pool_def)
    then have "unat p < 0x10000000" by (simp add: unat_kernel_block)
    then have "unat (p + 8191) = unat p + 8191" by (subst unat_add_less) simp_all
    moreover have "unat (PAGE_ALIGN (p + 4096)) div 4096 = unat (p + 8191) div 4096"
      using arg_cong [OF PAGE_ALIGN_div [of "p + 4096"], of unat] by (simp add: unat_div add.assoc)
    ultimately show ?thesis using pr(1) by simp
  qed
  have dist: "unat (p + 0x200000 - p) div 4096 = 512" by simp
  from process_free_unmaps [OF ix p a(2) ok slot w] align dist
  have "pte_at (process_free 0x30000 p ?m) (load32 m0 c) (p + 0x200000) = 0x200000"
    by (simp add: ch fr(1))
  moreover have "pte_at ?m (load32 m0 c) (p + 0x200000) = (p + 0x200000) OR 7" using fr(2) pte [OF w] by simp
  ultimately show ?thesis using p a by blast
qed

end
