(* ===== verification/Syscalls.thy ===== *)
theory Syscalls
  imports Process
begin

text \<open>
  \<open>phix/src/isr80h/\<close>: the nine system calls. They run under the kernel's directory for
  the current task and return the word that the wrapper of \<open>idt.asm\<close> leaves in \<open>eax\<close>;
  \<open>syscall6_process_load_start\<close> leaves the kernel by \<open>task_return\<close> instead (\<open>Inr\<close>, with
  the address of the registers it restores). The interrupt frame is not used.
\<close>

definition syscall0_sum :: "system \<Rightarrow> (u32 \<times> system) outcome" where
  "syscall0_sum s =
     obind (task_get_stack_item (task_current s) 1 s) (\<lambda>(v2, s).
     obind (task_get_stack_item (task_current s) 0 s) (\<lambda>(v1, s). Done (v1 + v2, s)))"

text \<open>\<open>buf\<close> is an array of 512 pointers, 2048 bytes.\<close>

definition syscall1_print :: "env \<Rightarrow> system \<Rightarrow> (u32 \<times> system) outcome" where
  "syscall1_print e s =
     obind (task_get_stack_item (task_current s) 0 s) (\<lambda>(user_msg_buf, s).
     obind (copy_string_from_task (task_current s) user_msg_buf (print_local e) 2048 (ram s)) (\<lambda>(_, m).
     obind (of_option (print (print_local e) (screen s, m))) (\<lambda>(t, m).
       Done (0, s\<lparr>ram := m, screen := t\<rparr>))))"

definition syscall2_getkey :: "system \<Rightarrow> (u32 \<times> system) outcome" where
  "syscall2_getkey s =
     (let (c, s) = on_ram (keyboard_pop (task_current s)) s in Done (char_to_int c, s))"

definition screen_putchar :: "u8 \<Rightarrow> system \<Rightarrow> system" where
  "screen_putchar c s = (let (t, m) = putchar c (screen s, ram s) in s\<lparr>ram := m, screen := t\<rparr>)"

definition syscall3_putchar :: "system \<Rightarrow> (u32 \<times> system) outcome" where
  "syscall3_putchar s =
     obind (task_get_stack_item (task_current s) 0 s) (\<lambda>(c, s). Done (0, screen_putchar (ucast c) s))"

definition syscall4_malloc :: "system \<Rightarrow> (u32 \<times> system) outcome" where
  "syscall4_malloc s =
     obind (task_get_stack_item (task_current s) 0 s) (\<lambda>(size_bytes, s).
       Done (on_ram (process_malloc (load32 (ram s) (task_process (task_current s))) size_bytes) s))"

definition syscall5_free :: "system \<Rightarrow> (u32 \<times> system) outcome" where
  "syscall5_free s =
     obind (task_get_stack_item (task_current s) 0 s) (\<lambda>(p, s).
       Done (0, s\<lparr>ram := process_free (load32 (ram s) (task_process (task_current s))) p (ram s)\<rparr>))"

text \<open>\<open>char filename[PHIX_MAX_PATH] = "0:/"\<close> and a copy of \<open>sizeof(filename)\<close> bytes behind it.\<close>

definition exec_prefix :: "addr \<Rightarrow> mem \<Rightarrow> mem" where
  "exec_prefix filename m =
     (memset m filename 0 PHIX_MAX_PATH)(filename := 0x30, filename + 1 := 0x3A, filename + 2 := 0x2F)"

definition syscall6_process_load_start ::
    "env \<Rightarrow> (addr \<Rightarrow> system fs_ops) \<Rightarrow> addr \<Rightarrow> addr \<Rightarrow> system \<Rightarrow> ((u32 + addr) \<times> system) outcome" where
  "syscall6_process_load_start e ops old out s =
     (let s = s\<lparr>ram := exec_prefix (exec_local e) (ram s)\<rparr>
      in obind (task_get_stack_item (task_current s) 0 s) (\<lambda>(filename_user_ptr, s).
         obind (copy_string_from_task (task_current s) filename_user_ptr (exec_local e + 3) PHIX_MAX_PATH (ram s)) (\<lambda>(ret, m).
           let s = s\<lparr>ram := m\<rparr>
           in if sint ret < 0 then Done (Inl ret, s)
              else obind (of_option (sto_lower m (exec_local e))) (\<lambda>m.
                   obind (process_load_switch e ops old (exec_local e) out (s\<lparr>ram := m\<rparr>)) (\<lambda>(ret, new_process, s).
                     if sint ret < 0 then Done (Inl ret, s)
                     else let task = load32 (ram s) (process_task new_process);
                              s = task_switch task s
                          in Done (Inr (task_registers (load32 (ram s) (process_task new_process))), s))))))"

definition syscall7_get_paddr :: "system \<Rightarrow> (u32 \<times> system) outcome" where
  "syscall7_get_paddr s =
     obind (task_get_stack_item (task_current s) 0 s) (\<lambda>(p, s).
       Done (paging_get_paddr (load32 (ram s) (load32 (ram s) (task_page_directory (task_current s)))) p (ram s), s))"

definition syscall8_get_flags :: "system \<Rightarrow> (u32 \<times> system) outcome" where
  "syscall8_get_flags s =
     obind (task_get_stack_item (task_current s) 0 s) (\<lambda>(p, s).
       Done (paging_get_flags (load32 (ram s) (load32 (ram s) (task_page_directory (task_current s)))) p (ram s), s))"

end
