(* ===== verification/Kernel_Main.thy ===== *)
theory Kernel_Main
  imports Syscalls
begin

text \<open>
  \<open>kernel_main\<close> of \<open>phix/src/kernel.c\<close>: the start of the kernel, composed of the
  components in the order of the code, up to the \<open>task_return\<close> that enters the first task
  (its registers are the result), and the assembly it calls. The loads of the data segment
  registers are not modelled: every segment but the null segment is flat.
\<close>

text \<open>Fields of \<open>struct tss\<close>, which is packed and 100 bytes long.\<close>

definition tss_esp0 :: "addr \<Rightarrow> addr" where [layout]: "tss_esp0 t = t + 4"
definition tss_ss0 :: "addr \<Rightarrow> addr" where [layout]: "tss_ss0 t = t + 8"
definition sizeof_tss :: u32 where "sizeof_tss = 100"
definition PHIX_TOTAL_GDT_SEGMENTS :: i32 where [config_defs]: "PHIX_TOTAL_GDT_SEGMENTS = 6"

definition tss_setup :: "addr \<Rightarrow> mem \<Rightarrow> mem" where
  "tss_setup tss m =
     (let m = memset m tss 0 sizeof_tss;
          m = store32 m (tss_esp0 tss) 0x600000
      in store32 m (tss_ss0 tss) KERNEL_DATA_SELECTOR)"

section \<open>Descriptor tables\<close>

text \<open>\<open>gdt_load\<close> of \<open>gdt.asm\<close>: size and address go through the static \<open>gdt_descriptor\<close>.\<close>

definition gdt_load :: "addr \<Rightarrow> addr \<Rightarrow> u32 \<Rightarrow> 'a machine_scheme \<Rightarrow> 'a machine_scheme" where
  "gdt_load gdt_descriptor gdt size_bytes s =
     (let m = store32 (ram s) (gdt_descriptor + 2) gdt;
          m = store16 m gdt_descriptor (ucast size_bytes)
      in s\<lparr>ram := m, gdt_register := (load16 m gdt_descriptor, load32 m (gdt_descriptor + 2))\<rparr>)"

text \<open>
  \<open>tss_load\<close> of \<open>tss.asm\<close>: \<open>ltr\<close> loads the selector and marks the descriptor it selects in the
  table as busy.
\<close>

definition tss_load :: "u32 \<Rightarrow> 'a machine_scheme \<Rightarrow> 'a machine_scheme" where
  "tss_load selector s =
     (let p = snd (gdt_register s) + (selector AND 0xFFF8) + 5
      in s\<lparr>task_register := ucast selector, ram := (ram s)(p := ram s p OR 2)\<rparr>)"

section \<open>The start\<close>

text \<open>The only initialisation function of a keyboard.\<close>

definition keyboard_call :: "env \<Rightarrow> addr \<Rightarrow> system \<Rightarrow> i32 \<times> system" where
  "keyboard_call e f s = ps2_keyboard_init (ps2_handler e) s"

definition kernel_main ::
    "env \<Rightarrow> addr \<Rightarrow> system \<Rightarrow> (addr \<times> system) outcome" where
  "kernel_main e old s =
     (let (t, m) = terminal_init (ram s);
          m = memset m (gdt_real e) 0 (8 * PHIX_TOTAL_GDT_SEGMENTS)
      in obind (gdt_structured_to_gdt (gdt_real e) (kernel_segments (tss_static e)) PHIX_TOTAL_GDT_SEGMENTS m) (\<lambda>m.
         let s = gdt_load (gdt_desc e) (gdt_real e) (8 * PHIX_TOTAL_GDT_SEGMENTS) (s\<lparr>ram := m, screen := t\<rparr>)
         in obind (kheap_init (ram s)) (\<lambda>(_, m).
         obind (fs_init e (s\<lparr>ram := m\<rparr>)) (\<lambda>s.
         obind (disk_search_and_init e (fs_vtable e) s) (\<lambda>s.
         let s = idt_init (idt_table e) (idtr_static e) (idt_stubs e) (isr80h_stub e) (page_fault_stub e) s;
             s = tss_load 0x28 (s\<lparr>ram := tss_setup (tss_static e) (ram s)\<rparr>)
         in obind (paging_new_chunk (PAGING_IS_WRITABLE OR PAGING_IS_PRESENT OR PAGING_ACCESS_FROM_ALL) (ram s)) (\<lambda>(chunk, m).
            let s = enable_paging (switch_chunk chunk (s\<lparr>ram := m, kchunk := chunk\<rparr>))
            in obind (isr80h_register_commands (syscall_funs e) s) (\<lambda>s.
               let s = keyboard_init (keyboard_call e) (ps2_static e) s
               in obind (process_load_switch e (fs_vtable e) old (lit_shell e) 0 s) (\<lambda>(ret, process, s).
                    if sint ret < 0 then Panic ''Failed to load shell''
                    else task_run_first_task s))))))))"

end
