(* ===== verification/User_String.thy ===== *)
theory User_String
  imports Strings
begin

text \<open>
  \<open>stdlib/src/memory.c\<close> and \<open>stdlib/src/string.c\<close>: the functions on memory and
  strings that programs are linked with, on the memory a program sees. They are written
  a second time in the source; each is translated on its own (suffix \<open>_user\<close>) and proved
  equal to the kernel's. \<open>strtok\<close>, which only programs have, is in theory \<open>Strtok\<close>.
\<close>

section \<open>Memory\<close>

definition memset_user :: "mem \<Rightarrow> addr \<Rightarrow> i32 \<Rightarrow> u32 \<Rightarrow> mem" where
  "memset_user m p c sz = for_up (unat sz) (\<lambda>i m. m(p + of_nat i := ucast c)) m"

fun memcmp_user_loop :: "mem \<Rightarrow> addr \<Rightarrow> addr \<Rightarrow> nat \<Rightarrow> i32" where
  "memcmp_user_loop m c1 c2 0 = 0"
| "memcmp_user_loop m c1 c2 (Suc count) =
     (let d1 = c1 + 1; d2 = c2 + 1 in
      if m c1 \<noteq> m c2 then char_to_int (m (d1 - 1)) - char_to_int (m (d2 - 1))
      else memcmp_user_loop m d1 d2 count)"

definition memcmp_user :: "mem \<Rightarrow> addr \<Rightarrow> addr \<Rightarrow> u32 \<Rightarrow> i32" where
  "memcmp_user m p1 p2 count = memcmp_user_loop m p1 p2 (unat count)"

text \<open>\<open>while (size--) *(d++) = *(s++)\<close>, on moving pointers.\<close>

fun memcpy_user_loop :: "mem \<Rightarrow> addr \<Rightarrow> addr \<Rightarrow> nat \<Rightarrow> mem" where
  "memcpy_user_loop m d s 0 = m"
| "memcpy_user_loop m d s (Suc n) = memcpy_user_loop (m(d := m s)) (d + 1) (s + 1) n"

definition memcpy_user :: "mem \<Rightarrow> addr \<Rightarrow> addr \<Rightarrow> u32 \<Rightarrow> mem" where
  "memcpy_user m dst src sz = memcpy_user_loop m dst src (unat sz)"

section \<open>Characters\<close>

definition is_digit_user :: "u8 \<Rightarrow> bool" where
  "is_digit_user c = (48 \<le> sint c \<and> sint c \<le> 57)"

definition to_lower_user :: "u8 \<Rightarrow> u8" where
  "to_lower_user c = (if 65 \<le> c \<and> c \<le> 90 then c + 32 else c)"

definition to_upper_user :: "u8 \<Rightarrow> u8" where
  "to_upper_user c = (if 97 \<le> c \<and> c \<le> 122 then c - 32 else c)"

definition to_digit_user :: "u8 \<Rightarrow> i32" where
  "to_digit_user c = (if \<not> is_digit_user c then char_to_int c else char_to_int c - 48)"

section \<open>Strings\<close>

partial_function (option) strlen_user_loop :: "mem \<Rightarrow> addr \<Rightarrow> u32 \<Rightarrow> u32 option" where
  "strlen_user_loop m str len =
     (if m (str + len) \<noteq> 0 then strlen_user_loop m str (len + 1) else Some len)"

definition strlen_user :: "mem \<Rightarrow> addr \<Rightarrow> u32 option" where
  "strlen_user m str = strlen_user_loop m str 0"

function strnlen_user_loop :: "mem \<Rightarrow> addr \<Rightarrow> u32 \<Rightarrow> u32 \<Rightarrow> u32" where
  "strnlen_user_loop m str mx len =
     (if m (str + len) \<noteq> 0 \<and> len \<noteq> mx then strnlen_user_loop m str mx (len + 1) else len)"
  by pat_completeness auto
termination
  by (relation "measure (\<lambda>(m, str, mx, len). unat (mx - len))")
    (simp_all add: word_inc_less del: diff_diff_add)

definition strnlen_user :: "mem \<Rightarrow> addr \<Rightarrow> u32 \<Rightarrow> u32" where
  "strnlen_user m str mx = strnlen_user_loop m str mx 0"

partial_function (option) strcpy_user_loop :: "mem \<Rightarrow> addr \<Rightarrow> addr \<Rightarrow> mem option" where
  "strcpy_user_loop m dest src =
     (if m src \<noteq> 0 then strcpy_user_loop (m(dest := m src)) (dest + 1) (src + 1)
      else Some (m(dest := 0)))"

definition strcpy_user :: "mem \<Rightarrow> addr \<Rightarrow> addr \<Rightarrow> mem option" where
  "strcpy_user m dest src = strcpy_user_loop m dest src"

function strncpy_user_loop :: "mem \<Rightarrow> addr \<Rightarrow> addr \<Rightarrow> u32 \<Rightarrow> mem" where
  "strncpy_user_loop m dest src n =
     (if m src \<noteq> 0 \<and> 1 < n then strncpy_user_loop (m(dest := m src)) (dest + 1) (src + 1) (n - 1)
      else m(dest := 0))"
  by pat_completeness auto
termination
  by (relation "measure (\<lambda>(m, dest, src, n). unat n)") (simp_all add: word_dec_less)

definition strncpy_user :: "mem \<Rightarrow> addr \<Rightarrow> addr \<Rightarrow> u32 \<Rightarrow> mem" where
  "strncpy_user m dest src n = strncpy_user_loop m dest src n"

fun strncmp_user_loop :: "mem \<Rightarrow> addr \<Rightarrow> addr \<Rightarrow> nat \<Rightarrow> i32" where
  "strncmp_user_loop m s1 s2 0 = 0"
| "strncmp_user_loop m s1 s2 (Suc n) =
     (let u1 = m s1; u2 = m s2 in
      if u1 \<noteq> u2 then ucast u1 - ucast u2
      else if u1 = 0 then 0
      else strncmp_user_loop m (s1 + 1) (s2 + 1) n)"

definition strncmp_user :: "mem \<Rightarrow> addr \<Rightarrow> addr \<Rightarrow> u32 \<Rightarrow> i32" where
  "strncmp_user m s1 s2 n = strncmp_user_loop m s1 s2 (unat n)"

partial_function (option) strcpy_strip_user_loop :: "mem \<Rightarrow> addr \<Rightarrow> addr \<Rightarrow> mem option" where
  "strcpy_strip_user_loop m dest src =
     (if m src \<noteq> 0 \<and> m src \<noteq> 0x20
      then strcpy_strip_user_loop (m(dest := m src)) (dest + 1) (src + 1)
      else Some (m(dest := 0)))"

definition strcpy_strip_user :: "mem \<Rightarrow> addr \<Rightarrow> addr \<Rightarrow> mem option" where
  "strcpy_strip_user m dest src = strcpy_strip_user_loop m dest src"

fun strnlen_terminator_user_loop :: "mem \<Rightarrow> addr \<Rightarrow> u8 \<Rightarrow> i32 \<Rightarrow> i32 \<Rightarrow> nat \<Rightarrow> i32" where
  "strnlen_terminator_user_loop m str term mx i 0 = mx"
| "strnlen_terminator_user_loop m str term mx i (Suc n) =
     (if m (str + i) = 0 \<or> m (str + i) = term then i
      else strnlen_terminator_user_loop m str term mx (i + 1) n)"

definition strnlen_terminator_user :: "mem \<Rightarrow> addr \<Rightarrow> i32 \<Rightarrow> u8 \<Rightarrow> i32" where
  "strnlen_terminator_user m str mx term =
     strnlen_terminator_user_loop m str term mx 0 (nat (sint mx))"

fun istrncmp_user_loop :: "mem \<Rightarrow> addr \<Rightarrow> addr \<Rightarrow> nat \<Rightarrow> i32" where
  "istrncmp_user_loop m s1 s2 0 = 0"
| "istrncmp_user_loop m s1 s2 (Suc n) =
     (let u1 = m s1; u2 = m s2 in
      if to_lower_user u1 \<noteq> to_lower_user u2 then ucast u1 - ucast u2
      else if u1 = 0 then 0
      else istrncmp_user_loop m (s1 + 1) (s2 + 1) n)"

definition istrncmp_user :: "mem \<Rightarrow> addr \<Rightarrow> addr \<Rightarrow> u32 \<Rightarrow> i32" where
  "istrncmp_user m s1 s2 n = istrncmp_user_loop m s1 s2 (unat n)"

declare strnlen_user_loop.simps [simp del] strncpy_user_loop.simps [simp del]

section \<open>They are the kernel's\<close>

named_theorems user_eqs

lemma memset_user_eq [user_eqs]: "memset_user = memset"
  by (simp add: fun_eq_iff memset_user_def memset_def)

lemma memcmp_user_eq [user_eqs]: "memcmp_user = memcmp"
proof -
  have "memcmp_user_loop m p q n = memcmp_loop m p q n" for m p q n
    by (induction n arbitrary: p q) (simp_all add: Let_def)
  then show ?thesis by (simp add: fun_eq_iff memcmp_user_def memcmp_def)
qed

lemma memcpy_user_snoc:
  "memcpy_user_loop m d s (Suc n) =
     (let m = memcpy_user_loop m d s n in m(d + of_nat n := m (s + of_nat n)))"
proof (induction n arbitrary: m d s)
  case 0
  then show ?case by (simp add: Let_def)
next
  case (Suc n)
  from Suc.IH [of "m(d := m s)" "d + 1" "s + 1"] show ?case
    unfolding memcpy_user_loop.simps(2) [of m d s] by (simp only: Let_def of_nat_Suc add.assoc)
qed

text \<open>The moving pointers and the index reach the same bytes, overlapping ranges included.\<close>

lemma memcpy_user_eq [user_eqs]: "memcpy_user = memcpy"
proof -
  have "memcpy_user_loop m d s n = for_up n (\<lambda>i m. m(d + of_nat i := m (s + of_nat i))) m" for m d s n
  proof (induction n)
    case (Suc n)
    then show ?case unfolding memcpy_user_snoc by (simp add: Let_def)
  qed simp
  then show ?thesis by (simp add: fun_eq_iff memcpy_user_def memcpy_def)
qed

lemma characters_user_eq [user_eqs]:
  "is_digit_user = is_digit" "to_lower_user = to_lower" "to_upper_user = to_upper" "to_digit_user = to_digit"
  by (simp_all add: fun_eq_iff is_digit_user_def is_digit_def to_lower_user_def to_lower_def
      to_upper_user_def to_upper_def to_digit_user_def to_digit_def)

lemma option_eqI: "(\<And>r. x = Some r \<Longrightarrow> y = Some r) \<Longrightarrow> (\<And>r. y = Some r \<Longrightarrow> x = Some r) \<Longrightarrow> x = y"
  by (cases x; cases y) auto

lemma strlen_user_eq [user_eqs]: "strlen_user = strlen"
proof -
  have "strlen_user_loop m str len = strlen_loop m str len" for m str len
  proof (rule option_eqI)
    show "strlen_loop m str len = Some r" if "strlen_user_loop m str len = Some r" for r
      by (rule strlen_user_loop.raw_induct [where P = "\<lambda>m str len r. strlen_loop m str len = Some r", OF _ that])
        (subst strlen_loop.simps, simp del: fun_upd_apply split: if_splits)
    show "strlen_user_loop m str len = Some r" if "strlen_loop m str len = Some r" for r
      by (rule strlen_loop.raw_induct [where P = "\<lambda>m str len r. strlen_user_loop m str len = Some r", OF _ that])
        (subst strlen_user_loop.simps, simp del: fun_upd_apply split: if_splits)
  qed
  then show ?thesis by (simp add: fun_eq_iff strlen_user_def strlen_def)
qed

lemma strnlen_user_eq [user_eqs]: "strnlen_user = strnlen"
proof -
  have "strnlen_user_loop m str mx len = strnlen_loop m str mx len" for m str mx len
  proof (induction m str mx len rule: strnlen_user_loop.induct)
    case (1 m str mx len)
    then show ?case by (subst strnlen_user_loop.simps, subst strnlen_loop.simps) simp
  qed
  then show ?thesis by (simp add: fun_eq_iff strnlen_user_def strnlen_def)
qed

lemma strcpy_user_eq [user_eqs]: "strcpy_user = strcpy" "strcpy_strip_user = strcpy_strip"
proof -
  have "strcpy_user_loop m dest src = strcpy_loop m dest src" for m dest src
  proof (rule option_eqI)
    show "strcpy_loop m dest src = Some r" if "strcpy_user_loop m dest src = Some r" for r
      by (rule strcpy_user_loop.raw_induct [where P = "\<lambda>m dest src r. strcpy_loop m dest src = Some r", OF _ that])
        (subst strcpy_loop.simps, simp del: fun_upd_apply split: if_splits)
    show "strcpy_user_loop m dest src = Some r" if "strcpy_loop m dest src = Some r" for r
      by (rule strcpy_loop.raw_induct [where P = "\<lambda>m dest src r. strcpy_user_loop m dest src = Some r", OF _ that])
        (subst strcpy_user_loop.simps, simp del: fun_upd_apply split: if_splits)
  qed
  then show "strcpy_user = strcpy" by (simp add: fun_eq_iff strcpy_user_def strcpy_def)
  have "strcpy_strip_user_loop m dest src = strcpy_strip_loop m dest src" for m dest src
  proof (rule option_eqI)
    show "strcpy_strip_loop m dest src = Some r" if "strcpy_strip_user_loop m dest src = Some r" for r
      by (rule strcpy_strip_user_loop.raw_induct [where P = "\<lambda>m dest src r. strcpy_strip_loop m dest src = Some r", OF _ that])
        (subst strcpy_strip_loop.simps, auto simp del: fun_upd_apply split: if_splits)
    show "strcpy_strip_user_loop m dest src = Some r" if "strcpy_strip_loop m dest src = Some r" for r
      by (rule strcpy_strip_loop.raw_induct [where P = "\<lambda>m dest src r. strcpy_strip_user_loop m dest src = Some r", OF _ that])
        (subst strcpy_strip_user_loop.simps, auto simp del: fun_upd_apply split: if_splits)
  qed
  then show "strcpy_strip_user = strcpy_strip" by (simp add: fun_eq_iff strcpy_strip_user_def strcpy_strip_def)
qed

lemma strncpy_user_eq [user_eqs]: "strncpy_user = strncpy"
proof -
  have "strncpy_user_loop m dest src n = strncpy_loop m dest src n" for m dest src n
  proof (induction m dest src n rule: strncpy_user_loop.induct)
    case (1 m dest src n)
    then show ?case
      by (subst strncpy_user_loop.simps, subst strncpy_loop.simps) (simp del: fun_upd_apply)
  qed
  then show ?thesis by (simp add: fun_eq_iff strncpy_user_def strncpy_def)
qed

lemma strncmp_user_eq [user_eqs]: "strncmp_user = strncmp" "istrncmp_user = istrncmp"
proof -
  have "strncmp_user_loop m p q n = strncmp_loop m p q n" for m p q n
    by (induction n arbitrary: p q) (simp_all add: Let_def)
  then show "strncmp_user = strncmp" by (simp add: fun_eq_iff strncmp_user_def strncmp_def)
  have "istrncmp_user_loop m p q n = istrncmp_loop m p q n" for m p q n
    by (induction n arbitrary: p q) (simp_all add: Let_def characters_user_eq)
  then show "istrncmp_user = istrncmp" by (simp add: fun_eq_iff istrncmp_user_def istrncmp_def)
qed

lemma strnlen_terminator_user_eq [user_eqs]: "strnlen_terminator_user = strnlen_terminator"
proof -
  have "strnlen_terminator_user_loop m str term mx i n = strnlen_terminator_loop m str term mx i n"
    for m str "term" mx i n by (induction n arbitrary: i) simp_all
  then show ?thesis by (simp add: fun_eq_iff strnlen_terminator_user_def strnlen_terminator_def)
qed

text \<open>
  C27. A program's memory and string functions compute what the kernel's do, on every
  input: overlapping copies, strings without an end and counts of zero included.
\<close>

theorem stdlib_is_kernel:
  "memset_user = memset \<and> memcmp_user = memcmp \<and> memcpy_user = memcpy \<and>
   to_lower_user = to_lower \<and> to_upper_user = to_upper \<and> to_digit_user = to_digit \<and>
   strlen_user = strlen \<and> strnlen_user = strnlen \<and> strcpy_user = strcpy \<and> strncpy_user = strncpy \<and>
   strcpy_strip_user = strcpy_strip \<and> strncmp_user = strncmp \<and> istrncmp_user = istrncmp \<and>
   strnlen_terminator_user = strnlen_terminator"
  by (simp add: user_eqs)

end
