(* ===== verification/Strtok.thy ===== *)
theory Strtok
  imports User_String
begin

text \<open>
  \<open>strtok\<close> of \<open>stdlib/src/string.c\<close>: splitting a string in place. The static pointer
  \<open>sp\<close> is part of the state of a program. The specification is the list of the maximal
  runs of characters that are no delimiters.
\<close>

text \<open>What a program's C code works on: its memory and the pointer \<open>sp\<close>.\<close>

record user =
  umem :: mem
  tok_sp :: addr

text \<open>The index at which \<open>c\<close> is found among the delimiters at \<open>d\<close>, or their number.\<close>

fun strtok_scan :: "mem \<Rightarrow> addr \<Rightarrow> u8 \<Rightarrow> i32 \<Rightarrow> nat \<Rightarrow> i32" where
  "strtok_scan m d c i 0 = i"
| "strtok_scan m d c i (Suc n) = (if c = m (d + i) then i else strtok_scan m d c (i + 1) n)"

text \<open>\<open>while (1)\<close>: a delimiter is skipped, the first other character ends the loop.\<close>

partial_function (option) strtok_skip :: "mem \<Rightarrow> addr \<Rightarrow> i32 \<Rightarrow> addr \<Rightarrow> addr option" where
  "strtok_skip m d len p =
     (let i = strtok_scan m d (m p) 0 (nat (sint len));
          p = (if sint i < sint len then p + 1 else p)
      in if i = len then Some p else strtok_skip m d len p)"

partial_function (option) strtok_cut :: "mem \<Rightarrow> addr \<Rightarrow> i32 \<Rightarrow> addr \<Rightarrow> (mem \<times> addr) option" where
  "strtok_cut m d len sp =
     (if m sp = 0 then Some (m, sp)
      else let i = strtok_scan m d (m sp) 0 (nat (sint len));
               m = (if sint i < sint len then m(sp := 0) else m);
               sp = sp + 1
           in if sint i < sint len then Some (m, sp) else strtok_cut m d len sp)"

definition strtok :: "addr \<Rightarrow> addr \<Rightarrow> 'a user_scheme \<Rightarrow> (addr \<times> 'a user_scheme) option" where
  "strtok str delimiters s =
     Option.bind (strlen_user (umem s) delimiters) (\<lambda>len.
       if str = 0 \<and> tok_sp s = 0 then Some (0, s)
       else let s = (if str \<noteq> 0 \<and> tok_sp s = 0 then s\<lparr>tok_sp := str\<rparr> else s) in
         Option.bind (strtok_skip (umem s) delimiters len (tok_sp s)) (\<lambda>p_start.
           let s = s\<lparr>tok_sp := p_start\<rparr> in
           if umem s (tok_sp s) = 0 then Some (0, s\<lparr>tok_sp := 0\<rparr>)
           else Option.bind (strtok_cut (umem s) delimiters len (tok_sp s)) (\<lambda>(m, sp).
             Some (p_start, s\<lparr>umem := m, tok_sp := sp\<rparr>))))"

section \<open>The runs of a string\<close>

function tokens :: "u8 set \<Rightarrow> u8 list \<Rightarrow> u8 list list" where
  "tokens D xs = (case dropWhile (\<lambda>c. c \<in> D) xs of [] \<Rightarrow> []
     | y # ys \<Rightarrow> takeWhile (\<lambda>c. c \<notin> D) (y # ys) # tokens D (dropWhile (\<lambda>c. c \<notin> D) ys))"
  by pat_completeness auto
termination
proof (relation "measure (\<lambda>(D, xs). length xs)")
  fix D xs and y :: u8 and ys
  assume eq: "dropWhile (\<lambda>c. c \<in> D) xs = y # ys"
  have "length (dropWhile (\<lambda>c. c \<notin> D) ys) \<le> length ys" by (rule length_dropWhile_le)
  also have "\<dots> < length (dropWhile (\<lambda>c. c \<in> D) xs)" by (simp add: eq)
  also have "\<dots> \<le> length xs" by (rule length_dropWhile_le)
  finally show "((D, dropWhile (\<lambda>c. c \<notin> D) ys), D, xs) \<in> measure (\<lambda>(D, xs). length xs)" by simp
qed simp

declare tokens.simps [simp del]

lemma tokens_token: "t \<in> set (tokens D xs) \<Longrightarrow> t \<noteq> [] \<and> set t \<inter> D = {} \<and> set t \<subseteq> set xs"
proof (induction D xs rule: tokens.induct)
  case (1 D xs)
  show ?case
  proof (cases "dropWhile (\<lambda>c. c \<in> D) xs")
    case Nil
    with "1.prems" show ?thesis by (subst (asm) tokens.simps) simp
  next
    case (Cons y ys)
    have y: "y \<notin> D" using Cons by (simp add: dropWhile_eq_Cons_conv)
    have sub: "set (y # ys) \<subseteq> set xs" unfolding Cons [symmetric] by (auto dest: set_dropWhileD)
    consider "t = takeWhile (\<lambda>c. c \<notin> D) (y # ys)" | "t \<in> set (tokens D (dropWhile (\<lambda>c. c \<notin> D) ys))"
      using "1.prems" Cons by (subst (asm) tokens.simps) auto
    then show ?thesis
    proof cases
      case 1
      with y sub show ?thesis by (auto dest: set_takeWhileD)
    next
      case 2
      from "1.IH" [OF Cons 2] sub show ?thesis by (auto dest: set_dropWhileD)
    qed
  qed
qed

text \<open>Nothing but delimiters is lost.\<close>

lemma tokens_concat: "concat (tokens D xs) = filter (\<lambda>c. c \<notin> D) xs"
proof (induction D xs rule: tokens.induct)
  case (1 D xs)
  have f: "filter (\<lambda>c. c \<notin> D) xs = filter (\<lambda>c. c \<notin> D) (dropWhile (\<lambda>c. c \<in> D) xs)"
    by (induction xs) auto
  show ?case
  proof (cases "dropWhile (\<lambda>c. c \<in> D) xs")
    case Nil
    then have "tokens D xs = []" by (subst tokens.simps) (simp only: list.case)
    moreover have "filter (\<lambda>c. c \<notin> D) xs = []" using f Nil by (simp only: filter.simps)
    ultimately show ?thesis by simp
  next
    case (Cons y ys)
    have "y \<notin> D" using Cons by (simp add: dropWhile_eq_Cons_conv)
    moreover have "filter (\<lambda>c. c \<notin> D) ys
        = takeWhile (\<lambda>c. c \<notin> D) ys @ filter (\<lambda>c. c \<notin> D) (dropWhile (\<lambda>c. c \<notin> D) ys)"
      by (induction ys) auto
    ultimately show ?thesis using "1.IH" [OF Cons] f Cons by (subst tokens.simps) simp
  qed
qed

lemma tokens_skip: "c \<in> D \<Longrightarrow> tokens D (c # xs) = tokens D xs"
  by (subst (1 2) tokens.simps) simp

lemma tokens_run:
  "tokens D xs = (let ys = dropWhile (\<lambda>c. c \<in> D) xs in if ys = [] then []
     else takeWhile (\<lambda>c. c \<notin> D) ys # tokens D (dropWhile (\<lambda>c. c \<notin> D) ys))"
proof (cases "dropWhile (\<lambda>c. c \<in> D) xs")
  case Nil
  then show ?thesis by (subst tokens.simps) (simp only: list.case Let_def simp_thms if_True)
next
  case (Cons y ys)
  then have "y \<notin> D" by (simp add: dropWhile_eq_Cons_conv)
  with Cons show ?thesis by (subst tokens.simps) (simp add: Let_def)
qed

section \<open>One call\<close>

definition delims :: "mem \<Rightarrow> addr \<Rightarrow> u8 list \<Rightarrow> bool" where
  "delims m d ds = (cstr m d ds \<and> length ds < 2147483648)"

lemma strtok_scan_index:
  "\<forall>i < length xs. m (d + of_nat (k + i)) = xs ! i \<Longrightarrow>
   strtok_scan m d c (of_nat k) (length xs) = of_nat (k + length (takeWhile (\<lambda>x. x \<noteq> c) xs))"
proof (induction xs arbitrary: k)
  case (Cons x xs)
  from Cons.prems have x: "m (d + of_nat k) = x" by (metis add.right_neutral length_greater_0_conv list.distinct(1) nth_Cons_0)
  have "\<forall>i < length xs. m (d + of_nat (Suc k + i)) = xs ! i" using Cons.prems by fastforce
  from Cons.IH [OF this] x show ?case by (simp add: add.commute add.left_commute)
qed simp

lemma strtok_scan_delims:
  assumes "delims m d ds" and "len = of_nat (length ds)"
  shows "sint (strtok_scan m d c 0 (nat (sint len))) < sint len \<longleftrightarrow> c \<in> set ds"
    and "strtok_scan m d c 0 (nat (sint len)) = len \<longleftrightarrow> c \<notin> set ds"
proof -
  let ?k = "length (takeWhile (\<lambda>x. x \<noteq> c) ds)"
  have len: "length ds < 2147483648" "sint len = int (length ds)"
    using assms by (simp_all add: delims_def sint_of_nat)
  have k: "?k \<le> length ds" "?k < length ds \<longleftrightarrow> c \<in> set ds"
  proof -
    show "?k \<le> length ds" by (rule length_takeWhile_le)
    show "?k < length ds \<longleftrightarrow> c \<in> set ds" by (induction ds) auto
  qed
  have "\<forall>i < length ds. m (d + of_nat (0 + i)) = ds ! i"
    using assms(1) cstr_nth by (auto simp: delims_def)
  from strtok_scan_index [OF this] have i: "strtok_scan m d c 0 (nat (sint len)) = of_nat ?k"
    using len by simp
  have "sint (of_nat ?k :: i32) = int ?k" using k(1) len(1) by (intro sint_of_nat) simp
  with i k(2) len(2) show "sint (strtok_scan m d c 0 (nat (sint len))) < sint len \<longleftrightarrow> c \<in> set ds"
    by simp
  have "(of_nat ?k :: u32) = of_nat (length ds) \<longleftrightarrow> ?k = length ds"
    using k(1) len(1) by (intro word_of_nat_inj) simp_all
  with i k assms(2) show "strtok_scan m d c 0 (nat (sint len)) = len \<longleftrightarrow> c \<notin> set ds" by auto
qed

lemma strtok_skip_cstr:
  assumes "delims m d ds" and "len = of_nat (length ds)"
  shows "cstr m p xs \<Longrightarrow> strtok_skip m d len p = Some (p + of_nat (length (takeWhile (\<lambda>c. c \<in> set ds) xs)))"
proof (induction xs arbitrary: p)
  case Nil
  have "0 \<notin> set ds" using assms(1) by (auto simp: delims_def dest: cstr_nonzero)
  with Nil show ?case by (subst strtok_skip.simps) (simp add: Let_def strtok_scan_delims [OF assms])
next
  case (Cons x xs)
  then show ?case
    by (subst strtok_skip.simps) (simp add: Let_def strtok_scan_delims [OF assms] add.assoc)
qed

lemma strtok_cut_cstr:
  assumes "delims m d ds" and "len = of_nat (length ds)"
  shows "cstr m p xs \<Longrightarrow> strtok_cut m d len p =
     (let t = p + of_nat (length (takeWhile (\<lambda>c. c \<notin> set ds) xs))
      in if dropWhile (\<lambda>c. c \<notin> set ds) xs = [] then Some (m, t) else Some (m(t := 0), t + 1))"
proof (induction xs arbitrary: p)
  case Nil
  then show ?case by (subst strtok_cut.simps) (simp add: Let_def)
next
  case (Cons x xs)
  have "x \<noteq> 0" "m p = x" "cstr m (p + 1) xs" using Cons.prems by auto
  with Cons.IH [of "p + 1"] show ?case
    by (subst strtok_cut.simps) (simp add: Let_def strtok_scan_delims [OF assms] add.assoc)
qed

text \<open>An argument is only used where no string is being split.\<close>

lemma strtok_argument:
  "str \<noteq> 0 \<Longrightarrow> tok_sp s = 0 \<Longrightarrow> strtok str d s = strtok 0 d (s\<lparr>tok_sp := str\<rparr>)"
  "tok_sp s \<noteq> 0 \<Longrightarrow> strtok str d s = strtok 0 d s"
  by (simp_all add: strtok_def Let_def)

lemma cstr_suffix: "cstr m p (as @ bs) \<Longrightarrow> cstr m (p + of_nat (length as)) bs"
  by (induction as arbitrary: p) (auto simp: add.assoc [symmetric])

lemma cstr_cut:
  assumes "cstr m p (as @ bs)" and "length as < 4294967296"
  shows "cstr (m(p + of_nat (length as) := 0)) p as"
proof -
  have "p + of_nat i \<noteq> p + of_nat (length as)" if "i < length as" for i
    using that assms(2) word_of_nat_inj [of i "length as"] by simp
  moreover have "m (p + of_nat i) = as ! i" if "i < length as" for i
    using cstr_nth [OF assms(1), of i] that by (simp add: nth_append)
  ultimately show ?thesis using assms(1) by (simp add: cstr_iff)
qed

lemma strtok_start:
  assumes "delims (umem s) d ds" and "tok_sp s \<noteq> 0" and "cstr (umem s) (tok_sp s) xs"
  shows "strtok 0 d s =
     (let p = tok_sp s + of_nat (length (takeWhile (\<lambda>c. c \<in> set ds) xs));
          ys = dropWhile (\<lambda>c. c \<in> set ds) xs;
          t = p + of_nat (length (takeWhile (\<lambda>c. c \<notin> set ds) ys))
      in if ys = [] then Some (0, s\<lparr>tok_sp := 0\<rparr>)
         else if dropWhile (\<lambda>c. c \<notin> set ds) ys = [] then Some (p, s\<lparr>tok_sp := t\<rparr>)
         else Some (p, s\<lparr>umem := (umem s)(t := 0), tok_sp := t + 1\<rparr>))"
proof -
  define p where "p = tok_sp s + of_nat (length (takeWhile (\<lambda>c. c \<in> set ds) xs))"
  define ys where "ys = dropWhile (\<lambda>c. c \<in> set ds) xs"
  define t where "t = p + of_nat (length (takeWhile (\<lambda>c. c \<notin> set ds) ys))"
  have len: "strlen_user (umem s) d = Some (of_nat (length ds))"
    using assms(1) by (simp add: user_eqs delims_def strlen_cstr)
  have ys: "cstr (umem s) p ys" using cstr_suffix assms(3) unfolding p_def ys_def by (metis takeWhile_dropWhile_id)
  have nul: "umem s p = 0 \<longleftrightarrow> ys = []" using ys by (cases ys) auto
  have skip: "strtok_skip (umem s) d (of_nat (length ds)) (tok_sp s) = Some p"
    unfolding p_def by (rule strtok_skip_cstr [OF assms(1) refl assms(3)])
  have cut: "strtok_cut (umem s) d (of_nat (length ds)) p =
      (if dropWhile (\<lambda>c. c \<notin> set ds) ys = [] then Some (umem s, t) else Some ((umem s)(t := 0), t + 1))"
    unfolding t_def using strtok_cut_cstr [OF assms(1) refl ys] by (simp only: Let_def)
  have "strtok 0 d s = (if ys = [] then Some (0, s\<lparr>tok_sp := 0\<rparr>)
      else if dropWhile (\<lambda>c. c \<notin> set ds) ys = [] then Some (p, s\<lparr>tok_sp := t\<rparr>)
      else Some (p, s\<lparr>umem := (umem s)(t := 0), tok_sp := t + 1\<rparr>))"
    using assms(2) by (simp add: strtok_def len skip cut nul del: dropWhile_eq_Nil_conv)
  then show ?thesis unfolding Let_def p_def [symmetric] ys_def [symmetric] t_def [symmetric] .
qed

section \<open>All calls\<close>

text \<open>\<open>strtok(str, d)\<close> followed by calls \<open>strtok(NULL, d)\<close>, \<open>n\<close> in all, and what they return.\<close>

primrec strtok_calls :: "nat \<Rightarrow> addr \<Rightarrow> addr \<Rightarrow> 'a user_scheme \<Rightarrow> (addr list \<times> 'a user_scheme) option" where
  "strtok_calls 0 str d s = Some ([], s)"
| "strtok_calls (Suc n) str d s = Option.bind (strtok str d s) (\<lambda>(p, s).
     map_option (\<lambda>(ps, s). (p # ps, s)) (strtok_calls n 0 d s))"

text \<open>What splitting the \<open>n\<close> bytes at \<open>q\<close> writes to: only bytes among them.\<close>

lemma offset_shift:
  assumes "n \<le> unat (a - q :: u32)" and "k \<le> n"
  shows "unat (a - (q + of_nat k)) = unat (a - q) - k"
proof -
  have k: "unat (of_nat k :: u32) = k" using assms unat32_lt [of "a - q"] by (intro unat_of_nat32) simp
  have "unat (a - q - of_nat k) = unat (a - q) - unat (of_nat k :: u32)"
    using assms k by (intro unat_sub) (simp add: word_le_nat_alt)
  with k show ?thesis by (simp add: algebra_simps)
qed

lemma offset_before:
  assumes "j < k" and "k + n < 4294967296"
  shows "n \<le> unat (q + of_nat j - (q + of_nat k) :: u32)"
proof -
  have "q + of_nat j - (q + of_nat k) = - of_nat (k - j)" using assms(1) by (simp add: of_nat_diff)
  moreover have u: "unat (of_nat (k - j) :: u32) = k - j" using assms by (intro unat_of_nat32) simp
  moreover have "(of_nat (k - j) :: u32) \<noteq> 0" using u assms(1) by (metis unat_0 zero_less_diff less_numeral_extra(3))
  ultimately show ?thesis using unat_minus_iff [of 0 "of_nat (k - j)"] assms by simp
qed

lemma delims_cong:
  assumes "delims m d ds" and "\<And>i. i \<le> length ds \<Longrightarrow> m' (d + of_nat i) = m (d + of_nat i)"
  shows "delims m' d ds"
  using assms cstr_cong unfolding delims_def by blast

text \<open>After the cut behind the first \<open>k\<close> bytes the rest of the string is as it was.\<close>

lemma cut_rest:
  assumes "cstr m q (as @ c # r)" and "unat q + length (as @ c # r) < 4294967296"
  defines "k \<equiv> Suc (length as)" and "m' \<equiv> m(q + of_nat (length as) := 0)"
  shows "cstr m' (q + of_nat k) r" and "unat (q + of_nat k) = unat q + k"
    and "length r < unat (a - q) - k \<Longrightarrow> m' a = m a"
proof -
  have "m' (q + of_nat k + of_nat i) = m (q + of_nat k + of_nat i)" if "i \<le> length r" for i
  proof -
    have "(of_nat (k + i) :: u32) \<noteq> of_nat (length as)"
      using that assms(2) word_of_nat_inj [of "k + i" "length as"] by (simp add: k_def del: of_nat_add of_nat_Suc)
    then show ?thesis by (simp add: m'_def add.assoc)
  qed
  moreover have "cstr m (q + of_nat k) r"
    using cstr_suffix [of m q "as @ [c]" r] assms(1) by (simp add: k_def del: of_nat_Suc)
  ultimately show "cstr m' (q + of_nat k) r" by (rule cstr_cong [rotated])
  show "unat (q + of_nat k) = unat q + k"
    using assms(2) by (simp add: k_def unat_word_ariths unat_of_nat32 del: of_nat_Suc)
  assume "length r < unat (a - q) - k"
  moreover have "unat (of_nat (length as) :: u32) = length as" using assms(2) by (intro unat_of_nat32) simp
  ultimately show "m' a = m a" by (auto simp: m'_def k_def)
qed

text \<open>
  \<open>xs\<close> is what is left to split, at \<open>sp\<close>; it does not run around the end of memory and
  the delimiters are not part of it.
\<close>

definition splitting :: "'a user_scheme \<Rightarrow> addr \<Rightarrow> u8 list \<Rightarrow> addr \<Rightarrow> u8 list \<Rightarrow> bool" where
  "splitting s d ds q xs = (delims (umem s) d ds \<and> tok_sp s = q \<and> q \<noteq> 0 \<and> cstr (umem s) q xs \<and>
     unat q + length xs < 4294967296 \<and> (\<forall>i \<le> length ds. length xs < unat (d + of_nat i - q)))"

text \<open>
  A call that finds the token \<open>t\<close> at \<open>p\<close> moves on to the rest \<open>r\<close>, \<open>k\<close> bytes behind,
  and leaves alone what lies outside the string; what follows does not reach the token.
\<close>

definition token_call :: "'a user_scheme \<Rightarrow> addr \<Rightarrow> u8 list \<Rightarrow> addr \<Rightarrow> nat \<Rightarrow> u8 list \<Rightarrow> addr \<Rightarrow> u8 list \<Rightarrow> u8 list
    \<Rightarrow> 'a user_scheme \<Rightarrow> bool" where
  "token_call s d ds q k xs p t r s1 = (strtok 0 d s = Some (p, s1) \<and> tokens (set ds) xs = t # tokens (set ds) r \<and>
     splitting s1 d ds (q + of_nat k) r \<and> length r < length xs \<and> cstr (umem s1) p t \<and>
     (\<forall>i \<le> length t. length r \<le> unat (p + of_nat i - (q + of_nat k))) \<and>
     (\<forall>a. length xs \<le> unat (a - q) \<longrightarrow> length r \<le> unat (a - (q + of_nat k)) \<and> umem s1 a = umem s a))"

lemma splitting_token:
  assumes "splitting s d ds q xs"
  defines "pre \<equiv> takeWhile (\<lambda>c. c \<in> set ds) xs" and "ys \<equiv> dropWhile (\<lambda>c. c \<in> set ds) xs"
  defines "t \<equiv> takeWhile (\<lambda>c. c \<notin> set ds) ys" and "rest \<equiv> dropWhile (\<lambda>c. c \<notin> set ds) ys"
  shows "xs = pre @ t @ rest" and "tokens (set ds) xs = (if ys = [] then [] else t # tokens (set ds) rest)"
    and "strtok 0 d s = (if ys = [] then Some (0, s\<lparr>tok_sp := 0\<rparr>)
      else if rest = [] then Some (q + of_nat (length pre), s\<lparr>tok_sp := q + of_nat (length (pre @ t))\<rparr>)
      else Some (q + of_nat (length pre), s\<lparr>umem := (umem s)(q + of_nat (length (pre @ t)) := 0),
             tok_sp := q + of_nat (Suc (length (pre @ t)))\<rparr>))"
    and "ys \<noteq> [] \<Longrightarrow> t \<noteq> []"
proof -
  show "xs = pre @ t @ rest" by (simp add: pre_def ys_def t_def rest_def)
  show "tokens (set ds) xs = (if ys = [] then [] else t # tokens (set ds) rest)"
    using tokens_run [of "set ds" xs] unfolding t_def rest_def ys_def Let_def .
  have "delims (umem s) d ds" "tok_sp s \<noteq> 0" "cstr (umem s) (tok_sp s) xs" and q: "tok_sp s = q"
    using assms(1) by (simp_all add: splitting_def)
  from strtok_start [OF this(1-3), folded pre_def ys_def, unfolded Let_def, folded t_def rest_def]
  show "strtok 0 d s = (if ys = [] then Some (0, s\<lparr>tok_sp := 0\<rparr>)
      else if rest = [] then Some (q + of_nat (length pre), s\<lparr>tok_sp := q + of_nat (length (pre @ t))\<rparr>)
      else Some (q + of_nat (length pre), s\<lparr>umem := (umem s)(q + of_nat (length (pre @ t)) := 0),
             tok_sp := q + of_nat (Suc (length (pre @ t)))\<rparr>))"
    unfolding q by (simp only: length_append of_nat_add of_nat_Suc ac_simps)
  assume "ys \<noteq> []"
  moreover from this have "hd ys \<notin> set ds" unfolding ys_def by (rule hd_dropWhile)
  ultimately show "t \<noteq> []" by (cases ys) (simp_all add: t_def)
qed

lemma splitting_cut:
  assumes "splitting s d ds q (as @ c # r)"
  shows "splitting (s\<lparr>umem := (umem s)(q + of_nat (length as) := 0), tok_sp := q + of_nat (Suc (length as))\<rparr>)
      d ds (q + of_nat (Suc (length as))) r"
proof -
  let ?m = "(umem s)(q + of_nat (length as) := 0)" and ?k = "Suc (length as)" and ?xs = "as @ c # r"
  have s: "delims (umem s) d ds" "cstr (umem s) q ?xs" "unat q + length ?xs < 4294967296" "q \<noteq> 0"
    "\<And>i. i \<le> length ds \<Longrightarrow> length ?xs < unat (d + of_nat i - q)"
    using assms by (simp_all add: splitting_def)
  note rest = cut_rest [OF s(2,3)]
  have far: "length r < unat (d + of_nat i - q) - ?k" if "i \<le> length ds" for i
    using s(5) [OF that] by simp
  have "delims ?m d ds" by (rule delims_cong [OF s(1)]) (rule rest(3) [OF far])
  moreover have "length r < unat (d + of_nat i - (q + of_nat ?k))" if "i \<le> length ds" for i
    using offset_shift [of "length ?xs" "d + of_nat i" q ?k] s(5) [OF that] far [OF that] by simp
  moreover have "q + of_nat ?k \<noteq> 0"
  proof
    assume "q + of_nat ?k = 0"
    with rest(2) have "unat q + ?k = 0" by (simp only: unat_0)
    then show False by simp
  qed
  ultimately show ?thesis using rest(1,2) s(3) by (simp add: splitting_def del: of_nat_Suc)
qed

lemma splitting_end:
  assumes "splitting s d ds q xs"
  shows "splitting (s\<lparr>tok_sp := q + of_nat (length xs)\<rparr>) d ds (q + of_nat (length xs)) []"
proof -
  have s: "delims (umem s) d ds" "cstr (umem s) q xs" "unat q + length xs < 4294967296" "q \<noteq> 0"
    "\<And>i. i \<le> length ds \<Longrightarrow> length xs < unat (d + of_nat i - q)"
    using assms by (simp_all add: splitting_def)
  have "unat (q + of_nat (length xs)) = unat q + length xs"
    using s(3) by (simp add: unat_word_ariths unat_of_nat32)
  moreover from this have "q + of_nat (length xs) \<noteq> 0" using s(4) by auto
  moreover have "0 < unat (d + of_nat i - (q + of_nat (length xs)))" if "i \<le> length ds" for i
    using offset_shift [of "length xs" "d + of_nat i" q "length xs"] s(5) [OF that] by simp
  ultimately show ?thesis
    using s(1,3) cstr_suffix [of "umem s" q xs "[]"] s(2) by (simp add: splitting_def)
qed

text \<open>What follows the first \<open>k\<close> of \<open>n\<close> bytes.\<close>

lemma after_prefix:
  assumes "k + n \<le> length xs" and "length xs < 4294967296" and "n = 0 \<or> l < k" and "j \<le> l" and "l \<le> k"
  shows "n \<le> unat (q + of_nat j - (q + of_nat k) :: u32)"
    and "length xs \<le> unat (a - q :: u32) \<Longrightarrow> n \<le> unat (a - (q + of_nat k) :: u32)"
proof -
  show "n \<le> unat (q + of_nat j - (q + of_nat k) :: u32)"
    using assms offset_before [of j k n q] by (cases "n = 0") auto
  assume "length xs \<le> unat (a - q)"
  then show "n \<le> unat (a - (q + of_nat k))" using offset_shift [of "length xs" a q k] assms(1) by simp
qed

lemma splitting_step:
  assumes "splitting s d ds q xs"
  shows "tokens (set ds) xs = [] \<and> strtok 0 d s = Some (0, s\<lparr>tok_sp := 0\<rparr>) \<or>
     (\<exists>k p t r s1. token_call s d ds q k xs p t r s1)"
proof -
  define pre where "pre = takeWhile (\<lambda>c. c \<in> set ds) xs"
  define ys where "ys = dropWhile (\<lambda>c. c \<in> set ds) xs"
  define t where "t = takeWhile (\<lambda>c. c \<notin> set ds) ys"
  define rest where "rest = dropWhile (\<lambda>c. c \<notin> set ds) ys"
  note split = splitting_token [OF assms, folded pre_def ys_def, folded t_def rest_def]
  have s: "cstr (umem s) q xs" "unat q + length xs < 4294967296" using assms by (simp_all add: splitting_def)
  show ?thesis
  proof (cases "ys = []")
    case True
    with split(2,3) show ?thesis by simp
  next
    case ys: False
    show ?thesis
    proof (cases rest)
      case Nil
      then have xs: "xs = pre @ t" using split(1) by simp
      have "cstr (umem s) (q + of_nat (length pre)) t" using cstr_suffix [of "umem s" q pre t] s(1) xs by simp
      moreover have "tokens (set ds) [] = []" by (subst tokens_run) simp
      ultimately have "token_call s d ds q (length xs) xs (q + of_nat (length pre)) t []
          (s\<lparr>tok_sp := q + of_nat (length xs)\<rparr>)"
        using split(2-4) ys Nil splitting_end [OF assms] xs by (simp add: token_call_def)
      then show ?thesis by blast
    next
      case (Cons c r)
      let ?as = "pre @ t" and ?k = "Suc (length (pre @ t))"
      let ?s = "s\<lparr>umem := (umem s)(q + of_nat (length ?as) := 0), tok_sp := q + of_nat ?k\<rparr>"
      from Cons have xs: "xs = ?as @ c # r" and c: "c \<in> set ds"
        using split(1) by (simp, simp add: rest_def dropWhile_eq_Cons_conv)
      have "cstr ((umem s)(q + of_nat (length ?as) := 0)) q ?as"
        using cstr_cut [of "umem s" q ?as "c # r"] s xs by simp
      from cstr_suffix [OF this] have "cstr (umem ?s) (q + of_nat (length pre)) t" by simp
      moreover have "splitting ?s d ds (q + of_nat ?k) r" using splitting_cut assms xs by blast
      moreover have "\<forall>i \<le> length t. length r \<le> unat (q + of_nat (length pre) + of_nat i - (q + of_nat ?k))"
      proof (intro allI impI)
        fix i assume "i \<le> length t"
        then show "length r \<le> unat (q + of_nat (length pre) + of_nat i - (q + of_nat ?k))"
          using after_prefix(1) [of ?k "length r" xs "length ?as" "length pre + i" q] s(2) xs
          by (simp add: add.assoc del: of_nat_Suc)
      qed
      moreover have "length r \<le> unat (a - (q + of_nat ?k)) \<and> umem ?s a = umem s a"
        if "length xs \<le> unat (a - q)" for a
      proof -
        have u: "unat (of_nat (length ?as) :: u32) = length ?as" using s(2) xs by (intro unat_of_nat32) simp
        have "a \<noteq> q + of_nat (length ?as)"
        proof
          assume "a = q + of_nat (length ?as)"
          then have "unat (a - q) = length ?as" by (simp only: add_diff_cancel_left' u)
          with that xs show False by simp
        qed
        then show ?thesis
          using after_prefix(2) [of ?k "length r" xs "length ?as" 0 a q] that s(2) xs
          by (simp del: of_nat_Suc)
      qed
      ultimately have "token_call s d ds q ?k xs (q + of_nat (length pre)) t r ?s"
        using split(2,3) ys Cons xs tokens_skip [OF c] by (simp add: token_call_def del: of_nat_Suc of_nat_add)
      then show ?thesis by blast
    qed
  qed
qed

text \<open>All calls, from any point of the string on.\<close>

lemma strtok_rest:
  assumes "splitting s d ds q xs"
  shows "\<exists>ps s'. strtok_calls (Suc (length (tokens (set ds) xs))) 0 d s = Some (ps @ [0], s') \<and> tok_sp s' = 0 \<and>
     list_all2 (cstr (umem s')) ps (tokens (set ds) xs) \<and>
     (\<forall>a. length xs \<le> unat (a - q) \<longrightarrow> umem s' a = umem s a)"
  using assms
proof (induction "length xs" arbitrary: xs q s rule: less_induct)
  case less
  from splitting_step [OF less.prems] show ?case
  proof (elim disjE exE)
    assume "tokens (set ds) xs = [] \<and> strtok 0 d s = Some (0, s\<lparr>tok_sp := 0\<rparr>)"
    then show ?thesis by simp
  next
    fix k p t r s1 assume "token_call s d ds q k xs p t r s1"
    then have call: "strtok 0 d s = Some (p, s1)" "tokens (set ds) xs = t # tokens (set ds) r"
      "splitting s1 d ds (q + of_nat k) r" "length r < length xs" "cstr (umem s1) p t"
      "\<And>i. i \<le> length t \<Longrightarrow> length r \<le> unat (p + of_nat i - (q + of_nat k))"
      "\<And>a. length xs \<le> unat (a - q) \<Longrightarrow> length r \<le> unat (a - (q + of_nat k)) \<and> umem s1 a = umem s a"
      by (simp_all add: token_call_def)
    from less.hyps [OF call(4,3)] obtain ps s' where
      rest: "strtok_calls (Suc (length (tokens (set ds) r))) 0 d s1 = Some (ps @ [0], s')" "tok_sp s' = 0"
        "list_all2 (cstr (umem s')) ps (tokens (set ds) r)"
        "\<And>a. length r \<le> unat (a - (q + of_nat k)) \<Longrightarrow> umem s' a = umem s1 a" by auto
    have "cstr (umem s') p t" by (rule cstr_cong [OF call(5)]) (rule rest(4) [OF call(6)])
    moreover have "strtok_calls (Suc (length (tokens (set ds) xs))) 0 d s = Some ((p # ps) @ [0], s')"
      using call(1,2) rest(1) by simp
    ultimately show ?thesis using rest call(2,7)
      by (intro exI [of _ "p # ps"] exI [of _ s']) simp
  qed
qed

text \<open>
  A string without delimiters is its only token. The pointer stops at its end: whatever
  string comes next, the call returns \<open>NULL\<close> where that byte is a NUL.
\<close>

lemma strtok_word:
  assumes "splitting s d ds q xs" and "xs \<noteq> []" and "set xs \<inter> set ds = {}"
  shows "strtok str d s = Some (q, s\<lparr>tok_sp := q + of_nat (length xs)\<rparr>)" and "q + of_nat (length xs) \<noteq> 0"
proof -
  have all: "takeWhile (\<lambda>c. c \<notin> set ds) xs = xs" "dropWhile (\<lambda>c. c \<notin> set ds) xs = []"
    using assms(3) by auto
  have none: "takeWhile (\<lambda>c. c \<in> set ds) xs = []" "dropWhile (\<lambda>c. c \<in> set ds) xs = xs"
    using assms(2,3) by (cases xs; auto)+
  have "tok_sp s \<noteq> 0" using assms(1) by (simp add: splitting_def)
  then show "strtok str d s = Some (q, s\<lparr>tok_sp := q + of_nat (length xs)\<rparr>)"
    using splitting_token(3) [OF assms(1)] strtok_argument(2) [of s str d] assms(2) by (simp add: all none)
  show "q + of_nat (length xs) \<noteq> 0" using splitting_end [OF assms(1)] by (simp add: splitting_def)
qed

lemma strtok_stopped:
  assumes "delims (umem s) d ds" and "tok_sp s \<noteq> 0" and "umem s (tok_sp s) = 0"
  shows "strtok str d s = Some (0, s\<lparr>tok_sp := 0\<rparr>)"
  using strtok_start [OF assms(1,2), of "[]"] strtok_argument(2) [OF assms(2), of str d] assms(3) by simp

section \<open>Properties\<close>

text \<open>
  C18. \<open>strtok\<close> on a string and then on \<open>NULL\<close> returns the maximal runs of characters that
  are no delimiters, one after the other and each closed by a NUL, then \<open>NULL\<close>; after that
  a new string can be split. Nothing outside the string is written.
\<close>

theorem strtok_tokens:
  assumes "tok_sp s = 0" and "splitting (s\<lparr>tok_sp := str\<rparr>) d ds str xs"
  shows "\<exists>ps s'. strtok_calls (Suc (length (tokens (set ds) xs))) str d s = Some (ps @ [0], s') \<and>
     tok_sp s' = 0 \<and> list_all2 (cstr (umem s')) ps (tokens (set ds) xs) \<and>
     concat (tokens (set ds) xs) = filter (\<lambda>c. c \<notin> set ds) xs \<and>
     (\<forall>a. length xs \<le> unat (a - str) \<longrightarrow> umem s' a = umem s a)"
proof -
  have "str \<noteq> 0" using assms(2) by (simp add: splitting_def)
  then have "strtok_calls (Suc n) str d s = strtok_calls (Suc n) 0 d (s\<lparr>tok_sp := str\<rparr>)" for n
    using strtok_argument(1) [OF _ assms(1), of str d] by simp
  then show ?thesis using strtok_rest [OF assms(2)] by (simp add: tokens_concat)
qed

definition command_line :: mem where
  "command_line = (\<lambda>_. 0)(0x1000 := 0x52, 0x1001 := 0x20, 0x1002 := 0x20, 0x1003 := 0x41, 0x2000 := 0x20)"

lemma command_line_splitting: "splitting \<lparr>umem = command_line, tok_sp = 0x1000\<rparr> 0x2000 [0x20] 0x1000 [0x52, 0x20, 0x20, 0x41]"
  by (simp add: splitting_def delims_def command_line_def le_Suc_eq All_less_Suc)

theorem strtok_tokens_witness:
  "\<exists>ps s'. strtok_calls 3 0x1000 0x2000 \<lparr>umem = command_line, tok_sp = 0\<rparr> = Some (ps @ [0], s') \<and>
     list_all2 (cstr (umem s')) ps [[0x52], [0x41]]"
proof -
  have t: "tokens (set [0x20]) [0x52, 0x20, 0x20, 0x41 :: u8] = [[0x52], [0x41]]"
    by (subst tokens.simps, simp)+
  have "splitting (\<lparr>umem = command_line, tok_sp = 0\<rparr>\<lparr>tok_sp := 0x1000\<rparr>) 0x2000 [0x20] 0x1000 [0x52, 0x20, 0x20, 0x41]"
    using command_line_splitting by simp
  from strtok_tokens [OF _ this] show ?thesis unfolding t by (auto simp: numeral_3_eq_3)
qed

end
