(* ===== verification/Stdio.thy ===== *)
theory Stdio
  imports Strtok Terminal
begin

text \<open>
  \<open>stdlib/src/stdio.c\<close>, \<open>stdlib.c\<close>, \<open>unistd.c\<close> and the rest of \<open>memory.c\<close>: what a
  program does through system calls. The calls (the stubs of \<open>phix.asm\<close>, declared in
  \<open>phix.h\<close>) are a record of functions on the state of the program, a parameter of the
  definitions; \<open>None\<close> says that the call, or the function, does not return.
\<close>

record 's phix_calls =
  phix_print :: "addr \<Rightarrow> 's \<Rightarrow> 's option"
  phix_getkey :: "'s \<Rightarrow> (i32 \<times> 's) option"
  phix_putchar :: "u8 \<Rightarrow> 's \<Rightarrow> 's option"
  phix_malloc :: "u32 \<Rightarrow> 's \<Rightarrow> (addr \<times> 's) option"
  phix_free :: "addr \<Rightarrow> 's \<Rightarrow> 's option"
  phix_exec :: "addr \<Rightarrow> 's \<Rightarrow> 's option"
  phix_get_paddr :: "addr \<Rightarrow> 's \<Rightarrow> (addr \<times> 's) option"
  phix_get_flags :: "addr \<Rightarrow> 's \<Rightarrow> (u8 \<times> 's) option"

section \<open>Wrappers\<close>

definition malloc_user :: "'s phix_calls \<Rightarrow> u32 \<Rightarrow> 's \<Rightarrow> (addr \<times> 's) option" where
  "malloc_user calls sz s = phix_malloc calls sz s"

definition free_user :: "'s phix_calls \<Rightarrow> addr \<Rightarrow> 's \<Rightarrow> 's option" where
  "free_user calls p s = phix_free calls p s"

text \<open>\<open>exec\<close> returns \<open>0\<close> whatever the call has returned.\<close>

definition exec_user :: "'s phix_calls \<Rightarrow> addr \<Rightarrow> 's \<Rightarrow> (i32 \<times> 's) option" where
  "exec_user calls filename s = map_option (\<lambda>s. (0, s)) (phix_exec calls filename s)"

definition get_paddr_user :: "'s phix_calls \<Rightarrow> addr \<Rightarrow> 's \<Rightarrow> (addr \<times> 's) option" where
  "get_paddr_user calls vaddr s = phix_get_paddr calls vaddr s"

definition get_flags_user :: "'s phix_calls \<Rightarrow> addr \<Rightarrow> 's \<Rightarrow> (u8 \<times> 's) option" where
  "get_flags_user calls vaddr s = phix_get_flags calls vaddr s"

definition putchar_user :: "'s phix_calls \<Rightarrow> i32 \<Rightarrow> 's \<Rightarrow> (i32 \<times> 's) option" where
  "putchar_user calls c s = map_option (\<lambda>s. (0, s)) (phix_putchar calls (ucast c) s)"

section \<open>Reading\<close>

text \<open>\<open>getkey\<close> asks again until there is a key.\<close>

partial_function (option) getkey_user :: "'s phix_calls \<Rightarrow> 's \<Rightarrow> (i32 \<times> 's) option" where
  "getkey_user calls s = Option.bind (phix_getkey calls s)
     (\<lambda>r. if fst r = 0 then getkey_user calls (snd r) else Some r)"

text \<open>
  The loop of \<open>readline\<close>, from the index \<open>i\<close> on: the index at which it ends. A backspace
  sets \<open>i\<close> back by two before the increment of \<open>for\<close>.
\<close>

partial_function (option) readline_loop ::
    "'a user_scheme phix_calls \<Rightarrow> addr \<Rightarrow> i32 \<Rightarrow> bool \<Rightarrow> i32 \<Rightarrow> 'a user_scheme \<Rightarrow> (i32 \<times> 'a user_scheme) option" where
  "readline_loop calls buf mx out i s =
     (if sint i < sint (mx - 1) then
        Option.bind (getkey_user calls s) (\<lambda>r.
          let key = ucast (fst r) :: u8; s = snd r in
          if key = 13 then Some (i, s)
          else Option.bind (if out then map_option snd (putchar_user calls (char_to_int key) s) else Some s) (\<lambda>s.
            if key = 0x08 \<and> 1 \<le> sint i
            then readline_loop calls buf mx out (i - 2 + 1) (s\<lparr>umem := (umem s)(buf + (i - 1) := 0x00)\<rparr>)
            else readline_loop calls buf mx out (i + 1) (s\<lparr>umem := (umem s)(buf + i := key)\<rparr>)))
      else Some (i, s))"

definition readline_user ::
    "'a user_scheme phix_calls \<Rightarrow> addr \<Rightarrow> i32 \<Rightarrow> bool \<Rightarrow> 'a user_scheme \<Rightarrow> 'a user_scheme option" where
  "readline_user calls buf mx out s =
     map_option (\<lambda>(i, s). s\<lparr>umem := (umem s)(buf + i := 0x00)\<rparr>) (readline_loop calls buf mx out 0 s)"

section \<open>Writing\<close>

text \<open>\<open>tbuf\<close> and \<open>hbuf\<close> are the static buffers of the two functions in the program.\<close>

function hex_user_loop :: "addr \<Rightarrow> u32 \<Rightarrow> i32 \<Rightarrow> mem \<Rightarrow> i32 \<times> mem" where
  "hex_user_loop hbuf dec j m =
     (if dec \<noteq> 0 then
        let remainder = dec mod 16;
            j = j - 1;
            m = (if sint remainder < 10 then m(hbuf + j := ucast (48 + remainder))
                 else m(hbuf + j := ucast (55 + remainder)))
        in hex_user_loop hbuf (dec div 16) j m
      else (j, m))"
  by pat_completeness auto
termination
  by (relation "measure (\<lambda>(hbuf, dec, j, m). unat dec)")
    (auto simp: unat_div unat_gt_0 intro!: div_less_dividend)

definition decimal_to_hex_user :: "addr \<Rightarrow> u32 \<Rightarrow> mem \<Rightarrow> addr \<times> mem" where
  "decimal_to_hex_user hbuf dec m = (let (j, m) = hex_user_loop hbuf dec 11 m in (hbuf + j, m))"

function itoa_user_loop :: "addr \<Rightarrow> i32 \<Rightarrow> i32 \<Rightarrow> mem \<Rightarrow> i32 \<times> mem" where
  "itoa_user_loop tbuf i loc m =
     (if i \<noteq> 0 then
        let loc = loc - 1;
            m = m(tbuf + loc := ucast (0x30 - int_mod i 10))
        in itoa_user_loop tbuf (int_div i 10) loc m
      else (loc, m))"
  by pat_completeness auto
termination
  by (relation "measure (\<lambda>(tbuf, i, loc, m). nat \<bar>sint i\<bar>)") (auto dest: int_div_10_less)

definition itoa_user :: "addr \<Rightarrow> i32 \<Rightarrow> mem \<Rightarrow> addr \<times> mem" where
  "itoa_user tbuf i m =
     (let loc = 11;
          m = m(tbuf + 11 := 0);
          neg = \<not> 0 \<le> sint i;
          i = (if 0 \<le> sint i then - i else i);
          (loc, m) = itoa_user_loop tbuf i loc m;
          (loc, m) = (if loc = 11 then (loc - 1, m(tbuf + (loc - 1) := 0x30)) else (loc, m));
          (loc, m) = (if neg then (loc - 1, m(tbuf + (loc - 1) := 0x2D)) else (loc, m))
      in (tbuf + loc, m))"

declare itoa_user_loop.simps [simp del] hex_user_loop.simps [simp del]

text \<open>\<open>args k\<close> is the \<open>k\<close>-th variable argument, \<open>zero_x\<close> the address of the literal \<open>0X\<close>.\<close>

partial_function (option) printf_loop ::
    "'a user_scheme phix_calls \<Rightarrow> addr \<Rightarrow> addr \<Rightarrow> addr \<Rightarrow> (nat \<Rightarrow> u32) \<Rightarrow> addr \<Rightarrow> nat \<Rightarrow> 'a user_scheme \<Rightarrow> 'a user_scheme option" where
  "printf_loop calls tbuf hbuf zero_x args p k s =
     (if umem s p = 0 then Some s
      else if umem s p \<noteq> 0x25
      then Option.bind (putchar_user calls (char_to_int (umem s p)) s)
             (\<lambda>r. printf_loop calls tbuf hbuf zero_x args (p + 1) k (snd r))
      else let p = p + 1; c = umem s p in
        if c = 0x64 then
          (let r = itoa_user tbuf (args k) (umem s) in
           Option.bind (phix_print calls (fst r) (s\<lparr>umem := snd r\<rparr>))
             (printf_loop calls tbuf hbuf zero_x args (p + 1) (k + 1)))
        else if c = 0x63 then
          Option.bind (putchar_user calls (args k) s)
            (\<lambda>r. printf_loop calls tbuf hbuf zero_x args (p + 1) (k + 1) (snd r))
        else if c = 0x73 then
          Option.bind (phix_print calls (args k) s) (printf_loop calls tbuf hbuf zero_x args (p + 1) (k + 1))
        else if c = 0x70 then
          Option.bind (phix_print calls zero_x s) (\<lambda>s.
            let r = decimal_to_hex_user hbuf (args k) (umem s) in
            Option.bind (phix_print calls (fst r) (s\<lparr>umem := snd r\<rparr>))
              (printf_loop calls tbuf hbuf zero_x args (p + 1) (k + 1)))
        else Option.bind (putchar_user calls (char_to_int c) s)
               (\<lambda>r. printf_loop calls tbuf hbuf zero_x args (p + 1) k (snd r)))"

definition printf_user :: "'a user_scheme phix_calls \<Rightarrow> addr \<Rightarrow> addr \<Rightarrow> addr \<Rightarrow> addr \<Rightarrow> (nat \<Rightarrow> u32)
    \<Rightarrow> 'a user_scheme \<Rightarrow> (i32 \<times> 'a user_scheme) option" where
  "printf_user calls tbuf hbuf zero_x fmt args s =
     map_option (\<lambda>s. (0, s)) (printf_loop calls tbuf hbuf zero_x args fmt 0 s)"

section \<open>The number functions are the kernel's\<close>

lemma numbers_user_eq [user_eqs]: "itoa_user = itoa" "decimal_to_hex_user = decimal_to_hex"
proof -
  have "itoa_user_loop tbuf i loc m = itoa_loop tbuf i loc m" for tbuf i loc m
  proof (induction tbuf i loc m rule: itoa_user_loop.induct)
    case (1 tbuf i loc m)
    then show ?case
      by (subst itoa_user_loop.simps, subst itoa_loop.simps) (simp add: Let_def del: fun_upd_apply)
  qed
  then show "itoa_user = itoa" by (simp add: fun_eq_iff itoa_user_def itoa_def)
  have "hex_user_loop hbuf d j m = hex_loop hbuf d j m" for hbuf d j m
  proof (induction hbuf d j m rule: hex_user_loop.induct)
    case (1 hbuf d j m)
    then show ?case
      by (subst hex_user_loop.simps, subst hex_loop.simps) (simp add: Let_def del: fun_upd_apply)
  qed
  then show "decimal_to_hex_user = decimal_to_hex" by (simp add: fun_eq_iff decimal_to_hex_user_def decimal_to_hex_def)
qed

lemma ucast_char_to_int [simp]: "ucast (char_to_int c) = (c :: u8)"
proof (rule bit_word_eqI)
  fix n :: nat assume "n < LENGTH(8)"
  then show "bit (ucast (char_to_int c) :: u8) n = bit c n"
    by (cases "n = 7") (auto simp: char_to_int_def bit_simps min_def)
qed

section \<open>Editing a line\<close>

text \<open>
  What \<open>readline\<close> does with the keys \<open>ks\<close> where \<open>line\<close> has been typed and \<open>n\<close> characters
  fit: the line, the keys echoed and the keys left. A return ends the line, a backspace
  takes its last character away, but on an empty line it is a character of the line.
\<close>

fun edit_line :: "nat \<Rightarrow> u8 list \<Rightarrow> u8 list \<Rightarrow> (u8 list \<times> u8 list \<times> u8 list) option" where
  "edit_line n line [] = (if n \<le> length line then Some (line, [], []) else None)"
| "edit_line n line (k # ks) =
     (if n \<le> length line then Some (line, [], k # ks)
      else if k = 13 then Some (line, [], ks)
      else map_option (\<lambda>(l, e, r). (l, k # e, r))
             (edit_line n (if k = 0x08 \<and> line \<noteq> [] then butlast line else line @ [k]) ks))"

text \<open>It ends where a return is typed, or enough keys without a backspace.\<close>

lemma edit_line_return: "13 \<in> set ks \<Longrightarrow> edit_line n line ks \<noteq> None"
  by (induction n line ks rule: edit_line.induct) auto

lemma edit_line_plain:
  "length ks \<le> n - length line \<Longrightarrow> 13 \<notin> set ks \<Longrightarrow> 0x08 \<notin> set ks \<Longrightarrow> length line \<le> n \<Longrightarrow>
   edit_line n line (ks @ 13 # r) = Some (line @ ks, ks, if length line + length ks = n then 13 # r else r)"
  by (induction ks arbitrary: line) auto

text \<open>One key: the line after it and the byte that is written, at the index it has.\<close>

definition edit_key :: "u8 \<Rightarrow> u8 list \<Rightarrow> u8 list" where
  "edit_key k line = (if k = 0x08 \<and> line \<noteq> [] then butlast line else line @ [k])"

definition edit_store :: "addr \<Rightarrow> u8 \<Rightarrow> i32 \<Rightarrow> mem \<Rightarrow> i32 \<times> mem" where
  "edit_store buf k i m = (if k = 0x08 \<and> 1 \<le> sint i then (i - 2 + 1, m(buf + (i - 1) := 0x00))
     else (i + 1, m(buf + i := k)))"

lemma edit_store_line:
  assumes "\<And>j. j < length line \<Longrightarrow> m (buf + of_nat j) = line ! j" and "length line < n" and "n < 2147483648"
  shows "\<exists>m'. edit_store buf k (of_nat (length line)) m = (of_nat (length (edit_key k line)), m') \<and>
     (\<forall>j < length (edit_key k line). m' (buf + of_nat j) = edit_key k line ! j) \<and>
     (\<forall>a. n \<le> unat (a - buf) \<longrightarrow> m' a = m a) \<and>
     (\<forall>a. (\<forall>j < length (edit_key k line). a \<noteq> buf + of_nat j) \<longrightarrow>
        m' a = 0 \<or> m' a = m a \<and> (\<forall>j < length line. a \<noteq> buf + of_nat j))"
proof -
  have sint: "1 \<le> sint (of_nat (length line) :: i32) \<longleftrightarrow> line \<noteq> []"
    using assms(2,3) by (cases line) (simp_all add: sint_of_nat del: of_nat_Suc)
  have eq: "buf + of_nat j = buf + of_nat i \<longleftrightarrow> j = i" if "j < n" "i < n" for i j
    using that assms(3) word_of_nat_inj [of j i] by simp
  have out: "a \<noteq> buf + of_nat i" if "n \<le> unat (a - buf)" "i < n" for a i
    using that assms(3) offset_eq_iff [of i a buf] by simp
  show ?thesis
  proof (cases "k = 0x08 \<and> line \<noteq> []")
    case True
    then obtain xs x where line: "line = xs @ [x]" by (metis append_butlast_last_id)
    have "of_nat (length line) - 2 + 1 = (of_nat (length xs) :: i32)" "of_nat (length line) - 1 = (of_nat (length xs) :: i32)"
      by (simp_all add: line)
    with True have "edit_store buf k (of_nat (length line)) m = (of_nat (length (edit_key k line)), m(buf + of_nat (length xs) := 0))"
      using sint by (simp add: edit_store_def edit_key_def line)
    moreover have "(m(buf + of_nat (length xs) := 0)) (buf + of_nat j) = xs ! j" if "j < length xs" for j
      using that assms(1) [of j] eq [of j "length xs"] assms(2) line by (simp add: nth_append)
    ultimately show ?thesis using True out [of _ "length xs"] assms(2) line
      by (intro exI [of _ "m(buf + of_nat (length xs) := 0)"]) (auto simp: edit_key_def less_Suc_eq)
  next
    case False
    then have "edit_store buf k (of_nat (length line)) m = (of_nat (length (edit_key k line)), m(buf + of_nat (length line) := k))"
      using sint by (auto simp: edit_store_def edit_key_def)
    moreover have "(m(buf + of_nat (length line) := k)) (buf + of_nat j) = (line @ [k]) ! j" if "j < Suc (length line)" for j
      using that assms(1) [of j] eq [of j "length line"] assms(2) by (auto simp: nth_append less_Suc_eq)
    moreover have "edit_key k line = line @ [k]" using False by (simp only: edit_key_def if_False)
    ultimately show ?thesis using out [of _ "length line"] assms(2)
      by (intro exI [of _ "m(buf + of_nat (length line) := k)"]) (auto simp: less_Suc_eq)
  qed
qed

text \<open>
  What a program relies on: \<open>typed s cs\<close> says that the keys \<open>cs\<close> are typed and not yet read
  in the state \<open>s\<close>, \<open>shown s\<close> is what the screen shows and \<open>show_char\<close> the effect of a
  character on it. The calls leave the program's memory alone.
\<close>

locale console =
  fixes calls :: "'a user_scheme phix_calls"
    and typed :: "'a user_scheme \<Rightarrow> u8 list \<Rightarrow> bool"
    and shown :: "'a user_scheme \<Rightarrow> 'o"
    and show_char :: "u8 \<Rightarrow> 'o \<Rightarrow> 'o"
  assumes key_read: "typed s (c # cs) \<Longrightarrow> \<exists>s'. phix_getkey calls s = Some (char_to_int c, s') \<and> typed s' cs \<and>
      umem s' = umem s \<and> tok_sp s' = tok_sp s \<and> shown s' = shown s"
    and char_put: "typed s cs \<Longrightarrow> \<exists>s'. phix_putchar calls c s = Some s' \<and> typed s' cs \<and>
      umem s' = umem s \<and> tok_sp s' = tok_sp s \<and> shown s' = show_char c (shown s)"
    and own_memory: "typed (s\<lparr>umem := m\<rparr>) cs \<longleftrightarrow> typed s cs" "shown (s\<lparr>umem := m\<rparr>) = shown s"
    and own_static: "typed (s\<lparr>tok_sp := q\<rparr>) cs \<longleftrightarrow> typed s cs" "shown (s\<lparr>tok_sp := q\<rparr>) = shown s"
    and no_nul_typed: "typed s cs \<Longrightarrow> 0 \<notin> set cs"
begin

lemma getkey_typed:
  assumes "typed s (c # cs)"
  obtains s' where "getkey_user calls s = Some (char_to_int c, s')" and "typed s' cs"
    and "umem s' = umem s" and "tok_sp s' = tok_sp s" and "shown s' = shown s"
proof -
  from key_read [OF assms] obtain s' where s': "phix_getkey calls s = Some (char_to_int c, s')" "typed s' cs"
    "umem s' = umem s" "tok_sp s' = tok_sp s" "shown s' = shown s" by blast
  have "char_to_int c \<noteq> char_to_int 0" using no_nul_typed [OF assms] by (simp only: char_to_int_eq_iff) auto
  then have "char_to_int c \<noteq> 0" by (simp add: char_to_int_def)
  then have "getkey_user calls s = Some (char_to_int c, s')" using s'(1) by (subst getkey_user.simps) simp
  with s' that show thesis by blast
qed

lemma putchar_typed:
  assumes "typed s cs"
  obtains s' where "putchar_user calls (char_to_int c) s = Some (0, s')" and "typed s' cs"
    and "umem s' = umem s" and "tok_sp s' = tok_sp s" and "shown s' = show_char c (shown s)"
proof -
  from char_put [OF assms, of c] obtain s' where "phix_putchar calls c s = Some s'" "typed s' cs"
    "umem s' = umem s" "tok_sp s' = tok_sp s" "shown s' = show_char c (shown s)" by blast
  then show thesis by (intro that [of s']) (simp_all add: putchar_user_def)
qed

lemma echo_typed:
  assumes "typed s cs"
  obtains s' where "(if out then map_option snd (putchar_user calls (char_to_int c) s) else Some s) = Some s'"
    and "typed s' cs" and "umem s' = umem s" and "tok_sp s' = tok_sp s"
    and "shown s' = (if out then show_char c (shown s) else shown s)"
proof (cases out)
  case True
  obtain s' where "putchar_user calls (char_to_int c) s = Some (0, s')" "typed s' cs"
    "umem s' = umem s" "tok_sp s' = tok_sp s" "shown s' = show_char c (shown s)"
    using putchar_typed [OF assms] .
  with True show ?thesis by (intro that [of s']) simp_all
next
  case False
  with assms show ?thesis by (intro that [of s]) simp_all
qed

text \<open>
  The loop from the point on where \<open>line\<close> has been typed, in a buffer that was \<open>m0\<close>: bytes
  behind the line are as they were or cleared.
\<close>

lemma readline_loop_edit:
  assumes "typed s ks" and "edit_line n line ks = Some (l, e, r)" and "n = nat (sint (mx - 1))"
    and "\<And>j. j < length line \<Longrightarrow> umem s (buf + of_nat j) = line ! j" and "length line \<le> n" and "0 \<notin> set line"
    and "\<And>a. \<forall>j < length line. a \<noteq> buf + of_nat j \<Longrightarrow> umem s a = 0 \<or> umem s a = m0 a"
  shows "\<exists>s'. readline_loop calls buf mx out (of_nat (length line)) s = Some (of_nat (length l), s') \<and>
     typed s' r \<and> tok_sp s' = tok_sp s \<and> (\<forall>j < length l. umem s' (buf + of_nat j) = l ! j) \<and> length l \<le> n \<and> 0 \<notin> set l \<and>
     (\<forall>a. n \<le> unat (a - buf) \<longrightarrow> umem s' a = umem s a) \<and>
     (\<forall>a. (\<forall>j < length l. a \<noteq> buf + of_nat j) \<longrightarrow> umem s' a = 0 \<or> umem s' a = m0 a) \<and>
     shown s' = (if out then fold show_char e (shown s) else shown s)"
  using assms
proof (induction n line ks arbitrary: s l e r rule: edit_line.induct)
  case (1 n line)
  have "n < 2147483648" using "1.prems"(3) sint32_bounds [of "mx - 1"] by simp
  then have "\<not> sint (of_nat (length line) :: i32) < sint (mx - 1)"
    using "1.prems" by (auto simp: sint_of_nat split: if_splits)
  with "1.prems" show ?case by (subst readline_loop.simps) (auto split: if_splits)
next
  case (2 n line k ks)
  have n: "n < 2147483648" using "2.prems"(3) sint32_bounds [of "mx - 1"] by simp
  have len: "sint (of_nat (length line) :: i32) = int (length line)" using "2.prems"(5) n by (simp add: sint_of_nat)
  show ?case
  proof (cases "n \<le> length line")
    case True
    then have "\<not> sint (of_nat (length line) :: i32) < sint (mx - 1)" using len "2.prems"(3) by auto
    with True "2.prems" show ?thesis by (subst readline_loop.simps) auto
  next
    case room: False
    then have lt: "sint (of_nat (length line) :: i32) < sint (mx - 1)" using len "2.prems"(3) by auto
    obtain s1 where key: "getkey_user calls s = Some (char_to_int k, s1)" "typed s1 ks" "umem s1 = umem s"
      "tok_sp s1 = tok_sp s" "shown s1 = shown s" using getkey_typed [OF "2.prems"(1)] .
    show ?thesis
    proof (cases "k = 13")
      case True
      with room lt key "2.prems" show ?thesis by (subst readline_loop.simps) simp
    next
      case False
      obtain s2 where echo: "(if out then map_option snd (putchar_user calls (char_to_int k) s1) else Some s1) = Some s2"
        "typed s2 ks" "umem s2 = umem s1" "tok_sp s2 = tok_sp s1"
        "shown s2 = (if out then show_char k (shown s1) else shown s1)" using echo_typed [OF key(2)] .
      let ?line = "edit_key k line"
      obtain m' where m': "edit_store buf k (of_nat (length line)) (umem s) = (of_nat (length ?line), m')"
        "\<forall>j < length ?line. m' (buf + of_nat j) = ?line ! j" "\<forall>a. n \<le> unat (a - buf) \<longrightarrow> m' a = umem s a"
        "\<And>a. (\<forall>j < length ?line. a \<noteq> buf + of_nat j) \<Longrightarrow>
           m' a = 0 \<or> m' a = umem s a \<and> (\<forall>j < length line. a \<noteq> buf + of_nat j)"
        using edit_store_line [of line "umem s" buf n k] "2.prems"(4) room n by auto
      obtain e' where e': "edit_line n ?line ks = Some (l, e', r)" "e = k # e'"
        using "2.prems"(2) room False by (auto simp: edit_key_def split: if_splits)
      have "readline_loop calls buf mx out (of_nat (length line)) s
          = readline_loop calls buf mx out (of_nat (length ?line)) (s2\<lparr>umem := m'\<rparr>)"
        using m'(1) lt False key(1,3) echo(1,3)
        by (subst readline_loop.simps) (auto simp: edit_store_def Let_def split: if_splits)
      moreover have "length ?line \<le> n" "0 \<notin> set ?line"
        using "2.prems"(6) room no_nul_typed [OF "2.prems"(1)] by (auto simp: edit_key_def dest: in_set_butlastD)
      moreover have "typed (s2\<lparr>umem := m'\<rparr>) ks" using echo(2) by (simp add: own_memory)
      moreover have "shown (s2\<lparr>umem := m'\<rparr>) = (if out then show_char k (shown s) else shown s)"
        using echo(5) key(5) by (simp add: own_memory)
      moreover have "m' a = 0 \<or> m' a = m0 a" if "\<forall>j < length ?line. a \<noteq> buf + of_nat j" for a
        using m'(4) [OF that] "2.prems"(7) [of a] by auto
      ultimately show ?thesis
        using "2.IH" [folded edit_key_def, OF room False, of "s2\<lparr>umem := m'\<rparr>" l e' r] e' m'(2,3) "2.prems"(3) echo(4) key(4)
        by (cases out) auto
    qed
  qed
qed

lemma readline_edit:
  assumes "typed s ks" and "edit_line (nat (sint (mx - 1))) [] ks = Some (l, e, r)"
  shows "\<exists>s'. readline_user calls buf mx out s = Some s' \<and> cstr (umem s') buf l \<and> typed s' r \<and> tok_sp s' = tok_sp s \<and>
     (\<forall>a. nat (sint (mx - 1)) < unat (a - buf) \<longrightarrow> umem s' a = umem s a) \<and>
     (\<forall>a. (\<forall>j < length l. a \<noteq> buf + of_nat j) \<longrightarrow> umem s' a = 0 \<or> umem s' a = umem s a) \<and>
     shown s' = (if out then fold show_char e (shown s) else shown s)"
proof -
  let ?n = "nat (sint (mx - 1))"
  have n: "?n < 2147483648" using sint32_bounds [of "mx - 1"] by simp
  obtain s' where s': "readline_loop calls buf mx out 0 s = Some (of_nat (length l), s')" "typed s' r"
    "\<forall>j < length l. umem s' (buf + of_nat j) = l ! j" "length l \<le> ?n" "0 \<notin> set l"
    "\<And>a. ?n \<le> unat (a - buf) \<Longrightarrow> umem s' a = umem s a"
    "\<And>a. \<forall>j < length l. a \<noteq> buf + of_nat j \<Longrightarrow> umem s' a = 0 \<or> umem s' a = umem s a"
    "shown s' = (if out then fold show_char e (shown s) else shown s)" "tok_sp s' = tok_sp s"
    using readline_loop_edit [OF assms refl, of buf "umem s" out] by auto
  let ?m = "(umem s')(buf + of_nat (length l) := 0)"
  have "buf + of_nat j \<noteq> buf + of_nat (length l)" if "j < length l" for j
    using that s'(4) n word_of_nat_inj [of j "length l"] by simp
  then have "cstr ?m buf l" using s'(3,5) by (simp add: cstr_iff)
  moreover have "?m a = umem s a" if "?n < unat (a - buf)" for a
  proof -
    have "unat (of_nat (length l) :: u32) = length l" using s'(4) n by (intro unat_of_nat32) simp
    then have "a \<noteq> buf + of_nat (length l)" using that s'(4) by auto
    then show ?thesis using s'(6) that by simp
  qed
  ultimately show ?thesis using s'(1,2,7,8,9)
    by (intro exI [of _ "s'\<lparr>umem := ?m\<rparr>"]) (simp add: readline_user_def own_memory)
qed

text \<open>A format without \<open>%\<close> is shown as it is.\<close>

lemma printf_plain:
  "typed s cs \<Longrightarrow> cstr (umem s) p xs \<Longrightarrow> 0x25 \<notin> set xs \<Longrightarrow>
   \<exists>s'. printf_user calls tbuf hbuf zero_x p args s = Some (0, s') \<and> typed s' cs \<and> umem s' = umem s \<and>
     tok_sp s' = tok_sp s \<and> shown s' = fold show_char xs (shown s)"
  unfolding printf_user_def
proof (induction xs arbitrary: p s)
  case Nil
  then show ?case by (subst printf_loop.simps) simp
next
  case (Cons x xs)
  obtain s1 where put: "putchar_user calls (char_to_int x) s = Some (0, s1)" "typed s1 cs"
    "umem s1 = umem s" "tok_sp s1 = tok_sp s" "shown s1 = show_char x (shown s)"
    using putchar_typed [OF Cons.prems(1)] .
  from Cons.IH [of s1 "p + 1"] Cons.prems put show ?case by (subst printf_loop.simps) auto
qed

end

end
