(* ===== verification/Console.thy ===== *)
theory Console
  imports Stdio Syscalls
begin

text \<open>
  Programs on the kernel: the system calls for keys and characters as the kernel answers
  them, the proof that they are a console in the sense of theory \<open>Stdio\<close>, and the line a
  program reads through them.
\<close>

section \<open>The kernel as a console\<close>

text \<open>
  A program and the kernel under it. The bodies of the system calls \<open>2\<close> and \<open>3\<close> run on
  the kernel's state; how a call comes there and back is the subject of theory
  \<open>Trap\<close>. The other calls are \<open>others\<close>.
\<close>

record program = user +
  kern :: system

definition kernel_calls :: "program phix_calls \<Rightarrow> program phix_calls" where
  "kernel_calls others = others\<lparr>
     phix_getkey := (\<lambda>s. case syscall2_getkey (kern s) of Done (key, k) \<Rightarrow> Some (key, s\<lparr>kern := k\<rparr>) | _ \<Rightarrow> None),
     phix_putchar := (\<lambda>c s. Some (s\<lparr>kern := screen_putchar c (kern s)\<rparr>))\<rparr>"

text \<open>The screen with the memory a 16 bit cursor can reach, whatever the rest of memory holds.\<close>

definition screen_part :: "addr \<Rightarrow> mem \<Rightarrow> mem" where
  "screen_part vm m = (\<lambda>a. if unat (a - vm) < 10616832 then m a else 0)"

definition screen_view :: "program \<Rightarrow> terminal \<times> mem" where
  "screen_view s = (screen (kern s), screen_part (video_mem (screen (kern s))) (ram (kern s)))"

text \<open>The keys in the buffer of the current task's process, which lies apart from the screen.\<close>

definition keys_typed :: "addr \<Rightarrow> addr \<Rightarrow> program \<Rightarrow> u8 list \<Rightarrow> bool" where
  "keys_typed p t s cs = (kb_holds p t (ram (kern s)) cs \<and> task_current (kern s) = t \<and>
     (\<forall>i < 1036. 10616832 \<le> unat (keyboard_buffer p + of_nat i - video_mem (screen (kern s)))) \<and>
     (\<forall>i < 4. 10616832 \<le> unat (task_process t + of_nat i - video_mem (screen (kern s)))))"

lemma screen_part_store16:
  "screen_part (video_mem t) (store16 m (cursor_cell t) v) = store16 (screen_part (video_mem t) m) (cursor_cell t) v"
proof -
  have "unat (cursor_cell t - video_mem t) < 10616832" using cursor_cell_range [of t] by simp
  moreover have "unat (cursor_cell t + 1 - video_mem t) < 10616832"
  proof -
    have "cursor_cell t + 1 - video_mem t = cursor_cell t - video_mem t + 1" by simp
    then have "unat (cursor_cell t + 1 - video_mem t) = unat (cursor_cell t - video_mem t) + 1"
      using cursor_cell_range [of t] unat_suc [of "cursor_cell t - video_mem t"] by (simp only:)
    then show ?thesis using cursor_cell_range [of t] by simp
  qed
  ultimately show ?thesis by (auto simp: screen_part_def store16_def fun_eq_iff)
qed

text \<open>A character changes the screen in the same way whatever the rest of memory holds.\<close>

lemma terminal_writechar_part:
  "terminal_writechar c color (t, screen_part (video_mem t) m) =
     (let (t', m') = terminal_writechar c color (t, m) in (t', screen_part (video_mem t) m'))"
proof (cases "c = 0x08")
  case True
  then show ?thesis using screen_part_store16 [of "step_back t" m]
    by (simp add: terminal_writechar.simps terminal_backspace_eq Let_def)
next
  case False
  then show ?thesis using screen_part_store16 [of t m]
    by (cases "c = 0x0A") (simp_all add: terminal_writechar_newline terminal_writechar_plain)
qed

lemma kb_holds_cong:
  assumes "kb_holds p t m xs" and "\<And>i. i < 1036 \<Longrightarrow> m' (keyboard_buffer p + of_nat i) = m (keyboard_buffer p + of_nat i)"
    and "\<And>i. i < 4 \<Longrightarrow> m' (task_process t + of_nat i) = m (task_process t + of_nat i)"
  shows "kb_holds p t m' xs"
proof -
  have word: "load32 m' (keyboard_buffer p + of_nat n) = load32 m (keyboard_buffer p + of_nat n)" if "n < 1033" for n
  proof (rule load32_same)
    fix k :: u32 assume "k < 4"
    then have "unat k < 4" by (simp add: word_less_nat_alt)
    with that assms(2) [of "n + unat k"] show "m' (keyboard_buffer p + of_nat n + k) = m (keyboard_buffer p + of_nat n + k)"
      by (simp add: add.assoc)
  qed
  have "load32 m' (keyboard_reader p) = load32 m (keyboard_reader p)" "load32 m' (keyboard_writer p) = load32 m (keyboard_writer p)"
    using word [of 1024] word [of 1028] by (simp_all add: layout add.commute)
  moreover have "load32 m' (task_process t) = load32 m (task_process t)"
  proof (rule load32_same)
    fix k :: u32 assume "k < 4"
    then have "unat k < 4" by (simp add: word_less_nat_alt)
    with assms(3) [of "unat k"] show "m' (task_process t + k) = m (task_process t + k)" by simp
  qed
  moreover have "m' (kb_slot p i) = m (kb_slot p i)" for i
  proof -
    have "unat (i mod 1024) < 1036" by (simp add: unat_mod)
    with assms(2) [of "unat (i mod 1024)"] show ?thesis by (simp add: kb_slot_def)
  qed
  ultimately show ?thesis using assms(1) by (simp add: kb_holds_def)
qed

lemma keyboard_pop_out:
  assumes "load32 m (task_process t) = p" and "\<And>i. i < 1036 \<Longrightarrow> a \<noteq> keyboard_buffer p + of_nat i"
  shows "snd (keyboard_pop t m) a = m a"
proof -
  have "a \<noteq> keyboard_reader p + k" if "k < 4" for k
  proof -
    from that have "unat k < 4" by (simp add: word_less_nat_alt)
    then show ?thesis using assms(2) [of "1024 + unat k"] by (simp add: layout add.assoc)
  qed
  from this [of 0] this [of 1] this [of 2] this [of 3]
  have "store32 m' (keyboard_reader p) v a = m' a" for m' v by (simp add: store32_def)
  moreover have "a \<noteq> kb_slot p i" for i
  proof -
    have "unat (i mod 1024) < 1036" by (simp add: unat_mod)
    with assms(2) [of "unat (i mod 1024)"] show ?thesis by (simp add: kb_slot_def)
  qed
  ultimately show ?thesis using assms(1) by (simp add: keyboard_pop_def kb_index Let_def)
qed

lemma kernel_getkey:
  assumes "keys_typed p t s (c # cs)"
  shows "\<exists>k. phix_getkey (kernel_calls others) s = Some (char_to_int c, s\<lparr>kern := k\<rparr>) \<and>
     keys_typed p t (s\<lparr>kern := k\<rparr>) cs \<and> screen_view (s\<lparr>kern := k\<rparr>) = screen_view s"
proof -
  let ?k = "kern s"
  have h: "kb_holds p t (ram ?k) (c # cs)" "task_current ?k = t"
    "\<And>i. i < 1036 \<Longrightarrow> 10616832 \<le> unat (keyboard_buffer p + of_nat i - video_mem (screen ?k))"
    using assms by (simp_all add: keys_typed_def)
  from kb_pop [OF h(1)] obtain m' where m': "keyboard_pop t (ram ?k) = (c, m')" "kb_holds p t m' cs" by blast
  have "m' a = ram ?k a" if "unat (a - video_mem (screen ?k)) < 10616832" for a
    using keyboard_pop_out [of "ram ?k" t p a] h(1,3) that m'(1) by (fastforce simp: kb_holds_def)
  then have "screen_part (video_mem (screen ?k)) m' = screen_part (video_mem (screen ?k)) (ram ?k)"
    by (simp add: screen_part_def fun_eq_iff)
  with m' h(2) assms show ?thesis
    by (intro exI [of _ "?k\<lparr>ram := m'\<rparr>"])
      (simp add: kernel_calls_def syscall2_getkey_def on_ram_def keys_typed_def screen_view_def task_current_def)
qed

lemma kernel_putchar:
  assumes "keys_typed p t s cs"
  shows "\<exists>k. phix_putchar (kernel_calls others) c s = Some (s\<lparr>kern := k\<rparr>) \<and>
     keys_typed p t (s\<lparr>kern := k\<rparr>) cs \<and> screen_view (s\<lparr>kern := k\<rparr>) = terminal_writechar c 15 (screen_view s)"
proof -
  let ?k = "kern s"
  obtain t' m' where put: "terminal_writechar c 15 (screen ?k, ram ?k) = (t', m')"
    by (cases "terminal_writechar c 15 (screen ?k, ram ?k)")
  with terminal_writechar_frame [of c 15 "screen ?k" "ram ?k"]
  have frame: "video_mem t' = video_mem (screen ?k)"
    "\<And>a. 10616832 \<le> unat (a - video_mem (screen ?k)) \<Longrightarrow> m' a = ram ?k a" by simp_all
  have "kb_holds p t m' cs"
    using assms by (auto simp: keys_typed_def intro!: frame(2) elim!: kb_holds_cong)
  with assms frame(1) put terminal_writechar_part [of c 15 "screen ?k" "ram ?k"] show ?thesis
    by (intro exI [of _ "?k\<lparr>ram := m', screen := t'\<rparr>"])
      (simp add: kernel_calls_def screen_putchar_def putchar.simps keys_typed_def screen_view_def task_current_def)
qed

interpretation kc: console "kernel_calls others" "keys_typed p t" screen_view "\<lambda>c. terminal_writechar c 15"
  for others p t
proof
  fix s c cs assume "keys_typed p t s (c # cs)"
  from kernel_getkey [OF this, of others] show "\<exists>s'. phix_getkey (kernel_calls others) s = Some (char_to_int c, s') \<and>
      keys_typed p t s' cs \<and> umem s' = umem s \<and> tok_sp s' = tok_sp s \<and> screen_view s' = screen_view s" by auto
next
  fix s c cs assume "keys_typed p t s cs"
  from kernel_putchar [OF this, of others c] show "\<exists>s'. phix_putchar (kernel_calls others) c s = Some s' \<and>
      keys_typed p t s' cs \<and> umem s' = umem s \<and> tok_sp s' = tok_sp s \<and> screen_view s' = terminal_writechar c 15 (screen_view s)" by auto
next
  show "0 \<notin> set cs" if "keys_typed p t s cs" for s cs using that by (simp add: keys_typed_def kb_holds_def)
qed (simp_all add: keys_typed_def screen_view_def)

text \<open>
  C16. A program's \<open>readline\<close> on the kernel's keyboard buffer returns once a line is typed: the
  program's buffer has the line that the keys give, edited, closed by a NUL and cut to its
  size; the keys behind it stay for the next call, the screen shows the keys one after the
  other, and nothing outside the buffer changes.
\<close>

theorem readline_reads_line:
  assumes "keys_typed p t s ks" and "edit_line (nat (sint (mx - 1))) [] ks = Some (l, e, r)"
  shows "\<exists>s'. readline_user (kernel_calls others) buf mx out s = Some s' \<and> cstr (umem s') buf l \<and> keys_typed p t s' r \<and>
     (\<forall>a. nat (sint (mx - 1)) < unat (a - buf) \<longrightarrow> umem s' a = umem s a) \<and>
     screen_view s' = (if out then fold (\<lambda>c. terminal_writechar c 15) e (screen_view s) else screen_view s)"
  using kc.readline_edit [OF assms, of others buf out] by blast

text \<open>A program with memory \<open>m\<close> whose process has the keys \<open>ks\<close> in its buffer.\<close>

definition typing_program :: "u8 list \<Rightarrow> mem \<Rightarrow> program" where
  "typing_program ks m = \<lparr>umem = m, tok_sp = 0, kern = fd_state\<lparr>current_task := 0x1003000,
     ram := fold (keyboard_push 0x1000000) ks kb_example\<rparr>\<rparr>"

lemma typing_program_keys:
  assumes "length ks \<le> 1024" and "0 \<notin> set ks"
  shows "keys_typed 0x1000000 0x1003000 (typing_program ks m) ks"
proof -
  have f: "fold (keyboard_push p) cs m = kb.pushes p cs m" for p cs m
    by (induction cs arbitrary: m) simp_all
  have "kb_holds 0x1000000 0x1003000 (kb.pushes 0x1000000 ks kb_example) ([] @ ks)"
    by (rule kb.pushes_holds [OF kb_example_holds]) (use assms in simp_all)
  moreover have "10616832 \<le> unat (b + of_nat i :: u32)" if "i < 1036" "10616832 \<le> b" "b < 0x2000000" for b i
    using that by (simp add: word_le_nat_alt word_less_nat_alt unat_word_ariths unat_of_nat32)
  ultimately show ?thesis
    by (simp add: keys_typed_def typing_program_def fd_state_def f task_current_def layout)
qed

theorem readline_reads_line_witness:
  "\<exists>s'. readline_user (kernel_calls undefined) 0x1000 1024 True (typing_program [0x52, 0x08, 0x41, 13, 0x42] (\<lambda>_. 0)) = Some s' \<and>
     cstr (umem s') 0x1000 [0x41] \<and> keys_typed 0x1000000 0x1003000 s' [0x42]"
proof -
  have keys: "keys_typed 0x1000000 0x1003000 (typing_program [0x52, 0x08, 0x41, 13, 0x42] (\<lambda>_. 0)) [0x52, 0x08, 0x41, 13, 0x42]"
    by (rule typing_program_keys) simp_all
  have "edit_line (nat (sint (1024 - 1 :: i32))) [] [0x52, 0x08, 0x41, 13, 0x42] = Some ([0x41], [0x52, 0x08, 0x41], [0x42])"
    by simp
  from readline_reads_line [OF keys this] show ?thesis by blast
qed

end
