(* ===== verification/Shell.thy ===== *)
theory Shell
  imports Console
begin

text \<open>
  The two programs of the repository, \<open>user/shell/shell.c\<close> and \<open>user/blank/blank.c\<close>, and
  the shell on the kernel's keyboard buffer and screen.
\<close>

text \<open>
  Where the linker puts the static objects and string literals of a program, and the
  stack the local \<open>buf\<close> of the shell's loop.
\<close>

record program_layout =
  text_static :: addr     \<comment> \<open>\<open>text\<close> of \<open>itoa\<close>\<close>
  hex_static :: addr      \<comment> \<open>\<open>hex\<close> of \<open>decimal_to_hex\<close>\<close>
  lit_0x :: addr          \<comment> \<open>\<open>0X\<close>\<close>
  lit_banner :: addr      \<comment> \<open>\<open>PHIX v1.0.0\<close> and a newline\<close>
  lit_prompt :: addr      \<comment> \<open>\<open># > \<close>\<close>
  lit_space :: addr       \<comment> \<open>the delimiters of \<open>strtok\<close>\<close>
  lit_run :: addr         \<comment> \<open>\<open>RUN\<close>\<close>
  lit_starting :: addr    \<comment> \<open>newline, \<open>Starting %s\<close> and newline\<close>
  lit_newline :: addr     \<comment> \<open>a newline\<close>
  lit_hello :: addr       \<comment> \<open>\<open>hello from %s\<close> and a newline\<close>
  lit_file :: addr        \<comment> \<open>\<open>__FILE__\<close>\<close>
  line_local :: addr      \<comment> \<open>\<open>buf\<close>\<close>

definition print_format :: "'a user_scheme phix_calls \<Rightarrow> program_layout \<Rightarrow> addr \<Rightarrow> addr \<Rightarrow> 'a user_scheme \<Rightarrow> 'a user_scheme option" where
  "print_format calls lay fmt arg s =
     map_option snd (printf_user calls (text_static lay) (hex_static lay) (lit_0x lay) fmt (\<lambda>_. arg) s)"

text \<open>One round of \<open>while (1)\<close>.\<close>

definition shell_round :: "'a user_scheme phix_calls \<Rightarrow> program_layout \<Rightarrow> 'a user_scheme \<Rightarrow> 'a user_scheme option" where
  "shell_round calls lay s =
     Option.bind (print_format calls lay (lit_prompt lay) 0 s) (\<lambda>s.
     Option.bind (readline_user calls (line_local lay) 1024 True s) (\<lambda>s.
     Option.bind (strtok (line_local lay) (lit_space lay) s) (\<lambda>(cmd, s).
     Option.bind (if strncmp_user (umem s) cmd (lit_run lay) 3 = 0
        then Option.bind (strtok 0 (lit_space lay) s) (\<lambda>(filename, s).
             Option.bind (print_format calls lay (lit_starting lay) filename s) (\<lambda>s.
               map_option snd (exec_user calls filename s)))
        else Some s) (\<lambda>s.
       print_format calls lay (lit_newline lay) 0 s))))"

text \<open>
  \<open>main\<close> never returns: \<open>shell_main n\<close> is its state after \<open>n\<close> rounds, \<open>None\<close> where one
  of them has not ended.
\<close>

primrec shell_rounds :: "nat \<Rightarrow> 'a user_scheme phix_calls \<Rightarrow> program_layout \<Rightarrow> 'a user_scheme \<Rightarrow> 'a user_scheme option" where
  "shell_rounds 0 calls lay s = Some s"
| "shell_rounds (Suc n) calls lay s = Option.bind (shell_round calls lay s) (shell_rounds n calls lay)"

definition shell_main :: "nat \<Rightarrow> 'a user_scheme phix_calls \<Rightarrow> program_layout \<Rightarrow> 'a user_scheme \<Rightarrow> 'a user_scheme option" where
  "shell_main n calls lay s =
     Option.bind (print_format calls lay (lit_banner lay) 0 s) (shell_rounds n calls lay)"

text \<open>The state in which \<open>main\<close> of \<open>blank.c\<close> enters its endless loop.\<close>

definition blank_main :: "'a user_scheme phix_calls \<Rightarrow> program_layout \<Rightarrow> 'a user_scheme \<Rightarrow> 'a user_scheme option" where
  "blank_main calls lay s = print_format calls lay (lit_hello lay) (lit_file lay) s"

section \<open>A round\<close>

text \<open>The strings the shell needs, apart from its buffer of 1024 bytes.\<close>

definition shell_strings :: "program_layout \<Rightarrow> mem \<Rightarrow> bool" where
  "shell_strings lay m = (cstr m (lit_prompt lay) [0x23, 0x20, 0x3E, 0x20] \<and> cstr m (lit_newline lay) [0x0A] \<and>
     cstr m (lit_space lay) [0x20] \<and> cstr m (lit_run lay) [0x52, 0x55, 0x4E] \<and>
     (\<forall>i \<le> 4. \<forall>q \<in> {lit_prompt lay, lit_newline lay, lit_space lay, lit_run lay}. 1024 \<le> unat (q + of_nat i - line_local lay)) \<and>
     line_local lay \<noteq> 0 \<and> unat (line_local lay) + 1024 < 4294967296)"

lemma shell_stringsD:
  assumes "shell_strings lay m"
  shows "cstr m (lit_prompt lay) [0x23, 0x20, 0x3E, 0x20]" and "cstr m (lit_newline lay) [0x0A]"
    and "cstr m (lit_space lay) [0x20]" and "cstr m (lit_run lay) [0x52, 0x55, 0x4E]"
    and "line_local lay \<noteq> 0" and "unat (line_local lay) + 1024 < 4294967296"
  using assms unfolding shell_strings_def by blast+

lemma shell_strings_cong:
  assumes "shell_strings lay m" and "\<And>a. 1023 < unat (a - line_local lay) \<Longrightarrow> m' a = m a"
  shows "shell_strings lay m'"
proof -
  have "m' (q + of_nat i) = m (q + of_nat i)"
    if "q \<in> {lit_prompt lay, lit_newline lay, lit_space lay, lit_run lay}" "i \<le> 4" for q i
  proof -
    have "1024 \<le> unat (q + of_nat i - line_local lay)" using assms(1) that unfolding shell_strings_def by blast
    then show ?thesis by (intro assms(2)) simp
  qed
  then have "cstr m' q xs" if "cstr m q xs" "length xs \<le> 4"
      "q \<in> {lit_prompt lay, lit_newline lay, lit_space lay, lit_run lay}" for q xs
    using that by (intro cstr_cong [OF that(1)]) simp
  then show ?thesis using assms(1) by (simp add: shell_strings_def del: cstr.simps)
qed

text \<open>The line just read is ready to be split.\<close>

lemma shell_splitting:
  assumes "shell_strings lay (umem s)" and "cstr (umem s) (line_local lay) l" and "length l \<le> 1023"
  shows "splitting (s\<lparr>tok_sp := line_local lay\<rparr>) (lit_space lay) [0x20] (line_local lay) l"
proof -
  have "length l < unat (lit_space lay + of_nat i - line_local lay)" if "i \<le> 1" for i
  proof -
    have "1024 \<le> unat (lit_space lay + of_nat i - line_local lay)"
      using assms(1) that unfolding shell_strings_def by (meson insertCI le_trans one_le_numeral)
    then show ?thesis using assms(3) by simp
  qed
  then show ?thesis using assms by (simp add: splitting_def delims_def shell_strings_def)
qed

lemma strtok_state: "strtok str d s = Some (p, s') \<Longrightarrow> s' = s\<lparr>umem := umem s', tok_sp := tok_sp s'\<rparr>"
  by (auto simp: strtok_def bind_eq_Some_conv Let_def split: if_splits)

lemma edit_line_limit: "edit_line n line ks = Some (l, e, r) \<Longrightarrow> length line \<le> n \<Longrightarrow> length l \<le> n"
  by (induction n line ks arbitrary: l e r rule: edit_line.induct) (auto split: if_splits)

context console
begin

lemma print_plain:
  assumes "typed s cs" and "cstr (umem s) fmt xs" and "0x25 \<notin> set xs"
  obtains s' where "print_format calls lay fmt arg s = Some s'" and "typed s' cs" and "umem s' = umem s"
    and "tok_sp s' = tok_sp s"
  using printf_plain [OF assms, of "text_static lay" "hex_static lay" "lit_0x lay" "\<lambda>_. arg"]
  by (auto simp: print_format_def)

text \<open>Up to the first \<open>strtok\<close> of a round.\<close>

lemma shell_round_line:
  assumes "typed s ks" and "edit_line 1023 [] ks = Some (l, e, r)" and "shell_strings lay (umem s)"
  shows "\<exists>s1. shell_round calls lay s = Option.bind (strtok (line_local lay) (lit_space lay) s1) (\<lambda>(cmd, s).
       Option.bind (if strncmp_user (umem s) cmd (lit_run lay) 3 = 0
         then Option.bind (strtok 0 (lit_space lay) s) (\<lambda>(filename, s).
              Option.bind (print_format calls lay (lit_starting lay) filename s) (\<lambda>s.
                map_option snd (exec_user calls filename s)))
         else Some s) (print_format calls lay (lit_newline lay) 0)) \<and>
     typed s1 r \<and> cstr (umem s1) (line_local lay) l \<and> tok_sp s1 = tok_sp s \<and> shell_strings lay (umem s1) \<and>
     (\<forall>a. 1023 < unat (a - line_local lay) \<longrightarrow> umem s1 a = umem s a) \<and>
     (\<forall>a. (\<forall>j < length l. a \<noteq> line_local lay + of_nat j) \<longrightarrow> umem s1 a = 0 \<or> umem s1 a = umem s a)"
proof -
  from print_plain [OF assms(1) shell_stringsD(1) [OF assms(3)], of lay 0] obtain s0 where
    s0: "print_format calls lay (lit_prompt lay) 0 s = Some s0" "typed s0 ks" "umem s0 = umem s" "tok_sp s0 = tok_sp s"
    by auto
  have "edit_line (nat (sint (1024 - 1 :: i32))) [] ks = Some (l, e, r)" using assms(2) by simp
  from readline_edit [OF s0(2) this, of "line_local lay" True] obtain s1 where
    s1: "readline_user calls (line_local lay) 1024 True s0 = Some s1" "cstr (umem s1) (line_local lay) l" "typed s1 r"
      "tok_sp s1 = tok_sp s0" "\<forall>a. 1023 < unat (a - line_local lay) \<longrightarrow> umem s1 a = umem s0 a"
      "\<forall>a. (\<forall>j < length l. a \<noteq> line_local lay + of_nat j) \<longrightarrow> umem s1 a = 0 \<or> umem s1 a = umem s0 a"
    by auto
  have "shell_strings lay (umem s1)" using s1(5) s0(3) by (intro shell_strings_cong [OF assms(3)]) simp
  with s0 s1 show ?thesis by (intro exI [of _ s1]) (simp add: shell_round_def)
qed

lemma shell_first_token:
  assumes "typed s1 r" and "tok_sp s1 = 0" and "shell_strings lay (umem s1)"
    and "cstr (umem s1) (line_local lay) l" and "length l \<le> 1023" and "tokens {0x20} l = t # ts"
  shows "\<exists>cmd s2 q l'. strtok (line_local lay) (lit_space lay) s1 = Some (cmd, s2) \<and> typed s2 r \<and>
     shell_strings lay (umem s2) \<and> cstr (umem s2) cmd t \<and>
     (strncmp_user (umem s2) cmd (lit_run lay) 3 = 0 \<longleftrightarrow> take 3 t = [0x52, 0x55, 0x4E]) \<and>
     splitting s2 (lit_space lay) [0x20] q l' \<and> tokens {0x20} l' = ts \<and>
     (\<forall>a. 1023 < unat (a - line_local lay) \<longrightarrow> length l' \<le> unat (a - q))"
proof -
  let ?s = "s1\<lparr>tok_sp := line_local lay\<rparr>"
  note sp = shell_splitting [OF assms(3,4,5)]
  from splitting_step [OF sp] assms(6) obtain k p t' r' s2 where
    "token_call ?s (lit_space lay) [0x20] (line_local lay) k l p t' r' s2" by auto
  then have call: "strtok 0 (lit_space lay) ?s = Some (p, s2)" "t' = t" "tokens {0x20} r' = ts"
    "splitting s2 (lit_space lay) [0x20] (line_local lay + of_nat k) r'" "cstr (umem s2) p t"
    "\<forall>a. length l \<le> unat (a - line_local lay) \<longrightarrow>
        length r' \<le> unat (a - (line_local lay + of_nat k)) \<and> umem s2 a = umem s1 a"
    using assms(6) by (auto simp: token_call_def)
  from shell_stringsD(5) [OF assms(3)] call(1) have "strtok (line_local lay) (lit_space lay) s1 = Some (p, s2)"
    using strtok_argument(1) assms(2) by metis
  moreover from strtok_state [OF this] have "typed s2 r" using assms(1) own_memory own_static by metis
  moreover have strings: "shell_strings lay (umem s2)"
    using call(6) assms(5) by (intro shell_strings_cong [OF assms(3)]) auto
  moreover from strncmp_cstr [OF call(5) shell_stringsD(4) [OF strings], of 3]
  have "strncmp_user (umem s2) p (lit_run lay) 3 = 0 \<longleftrightarrow> take 3 t = [0x52, 0x55, 0x4E]" by (simp add: user_eqs)
  moreover have "\<forall>a. 1023 < unat (a - line_local lay) \<longrightarrow> length r' \<le> unat (a - (line_local lay + of_nat k))"
    using call(6) assms(5) by auto
  ultimately show ?thesis using call(3,4,5)
    by (intro exI [of _ p] exI [of _ s2] exI [of _ "line_local lay + of_nat k"] exI [of _ r']) simp
qed

text \<open>A line whose first word starts with \<open>RUN\<close> starts the program that the second word names.\<close>

lemma shell_round_runs:
  assumes "typed s ks" and "edit_line 1023 [] ks = Some (l, e, r)" and "shell_strings lay (umem s)" and "tok_sp s = 0"
    and "tokens {0x20} l = cmd # name # ts" and "take 3 cmd = [0x52, 0x55, 0x4E]"
  shows "\<exists>filename s'. shell_round calls lay s =
       Option.bind (print_format calls lay (lit_starting lay) filename s') (\<lambda>s.
       Option.bind (map_option snd (exec_user calls filename s)) (print_format calls lay (lit_newline lay) 0)) \<and>
     typed s' r \<and> cstr (umem s') filename name \<and> shell_strings lay (umem s')"
proof -
  from shell_round_line [OF assms(1-3)] obtain s1 where s1:
    "shell_round calls lay s = Option.bind (strtok (line_local lay) (lit_space lay) s1) (\<lambda>(cmd, s).
       Option.bind (if strncmp_user (umem s) cmd (lit_run lay) 3 = 0
         then Option.bind (strtok 0 (lit_space lay) s) (\<lambda>(filename, s).
              Option.bind (print_format calls lay (lit_starting lay) filename s) (\<lambda>s.
                map_option snd (exec_user calls filename s)))
         else Some s) (print_format calls lay (lit_newline lay) 0))"
    "typed s1 r" "cstr (umem s1) (line_local lay) l" "tok_sp s1 = 0" "shell_strings lay (umem s1)"
    using assms(4) by auto
  have len: "length l \<le> 1023" using edit_line_limit [OF assms(2)] by simp
  from shell_first_token [OF s1(2,4,5,3) len assms(5)] obtain p s2 q l' where
    first: "strtok (line_local lay) (lit_space lay) s1 = Some (p, s2)" "typed s2 r" "shell_strings lay (umem s2)"
      "strncmp_user (umem s2) p (lit_run lay) 3 = 0" "splitting s2 (lit_space lay) [0x20] q l'"
      "tokens {0x20} l' = name # ts" "\<forall>a. 1023 < unat (a - line_local lay) \<longrightarrow> length l' \<le> unat (a - q)"
    using assms(6) by auto
  from splitting_step [OF first(5)] first(6) obtain k f t' r' s3 where
    "token_call s2 (lit_space lay) [0x20] q k l' f t' r' s3" by auto
  then have second: "strtok 0 (lit_space lay) s2 = Some (f, s3)" "cstr (umem s3) f name"
    "\<And>a. length l' \<le> unat (a - q) \<Longrightarrow> umem s3 a = umem s2 a"
    using first(6) by (auto simp: token_call_def)
  have "typed s3 r" using strtok_state [OF second(1)] first(2) own_memory own_static by metis
  moreover have "shell_strings lay (umem s3)"
    using first(7) second(3) by (intro shell_strings_cong [OF first(3)]) auto
  ultimately show ?thesis using s1(1) first(1,4) second(1,2)
    by (intro exI [of _ f] exI [of _ s3]) simp
qed

text \<open>
  Any other word does nothing, but the pointer of \<open>strtok\<close> stays behind it, and the next
  line, where it is not longer, is not split: the shell compares the bytes at address \<open>0\<close>.
\<close>

lemma shell_newline:
  assumes "typed s r" and "shell_strings lay (umem s)"
  obtains s' where "print_format calls lay (lit_newline lay) 0 s = Some s'" and "typed s' r"
    and "umem s' = umem s" and "tok_sp s' = tok_sp s"
  using print_plain [OF assms(1) shell_stringsD(2) [OF assms(2)]] that by auto

lemma shell_word_round:
  assumes "typed s (w @ 13 # r)" and "shell_strings lay (umem s)" and "tok_sp s = 0"
    and "w \<noteq> []" and "length w < 1023" and "set w \<inter> {0x20, 0x08, 13} = {}" and "take 3 w \<noteq> [0x52, 0x55, 0x4E]"
  shows "\<exists>s'. shell_round calls lay s = Some s' \<and> typed s' r \<and> shell_strings lay (umem s') \<and>
     tok_sp s' = line_local lay + of_nat (length w) \<and> tok_sp s' \<noteq> 0 \<and> umem s' (tok_sp s') = 0 \<and>
     (\<forall>a. 1023 < unat (a - line_local lay) \<longrightarrow> umem s' a = umem s a)"
proof -
  have "edit_line 1023 [] (w @ 13 # r) = Some (w, w, r)" using assms(5,6) by (subst edit_line_plain) auto
  from shell_round_line [OF assms(1) this assms(2)] obtain s1 where s1:
    "shell_round calls lay s = Option.bind (strtok (line_local lay) (lit_space lay) s1) (\<lambda>(cmd, s).
       Option.bind (if strncmp_user (umem s) cmd (lit_run lay) 3 = 0
         then Option.bind (strtok 0 (lit_space lay) s) (\<lambda>(filename, s).
              Option.bind (print_format calls lay (lit_starting lay) filename s) (\<lambda>s.
                map_option snd (exec_user calls filename s)))
         else Some s) (print_format calls lay (lit_newline lay) 0))"
    "typed s1 r" "cstr (umem s1) (line_local lay) w" "tok_sp s1 = 0" "shell_strings lay (umem s1)"
    "\<forall>a. 1023 < unat (a - line_local lay) \<longrightarrow> umem s1 a = umem s a"
    using assms(3) by auto
  let ?s2 = "s1\<lparr>tok_sp := line_local lay + of_nat (length w)\<rparr>"
  have "splitting (s1\<lparr>tok_sp := line_local lay\<rparr>) (lit_space lay) [0x20] (line_local lay) w"
    by (rule shell_splitting [OF s1(5,3)]) (use assms(5) in simp)
  note word = strtok_word [OF this assms(4)]
  have call: "strtok (line_local lay) (lit_space lay) s1 = Some (line_local lay, ?s2)" "tok_sp ?s2 \<noteq> 0"
    using word(1) [where str = 0] word(2) strtok_argument(1) [of "line_local lay" s1] shell_stringsD(5) [OF s1(5)] s1(4) assms(6)
    by simp_all
  note run = shell_stringsD(4) [OF s1(5)]
  have "strncmp_user (umem s1) (line_local lay) (lit_run lay) 3 \<noteq> 0"
    using strncmp_cstr [OF s1(3) run, of 3] assms(7) by (simp add: user_eqs)
  moreover have "typed ?s2 r" "shell_strings lay (umem ?s2)" using s1(2,5) by (simp_all add: own_static)
  moreover obtain s3 where "print_format calls lay (lit_newline lay) 0 ?s2 = Some s3" "typed s3 r" "umem s3 = umem ?s2"
    "tok_sp s3 = tok_sp ?s2" using shell_newline [OF \<open>typed ?s2 r\<close> \<open>shell_strings lay (umem ?s2)\<close>] .
  ultimately show ?thesis using s1(1,5,6) call cstr_end [OF s1(3)]
    by (intro exI [of _ s3]) simp
qed

lemma shell_second_line:
  assumes "typed s (v @ 13 # r)" and "shell_strings lay (umem s)"
    and "tok_sp s = line_local lay + of_nat n" and "tok_sp s \<noteq> 0" and "umem s (tok_sp s) = 0" and "length v \<le> n" and "n < 1023"
    and "set v \<inter> {0x08, 13} = {}" and "umem s 0 \<noteq> 0x52"
  shows "\<exists>s'. shell_round calls lay s = Some s' \<and> typed s' r \<and> tok_sp s' = 0 \<and> shell_strings lay (umem s')"
proof -
  have "edit_line 1023 [] (v @ 13 # r) = Some (v, v, r)" using assms(6-8) by (subst edit_line_plain) auto
  from shell_round_line [OF assms(1) this assms(2)] obtain s1 where s1:
    "shell_round calls lay s = Option.bind (strtok (line_local lay) (lit_space lay) s1) (\<lambda>(cmd, s).
       Option.bind (if strncmp_user (umem s) cmd (lit_run lay) 3 = 0
         then Option.bind (strtok 0 (lit_space lay) s) (\<lambda>(filename, s).
              Option.bind (print_format calls lay (lit_starting lay) filename s) (\<lambda>s.
                map_option snd (exec_user calls filename s)))
         else Some s) (print_format calls lay (lit_newline lay) 0))"
    "typed s1 r" "tok_sp s1 = tok_sp s" "shell_strings lay (umem s1)"
    "\<forall>a. 1023 < unat (a - line_local lay) \<longrightarrow> umem s1 a = umem s a"
    "\<forall>a. (\<forall>j < length v. a \<noteq> line_local lay + of_nat j) \<longrightarrow> umem s1 a = 0 \<or> umem s1 a = umem s a"
    by auto
  have "tok_sp s \<noteq> line_local lay + of_nat j" if "j < length v" for j
    using that assms(3,6,7) word_of_nat_inj [of n j] by simp
  then have "umem s1 (tok_sp s1) = 0" using s1(6) [rule_format, of "tok_sp s"] s1(3) assms(5) by auto
  moreover have "delims (umem s1) (lit_space lay) [0x20]"
    unfolding delims_def using shell_stringsD(3) [OF s1(4)] by simp
  moreover have "tok_sp s1 \<noteq> 0" using s1(3) assms(4) by simp
  ultimately have call: "strtok (line_local lay) (lit_space lay) s1 = Some (0, s1\<lparr>tok_sp := 0\<rparr>)"
    by (intro strtok_stopped)
  have "1023 < unat (0 - line_local lay)"
    using shell_stringsD(5,6) [OF s1(4)] unat_minus_iff [of 0 "line_local lay"] by simp
  with s1(5) assms(9) have "umem s1 0 \<noteq> 0x52" by simp
  moreover have "umem s1 (lit_run lay) = 0x52" using shell_stringsD(4) [OF s1(4)] by simp
  moreover have "strncmp (umem s1) 0 (lit_run lay) 3 = strncmp_loop (umem s1) 0 (lit_run lay) (Suc 2)"
    by (simp add: strncmp_def)
  ultimately have "strncmp_user (umem s1) 0 (lit_run lay) 3 \<noteq> 0"
    unfolding user_eqs strncmp_loop.simps
    using ucast_u8_eq_iff [of "umem s1 0" "umem s1 (lit_run lay)"] by (simp add: Let_def)
  moreover obtain s3 where "print_format calls lay (lit_newline lay) 0 (s1\<lparr>tok_sp := 0\<rparr>) = Some s3" "typed s3 r"
    "umem s3 = umem s1" "tok_sp s3 = 0"
    using shell_newline [of "s1\<lparr>tok_sp := 0\<rparr>" r lay] s1(2,4) by (auto simp: own_static)
  ultimately show ?thesis using s1(1,4) call by (intro exI [of _ s3]) simp
qed

lemma shell_ignores_second:
  assumes "typed s (w @ 13 # v @ 13 # r)" and "shell_strings lay (umem s)" and "tok_sp s = 0" and "umem s 0 \<noteq> 0x52"
    and "w \<noteq> []" and "length w < 1023" and "set w \<inter> {0x20, 0x08, 13} = {}" and "take 3 w \<noteq> [0x52, 0x55, 0x4E]"
    and "length v \<le> length w" and "set v \<inter> {0x08, 13} = {}"
  shows "\<exists>s'. shell_rounds 2 calls lay s = Some s' \<and> typed s' r \<and> tok_sp s' = 0"
proof -
  from shell_word_round [OF assms(1-3,5-8)] obtain s1 where s1: "shell_round calls lay s = Some s1"
    "typed s1 (v @ 13 # r)" "shell_strings lay (umem s1)" "tok_sp s1 = line_local lay + of_nat (length w)"
    "tok_sp s1 \<noteq> 0" "umem s1 (tok_sp s1) = 0" "\<forall>a. 1023 < unat (a - line_local lay) \<longrightarrow> umem s1 a = umem s a" by auto
  have "1023 < unat (0 - line_local lay)"
    using shell_stringsD(5,6) [OF s1(3)] unat_minus_iff [of 0 "line_local lay"] by simp
  with s1(7) assms(4) have "umem s1 0 \<noteq> 0x52" by simp
  from shell_second_line [OF s1(2-6) assms(9,6,10) this] s1(1) show ?thesis by (auto simp: numeral_2_eq_2)
qed

end

section \<open>Properties\<close>

text \<open>
  C19. The shell on the kernel's keyboard buffer: when a line is typed whose first word starts
  with \<open>RUN\<close>, the program that its second word names is started, from a NUL-terminated
  copy of the word; the keys behind the line stay in the buffer.
\<close>

theorem shell_runs_program:
  assumes "keys_typed p t s ks" and "edit_line 1023 [] ks = Some (l, e, r)" and "shell_strings lay (umem s)"
    and "tok_sp s = 0" and "tokens {0x20} l = cmd # name # ts" and "take 3 cmd = [0x52, 0x55, 0x4E]"
  shows "\<exists>filename s'. shell_round (kernel_calls others) lay s =
       Option.bind (print_format (kernel_calls others) lay (lit_starting lay) filename s') (\<lambda>s.
       Option.bind (map_option snd (exec_user (kernel_calls others) filename s))
         (print_format (kernel_calls others) lay (lit_newline lay) 0)) \<and>
     keys_typed p t s' r \<and> cstr (umem s') filename name"
  using kc.shell_round_runs [OF assms, of others] by blast

text \<open>A program image for the witnesses.\<close>

definition shell_layout :: program_layout where
  "shell_layout = \<lparr>text_static = 0x3000, hex_static = 0x3010, lit_0x = 0x3020, lit_banner = 0x3030,
     lit_prompt = 0x2000, lit_space = 0x2010, lit_run = 0x2020, lit_starting = 0x3040, lit_newline = 0x2030,
     lit_hello = 0x3060, lit_file = 0x3080, line_local = 0x1000\<rparr>"

definition shell_memory :: mem where
  "shell_memory = (\<lambda>_. 0)(0x2000 := 0x23, 0x2001 := 0x20, 0x2002 := 0x3E, 0x2003 := 0x20, 0x2010 := 0x20,
     0x2020 := 0x52, 0x2021 := 0x55, 0x2022 := 0x4E, 0x2030 := 0x0A)"

lemma shell_memory_strings: "shell_strings shell_layout shell_memory"
proof -
  have "1024 \<le> unat (b + of_nat i :: u32)" if "i \<le> 4" "1024 \<le> b" "b < 0x10000" for b i
    using that by (simp add: word_le_nat_alt word_less_nat_alt unat_word_ariths unat_of_nat32)
  then show ?thesis by (simp add: shell_strings_def shell_layout_def shell_memory_def)
qed

text \<open>The line \<open>RUN  A\<close>.\<close>

theorem shell_runs_program_witness:
  "\<exists>filename s'. cstr (umem s') filename [0x41] \<and> keys_typed 0x1000000 0x1003000 s' [] \<and>
     shell_round (kernel_calls undefined) shell_layout (typing_program [0x52, 0x55, 0x4E, 0x20, 0x20, 0x41, 13] shell_memory) =
       Option.bind (print_format (kernel_calls undefined) shell_layout 0x3040 filename s') (\<lambda>s.
       Option.bind (map_option snd (exec_user (kernel_calls undefined) filename s))
         (print_format (kernel_calls undefined) shell_layout 0x2030 0))"
proof -
  let ?s = "typing_program [0x52, 0x55, 0x4E, 0x20, 0x20, 0x41, 13] shell_memory"
  have keys: "keys_typed 0x1000000 0x1003000 ?s [0x52, 0x55, 0x4E, 0x20, 0x20, 0x41, 13]"
    by (rule typing_program_keys) simp_all
  have line: "edit_line 1023 [] [0x52, 0x55, 0x4E, 0x20, 0x20, 0x41, 13] =
      Some ([0x52, 0x55, 0x4E, 0x20, 0x20, 0x41], [0x52, 0x55, 0x4E, 0x20, 0x20, 0x41], [])" by simp
  have "tokens {0x20} [0x52, 0x55, 0x4E, 0x20, 0x20, 0x41 :: u8] = [[0x52, 0x55, 0x4E], [0x41]]"
    by (subst tokens.simps, simp)+
  from shell_runs_program [OF keys line _ _ this] shell_memory_strings show ?thesis
    by (fastforce simp: typing_program_def shell_layout_def numeral_3_eq_3)
qed

text \<open>
  C26. After a line of one word that is no command, the next line is lost where it is not
  longer, \<open>RUN\<close> and a program's name included: the shell goes two rounds without starting
  anything, whatever the other system calls would do.
\<close>

theorem shell_loses_line:
  assumes "keys_typed p t s (w @ 13 # v @ 13 # r)" and "shell_strings lay (umem s)" and "tok_sp s = 0"
    and "umem s 0 \<noteq> 0x52" and "w \<noteq> []" and "length w < 1023" and "set w \<inter> {0x20, 0x08, 13} = {}"
    and "take 3 w \<noteq> [0x52, 0x55, 0x4E]" and "length v \<le> length w" and "set v \<inter> {0x08, 13} = {}"
  shows "\<exists>s'. shell_rounds 2 (kernel_calls others) lay s = Some s' \<and> keys_typed p t s' r \<and> tok_sp s' = 0"
  using assms by (rule kc.shell_ignores_second)

text \<open>The lines \<open>LISTEN\<close> and \<open>RUN A\<close>.\<close>

theorem shell_loses_line_witness:
  "\<exists>s'. shell_rounds 2 (kernel_calls undefined) shell_layout
       (typing_program ([0x4C, 0x49, 0x53, 0x54, 0x45, 0x4E] @ 13 # [0x52, 0x55, 0x4E, 0x20, 0x41] @ 13 # []) shell_memory) = Some s' \<and>
     keys_typed 0x1000000 0x1003000 s' []"
proof -
  let ?ks = "[0x4C, 0x49, 0x53, 0x54, 0x45, 0x4E] @ 13 # [0x52, 0x55, 0x4E, 0x20, 0x41] @ 13 # [] :: u8 list"
  have keys: "keys_typed 0x1000000 0x1003000 (typing_program ?ks shell_memory) ?ks"
    by (rule typing_program_keys) simp_all
  have s: "umem (typing_program ?ks shell_memory) = shell_memory" "tok_sp (typing_program ?ks shell_memory) = 0"
    by (simp_all add: typing_program_def)
  have z: "shell_memory 0 \<noteq> 0x52" by (simp add: shell_memory_def)
  from shell_loses_line [OF keys, of shell_layout, unfolded s, OF shell_memory_strings refl z]
  show ?thesis by (auto simp: numeral_3_eq_3)
qed

end
