(* ===== verification/Trap.thy ===== *)
theory Trap
  imports Console Kernel_Main
begin

text \<open>
  The way of a system call: the stubs of \<open>stdlib/src/phix.asm\<close>, the interrupt that enters
  the kernel on the stack of the TSS, \<open>isr80h_wrapper\<close> of \<open>idt.asm\<close> and the return. The
  general registers and the five words of the interrupt frame are a record; loads and
  stores go through the directory that is loaded. The return address of the call into C
  and the frames of C functions lie below the words the wrapper pushes and are not
  modelled.
\<close>

record cpu =
  cpu_edi :: u32
  cpu_esi :: u32
  cpu_ebp :: u32
  cpu_ebx :: u32
  cpu_edx :: u32
  cpu_ecx :: u32
  cpu_eax :: u32
  cpu_esp :: u32
  cpu_eip :: u32
  cpu_cs :: u32
  cpu_flags :: u32
  cpu_ss :: u32

type_synonym 'a running = "cpu \<times> 'a kernel_scheme"

section \<open>Instructions\<close>

text \<open>A 32 bit store within one page.\<close>

definition vstore32 :: "addr \<Rightarrow> addr \<Rightarrow> u32 \<Rightarrow> mem \<Rightarrow> mem outcome" where
  "vstore32 dir v w m =
     obind (vstore dir v (ucast w) m) (\<lambda>m. obind (vstore dir (v + 1) (ucast (drop_bit 8 w)) m) (\<lambda>m.
     obind (vstore dir (v + 2) (ucast (drop_bit 16 w)) m) (vstore dir (v + 3) (ucast (drop_bit 24 w)))))"

definition push :: "u32 \<Rightarrow> 'a running \<Rightarrow> 'a running outcome" where
  "push w = (\<lambda>(c, s). obind (vstore32 (cr3 s) (cpu_esp c - 4) w (ram s)) (\<lambda>m.
     Done (c\<lparr>cpu_esp := cpu_esp c - 4\<rparr>, s\<lparr>ram := m\<rparr>)))"

definition pop :: "'a running \<Rightarrow> (u32 \<times> 'a running) outcome" where
  "pop = (\<lambda>(c, s). obind (vload32 (cr3 s) (cpu_esp c) (ram s)) (\<lambda>w.
     Done (w, c\<lparr>cpu_esp := cpu_esp c + 4\<rparr>, s)))"

fun push_all :: "u32 list \<Rightarrow> 'a running \<Rightarrow> 'a running outcome" where
  "push_all [] st = Done st"
| "push_all (w # ws) st = obind (push w st) (push_all ws)"

definition pushad :: "'a running \<Rightarrow> 'a running outcome" where
  "pushad = (\<lambda>(c, s). push_all [cpu_eax c, cpu_ecx c, cpu_edx c, cpu_ebx c, cpu_esp c, cpu_ebp c, cpu_esi c, cpu_edi c] (c, s))"

text \<open>The saved stack pointer is skipped.\<close>

definition popad :: "'a running \<Rightarrow> 'a running outcome" where
  "popad st =
     obind (pop st) (\<lambda>(edi, st). obind (pop st) (\<lambda>(esi, st). obind (pop st) (\<lambda>(ebp, st). obind (pop st) (\<lambda>(_, st).
     obind (pop st) (\<lambda>(ebx, st). obind (pop st) (\<lambda>(edx, st). obind (pop st) (\<lambda>(ecx, st). obind (pop st) (\<lambda>(eax, c, s).
       Done (c\<lparr>cpu_edi := edi, cpu_esi := esi, cpu_ebp := ebp, cpu_ebx := ebx, cpu_edx := edx,
               cpu_ecx := ecx, cpu_eax := eax\<rparr>, s)))))))))"

definition iretd :: "'a running \<Rightarrow> 'a running outcome" where
  "iretd st =
     obind (pop st) (\<lambda>(eip, st). obind (pop st) (\<lambda>(cs, st). obind (pop st) (\<lambda>(flags, st).
     obind (pop st) (\<lambda>(esp, st). obind (pop st) (\<lambda>(ss, c, s).
       Done (c\<lparr>cpu_eip := eip, cpu_cs := cs, cpu_flags := flags, cpu_esp := esp, cpu_ss := ss\<rparr>, s))))))"

definition cli :: "'a running \<Rightarrow> 'a running" where
  "cli = (\<lambda>(c, s). (c\<lparr>cpu_flags := cpu_flags c AND NOT 0x200\<rparr>, s))"

text \<open>
  The processor's part: the stack of the TSS at \<open>tss\<close> and the first five words of the frame.
  The gates are interrupt gates (theory \<open>Idt\<close>), so that the interrupt flag is cleared.
\<close>

definition interrupt_entry :: "addr \<Rightarrow> 'a running \<Rightarrow> 'a running outcome" where
  "interrupt_entry tss = (\<lambda>(c, s).
     push_all [cpu_ss c, cpu_esp c, cpu_flags c, cpu_cs c, cpu_eip c]
       (c\<lparr>cpu_esp := load32 (ram s) (tss_esp0 tss), cpu_ss := KERNEL_DATA_SELECTOR, cpu_cs := KERNEL_CODE_SELECTOR,
          cpu_flags := cpu_flags c AND NOT 0x200\<rparr>, s))"

text \<open>\<open>tmp_res\<close> is the address of the word that the wrapper keeps the result in.\<close>

definition isr80h_wrapper ::
    "(addr \<Rightarrow> addr \<Rightarrow> 'a kernel_scheme \<Rightarrow> (u32 \<times> 'a kernel_scheme) outcome) \<Rightarrow> addr \<Rightarrow> 'a running \<Rightarrow> 'a running outcome" where
  "isr80h_wrapper call tmp_res st =
     obind (pushad (cli st)) (\<lambda>(c, s).
     obind (push_all [cpu_esp c, cpu_eax c] (c, s)) (\<lambda>(d, s).
     obind (isr80h_handler call (cpu_eax c) (cpu_esp c) s) (\<lambda>(ret, s).
     obind (vstore32 (cr3 s) tmp_res ret (ram s)) (\<lambda>m.
     obind (popad (d\<lparr>cpu_eax := ret, cpu_esp := cpu_esp d + 8\<rparr>, s\<lparr>ram := m\<rparr>)) (\<lambda>(c, s).
     obind (vload32 (cr3 s) tmp_res (ram s)) (\<lambda>w. iretd (c\<lparr>cpu_eax := w\<rparr>, s)))))))"

definition software_interrupt ::
    "addr \<Rightarrow> (addr \<Rightarrow> addr \<Rightarrow> 'a kernel_scheme \<Rightarrow> (u32 \<times> 'a kernel_scheme) outcome) \<Rightarrow> addr \<Rightarrow> 'a running \<Rightarrow> 'a running outcome" where
  "software_interrupt tss call tmp_res st = obind (interrupt_entry tss st) (isr80h_wrapper call tmp_res)"

section \<open>The stubs\<close>

text \<open>\<open>phix_getkey\<close>: called with the return address on top of the stack.\<close>

definition phix_getkey_stub ::
    "addr \<Rightarrow> (addr \<Rightarrow> addr \<Rightarrow> 'a kernel_scheme \<Rightarrow> (u32 \<times> 'a kernel_scheme) outcome) \<Rightarrow> addr \<Rightarrow> 'a running \<Rightarrow> 'a running outcome" where
  "phix_getkey_stub tss call tmp_res st =
     obind (push (cpu_ebp (fst st)) st) (\<lambda>(c, s).
     obind (software_interrupt tss call tmp_res (c\<lparr>cpu_ebp := cpu_esp c, cpu_eax := 2\<rparr>, s)) (\<lambda>st.
     obind (pop st) (\<lambda>(ebp, c, s).
     obind (pop (c\<lparr>cpu_ebp := ebp\<rparr>, s)) (\<lambda>(eip, c, s). Done (c\<lparr>cpu_eip := eip\<rparr>, s)))))"

text \<open>The stubs with an argument, which is behind the return address; they differ in the command.\<close>

definition phix_stub ::
    "u32 \<Rightarrow> addr \<Rightarrow> (addr \<Rightarrow> addr \<Rightarrow> 'a kernel_scheme \<Rightarrow> (u32 \<times> 'a kernel_scheme) outcome) \<Rightarrow> addr \<Rightarrow> 'a running \<Rightarrow> 'a running outcome" where
  "phix_stub command tss call tmp_res st =
     obind (push (cpu_ebp (fst st)) st) (\<lambda>(c, s).
     let c = c\<lparr>cpu_ebp := cpu_esp c, cpu_eax := command\<rparr> in
     obind (vload32 (cr3 s) (cpu_ebp c + 8) (ram s)) (\<lambda>arg.
     obind (push arg (c, s)) (\<lambda>st.
     obind (software_interrupt tss call tmp_res st) (\<lambda>(c, s).
     obind (pop (c\<lparr>cpu_esp := cpu_esp c + 4\<rparr>, s)) (\<lambda>(ebp, c, s).
     obind (pop (c\<lparr>cpu_ebp := ebp\<rparr>, s)) (\<lambda>(eip, c, s). Done (c\<lparr>cpu_eip := eip\<rparr>, s)))))))"

text \<open>
  \<open>restore_general_purpose_registers\<close> and \<open>task_return\<close> of \<open>task.asm\<close>, entered with the
  return address on the stack and the address of the registers behind it; the last
  \<open>pop\<close> of the first overwrites the \<open>ebp\<close> it has just loaded. \<open>here\<close> is the address behind
  the call, where \<open>add esp, 4\<close> follows; the segment registers are not modelled.
\<close>

definition restore_general_purpose_registers :: "'a running \<Rightarrow> 'a running outcome" where
  "restore_general_purpose_registers st =
     obind (push (cpu_ebp (fst st)) st) (\<lambda>(c, s).
     let c = c\<lparr>cpu_ebp := cpu_esp c\<rparr>; load = (\<lambda>a. vload32 (cr3 s) a (ram s)) in
     obind (load (cpu_ebp c + 8)) (\<lambda>regs.
     obind (load regs) (\<lambda>edi. obind (load (regs + 4)) (\<lambda>esi. obind (load (regs + 8)) (\<lambda>ebp.
     obind (load (regs + 16)) (\<lambda>edx. obind (load (regs + 20)) (\<lambda>ecx. obind (load (regs + 24)) (\<lambda>eax.
     obind (load (regs + 12)) (\<lambda>ebx.
     obind (pop (c\<lparr>cpu_edi := edi, cpu_esi := esi, cpu_ebp := ebp, cpu_ebx := ebx, cpu_edx := edx,
                    cpu_ecx := ecx, cpu_eax := eax\<rparr>, s)) (\<lambda>(ebp, c, s).
     obind (pop (c\<lparr>cpu_ebp := ebp\<rparr>, s)) (\<lambda>(eip, c, s). Done (c\<lparr>cpu_eip := eip\<rparr>, s))))))))))))"

definition task_return :: "addr \<Rightarrow> 'a running \<Rightarrow> 'a running outcome" where
  "task_return here = (\<lambda>(c, s).
     let c = c\<lparr>cpu_ebp := cpu_esp c\<rparr>; load = (\<lambda>a. vload32 (cr3 s) a (ram s)) in
     obind (load (cpu_ebp c + 4)) (\<lambda>regs.
     obind (load (regs + 44)) (\<lambda>ss. obind (load (regs + 40)) (\<lambda>esp.
     obind (push_all [ss, esp, cpu_flags c OR 0x200] (c\<lparr>cpu_ebx := regs, cpu_eax := cpu_flags c OR 0x200\<rparr>, s)) (\<lambda>(c, s).
     let load = (\<lambda>a. vload32 (cr3 s) a (ram s)) in
     obind (load (regs + 32)) (\<lambda>cs. obind (push cs (c, s)) (\<lambda>(c, s). let load = (\<lambda>a. vload32 (cr3 s) a (ram s)) in
     obind (load (regs + 28)) (\<lambda>ip. obind (push ip (c, s)) (\<lambda>(c, s). let load = (\<lambda>a. vload32 (cr3 s) a (ram s)) in
     obind (load (cpu_ebp c + 4)) (\<lambda>arg. obind (push arg (c, s)) (\<lambda>st.
     obind (push here st) (\<lambda>st.
     obind (restore_general_purpose_registers st) (\<lambda>(c, s).
       iretd (c\<lparr>cpu_esp := cpu_esp c + 4\<rparr>, s))))))))))))))"

text \<open>
  The functions of the nine commands, at the addresses \<open>funs\<close>. The one of command 6 does
  not come back to the handler where it starts a program.
\<close>

definition syscall_call :: "env \<Rightarrow> (addr \<Rightarrow> system fs_ops) \<Rightarrow> addr \<Rightarrow> addr \<Rightarrow> addr \<Rightarrow> addr \<Rightarrow> system \<Rightarrow> (u32 \<times> system) outcome" where
  "syscall_call e ops old out f frame s =
     (let funs = syscall_funs e in
      if f = funs ! 0 then syscall0_sum s
      else if f = funs ! 1 then syscall1_print e s
      else if f = funs ! 2 then syscall2_getkey s
      else if f = funs ! 3 then syscall3_putchar s
      else if f = funs ! 4 then syscall4_malloc s
      else if f = funs ! 5 then syscall5_free s
      else if f = funs ! 6 then obind (syscall6_process_load_start e ops old out s)
        (\<lambda>(r, s). case r of Inl ret \<Rightarrow> Done (ret, s) | Inr regs \<Rightarrow> Diverge)
      else if f = funs ! 7 then syscall7_get_paddr s
      else syscall8_get_flags s)"

section \<open>Words behind a directory\<close>

definition word_bytes :: "addr \<Rightarrow> addr set" where
  "word_bytes a = {a, a + 1, a + 2, a + 3}"

definition same_on :: "addr set \<Rightarrow> mem \<Rightarrow> mem \<Rightarrow> bool" where
  "same_on X m m' = (\<forall>a \<in> X. m' a = m a)"

text \<open>
  The word at \<open>v\<close> is translated to the one at \<open>p\<close> as long as the bytes \<open>X\<close>, which have the
  tables, stay as they are.
\<close>

definition maps :: "addr set \<Rightarrow> addr \<Rightarrow> addr \<Rightarrow> addr \<Rightarrow> mem \<Rightarrow> bool" where
  "maps X dir v p m = (\<forall>m'. same_on X m m' \<longrightarrow>
     (\<forall>k \<in> {0, 1, 2, 3}. page_present dir (v + k) m' \<and> paging_get_paddr dir (v + k) m' = p + k))"

lemma same_on_refl [simp]: "same_on X m m"
  by (simp add: same_on_def)

lemma same_on_trans: "same_on X m m' \<Longrightarrow> same_on X m' m'' \<Longrightarrow> same_on X m m''"
  by (simp add: same_on_def)

lemma same_on_subset: "same_on X m m' \<Longrightarrow> Y \<subseteq> X \<Longrightarrow> same_on Y m m'"
  by (auto simp: same_on_def)

lemma same_on_load32: "same_on X m m' \<Longrightarrow> word_bytes a \<subseteq> X \<Longrightarrow> load32 m' a = load32 m a"
  by (simp add: same_on_def word_bytes_def load32_def)

lemma store32_word_bytes: "a \<notin> word_bytes p \<Longrightarrow> store32 m p w a = m a"
  by (simp add: store32_def word_bytes_def)

lemma same_on_store32: "word_bytes p \<inter> X = {} \<Longrightarrow> same_on X m (store32 m p w)"
  unfolding same_on_def by (auto intro: store32_word_bytes)

lemma maps_cong: "maps X dir v p m \<Longrightarrow> same_on X m m' \<Longrightarrow> maps X dir v p m'"
  unfolding maps_def using same_on_trans by blast

lemma vload32_maps: "maps X dir v p m \<Longrightarrow> vload32 dir v m = Done (load32 m p)"
  by (simp add: maps_def vload32_def vload_def load32_def)

lemma vstore32_maps:
  assumes "maps X dir v p m" and "word_bytes p \<inter> X = {}"
  shows "vstore32 dir v w m = Done (store32 m p w)"
proof -
  have byte: "vstore dir (v + k) b m' = Done (m'(p + k := b))" if "same_on X m m'" "k \<in> {0, 1, 2, 3}" for k b m'
    using assms(1) that by (auto simp: maps_def vstore_def)
  have upd: "same_on X m (m'(p + k := b))" if "same_on X m m'" "k \<in> {0, 1, 2, 3}" for k b m'
    using that assms(2) by (auto simp: same_on_def word_bytes_def)
  show ?thesis
    using byte [of m 0] byte [of _ 1] byte [of _ 2] byte [of _ 3] upd [of m 0] upd [of _ 1] upd [of _ 2]
    by (simp add: vstore32_def store32_def del: fun_upd_apply)
qed

text \<open>A block of words below \<open>e\<close> that lies behind the directory at its own address.\<close>

definition below :: "addr \<Rightarrow> nat \<Rightarrow> addr" where
  "below e k = e - 4 * of_nat (Suc k)"

definition stack_bytes :: "addr \<Rightarrow> nat \<Rightarrow> addr set" where
  "stack_bytes e n = (\<Union>k < n. word_bytes (below e k))"

lemma stack_bytes_word: "k < n \<Longrightarrow> word_bytes (below e k) \<subseteq> stack_bytes e n"
  by (auto simp: stack_bytes_def)

definition maps_stack :: "addr set \<Rightarrow> addr \<Rightarrow> addr \<Rightarrow> nat \<Rightarrow> mem \<Rightarrow> bool" where
  "maps_stack X dir e n m = (\<forall>k < n. maps X dir (below e k) (below e k) m)"

lemma word_bytes_iff: "b \<in> word_bytes a \<longleftrightarrow> (\<exists>k < 4. b = a + k)"
proof
  assume "b \<in> word_bytes a"
  then have "b = a + 0 \<or> b = a + 1 \<or> b = a + 2 \<or> b = a + 3" by (simp add: word_bytes_def)
  then show "\<exists>k < 4. b = a + k" by (elim disjE) (auto simp del: add_0_right)
next
  assume "\<exists>k < 4. b = a + k"
  then obtain k where k: "k < 4" "b = a + k" by blast
  then have "unat k < 4" by (simp add: word_less_nat_alt)
  then have "unat k \<in> {0, 1, 2, 3}" by auto
  then have "k \<in> {0, 1, 2, 3}" by (auto simp: word_unat_eq_iff)
  then show "b \<in> word_bytes a" using k(2) by (auto simp: word_bytes_def)
qed

lemma below_apart:
  assumes "j < n" and "k < n" and "j \<noteq> k" and "n \<le> 1024"
  shows "word_bytes (below e j) \<inter> word_bytes (below e k) = {}"
proof -
  have far: "4 \<le> unat (below e i - below e l) \<and> unat (below e i - below e l) \<le> 4294967292" if "i < l" "l < n" for i l
  proof -
    have "below e i - below e l = of_nat (4 * (l - i))" using that by (simp add: below_def of_nat_diff algebra_simps)
    moreover have "unat (of_nat (4 * (l - i)) :: u32) = 4 * (l - i)" using that assms(4) by (intro unat_of_nat32) simp
    moreover have "1 \<le> l - i" "l - i \<le> 1024" using that assms(4) by auto
    ultimately show ?thesis by simp
  qed
  have "word_bytes p \<inter> word_bytes q = {}" if "4 \<le> unat (p - q)" "unat (p - q) \<le> 4294967292" for p q :: addr
  proof -
    have "p + x \<noteq> q + y" if "x < 4" "y < 4" for x y
    proof
      assume "p + x = q + y"
      then have "p - q + x = y" by (simp add: algebra_simps)
      moreover have "unat (p - q + x) = unat (p - q) + unat x"
        using that \<open>unat (p - q) \<le> 4294967292\<close> by (intro unat_add_less) (simp add: word_less_nat_alt)
      ultimately show False using that(2) \<open>4 \<le> unat (p - q)\<close> by (simp add: word_less_nat_alt)
    qed
    then show ?thesis by (auto simp: word_bytes_iff)
  qed
  then show ?thesis using far [of j k] far [of k j] assms by (metis Int_commute linorder_neqE_nat)
qed

lemma push_maps:
  assumes "maps X (cr3 s) (cpu_esp c - 4) p (ram s)" and "word_bytes p \<inter> X = {}"
  shows "push w (c, s) = Done (c\<lparr>cpu_esp := cpu_esp c - 4\<rparr>, s\<lparr>ram := store32 (ram s) p w\<rparr>)"
  using vstore32_maps [OF assms] by (simp add: push_def)

lemma pop_maps:
  assumes "maps X (cr3 s) (cpu_esp c) p (ram s)"
  shows "pop (c, s) = Done (load32 (ram s) p, c\<lparr>cpu_esp := cpu_esp c + 4\<rparr>, s)"
  using vload32_maps [OF assms] by (simp add: pop_def)

text \<open>Pushing a list writes its words to the block below the stack pointer and nothing else.\<close>

lemma push_all_stack:
  assumes "maps_stack X (cr3 s) e n (ram s)" and "stack_bytes e n \<inter> X = {}" and "n \<le> 1024"
    and "i + length ws \<le> n" and "cpu_esp c = e - 4 * of_nat i"
  shows "\<exists>m. push_all ws (c, s) = Done (c\<lparr>cpu_esp := e - 4 * of_nat (i + length ws)\<rparr>, s\<lparr>ram := m\<rparr>) \<and>
     (\<forall>k < length ws. load32 m (below e (i + k)) = ws ! k) \<and>
     (\<forall>a. (\<forall>k. i \<le> k \<and> k < i + length ws \<longrightarrow> a \<notin> word_bytes (below e k)) \<longrightarrow> m a = ram s a)"
  using assms
proof (induction ws arbitrary: i c s)
  case Nil
  then show ?case by (intro exI [of _ "ram s"]) simp
next
  case (Cons w ws)
  let ?p = "below e i" and ?m = "store32 (ram s) (below e i) w"
  have p: "cpu_esp c - 4 = ?p" using Cons.prems(5) by (simp add: below_def algebra_simps)
  have i: "i < n" using Cons.prems(4) by simp
  then have out: "word_bytes ?p \<inter> X = {}" using Cons.prems(2) by (auto simp: stack_bytes_def)
  have "maps X (cr3 s) (cpu_esp c - 4) ?p (ram s)" using Cons.prems(1) i unfolding p maps_stack_def by blast
  from push_maps [OF this out] have push: "push w (c, s) = Done (c\<lparr>cpu_esp := ?p\<rparr>, s\<lparr>ram := ?m\<rparr>)" by (simp add: p)
  have "maps_stack X (cr3 s) e n ?m"
    using Cons.prems(1) maps_cong same_on_store32 [OF out] unfolding maps_stack_def by blast
  moreover have "?p = e - 4 * of_nat (Suc i)" by (simp only: below_def)
  ultimately obtain m where m: "push_all ws (c\<lparr>cpu_esp := ?p\<rparr>, s\<lparr>ram := ?m\<rparr>)
        = Done (c\<lparr>cpu_esp := e - 4 * of_nat (Suc i + length ws)\<rparr>, s\<lparr>ram := m\<rparr>)"
      "\<forall>k < length ws. load32 m (below e (Suc i + k)) = ws ! k"
      "\<And>a. (\<forall>k. Suc i \<le> k \<and> k < Suc i + length ws \<longrightarrow> a \<notin> word_bytes (below e k)) \<Longrightarrow> m a = ?m a"
    using Cons.IH [of "s\<lparr>ram := ?m\<rparr>" "Suc i" "c\<lparr>cpu_esp := ?p\<rparr>"] Cons.prems(2-4) by auto
  have own: "m a = ?m a" if "a \<in> word_bytes ?p" for a
  proof (rule m(3), intro allI impI)
    fix k assume "Suc i \<le> k \<and> k < Suc i + length ws"
    then have "word_bytes ?p \<inter> word_bytes (below e k) = {}"
      using below_apart [of i n k e] Cons.prems(3,4) by simp
    with that show "a \<notin> word_bytes (below e k)" by blast
  qed
  then have "load32 m ?p = w" using same_on_load32 [of "word_bytes ?p" ?m m] by (simp add: same_on_def)
  then have "\<forall>k < length (w # ws). load32 m (below e (i + k)) = (w # ws) ! k"
    using m(2) by (auto simp: less_Suc_eq_0_disj)
  moreover have "m a = ram s a" if "\<forall>k. i \<le> k \<and> k < i + length (w # ws) \<longrightarrow> a \<notin> word_bytes (below e k)" for a
  proof -
    have "\<forall>k. Suc i \<le> k \<and> k < Suc i + length ws \<longrightarrow> a \<notin> word_bytes (below e k)" using that by simp
    from m(3) [OF this] have "m a = ?m a" .
    moreover have "a \<notin> word_bytes ?p" using that by simp
    ultimately show ?thesis by (simp add: store32_word_bytes)
  qed
  ultimately show ?case using push m(1) by (intro exI [of _ m]) simp
qed

lemma push_all_append: "push_all (xs @ ys) st = obind (push_all xs st) (push_all ys)"
  by (induction xs arbitrary: st) (auto simp: obind_def split: outcome.splits)

lemma below_add: "0 < k \<Longrightarrow> below e k + 4 = below e (k - 1)"
  by (cases k) (simp_all add: below_def algebra_simps)

lemma pop_stack:
  assumes "maps_stack X (cr3 s) e n (ram s)" and "k < n" and "cpu_esp c = below e k"
  shows "pop (c, s) = Done (load32 (ram s) (below e k), c\<lparr>cpu_esp := below e k + 4\<rparr>, s)"
  using pop_maps [of X s c "below e k"] assms by (simp add: maps_stack_def)

section \<open>Into the kernel and back\<close>

definition reg_bytes :: "addr \<Rightarrow> addr set" where
  "reg_bytes t = (\<Union>k < 12. word_bytes (task_registers t + 4 * of_nat k))"

text \<open>
  What the way there and back relies on, for the current task with its directory loaded: the
  kernel stack and \<open>tmp_res\<close> lie behind the directory at their own addresses; what is
  written (the frame, the saved registers, \<open>tmp_res\<close>) are different bytes, and none of them
  is in \<open>X\<close>, which has the tables and the pointers to them.
\<close>

definition trap_ready :: "addr set \<Rightarrow> addr \<Rightarrow> addr \<Rightarrow> 'a kernel_scheme \<Rightarrow> bool" where
  "trap_ready X tss tmp_res s =
     (let t = current_task s; e = load32 (ram s) (tss_esp0 tss); chunk = load32 (ram s) (task_page_directory t) in
      t \<noteq> 0 \<and> cr3 s = load32 (ram s) chunk \<and> word_bytes (task_page_directory t) \<union> word_bytes chunk \<subseteq> X \<and>
      maps_stack X (cr3 s) e 15 (ram s) \<and> maps X (cr3 s) tmp_res tmp_res (ram s) \<and>
      X \<inter> (stack_bytes e 15 \<union> reg_bytes t \<union> word_bytes tmp_res) = {} \<and>
      stack_bytes e 15 \<inter> (reg_bytes t \<union> word_bytes tmp_res) = {})"

text \<open>The words of the frame, from the top of the kernel stack down.\<close>

definition frame_words :: "addr \<Rightarrow> cpu \<Rightarrow> u32 list" where
  "frame_words e c = [cpu_ss c, cpu_esp c, cpu_flags c, cpu_cs c, cpu_eip c, cpu_eax c, cpu_ecx c, cpu_edx c,
     cpu_ebx c, e - 20, cpu_ebp c, cpu_esi c, cpu_edi c]"

definition kernel_cpu :: "addr \<Rightarrow> cpu \<Rightarrow> cpu" where
  "kernel_cpu sp c = c\<lparr>cpu_esp := sp, cpu_ss := KERNEL_DATA_SELECTOR, cpu_cs := KERNEL_CODE_SELECTOR,
     cpu_flags := cpu_flags c AND NOT 0x200\<rparr>"

lemma kernel_cpu_regs [simp]:
  "cpu_esp (kernel_cpu sp c) = sp" "cpu_eax (kernel_cpu sp c) = cpu_eax c"
  "kernel_cpu sp c\<lparr>cpu_esp := sp'\<rparr> = kernel_cpu sp' c" "cli (kernel_cpu sp c, s) = (kernel_cpu sp c, s)"
  by (simp_all add: kernel_cpu_def cli_def and.assoc)

text \<open>Into the kernel: the frame, and below it the two arguments of the handler.\<close>

lemma enter_kernel:
  assumes "maps_stack X (cr3 s) e 15 (ram s)" and "stack_bytes e 15 \<inter> X = {}" and "e = load32 (ram s) (tss_esp0 tss)"
  shows "\<exists>m1 m2 m. interrupt_entry tss (c, s) = Done (kernel_cpu (e - 20) c, s\<lparr>ram := m1\<rparr>) \<and>
     pushad (kernel_cpu (e - 20) c, s\<lparr>ram := m1\<rparr>) = Done (kernel_cpu (below e 12) c, s\<lparr>ram := m2\<rparr>) \<and>
     push_all [below e 12, x] (kernel_cpu (below e 12) c, s\<lparr>ram := m2\<rparr>) = Done (kernel_cpu (below e 14) c, s\<lparr>ram := m\<rparr>) \<and>
     (\<forall>k < 13. load32 m (below e k) = frame_words e c ! k) \<and> (\<forall>a. a \<notin> stack_bytes e 15 \<longrightarrow> m a = ram s a)"
proof -
  let ?c = "kernel_cpu e c"
  let ?w = "[cpu_ss c, cpu_esp c, cpu_flags c, cpu_cs c, cpu_eip c]"
  let ?v = "[cpu_eax c, cpu_ecx c, cpu_edx c, cpu_ebx c, e - 20, cpu_ebp c, cpu_esi c, cpu_edi c]"
  let ?u = "[below e 12, x]"
  have esp: "cpu_esp ?c = e - 4 * of_nat 0" by simp
  have sp: "below e 12 = e - 52" "below e 14 = e - 60" by (simp_all add: below_def)
  note run = push_all_stack [OF assms(1,2) _ _ esp]
  from run [of ?w] obtain m1 where m1: "push_all ?w (?c, s) = Done (kernel_cpu (e - 20) c, s\<lparr>ram := m1\<rparr>)" by auto
  from run [of "?w @ ?v"] obtain m2 where
    m2: "push_all (?w @ ?v) (?c, s) = Done (kernel_cpu (below e 12) c, s\<lparr>ram := m2\<rparr>)" by (auto simp: sp)
  from run [of "(?w @ ?v) @ ?u"] obtain m where
    m: "push_all ((?w @ ?v) @ ?u) (?c, s) = Done (kernel_cpu (below e 14) c, s\<lparr>ram := m\<rparr>)"
      "\<forall>k < 15. load32 m (below e k) = ((?w @ ?v) @ ?u) ! k"
      "\<forall>a. (\<forall>k < 15. a \<notin> word_bytes (below e k)) \<longrightarrow> m a = ram s a" by (auto simp: sp)
  have "interrupt_entry tss (c, s) = push_all ?w (?c, s)"
    by (simp add: interrupt_entry_def assms(3) kernel_cpu_def del: push_all.simps)
  moreover have "pushad (kernel_cpu (e - 20) c, s\<lparr>ram := m1\<rparr>) = push_all ?v (kernel_cpu (e - 20) c, s\<lparr>ram := m1\<rparr>)"
    by (simp add: pushad_def kernel_cpu_def del: push_all.simps)
  moreover have "push_all ?v (kernel_cpu (e - 20) c, s\<lparr>ram := m1\<rparr>) = Done (kernel_cpu (below e 12) c, s\<lparr>ram := m2\<rparr>)"
    using m2 by (simp only: push_all_append m1 obind_simps)
  moreover have "push_all ?u (kernel_cpu (below e 12) c, s\<lparr>ram := m2\<rparr>) = Done (kernel_cpu (below e 14) c, s\<lparr>ram := m\<rparr>)"
    using m(1) by (simp only: push_all_append [of "?w @ ?v"] m2 obind_simps)
  moreover have "((?w @ ?v) @ ?u) ! k = frame_words e c ! k" if "k < 13" for k
  proof -
    have "(?w @ ?v) @ ?u = frame_words e c @ ?u" by (simp add: frame_words_def)
    moreover have "length (frame_words e c) = 13" by (simp add: frame_words_def)
    ultimately show ?thesis using that by (simp only: nth_append if_True)
  qed
  then have "\<forall>k < 13. load32 m (below e k) = frame_words e c ! k" using m(2) by simp
  moreover have "\<forall>a. a \<notin> stack_bytes e 15 \<longrightarrow> m a = ram s a" using m(3) by (auto simp: stack_bytes_def)
  ultimately show ?thesis using m1 by (intro exI [of _ m1] exI [of _ m2] exI [of _ m]) simp
qed

lemma leave_kernel:
  assumes "maps_stack X (cr3 s) e 15 (ram s)" and "\<forall>k < 13. load32 (ram s) (below e k) = frame_words e c ! k"
    and "cpu_esp d = below e 12" and "maps X (cr3 s) tmp_res tmp_res (ram s)"
  shows "obind (popad (d, s)) (\<lambda>(c, s). obind (vload32 (cr3 s) tmp_res (ram s)) (\<lambda>w. iretd (c\<lparr>cpu_eax := w\<rparr>, s)))
     = Done (c\<lparr>cpu_eax := load32 (ram s) tmp_res\<rparr>, s)"
proof -
  note pops = pop_stack [OF assms(1)]
  have w: "load32 (ram s) (below e k) = frame_words e c ! k" if "k < 13" for k using assms(2) that by blast
  show ?thesis
    by (simp add: popad_def iretd_def pops [where k = 12] pops [where k = 11] pops [where k = 10] pops [where k = 9]
      pops [where k = 8] pops [where k = 7] pops [where k = 6] pops [where k = 5] pops [where k = 4] pops [where k = 3]
      pops [where k = 2] pops [where k = 1] pops [where k = 0] assms(3) below_add w vload32_maps [OF assms(4)] frame_words_def)
qed

lemma save_state_out: "a \<notin> reg_bytes t \<Longrightarrow> task_save_state t f m a = m a"
proof -
  assume a: "a \<notin> reg_bytes t"
  have out: "store32 m' (task_registers t + 4 * of_nat j) w a = m' a" if "j < 12" for j m' w
    using a that by (intro store32_word_bytes) (auto simp: reg_bytes_def)
  show ?thesis
    using out [of 0] out [of 1] out [of 2] out [of 3] out [of 4] out [of 5] out [of 6] out [of 7] out [of 8]
      out [of 9] out [of 10] out [of 11] by (simp add: task_save_state_def layout Let_def)
qed

lemma save_state_same: "Y \<inter> reg_bytes t = {} \<Longrightarrow> same_on Y m (task_save_state t f m)"
  unfolding same_on_def using save_state_out by blast

lemma save_state_esp:
  assumes "word_bytes (frame_esp f) \<inter> reg_bytes t = {}"
  shows "load32 (task_save_state t f m) (reg_esp (task_registers t)) = load32 m (frame_esp f)"
proof -
  have keep: "load32 (store32 m' (task_registers t + 4 * of_nat j) w) (frame_esp f) = load32 m' (frame_esp f)"
    if "j < 12" for j m' w
  proof (rule same_on_load32 [of "word_bytes (frame_esp f)"])
    have "word_bytes (task_registers t + 4 * of_nat j) \<subseteq> reg_bytes t" using that by (auto simp: reg_bytes_def)
    with assms have "word_bytes (task_registers t + 4 * of_nat j) \<inter> word_bytes (frame_esp f) = {}" by blast
    then show "same_on (word_bytes (frame_esp f)) m' (store32 m' (task_registers t + 4 * of_nat j) w)"
      by (rule same_on_store32)
  qed simp
  note k = keep [of 7] keep [of 8] keep [of 9]
  show ?thesis unfolding task_save_state_def Let_def
    using k by (simp add: layout load32_store32_apart)
qed

text \<open>
  Whatever the command does, as long as it comes back and leaves the frame and \<open>X\<close> alone,
  the program goes on with its registers and the result in \<open>eax\<close>.
\<close>

lemma software_interrupt_returns:
  fixes s :: "'a kernel_scheme" and tss :: addr
  defines "e \<equiv> load32 (ram s) (tss_esp0 tss)" and "t \<equiv> current_task s"
  assumes ready: "trap_ready X tss tmp_res s"
    and handler: "\<And>m d. (\<And>a. a \<notin> stack_bytes e 15 \<union> reg_bytes t \<Longrightarrow> m a = ram s a) \<Longrightarrow>
        load32 m (reg_esp (task_registers t)) = cpu_esp c \<Longrightarrow>
        \<exists>ret s'. isr80h_handle_command call (cpu_eax c) (below e 12) (s\<lparr>cr3 := d, ram := m\<rparr>) = Done (ret, s') \<and>
          current_task s' = t \<and> same_on (X \<union> stack_bytes e 15) m (ram s') \<and> Q ret s'"
  shows "\<exists>ret s'. software_interrupt tss call tmp_res (c, s) = Done (c\<lparr>cpu_eax := ret\<rparr>,
       (ACK_INTR (task_page s'))\<lparr>ram := store32 (ram s') tmp_res ret\<rparr>) \<and> Q ret s' \<and>
     current_task s' = t \<and> same_on X (ram s) (ram s') \<and> cr3 (task_page s') = cr3 s"
proof -
  let ?chunk = "load32 (ram s) (task_page_directory t)"
  have r: "t \<noteq> 0" "cr3 s = load32 (ram s) ?chunk" "word_bytes (task_page_directory t) \<subseteq> X" "word_bytes ?chunk \<subseteq> X"
    "maps_stack X (cr3 s) e 15 (ram s)" "maps X (cr3 s) tmp_res tmp_res (ram s)"
    "X \<inter> stack_bytes e 15 = {}" "X \<inter> reg_bytes t = {}" "X \<inter> word_bytes tmp_res = {}"
    "stack_bytes e 15 \<inter> reg_bytes t = {}" "stack_bytes e 15 \<inter> word_bytes tmp_res = {}"
    using ready unfolding trap_ready_def Let_def e_def t_def by blast+
  have "stack_bytes e 15 \<inter> X = {}" using r(7) by blast
  from enter_kernel [OF r(5) this e_def [THEN meta_eq_to_obj_eq], of c "cpu_eax c"] obtain m1 m2 m where
    enter: "interrupt_entry tss (c, s) = Done (kernel_cpu (e - 20) c, s\<lparr>ram := m1\<rparr>)"
      "pushad (kernel_cpu (e - 20) c, s\<lparr>ram := m1\<rparr>) = Done (kernel_cpu (below e 12) c, s\<lparr>ram := m2\<rparr>)"
      "push_all [below e 12, cpu_eax c] (kernel_cpu (below e 12) c, s\<lparr>ram := m2\<rparr>) = Done (kernel_cpu (below e 14) c, s\<lparr>ram := m\<rparr>)"
    and words: "\<forall>k < 13. load32 m (below e k) = frame_words e c ! k"
    and out: "\<forall>a. a \<notin> stack_bytes e 15 \<longrightarrow> m a = ram s a" by blast
  let ?m = "task_save_state t (below e 12) m"
  have esp: "frame_esp (below e 12) = below e 1" by (simp add: layout below_def)
  have "word_bytes (below e 1) \<subseteq> stack_bytes e 15" by (rule stack_bytes_word) simp
  then have "load32 ?m (reg_esp (task_registers t)) = load32 m (below e 1)"
    using save_state_esp [of "below e 12" t m] r(10) unfolding esp by blast
  then have saved: "load32 ?m (reg_esp (task_registers t)) = cpu_esp c" using words by (simp add: frame_words_def)
  have "?m a = ram s a" if "a \<notin> stack_bytes e 15 \<union> reg_bytes t" for a
    using that out save_state_out [of a t "below e 12" m] by simp
  from handler [OF this saved, of "load32 m (kchunk s)"] obtain ret s' where
    h: "isr80h_handle_command call (cpu_eax c) (below e 12) (s\<lparr>cr3 := load32 m (kchunk s), ram := ?m\<rparr>) = Done (ret, s')"
      "current_task s' = t" "same_on (X \<union> stack_bytes e 15) ?m (ram s')" "Q ret s'" by blast
  have "same_on X (ram s) m" using out r(7) by (auto simp: same_on_def)
  moreover have "same_on X m ?m" by (rule save_state_same [OF r(8)])
  ultimately have sameX: "same_on X (ram s) (ram s')" using h(3) by (auto simp: same_on_def)
  have chunk: "load32 (ram s') (task_page_directory t) = ?chunk" by (rule same_on_load32 [OF sameX r(3)])
  have cr3: "cr3 (task_page s') = cr3 s"
    using same_on_load32 [OF sameX r(4)] r(2)
    by (simp add: task_page_def task_switch_def switch_chunk_def paging_load_directory_def paging_switch_def h(2) chunk)
  let ?s = "ACK_INTR (task_page s')" and ?r = "store32 (ram s') tmp_res ret"
  have s': "ram ?s = ram s'" "cr3 ?s = cr3 s" using cr3
    by (simp_all add: ACK_INTR_def outb_def task_page_def task_switch_def switch_chunk_def paging_load_directory_def)
  have "isr80h_handler call (cpu_eax c) (below e 12) (s\<lparr>ram := m\<rparr>) = Done (ret, ?s)"
    using h(1) r(1) by (simp add: isr80h_handler_def kernel_page_def switch_chunk_def paging_load_directory_def
      paging_switch_def task_current_save_state_def t_def)
  moreover have "vstore32 (cr3 ?s) tmp_res ret (ram ?s) = Done ?r"
    unfolding s' using maps_cong [OF r(6) sameX] r(9) by (intro vstore32_maps) auto
  moreover have keep: "same_on X (ram s) ?r" using sameX same_on_store32 [of tmp_res X] r(9) same_on_trans by blast
  have "same_on (stack_bytes e 15) m ?m" by (rule save_state_same [OF r(10)])
  then have "same_on (stack_bytes e 15) m ?r"
    using h(3) same_on_store32 [of tmp_res "stack_bytes e 15" "ram s'" ret] r(11) by (auto simp: same_on_def)
  then have "\<forall>k < 13. load32 ?r (below e k) = frame_words e c ! k"
    using words same_on_load32 [OF _ stack_bytes_word [of _ 15 e]] by simp
  moreover have "maps_stack X (cr3 s) e 15 ?r" "maps X (cr3 s) tmp_res tmp_res ?r"
    using r(5,6) maps_cong [OF _ keep] by (auto simp: maps_stack_def)
  moreover from this have "obind (popad (kernel_cpu (below e 12) c\<lparr>cpu_eax := ret\<rparr>, ?s\<lparr>ram := ?r\<rparr>)) (\<lambda>(c, s). obind (vload32 (cr3 s) tmp_res (ram s)) (\<lambda>w.
       iretd (c\<lparr>cpu_eax := w\<rparr>, s))) = Done (c\<lparr>cpu_eax := ret\<rparr>, ?s\<lparr>ram := ?r\<rparr>)"
    using leave_kernel [of X "?s\<lparr>ram := ?r\<rparr>" e c "kernel_cpu (below e 12) c\<lparr>cpu_eax := ret\<rparr>" tmp_res] s' \<open>\<forall>k < 13. load32 ?r (below e k) = frame_words e c ! k\<close>
    by simp
  moreover have sp: "kernel_cpu (below e 14) c\<lparr>cpu_eax := ret, cpu_esp := below e 14 + 8\<rparr> = kernel_cpu (below e 12) c\<lparr>cpu_eax := ret\<rparr>"
    by (simp add: kernel_cpu_def below_def)
  ultimately have "software_interrupt tss call tmp_res (c, s) = Done (c\<lparr>cpu_eax := ret\<rparr>, ?s\<lparr>ram := ?r\<rparr>)"
    by (simp add: software_interrupt_def isr80h_wrapper_def enter sp del: push_all.simps)
  then show ?thesis using h(2,4) sameX cr3 by blast
qed

section \<open>A call and its return\<close>

lemma maps_mono: "maps X dir v p m \<Longrightarrow> X \<subseteq> Y \<Longrightarrow> maps Y dir v p m"
  unfolding maps_def using same_on_subset by blast

text \<open>
  The stub is entered with its return address on top of the stack, at the physical address
  \<open>u\<close>; the word below it, where \<open>ebp\<close> is saved, is used for nothing else.
\<close>

definition call_ready :: "addr set \<Rightarrow> addr \<Rightarrow> addr \<Rightarrow> addr \<Rightarrow> cpu \<Rightarrow> 'a kernel_scheme \<Rightarrow> bool" where
  "call_ready X tss tmp_res u c s =
     (trap_ready X tss tmp_res s \<and> maps X (cr3 s) (cpu_esp c) u (ram s) \<and> maps X (cr3 s) (cpu_esp c - 4) (u - 4) (ram s) \<and>
      word_bytes u \<union> word_bytes (tss_esp0 tss) \<subseteq> X \<and>
      word_bytes (u - 4) \<inter> (X \<union> stack_bytes (load32 (ram s) (tss_esp0 tss)) 15 \<union> reg_bytes (current_task s) \<union>
        word_bytes tmp_res) = {})"

lemma trap_ready_store:
  assumes "trap_ready X tss tmp_res s" and "word_bytes (tss_esp0 tss) \<subseteq> X"
    and "word_bytes q \<inter> (X \<union> stack_bytes (load32 (ram s) (tss_esp0 tss)) 15 \<union> reg_bytes (current_task s) \<union> word_bytes tmp_res) = {}"
  shows "trap_ready (X \<union> word_bytes q) tss tmp_res (s\<lparr>ram := store32 (ram s) q w\<rparr>)"
    and "load32 (store32 (ram s) q w) (tss_esp0 tss) = load32 (ram s) (tss_esp0 tss)"
proof -
  let ?m = "store32 (ram s) q w" and ?t = "current_task s" and ?e = "load32 (ram s) (tss_esp0 tss)"
  let ?chunk = "load32 (ram s) (task_page_directory ?t)"
  have r: "?t \<noteq> 0" "cr3 s = load32 (ram s) ?chunk" "word_bytes (task_page_directory ?t) \<subseteq> X" "word_bytes ?chunk \<subseteq> X"
    "maps_stack X (cr3 s) ?e 15 (ram s)" "maps X (cr3 s) tmp_res tmp_res (ram s)"
    "X \<inter> (stack_bytes ?e 15 \<union> reg_bytes ?t \<union> word_bytes tmp_res) = {}"
    "stack_bytes ?e 15 \<inter> (reg_bytes ?t \<union> word_bytes tmp_res) = {}"
    using assms(1) unfolding trap_ready_def Let_def by blast+
  have q: "word_bytes q \<inter> X = {}" "word_bytes q \<inter> (stack_bytes ?e 15 \<union> reg_bytes ?t \<union> word_bytes tmp_res) = {}"
    using assms(3) by blast+
  have same: "same_on X (ram s) ?m" by (rule same_on_store32 [OF q(1)])
  show e: "load32 ?m (tss_esp0 tss) = ?e" by (rule same_on_load32 [OF same assms(2)])
  have chunk: "load32 ?m (task_page_directory ?t) = ?chunk" by (rule same_on_load32 [OF same r(3)])
  have "load32 ?m ?chunk = load32 (ram s) ?chunk" by (rule same_on_load32 [OF same r(4)])
  moreover have "maps_stack (X \<union> word_bytes q) (cr3 s) ?e 15 ?m" "maps (X \<union> word_bytes q) (cr3 s) tmp_res tmp_res ?m"
    using r(5,6) maps_cong [OF _ same] maps_mono [of X _ _ _ _ "X \<union> word_bytes q"] unfolding maps_stack_def by blast+
  moreover have "(X \<union> word_bytes q) \<inter> (stack_bytes ?e 15 \<union> reg_bytes ?t \<union> word_bytes tmp_res) = {}"
    using r(7) q(2) by blast
  moreover have "word_bytes (task_page_directory ?t) \<union> word_bytes ?chunk \<subseteq> X \<union> word_bytes q" using r(3,4) by blast
  ultimately show "trap_ready (X \<union> word_bytes q) tss tmp_res (s\<lparr>ram := ?m\<rparr>)"
    using r(1,2,8) by (simp add: trap_ready_def Let_def chunk e)
qed

text \<open>The bytes of a keyboard buffer with its two counters.\<close>

definition kb_area :: "addr \<Rightarrow> addr set" where
  "kb_area p = (\<lambda>i. keyboard_buffer p + of_nat i) ` {..< 1036}"

lemma kb_holds_same:
  assumes "kb_holds p t m xs" and "same_on (kb_area p \<union> word_bytes (task_process t)) m m'"
  shows "kb_holds p t m' xs"
proof (rule kb_holds_cong [OF assms(1)])
  show "m' (keyboard_buffer p + of_nat i) = m (keyboard_buffer p + of_nat i)" if "i < 1036" for i
    using assms(2) that by (auto simp: same_on_def kb_area_def)
  show "m' (task_process t + of_nat i) = m (task_process t + of_nat i)" if "i < 4" for i
  proof -
    have "(of_nat i :: u32) < 4" using that by (simp add: word_of_nat_less_iff)
    then have "task_process t + of_nat i \<in> word_bytes (task_process t)" unfolding word_bytes_iff by blast
    with assms(2) show ?thesis by (simp add: same_on_def)
  qed
qed

lemma keyboard_pop_same:
  assumes "load32 m (task_process t) = p" and "Y \<inter> kb_area p = {}"
  shows "same_on Y m (snd (keyboard_pop t m))"
  unfolding same_on_def
proof
  fix a assume "a \<in> Y"
  with assms(2) have "a \<noteq> keyboard_buffer p + of_nat i" if "i < 1036" for i using that by (auto simp: kb_area_def)
  then show "snd (keyboard_pop t m) a = m a" by (rule keyboard_pop_out [OF assms(1)])
qed

lemma getkey_stub_returns:
  fixes s :: "'a kernel_scheme" and tss :: addr
  defines "e \<equiv> load32 (ram s) (tss_esp0 tss)" and "t \<equiv> current_task s"
  assumes ready: "call_ready X tss tmp_res u c s"
    and handler: "\<And>m d. same_on (- (stack_bytes e 15 \<union> reg_bytes t \<union> word_bytes (u - 4))) (ram s) m \<Longrightarrow>
        \<exists>ret s'. isr80h_handle_command call 2 (below e 12) (s\<lparr>cr3 := d, ram := m\<rparr>) = Done (ret, s') \<and>
          current_task s' = t \<and> same_on (X \<union> word_bytes (u - 4) \<union> stack_bytes e 15) m (ram s') \<and> Q ret s'"
  shows "\<exists>ret s'. phix_getkey_stub tss call tmp_res (c, s) =
       Done (c\<lparr>cpu_eax := ret, cpu_esp := cpu_esp c + 4, cpu_eip := load32 (ram s) u\<rparr>,
         (ACK_INTR (task_page s'))\<lparr>ram := store32 (ram s') tmp_res ret\<rparr>) \<and> Q ret s' \<and>
     current_task s' = t \<and> same_on X (ram s) (store32 (ram s') tmp_res ret) \<and> cr3 (task_page s') = cr3 s"
proof -
  let ?U = "word_bytes (u - 4)" and ?m = "store32 (ram s) (u - 4) (cpu_ebp c)"
  let ?c = "c\<lparr>cpu_esp := cpu_esp c - 4, cpu_ebp := cpu_esp c - 4, cpu_eax := 2\<rparr>"
  have r: "trap_ready X tss tmp_res s" "maps X (cr3 s) (cpu_esp c) u (ram s)"
    "maps X (cr3 s) (cpu_esp c - 4) (u - 4) (ram s)" "word_bytes u \<subseteq> X" "word_bytes (tss_esp0 tss) \<subseteq> X"
    "?U \<inter> (X \<union> stack_bytes e 15 \<union> reg_bytes t \<union> word_bytes tmp_res) = {}"
    using ready by (simp_all add: call_ready_def e_def t_def)
  have X: "?U \<inter> X = {}" "word_bytes tmp_res \<inter> (X \<union> ?U) = {}"
    using r(1,6) by (auto simp: trap_ready_def Let_def)
  note same = same_on_store32 [OF X(1), of "ram s" "cpu_ebp c"]
  note ready1 = trap_ready_store [OF r(1,5) r(6) [unfolded e_def t_def], of "cpu_ebp c"]
  have push: "push (cpu_ebp c) (c, s) = Done (c\<lparr>cpu_esp := cpu_esp c - 4\<rparr>, s\<lparr>ram := ?m\<rparr>)"
    by (rule push_maps [OF r(3) X(1)])
  let ?s = "s\<lparr>ram := ?m\<rparr>"
  have e: "load32 (ram ?s) (tss_esp0 tss) = e" "current_task ?s = t" using ready1(2) by (simp_all add: e_def t_def)
  have "\<exists>ret s'. software_interrupt tss call tmp_res (?c, ?s) = Done (?c\<lparr>cpu_eax := ret\<rparr>,
       (ACK_INTR (task_page s'))\<lparr>ram := store32 (ram s') tmp_res ret\<rparr>) \<and> Q ret s' \<and>
     current_task s' = current_task ?s \<and> same_on (X \<union> ?U) (ram ?s) (ram s') \<and> cr3 (task_page s') = cr3 ?s"
  proof (rule software_interrupt_returns [OF ready1(1)], unfold e)
    fix m d assume m: "\<And>a. a \<notin> stack_bytes e 15 \<union> reg_bytes t \<Longrightarrow> m a = ram ?s a"
    have "same_on (- (stack_bytes e 15 \<union> reg_bytes t \<union> ?U)) (ram s) m"
      using m by (auto simp: same_on_def store32_word_bytes)
    from handler [OF this, of d]
    show "\<exists>ret s'. isr80h_handle_command call (cpu_eax ?c) (below e 12) (?s\<lparr>cr3 := d, ram := m\<rparr>) = Done (ret, s') \<and>
        current_task s' = t \<and> same_on (X \<union> ?U \<union> stack_bytes e 15) m (ram s') \<and> Q ret s'" by simp
  qed
  then obtain ret s' where int: "software_interrupt tss call tmp_res (?c, ?s) = Done (?c\<lparr>cpu_eax := ret\<rparr>,
       (ACK_INTR (task_page s'))\<lparr>ram := store32 (ram s') tmp_res ret\<rparr>)" "Q ret s'" "current_task s' = t"
     "same_on (X \<union> ?U) ?m (ram s')" "cr3 (task_page s') = cr3 s" by (auto simp: t_def)
  let ?r = "store32 (ram s') tmp_res ret"
  have keep: "same_on (X \<union> ?U) ?m ?r" using int(4) same_on_store32 [OF X(2)] same_on_trans by blast
  then have keepX: "same_on X (ram s) ?r" using same same_on_trans same_on_subset by blast
  have "load32 ?r (u - 4) = cpu_ebp c" using same_on_load32 [OF keep, of "u - 4"] by simp
  moreover have "load32 ?r u = load32 (ram s) u" by (rule same_on_load32 [OF keepX r(4)])
  moreover have "cr3 (ACK_INTR (task_page s')) = cr3 s" using int(5) by (simp add: ACK_INTR_def outb_def)
  then have "pop (d, (ACK_INTR (task_page s'))\<lparr>ram := ?r\<rparr>) =
      Done (load32 ?r p, d\<lparr>cpu_esp := cpu_esp d + 4\<rparr>, (ACK_INTR (task_page s'))\<lparr>ram := ?r\<rparr>)"
    if "maps X (cr3 s) (cpu_esp d) p (ram s)" for d p
    using pop_maps [of X "(ACK_INTR (task_page s'))\<lparr>ram := ?r\<rparr>" d p] maps_cong [OF that keepX] by simp
  moreover note r(2,3)
  ultimately have "phix_getkey_stub tss call tmp_res (c, s) =
       Done (c\<lparr>cpu_eax := ret, cpu_esp := cpu_esp c + 4, cpu_eip := load32 (ram s) u\<rparr>,
         (ACK_INTR (task_page s'))\<lparr>ram := ?r\<rparr>)"
    using int(1) push by (simp add: phix_getkey_stub_def)
  then show ?thesis using int(2,3,5) keepX by blast
qed

lemma getkey_command:
  assumes "kb_holds p t m ks" and "current_task s = t" and "syscalls s ! 2 = syscall_funs e ! 2"
    and "syscall_funs e ! 2 \<notin> {0, syscall_funs e ! 0, syscall_funs e ! 1}" and "Y \<inter> kb_area p = {}"
  shows "\<exists>m'. isr80h_handle_command (syscall_call e ops old out) 2 frame (s\<lparr>cr3 := d, ram := m\<rparr>) =
       Done (if ks = [] then 0 else char_to_int (hd ks), s\<lparr>cr3 := d, ram := m'\<rparr>) \<and>
     kb_holds p t m' (tl ks) \<and> same_on Y m m'"
proof -
  obtain k m' where pop: "keyboard_pop t m = (k, m')" by (cases "keyboard_pop t m")
  have "(k = (if ks = [] then 0 else hd ks)) \<and> kb_holds p t m' (tl ks)"
  proof (cases ks)
    case Nil
    with kb_pop_empty [of p t m] assms(1) pop show ?thesis by simp
  next
    case (Cons c cs)
    with kb_pop [of p t m c cs] assms(1) pop show ?thesis by auto
  qed
  moreover have "same_on Y m m'"
    using keyboard_pop_same [of m t p Y] assms(1,5) pop by (simp add: kb_holds_def)
  moreover have "sint (2 :: i32) = 2" by simp
  moreover have "char_to_int 0 = 0" by (simp add: char_to_int_def)
  ultimately show ?thesis using assms(2-4) pop
    by (intro exI [of _ m']) (simp add: isr80h_handle_command_def syscall_call_def syscall2_getkey_def on_ram_def
      task_current_def PHIX_MAX_SYSCALLS_def Let_def)
qed

section \<open>A machine that is ready for a call\<close>

lemma maps_page:
  assumes "V mod 4096 = 0" and "load32 m (pte_slot dir (V div 0x400000)) = d"
    and "load32 m (pte_slot (frame_of d) (V mod 0x400000 div 4096)) = f" and "bit d 0" and "bit f 0"
    and "word_bytes (pte_slot dir (V div 0x400000)) \<subseteq> X" and "word_bytes (pte_slot (frame_of d) (V mod 0x400000 div 4096)) \<subseteq> X"
    and "\<forall>k \<in> {0, 1, 2, 3}. (v + k) div 4096 = V div 4096 \<and> frame_of f + (v + k) mod 4096 = p + k"
  shows "maps X dir v p m"
  unfolding maps_def
proof (intro allI impI ballI)
  fix m' and k :: u32 assume same: "same_on X m m'" and k: "k \<in> {0, 1, 2, 3}"
  have div: "(v + k) div 4096 = V div 4096" and p: "frame_of f + (v + k) mod 4096 = p + k" using assms(8) k by blast+
  have lower: "PAGE_ALIGN_LOWER (v + k) = V" by (rule page_lower_of [OF assms(1) div])
  have d: "load32 m' (pte_slot dir (V div 0x400000)) = d" using same_on_load32 [OF same assms(6)] assms(2) by simp
  have f: "load32 m' (pte_slot (frame_of d) (V mod 0x400000 div 4096)) = f" using same_on_load32 [OF same assms(7)] assms(3) by simp
  have pte: "pte_at m' dir V = f" by (simp add: pte_at_def pte_addr_def table_of_def d f)
  have big: "x div 0x400000 = x div 4096 div 1024" for x :: u32
  proof -
    have "unat (x div 0x400000) = unat (x div 4096 div 1024)" by (simp add: unat_div div_mult2_eq [of _ 4096 1024, simplified])
    then show ?thesis by (simp only: word_unat_eq_iff)
  qed
  then have "(v + k) div 0x400000 = V div 0x400000" using div by simp
  moreover have "bit (f AND 0xfff) 0" using assms(5) by (simp add: bit_simps)
  ultimately show "page_present dir (v + k) m' \<and> paging_get_paddr dir (v + k) m' = p + k"
    using assms(4) d p by (simp add: page_present_def paging_get_paddr_eq paging_get_flags_eq lower pte)
qed

definition trap_memory :: mem where
  "trap_memory = store32 (store32 (store32 (store32 (store32 (store32 (store32 (store32
     (keyboard_push 0x1000000 0x41 kb_example)
     0x21004 0x600000) 0x1003000 0x1004000) 0x1004000 0x1005000) 0x1005004 0x1006007)
     0x10067FC 0x5FF007) 0x1006400 0x500007) 0x1006404 0x700007) 0x700200 0x400123"

definition trap_fixed :: "addr set" where
  "trap_fixed = \<Union> (word_bytes ` {0x21004, 0x1003000, 0x1004000, 0x1005004, 0x10067FC, 0x1006400, 0x1006404, 0x700200})"

definition trap_state :: system where
  "trap_state = fd_state\<lparr>ram := trap_memory, cr3 := 0x1005000, current_task := 0x1003000,
     syscalls := syscall_funs env_example @ replicate 1015 0\<rparr>"

definition trap_cpu :: cpu where
  "trap_cpu = \<lparr>cpu_edi = 1, cpu_esi = 2, cpu_ebp = 0x501300, cpu_ebx = 3, cpu_edx = 4, cpu_ecx = 5, cpu_eax = 6,
     cpu_esp = 0x501200, cpu_eip = 0x400200, cpu_cs = 0x1B, cpu_flags = 0x202, cpu_ss = 0x23\<rparr>"

lemma trap_memory_words:
  "load32 trap_memory 0x21004 = 0x600000" "load32 trap_memory 0x1003000 = 0x1004000"
  "load32 trap_memory 0x1004000 = 0x1005000" "load32 trap_memory 0x1005004 = 0x1006007"
  "load32 trap_memory 0x10067FC = 0x5FF007" "load32 trap_memory 0x1006400 = 0x500007"
  "load32 trap_memory 0x1006404 = 0x700007" "load32 trap_memory 0x700200 = 0x400123"
  by (simp_all add: trap_memory_def load32_store32_other)

lemma trap_frames: "frame_of 0x1006007 = 0x1006000" "frame_of 0x5FF007 = 0x5FF000" "frame_of 0x500007 = 0x500000"
  "frame_of 0x700007 = 0x700000"
  by (simp_all add: frame_of_def)

lemma trap_maps:
  assumes "(V, f) \<in> {(0x5FF000, 0x5FF007), (0x500000, 0x500007), (0x501000, 0x700007)}"
    and "\<forall>k \<in> {0, 1, 2, 3}. (v + k) div 4096 = V div 4096 \<and> frame_of f + (v + k) mod 4096 = p + k"
  shows "maps trap_fixed 0x1005000 v p trap_memory"
proof (rule maps_page [where V = V and d = "0x1006007" and f = f])
  show "word_bytes (pte_slot 0x1005000 (V div 0x400000)) \<subseteq> trap_fixed"
    using assms(1) by (auto simp: trap_fixed_def pte_slot_def)
  show "word_bytes (pte_slot (frame_of 0x1006007) (V mod 0x400000 div 4096)) \<subseteq> trap_fixed"
    using assms(1) by (auto simp: trap_fixed_def pte_slot_def trap_frames)
qed (use assms in \<open>auto simp: pte_slot_def trap_frames trap_memory_words\<close>)

text \<open>Where the sets of the example lie.\<close>

lemma word_bytes_range: "a \<in> word_bytes b \<Longrightarrow> b \<le> 0xFFFFFFF0 \<Longrightarrow> b \<le> a \<and> a \<le> b + 3"
proof -
  assume a: "a \<in> word_bytes b" and b: "b \<le> 0xFFFFFFF0"
  from a obtain k where k: "k < 4" "a = b + k" unfolding word_bytes_iff by blast
  have "unat b \<le> 4294967280" "unat k < 4" using b k(1) by (simp_all add: word_le_nat_alt word_less_nat_alt)
  then show ?thesis using k(2) by (simp add: word_le_nat_alt unat_add_less)
qed

lemma trap_ranges:
  "a \<in> stack_bytes 0x600000 15 \<Longrightarrow> 0x5FFFC4 \<le> a \<and> a \<le> 0x5FFFFF"
  "a \<in> reg_bytes 0x1003000 \<Longrightarrow> 0x1003004 \<le> a \<and> a \<le> 0x1003033"
  "a \<in> kb_area 0x1000000 \<Longrightarrow> 0x100208C \<le> a \<and> a \<le> 0x1002497"
  "a \<in> trap_fixed \<Longrightarrow> a \<notin> {0x5FFFC4..0x5FFFFF} \<and> a \<notin> {0x1003004..0x1003033} \<and> a \<notin> {0x100208C..0x1002497} \<and>
     a \<notin> {0x500100..0x500103} \<and> a \<notin> {0x7001FC..0x7001FF}"
proof -
  assume "a \<in> stack_bytes 0x600000 15"
  then obtain k where "k < 15" "a \<in> word_bytes (below 0x600000 k)" by (auto simp: stack_bytes_def)
  then have "k = 0 \<or> k = 1 \<or> k = 2 \<or> k = 3 \<or> k = 4 \<or> k = 5 \<or> k = 6 \<or> k = 7 \<or> k = 8 \<or> k = 9 \<or> k = 10 \<or> k = 11 \<or> k = 12 \<or> k = 13 \<or> k = 14"
    by arith
  with \<open>a \<in> word_bytes (below 0x600000 k)\<close> show "0x5FFFC4 \<le> a \<and> a \<le> 0x5FFFFF"
    by (elim disjE) (auto simp: below_def word_bytes_def)
next
  assume "a \<in> reg_bytes 0x1003000"
  then obtain k where "k < 12" "a \<in> word_bytes (task_registers 0x1003000 + 4 * of_nat k)" by (auto simp: reg_bytes_def)
  then have "k = 0 \<or> k = 1 \<or> k = 2 \<or> k = 3 \<or> k = 4 \<or> k = 5 \<or> k = 6 \<or> k = 7 \<or> k = 8 \<or> k = 9 \<or> k = 10 \<or> k = 11"
    by arith
  with \<open>a \<in> word_bytes (task_registers 0x1003000 + 4 * of_nat k)\<close> show "0x1003004 \<le> a \<and> a \<le> 0x1003033"
    by (elim disjE) (auto simp: layout word_bytes_def)
next
  assume "a \<in> kb_area 0x1000000"
  then obtain i where i: "i < 1036" "a = 0x100208C + of_nat i" by (auto simp: kb_area_def layout)
  then have "unat a = 0x100208C + i" by (simp add: unat_word_ariths unat_of_nat32)
  with i(1) show "0x100208C \<le> a \<and> a \<le> 0x1002497" by (simp add: word_le_nat_alt)
next
  assume "a \<in> trap_fixed"
  then show "a \<notin> {0x5FFFC4..0x5FFFFF} \<and> a \<notin> {0x1003004..0x1003033} \<and> a \<notin> {0x100208C..0x1002497} \<and>
     a \<notin> {0x500100..0x500103} \<and> a \<notin> {0x7001FC..0x7001FF}"
    by (auto simp: trap_fixed_def word_bytes_def)
qed

lemma range_disjoint:
  fixes A B :: "addr set"
  assumes "\<And>a. a \<in> A \<Longrightarrow> l \<le> a \<and> a \<le> h" and "\<And>a. a \<in> B \<Longrightarrow> l' \<le> a \<and> a \<le> h'" and "h < l' \<or> h' < l"
  shows "A \<inter> B = {}"
proof -
  have False if "a \<in> A" "a \<in> B" for a
    using assms(1) [OF that(1)] assms(2) [OF that(2)] assms(3) by (meson leD order.strict_trans1 order.trans)
  then show ?thesis by blast
qed

lemma trap_disjoint:
  "stack_bytes 0x600000 15 \<inter> (reg_bytes 0x1003000 \<union> word_bytes 0x500100) = {}"
  "trap_fixed \<inter> (stack_bytes 0x600000 15 \<union> reg_bytes 0x1003000 \<union> word_bytes 0x500100) = {}"
  "word_bytes 0x7001FC \<inter> (trap_fixed \<union> stack_bytes 0x600000 15 \<union> reg_bytes 0x1003000 \<union> word_bytes 0x500100) = {}"
  "(kb_area 0x1000000 \<union> word_bytes 0x1003034) \<inter> (stack_bytes 0x600000 15 \<union> reg_bytes 0x1003000 \<union>
     word_bytes 0x7001FC \<union> word_bytes 0x500100) = {}"
  "trap_fixed \<inter> kb_area 0x1000000 = {}"
proof -
  have w: "a \<in> word_bytes 0x500100 \<Longrightarrow> 0x500100 \<le> a \<and> a \<le> 0x500103"
    "a \<in> word_bytes 0x7001FC \<Longrightarrow> 0x7001FC \<le> a \<and> a \<le> 0x7001FF"
    "a \<in> word_bytes 0x1003034 \<Longrightarrow> 0x1003034 \<le> a \<and> a \<le> 0x1003037" for a
    using word_bytes_range [of a "0x500100"] word_bytes_range [of a "0x7001FC"] word_bytes_range [of a "0x1003034"] by simp_all
  note r = trap_ranges(1-3) w
  have sr: "stack_bytes 0x600000 15 \<inter> reg_bytes 0x1003000 = {}" by (rule range_disjoint [OF r(1,2)]) simp_all
  have st: "stack_bytes 0x600000 15 \<inter> word_bytes 0x500100 = {}" by (rule range_disjoint [OF r(1,4)]) simp_all
  have us: "word_bytes 0x7001FC \<inter> stack_bytes 0x600000 15 = {}" by (rule range_disjoint [OF r(5,1)]) simp_all
  have ur: "word_bytes 0x7001FC \<inter> reg_bytes 0x1003000 = {}" by (rule range_disjoint [OF r(5,2)]) simp_all
  have ut: "word_bytes 0x7001FC \<inter> word_bytes 0x500100 = {}" by (rule range_disjoint [OF r(5,4)]) simp_all
  have ks: "kb_area 0x1000000 \<inter> stack_bytes 0x600000 15 = {}" by (rule range_disjoint [OF r(3,1)]) simp_all
  have kr: "kb_area 0x1000000 \<inter> reg_bytes 0x1003000 = {}" by (rule range_disjoint [OF r(3,2)]) simp_all
  have ku: "kb_area 0x1000000 \<inter> word_bytes 0x7001FC = {}" by (rule range_disjoint [OF r(3,5)]) simp_all
  have kt: "kb_area 0x1000000 \<inter> word_bytes 0x500100 = {}" by (rule range_disjoint [OF r(3,4)]) simp_all
  have ps: "word_bytes 0x1003034 \<inter> stack_bytes 0x600000 15 = {}" by (rule range_disjoint [OF r(6,1)]) simp_all
  have pr: "word_bytes 0x1003034 \<inter> reg_bytes 0x1003000 = {}" by (rule range_disjoint [OF r(6,2)]) simp_all
  have pu: "word_bytes 0x1003034 \<inter> word_bytes 0x7001FC = {}" by (rule range_disjoint [OF r(6,5)]) simp_all
  have pt: "word_bytes 0x1003034 \<inter> word_bytes 0x500100 = {}" by (rule range_disjoint [OF r(6,4)]) simp_all
  have apart: "trap_fixed \<inter> A = {}" if "\<And>a. a \<in> A \<Longrightarrow> l \<le> a \<and> a \<le> h" "\<And>a. a \<in> trap_fixed \<Longrightarrow> a \<notin> {l..h}" for A l h
    using that by (meson atLeastAtMost_iff disjoint_iff)
  have "trap_fixed \<inter> stack_bytes 0x600000 15 = {}" by (rule apart [OF r(1)]) (use trap_ranges(4) in blast)+
  moreover have "trap_fixed \<inter> reg_bytes 0x1003000 = {}" by (rule apart [OF r(2)]) (use trap_ranges(4) in blast)+
  moreover have "trap_fixed \<inter> kb_area 0x1000000 = {}" by (rule apart [OF r(3)]) (use trap_ranges(4) in blast)+
  moreover have "trap_fixed \<inter> word_bytes 0x500100 = {}" by (rule apart [OF r(4)]) (use trap_ranges(4) in blast)+
  moreover have "trap_fixed \<inter> word_bytes 0x7001FC = {}" by (rule apart [OF r(5)]) (use trap_ranges(4) in blast)+
  ultimately have f: "trap_fixed \<inter> stack_bytes 0x600000 15 = {}" "trap_fixed \<inter> reg_bytes 0x1003000 = {}"
    "trap_fixed \<inter> kb_area 0x1000000 = {}" "trap_fixed \<inter> word_bytes 0x500100 = {}" "trap_fixed \<inter> word_bytes 0x7001FC = {}" .
  show "stack_bytes 0x600000 15 \<inter> (reg_bytes 0x1003000 \<union> word_bytes 0x500100) = {}" using sr st by blast
  show "trap_fixed \<inter> (stack_bytes 0x600000 15 \<union> reg_bytes 0x1003000 \<union> word_bytes 0x500100) = {}" using f by blast
  show "word_bytes 0x7001FC \<inter> (trap_fixed \<union> stack_bytes 0x600000 15 \<union> reg_bytes 0x1003000 \<union> word_bytes 0x500100) = {}"
    using f(5) us ur ut by blast
  show "(kb_area 0x1000000 \<union> word_bytes 0x1003034) \<inter> (stack_bytes 0x600000 15 \<union> reg_bytes 0x1003000 \<union>
     word_bytes 0x7001FC \<union> word_bytes 0x500100) = {}" using ks kr ku kt ps pr pu pt by blast
  show "trap_fixed \<inter> kb_area 0x1000000 = {}" by (rule f(3))
qed

lemma trap_state_ready: "call_ready trap_fixed 0x21000 0x500100 0x700200 trap_cpu trap_state"
proof -
  have s: "current_task trap_state = 0x1003000" "cr3 trap_state = 0x1005000" "ram trap_state = trap_memory"
    by (simp_all add: trap_state_def)
  have e: "load32 trap_memory (tss_esp0 0x21000) = 0x600000" by (simp add: layout trap_memory_words)
  have d: "load32 trap_memory (task_page_directory 0x1003000) = 0x1004000" by (simp add: layout trap_memory_words)
  have stack: "maps_stack trap_fixed 0x1005000 0x600000 15 trap_memory"
    unfolding maps_stack_def
  proof (intro allI impI)
    fix k :: nat assume "k < 15"
    then have "k = 0 \<or> k = 1 \<or> k = 2 \<or> k = 3 \<or> k = 4 \<or> k = 5 \<or> k = 6 \<or> k = 7 \<or> k = 8 \<or> k = 9 \<or> k = 10 \<or> k = 11 \<or> k = 12 \<or> k = 13 \<or> k = 14"
      by arith
    then show "maps trap_fixed 0x1005000 (below 0x600000 k) (below 0x600000 k) trap_memory"
      by (intro trap_maps [where V = "0x5FF000" and f = "0x5FF007"], simp, elim disjE)
        (simp_all add: below_def trap_frames)
  qed
  have tmp: "maps trap_fixed 0x1005000 0x500100 0x500100 trap_memory"
    by (rule trap_maps [where V = "0x500000" and f = "0x500007"]) (simp_all add: trap_frames)
  have user: "maps trap_fixed 0x1005000 0x501200 0x700200 trap_memory" "maps trap_fixed 0x1005000 0x5011FC 0x7001FC trap_memory"
    by (rule trap_maps [where V = "0x501000" and f = "0x700007"]; simp add: trap_frames)+
  have sub: "word_bytes 0x1003000 \<union> word_bytes 0x1004000 \<subseteq> trap_fixed" "word_bytes 0x700200 \<union> word_bytes 0x21004 \<subseteq> trap_fixed"
    by (auto simp: trap_fixed_def)
  have "trap_ready trap_fixed 0x21000 0x500100 trap_state"
    using stack tmp sub(1) trap_disjoint(1,2) by (simp add: trap_ready_def s e d Let_def trap_memory_words layout)
  then show ?thesis
    using user sub(2) trap_disjoint(3) by (simp add: call_ready_def s trap_cpu_def layout trap_memory_words)
qed

lemma trap_state_keys: "kb_holds 0x1000000 0x1003000 trap_memory [0x41]"
proof -
  let ?K = "kb_area 0x1000000 \<union> word_bytes (task_process 0x1003000)"
  have 1: "kb_holds 0x1000000 0x1003000 (keyboard_push 0x1000000 0x41 kb_example) [0x41]"
    using kb_push [OF kb_example_holds, of "0x41"] by simp
  have "?K \<inter> trap_fixed = {}"
  proof -
    have "word_bytes (task_process 0x1003000) \<inter> trap_fixed = {}"
      by (auto simp: trap_fixed_def word_bytes_def layout)
    then show ?thesis using trap_disjoint(5) by blast
  qed
  moreover have "same_on (- trap_fixed) (keyboard_push 0x1000000 0x41 kb_example) trap_memory"
    by (simp add: same_on_def trap_memory_def trap_fixed_def store32_word_bytes)
  ultimately have "same_on ?K (keyboard_push 0x1000000 0x41 kb_example) trap_memory"
    by (blast intro: same_on_subset)
  moreover note 1
  ultimately show ?thesis by (blast intro: kb_holds_same)
qed

section \<open>Properties\<close>

text \<open>
  C12. The whole way of \<open>phix_getkey\<close>, from the program's stub through the interrupt, the
  wrapper, the dispatch and the keyboard buffer back into the program: \<open>eax\<close> is the oldest
  key typed, or \<open>0\<close> where there is none, the other registers are as they were, the
  program goes on behind the call under its own directory, and the key is out of the buffer.
\<close>

theorem phix_getkey_returns:
  assumes "call_ready X tss tmp_res u c s" and "kb_holds p (current_task s) (ram s) ks"
    and "syscalls s ! 2 = syscall_funs e ! 2" and "syscall_funs e ! 2 \<notin> {0, syscall_funs e ! 0, syscall_funs e ! 1}"
    and "(kb_area p \<union> word_bytes (task_process (current_task s))) \<inter> (stack_bytes (load32 (ram s) (tss_esp0 tss)) 15 \<union>
        reg_bytes (current_task s) \<union> word_bytes (u - 4) \<union> word_bytes tmp_res) = {}"
    and "X \<inter> kb_area p = {}"
  shows "\<exists>s'. phix_getkey_stub tss (syscall_call e ops old out) tmp_res (c, s) =
       Done (c\<lparr>cpu_eax := if ks = [] then 0 else char_to_int (hd ks), cpu_esp := cpu_esp c + 4,
               cpu_eip := load32 (ram s) u\<rparr>, s') \<and>
     kb_holds p (current_task s) (ram s') (tl ks) \<and> current_task s' = current_task s \<and> cr3 s' = cr3 s \<and>
     same_on X (ram s) (ram s')"
proof -
  let ?t = "current_task s" and ?W = "stack_bytes (load32 (ram s) (tss_esp0 tss)) 15" and ?U = "word_bytes (u - 4)"
  let ?Q = "\<lambda>ret s'. ret = (if ks = [] then 0 else char_to_int (hd ks)) \<and> kb_holds p ?t (ram s') (tl ks)"
  have "\<exists>ret s'. phix_getkey_stub tss (syscall_call e ops old out) tmp_res (c, s) =
       Done (c\<lparr>cpu_eax := ret, cpu_esp := cpu_esp c + 4, cpu_eip := load32 (ram s) u\<rparr>,
         (ACK_INTR (task_page s'))\<lparr>ram := store32 (ram s') tmp_res ret\<rparr>) \<and> ?Q ret s' \<and>
     current_task s' = ?t \<and> same_on X (ram s) (store32 (ram s') tmp_res ret) \<and> cr3 (task_page s') = cr3 s"
  proof (rule getkey_stub_returns [OF assms(1)])
    fix m d assume "same_on (- (?W \<union> reg_bytes ?t \<union> ?U)) (ram s) m"
    moreover have "kb_area p \<union> word_bytes (task_process ?t) \<subseteq> - (?W \<union> reg_bytes ?t \<union> ?U)" using assms(5) by blast
    ultimately have "kb_holds p ?t m ks" using assms(2) kb_holds_same same_on_subset by metis
    moreover have "(X \<union> ?U \<union> ?W) \<inter> kb_area p = {}" using assms(5,6) by blast
    ultimately show "\<exists>ret s'. isr80h_handle_command (syscall_call e ops old out) 2 (below (load32 (ram s) (tss_esp0 tss)) 12)
          (s\<lparr>cr3 := d, ram := m\<rparr>) = Done (ret, s') \<and>
        current_task s' = ?t \<and> same_on (X \<union> ?U \<union> ?W) m (ram s') \<and> ?Q ret s'"
      using getkey_command [OF _ refl assms(3,4), of p m ks "X \<union> ?U \<union> ?W" ops old out] by fastforce
  qed
  then obtain s' where s': "phix_getkey_stub tss (syscall_call e ops old out) tmp_res (c, s) =
       Done (c\<lparr>cpu_eax := if ks = [] then 0 else char_to_int (hd ks), cpu_esp := cpu_esp c + 4,
               cpu_eip := load32 (ram s) u\<rparr>, (ACK_INTR (task_page s'))\<lparr>ram := store32 (ram s') tmp_res
                 (if ks = [] then 0 else char_to_int (hd ks))\<rparr>)"
    "kb_holds p ?t (ram s') (tl ks)" "current_task s' = ?t" "cr3 (task_page s') = cr3 s"
    "same_on X (ram s) (store32 (ram s') tmp_res (if ks = [] then 0 else char_to_int (hd ks)))" by blast
  have "word_bytes tmp_res \<inter> (kb_area p \<union> word_bytes (task_process ?t)) = {}" using assms(5) by blast
  from kb_holds_same [OF s'(2) same_on_store32 [OF this]] s' show ?thesis
    by (simp add: ACK_INTR_def outb_def task_page_def task_switch_def switch_chunk_def paging_load_directory_def)
qed

theorem phix_getkey_returns_witness:
  "\<forall>ops old out. \<exists>s'. phix_getkey_stub 0x21000 (syscall_call env_example ops old out) 0x500100 (trap_cpu, trap_state) =
       Done (trap_cpu\<lparr>cpu_eax := 0x41, cpu_esp := 0x501204, cpu_eip := 0x400123\<rparr>, s') \<and>
     kb_holds 0x1000000 0x1003000 (ram s') []"
proof (intro allI, goal_cases)
  case (1 ops old out)
  have s: "current_task trap_state = 0x1003000" "ram trap_state = trap_memory"
    "syscalls trap_state ! 2 = syscall_funs env_example ! 2" "task_process 0x1003000 = 0x1003034"
    "load32 trap_memory (tss_esp0 0x21000) = 0x600000"
    by (simp_all add: trap_state_def layout trap_memory_words nth_append env_example_def)
  have f: "syscall_funs env_example ! 2 \<notin> {0, syscall_funs env_example ! 0, syscall_funs env_example ! 1}"
    by (simp add: env_example_def upt_rec)
  show ?case
    using phix_getkey_returns [OF trap_state_ready, of "0x1000000" "[0x41]" env_example ops old out] trap_state_keys f
      trap_disjoint(4,5) by (auto simp: s trap_cpu_def trap_memory_words char_to_int_def)
qed

end
