(* ===== verification/Interrupt.thy ===== *)
theory Interrupt
  imports Trap
begin

text \<open>
  The way of a hardware interrupt: the stubs \<open>int0\<close> to \<open>int511\<close> and \<open>no_interrupt\<close> of
  \<open>idt.asm\<close> around \<open>interrupt_handler\<close>, and the keyboard interrupt as the running program
  sees it. The return address of the call into C and its stack frames lie
  below the words pushed here and are not modelled.
\<close>

section \<open>The stubs\<close>

definition interrupt_stub ::
    "(addr \<Rightarrow> addr \<Rightarrow> 'a kernel_scheme \<Rightarrow> 'a kernel_scheme outcome) \<Rightarrow> i32 \<Rightarrow> 'a running \<Rightarrow> 'a running outcome" where
  "interrupt_stub call interrupt st =
     obind (pushad st) (\<lambda>(c, s).
     obind (push_all [cpu_esp c, interrupt] (c, s)) (\<lambda>(d, s).
     obind (interrupt_handler call interrupt (cpu_esp c) s) (\<lambda>s.
     obind (popad (d\<lparr>cpu_esp := cpu_esp d + 8\<rparr>, s)) iretd)))"

definition no_interrupt :: "'a running \<Rightarrow> 'a running outcome" where
  "no_interrupt st = obind (pushad st) (\<lambda>(c, s). obind (popad (c, no_interrupt_handler s)) iretd)"

definition hardware_interrupt ::
    "addr \<Rightarrow> (addr \<Rightarrow> addr \<Rightarrow> 'a kernel_scheme \<Rightarrow> 'a kernel_scheme outcome) \<Rightarrow> i32 \<Rightarrow> 'a running \<Rightarrow> 'a running outcome" where
  "hardware_interrupt tss call interrupt st = obind (interrupt_entry tss st) (interrupt_stub call interrupt)"

section \<open>Into the kernel and back\<close>

text \<open>As \<open>trap_ready\<close>, without a word for a result.\<close>

definition irq_ready :: "addr set \<Rightarrow> addr \<Rightarrow> 'a kernel_scheme \<Rightarrow> bool" where
  "irq_ready X tss s =
     (let t = current_task s; e = load32 (ram s) (tss_esp0 tss); chunk = load32 (ram s) (task_page_directory t) in
      t \<noteq> 0 \<and> cr3 s = load32 (ram s) chunk \<and> word_bytes (task_page_directory t) \<union> word_bytes chunk \<subseteq> X \<and>
      maps_stack X (cr3 s) e 15 (ram s) \<and> X \<inter> (stack_bytes e 15 \<union> reg_bytes t) = {} \<and>
      stack_bytes e 15 \<inter> reg_bytes t = {})"

lemma trap_ready_irq: "trap_ready X tss tmp_res s \<Longrightarrow> irq_ready X tss s"
  by (auto simp: trap_ready_def irq_ready_def Let_def)

lemma leave_interrupt:
  assumes "maps_stack X (cr3 s) e 15 (ram s)" and "\<forall>k < 13. load32 (ram s) (below e k) = frame_words e c ! k"
    and "cpu_esp d = below e 12"
  shows "obind (popad (d, s)) iretd = Done (c, s)"
proof -
  note pops = pop_stack [OF assms(1)]
  have w: "load32 (ram s) (below e k) = frame_words e c ! k" if "k < 13" for k using assms(2) that by blast
  show ?thesis
    by (simp add: popad_def iretd_def pops [where k = 12] pops [where k = 11] pops [where k = 10] pops [where k = 9]
      pops [where k = 8] pops [where k = 7] pops [where k = 6] pops [where k = 5] pops [where k = 4] pops [where k = 3]
      pops [where k = 2] pops [where k = 1] pops [where k = 0] assms(3) below_add w frame_words_def)
qed

text \<open>
  Whatever the callback does, as long as it comes back and leaves the frame and \<open>X\<close> alone,
  the program goes on with its registers as they were.
\<close>

lemma interrupt_returns:
  fixes s :: "'a kernel_scheme" and tss :: addr
  defines "e \<equiv> load32 (ram s) (tss_esp0 tss)" and "t \<equiv> current_task s"
  assumes ready: "irq_ready X tss s" and cb: "interrupt_callbacks s ! nat (sint interrupt) = cb" "cb \<noteq> 0"
    and handler: "\<And>m d. same_on (- (stack_bytes e 15 \<union> reg_bytes t)) (ram s) m \<Longrightarrow>
        \<exists>s'. call cb (below e 12) (s\<lparr>cr3 := d, ram := m\<rparr>) = Done s' \<and>
          current_task s' = t \<and> same_on (X \<union> stack_bytes e 15) m (ram s') \<and> Q s'"
  shows "\<exists>s'. hardware_interrupt tss call interrupt (c, s) = Done (c, ACK_INTR (task_page s')) \<and> Q s' \<and>
     current_task s' = t \<and> same_on X (ram s) (ram s') \<and> cr3 (task_page s') = cr3 s"
proof -
  let ?chunk = "load32 (ram s) (task_page_directory t)"
  have r: "t \<noteq> 0" "cr3 s = load32 (ram s) ?chunk" "word_bytes (task_page_directory t) \<subseteq> X" "word_bytes ?chunk \<subseteq> X"
    "maps_stack X (cr3 s) e 15 (ram s)" "X \<inter> stack_bytes e 15 = {}" "X \<inter> reg_bytes t = {}"
    "stack_bytes e 15 \<inter> reg_bytes t = {}"
    using ready unfolding irq_ready_def Let_def e_def t_def by blast+
  have "stack_bytes e 15 \<inter> X = {}" using r(6) by blast
  from enter_kernel [OF r(5) this e_def [THEN meta_eq_to_obj_eq], of c interrupt] obtain m1 m2 m where
    enter: "interrupt_entry tss (c, s) = Done (kernel_cpu (e - 20) c, s\<lparr>ram := m1\<rparr>)"
      "pushad (kernel_cpu (e - 20) c, s\<lparr>ram := m1\<rparr>) = Done (kernel_cpu (below e 12) c, s\<lparr>ram := m2\<rparr>)"
      "push_all [below e 12, interrupt] (kernel_cpu (below e 12) c, s\<lparr>ram := m2\<rparr>) = Done (kernel_cpu (below e 14) c, s\<lparr>ram := m\<rparr>)"
    and words: "\<forall>k < 13. load32 m (below e k) = frame_words e c ! k"
    and out: "\<forall>a. a \<notin> stack_bytes e 15 \<longrightarrow> m a = ram s a" by blast
  let ?m = "task_save_state t (below e 12) m"
  have "same_on (- (stack_bytes e 15 \<union> reg_bytes t)) (ram s) ?m"
    using out save_state_out [of _ t "below e 12" m] by (simp add: same_on_def)
  from handler [OF this, of "load32 m (kchunk s)"] obtain s' where
    h: "call cb (below e 12) (s\<lparr>cr3 := load32 m (kchunk s), ram := ?m\<rparr>) = Done s'" "current_task s' = t"
      "same_on (X \<union> stack_bytes e 15) ?m (ram s')" "Q s'" by blast
  have "same_on X (ram s) m" using out r(6) by (auto simp: same_on_def)
  moreover have "same_on X m ?m" by (rule save_state_same [OF r(7)])
  ultimately have sameX: "same_on X (ram s) (ram s')" using h(3) by (auto simp: same_on_def)
  have chunk: "load32 (ram s') (task_page_directory t) = ?chunk" by (rule same_on_load32 [OF sameX r(3)])
  have cr3: "cr3 (task_page s') = cr3 s"
    using same_on_load32 [OF sameX r(4)] r(2)
    by (simp add: task_page_def task_switch_def switch_chunk_def paging_load_directory_def paging_switch_def h(2) chunk)
  let ?s = "ACK_INTR (task_page s')"
  have s': "ram ?s = ram s'" "cr3 ?s = cr3 s" using cr3
    by (simp_all add: ACK_INTR_def outb_def task_page_def task_switch_def switch_chunk_def paging_load_directory_def)
  have run: "interrupt_handler call interrupt (below e 12) (s\<lparr>ram := m\<rparr>) = Done ?s"
    using h(1) r(1) cb by (simp add: interrupt_handler_def kernel_page_def switch_chunk_def paging_load_directory_def
      paging_switch_def task_current_save_state_def t_def)
  have "same_on (stack_bytes e 15) m (ram ?s)"
    using save_state_same [OF r(8), of m "below e 12"] h(3) by (auto simp: s' same_on_def)
  then have frame: "\<forall>k < 13. load32 (ram ?s) (below e k) = frame_words e c ! k"
    using words same_on_load32 [OF _ stack_bytes_word [of _ 15 e]] by simp
  have "maps_stack X (cr3 ?s) e 15 (ram ?s)"
    using r(5) maps_cong [OF _ sameX] unfolding s' maps_stack_def by blast
  from leave_interrupt [OF this frame] have leave: "cpu_esp d = below e 12 \<Longrightarrow> obind (popad (d, ?s)) iretd = Done (c, ?s)" for d .
  have "below e 14 + 8 = below e 12" by (simp add: below_def)
  then have "hardware_interrupt tss call interrupt (c, s) = Done (c, ?s)" using run leave
    by (simp add: hardware_interrupt_def interrupt_stub_def enter del: push_all.simps)
  then show ?thesis using h(2,4) sameX cr3 by blast
qed

section \<open>The keyboard interrupt\<close>

lemma keyboard_push_same:
  assumes "Y \<inter> kb_area p = {}"
  shows "same_on Y m (keyboard_push p ch m)"
  unfolding same_on_def
proof
  fix a assume "a \<in> Y"
  with assms have o: "a \<noteq> keyboard_buffer p + of_nat i" if "i < 1036" for i using that by (auto simp: kb_area_def)
  have "a \<noteq> keyboard_writer p + k" if "k < 4" for k
  proof -
    from that have "unat k < 4" by (simp add: word_less_nat_alt)
    then show ?thesis using o [of "1028 + unat k"] by (simp add: layout add.assoc)
  qed
  from this [of 0] this [of 1] this [of 2] this [of 3]
  have "store32 m' (keyboard_writer p) v a = m' a" for m' v by (simp add: store32_def)
  moreover have "a \<noteq> keyboard_buffer p + keyboard_write_index p m"
  proof -
    let ?i = "keyboard_write_index p m"
    have "unat ?i < 1036" by (simp add: keyboard_write_index_def PHIX_KEYBOARD_BUFFER_SIZE_def unat_mod)
    with o [of "unat ?i"] show ?thesis by simp
  qed
  ultimately show "keyboard_push p ch m a = m a" by (simp add: keyboard_push_def Let_def)
qed

text \<open>The character of a scan code, \<open>0\<close> where a key is released or has none.\<close>

definition typed_char :: "u8 \<Rightarrow> u8 \<Rightarrow> u8" where
  "typed_char beyond code = (if code AND PS2_KEY_RELEASED \<noteq> 0 then 0 else ps2_keyboard_scancode_to_char beyond code)"

text \<open>The tables of handlers and the current process, which neither of the two ways into the kernel changes.\<close>

definition same_kernel :: "'a kernel_scheme \<Rightarrow> 'a kernel_scheme \<Rightarrow> bool" where
  "same_kernel s s' = (interrupt_callbacks s' = interrupt_callbacks s \<and> syscalls s' = syscalls s \<and>
     current_process s' = current_process s)"

lemma ps2_interrupt:
  assumes "kb_holds p t m ks" and "length ks < 1024" and "current_process s = p" and "current_task s = t" and "p \<noteq> 0"
    and "Y \<inter> kb_area p = {}" and "typed_char beyond (ucast (ports (io s) KEYBOARD_INPUT_PORT)) = ch"
  shows "\<exists>s'. ps2_keyboard_handle_interrupt ports beyond (s\<lparr>cr3 := d, ram := m\<rparr>) = s' \<and> current_task s' = t \<and> same_on Y m (ram s') \<and>
     kb_holds p t (ram s') (ks @ (if ch = 0 then [] else [ch])) \<and> same_kernel s s'"
  using assms(1-5) kb_push [OF assms(1,2)] keyboard_push_same [OF assms(6)]
  by (simp add: ps2_keyboard_handle_interrupt_def typed_char_def insb_def kernel_page_def switch_chunk_def
    paging_load_directory_def task_page_def task_switch_def Let_def same_kernel_def assms(7) [symmetric])

lemma keyboard_interrupt_returns:
  assumes "irq_ready X tss s" and "interrupt_callbacks s ! 0x21 = handler" and "handler \<noteq> 0"
    and "\<And>frame s. call handler frame s = Done (ps2_keyboard_handle_interrupt ports beyond s)"
    and "kb_holds p (current_task s) (ram s) ks" and "length ks < 1024" and "current_process s = p" and "p \<noteq> 0"
    and "(kb_area p \<union> word_bytes (task_process (current_task s))) \<inter>
      (stack_bytes (load32 (ram s) (tss_esp0 tss)) 15 \<union> reg_bytes (current_task s)) = {}"
    and "X \<inter> kb_area p = {}" and "typed_char beyond (ucast (ports (io s) KEYBOARD_INPUT_PORT)) = ch"
  shows "\<exists>s'. hardware_interrupt tss call ISR_KEYBOARD_INTERRUPT (c, s) = Done (c, s') \<and>
     kb_holds p (current_task s) (ram s') (ks @ (if ch = 0 then [] else [ch])) \<and>
     current_task s' = current_task s \<and> cr3 s' = cr3 s \<and> same_on X (ram s) (ram s') \<and> same_kernel s s'"
proof -
  let ?t = "current_task s" and ?W = "stack_bytes (load32 (ram s) (tss_esp0 tss)) 15"
  let ?Q = "\<lambda>s'. kb_holds p ?t (ram s') (ks @ (if ch = 0 then [] else [ch])) \<and> same_kernel s s'"
  have n: "interrupt_callbacks s ! nat (sint ISR_KEYBOARD_INTERRUPT) = handler" using assms(2) by (simp add: ISR_KEYBOARD_INTERRUPT_def)
  have "\<exists>s'. hardware_interrupt tss call ISR_KEYBOARD_INTERRUPT (c, s) = Done (c, ACK_INTR (task_page s')) \<and> ?Q s' \<and>
     current_task s' = ?t \<and> same_on X (ram s) (ram s') \<and> cr3 (task_page s') = cr3 s"
  proof (rule interrupt_returns [OF assms(1) n assms(3)])
    fix m d assume "same_on (- (?W \<union> reg_bytes ?t)) (ram s) m"
    moreover have "kb_area p \<union> word_bytes (task_process ?t) \<subseteq> - (?W \<union> reg_bytes ?t)" using assms(9) by blast
    ultimately have "kb_holds p ?t m ks" using assms(5) kb_holds_same same_on_subset by metis
    moreover have "(X \<union> ?W) \<inter> kb_area p = {}" using assms(9,10) by blast
    ultimately show "\<exists>s'. call handler (below (load32 (ram s) (tss_esp0 tss)) 12) (s\<lparr>cr3 := d, ram := m\<rparr>) = Done s' \<and>
        current_task s' = ?t \<and> same_on (X \<union> ?W) m (ram s') \<and> ?Q s'"
      using ps2_interrupt [OF _ assms(6,7) refl assms(8), of m "X \<union> ?W" beyond ports ch d] assms(11) by (simp add: assms(4))
  qed
  then obtain s' where s': "hardware_interrupt tss call ISR_KEYBOARD_INTERRUPT (c, s) = Done (c, ACK_INTR (task_page s'))"
    "?Q s'" "current_task s' = ?t" "same_on X (ram s) (ram s')" "cr3 (task_page s') = cr3 s" by blast
  then show ?thesis
    by (simp add: ACK_INTR_def outb_def task_page_def task_switch_def switch_chunk_def paging_load_directory_def
      same_kernel_def)
qed

text \<open>The machine of theory \<open>Trap\<close> with the driver installed and the key A pressed.\<close>

definition key_state :: system where
  "key_state = trap_state\<lparr>interrupt_callbacks := (replicate 512 0)[0x21 := 0x130000], current_process := 0x1000000\<rparr>"

definition key_ports :: device where
  "key_ports = (\<lambda>_ _. 0x1E)"

definition key_call :: "addr \<Rightarrow> addr \<Rightarrow> system \<Rightarrow> system outcome" where
  "key_call cb frame s = (if cb = 0x130000 then Done (ps2_keyboard_handle_interrupt key_ports 0 s) else Diverge)"

section \<open>Properties\<close>

text \<open>
  C13. A keyboard interrupt at any point of a program: all registers are as they were when
  the program goes on, under its own directory and with the memory \<open>X\<close> untouched, and the
  character of the key is at the end of the buffer, from where \<open>phix_getkey\<close> takes it.
\<close>

theorem keyboard_interrupt_transparent:
  assumes "irq_ready X tss s" and "interrupt_callbacks s ! 0x21 = handler" and "handler \<noteq> 0"
    and "\<And>frame s. call handler frame s = Done (ps2_keyboard_handle_interrupt ports beyond s)"
    and "kb_holds p (current_task s) (ram s) ks" and "length ks < 1024" and "current_process s = p" and "p \<noteq> 0"
    and "(kb_area p \<union> word_bytes (task_process (current_task s))) \<inter>
      (stack_bytes (load32 (ram s) (tss_esp0 tss)) 15 \<union> reg_bytes (current_task s)) = {}"
    and "X \<inter> kb_area p = {}" and "typed_char beyond (ucast (ports (io s) KEYBOARD_INPUT_PORT)) = ch"
  shows "\<exists>s'. hardware_interrupt tss call ISR_KEYBOARD_INTERRUPT (c, s) = Done (c, s') \<and>
     kb_holds p (current_task s) (ram s') (ks @ (if ch = 0 then [] else [ch])) \<and>
     current_task s' = current_task s \<and> cr3 s' = cr3 s \<and> same_on X (ram s) (ram s')"
  using keyboard_interrupt_returns [where call = call and beyond = beyond and ports = ports and handler = handler
      and s = s and c = c and p = p and ks = ks and ch = ch and X = X and tss = tss, OF assms] by blast

theorem keyboard_interrupt_transparent_witness:
  "\<exists>s'. hardware_interrupt 0x21000 key_call ISR_KEYBOARD_INTERRUPT (trap_cpu, key_state) = Done (trap_cpu, s') \<and>
     kb_holds 0x1000000 0x1003000 (ram s') [0x41, 0x41] \<and> cr3 s' = 0x1005000"
proof -
  have "trap_ready trap_fixed 0x21000 0x500100 trap_state" using trap_state_ready by (simp add: call_ready_def)
  from trap_ready_irq [OF this] have ready: "irq_ready trap_fixed 0x21000 key_state"
    by (simp add: irq_ready_def key_state_def)
  have s: "current_task key_state = 0x1003000" "ram key_state = trap_memory" "current_process key_state = 0x1000000"
    "cr3 key_state = 0x1005000" "interrupt_callbacks key_state ! 0x21 = 0x130000" "task_process 0x1003000 = 0x1003034"
    "load32 trap_memory (tss_esp0 0x21000) = 0x600000"
    by (simp_all add: key_state_def trap_state_def layout trap_memory_words)
  have call: "key_call 0x130000 frame s = Done (ps2_keyboard_handle_interrupt key_ports 0 s)" for frame s
    by (simp add: key_call_def)
  have ch: "typed_char 0 (ucast (key_ports (io key_state) KEYBOARD_INPUT_PORT)) = 0x41"
    by (simp add: key_ports_def typed_char_def PS2_KEY_RELEASED_def ps2_keyboard_scancode_to_char_def PS2_SCAN_SET_SIZE_def ps2_scan_set_one_def)
  have apart: "(kb_area 0x1000000 \<union> word_bytes (task_process (current_task key_state))) \<inter>
      (stack_bytes (load32 (ram key_state) (tss_esp0 0x21000)) 15 \<union> reg_bytes (current_task key_state)) = {}"
    using trap_disjoint(4) by (simp add: s) blast
  have held: "kb_holds 0x1000000 (current_task key_state) (ram key_state) [0x41]" using trap_state_keys by (simp add: s)
  have "\<exists>s'. hardware_interrupt 0x21000 key_call ISR_KEYBOARD_INTERRUPT (trap_cpu, key_state) = Done (trap_cpu, s') \<and>
     kb_holds 0x1000000 (current_task key_state) (ram s') ([0x41] @ (if (0x41 :: u8) = 0 then [] else [0x41])) \<and>
     current_task s' = current_task key_state \<and> cr3 s' = cr3 key_state \<and> same_on trap_fixed (ram key_state) (ram s')"
    by (rule keyboard_interrupt_transparent [where ports = key_ports and call = key_call and handler = "0x130000"
      and beyond = 0 and s = key_state and X = trap_fixed and tss = "0x21000" and p = "0x1000000" and ks = "[0x41]"
      and ch = "0x41" and c = trap_cpu, OF ready s(5) _ call held _ s(3) _ apart trap_disjoint(5) ch]) simp_all
  then show ?thesis by (simp add: s) blast
qed

end
