(* ===== verification/Stubs.thy ===== *)
theory Stubs
  imports Trap
begin

text \<open>
  The stubs of \<open>stdlib/src/phix.asm\<close> that take an argument: the word that the program
  pushes is the one \<open>task_get_stack_item\<close> reads behind the directory of the task. With the
  stub of \<open>phix_putchar\<close> followed from the program to the screen and back.
\<close>

section \<open>An argument on the way\<close>

text \<open>
  The argument is the word at \<open>v\<close>, behind the return address; its copy for the kernel is
  pushed to \<open>w\<close>.
\<close>

definition arg_ready :: "addr set \<Rightarrow> addr \<Rightarrow> addr \<Rightarrow> addr \<Rightarrow> addr \<Rightarrow> addr \<Rightarrow> cpu \<Rightarrow> 'a kernel_scheme \<Rightarrow> bool" where
  "arg_ready X tss tmp_res u v w c s =
     (call_ready X tss tmp_res u c s \<and> maps X (cr3 s) (cpu_esp c + 4) v (ram s) \<and> maps X (cr3 s) (cpu_esp c - 8) w (ram s) \<and>
      word_bytes v \<subseteq> X \<and>
      word_bytes w \<inter> (X \<union> word_bytes (u - 4) \<union> stack_bytes (load32 (ram s) (tss_esp0 tss)) 15 \<union>
        reg_bytes (current_task s) \<union> word_bytes tmp_res) = {})"

lemma trap_ready_current: "trap_ready X tss tmp_res s \<Longrightarrow> word_bytes tmp_res \<inter> X = {}"
  by (auto simp: trap_ready_def Let_def)

lemma stub_pushes:
  fixes s :: "'a kernel_scheme" and tss :: addr
  defines "e \<equiv> load32 (ram s) (tss_esp0 tss)" and "t \<equiv> current_task s"
  assumes ready: "arg_ready X tss tmp_res u v w c s"
  defines "U \<equiv> word_bytes (u - 4)" and "W \<equiv> word_bytes w"
    and "m \<equiv> store32 (store32 (ram s) (u - 4) (cpu_ebp c)) w (load32 (ram s) v)"
  shows "trap_ready (X \<union> U \<union> W) tss tmp_res (s\<lparr>ram := m\<rparr>)" and "load32 m (tss_esp0 tss) = e"
    and "push (cpu_ebp c) (c, s) = Done (c\<lparr>cpu_esp := cpu_esp c - 4\<rparr>, s\<lparr>ram := store32 (ram s) (u - 4) (cpu_ebp c)\<rparr>)"
    and "vload32 (cr3 s) (cpu_esp c + 4) (store32 (ram s) (u - 4) (cpu_ebp c)) = Done (load32 (ram s) v)"
    and "cpu_esp d = cpu_esp c - 4 \<Longrightarrow> push (load32 (ram s) v) (d, s\<lparr>ram := store32 (ram s) (u - 4) (cpu_ebp c)\<rparr>) =
      Done (d\<lparr>cpu_esp := cpu_esp c - 8\<rparr>, s\<lparr>ram := m\<rparr>)"
    and "same_on X (ram s) m" and "load32 m (u - 4) = cpu_ebp c" and "load32 m w = load32 (ram s) v"
    and "same_on (- (U \<union> W)) (ram s) m"
proof -
  let ?m = "store32 (ram s) (u - 4) (cpu_ebp c)"
  have r: "trap_ready X tss tmp_res s" "maps X (cr3 s) (cpu_esp c - 4) (u - 4) (ram s)" "word_bytes (tss_esp0 tss) \<subseteq> X"
    "U \<inter> (X \<union> stack_bytes e 15 \<union> reg_bytes t \<union> word_bytes tmp_res) = {}"
    "maps X (cr3 s) (cpu_esp c + 4) v (ram s)" "maps X (cr3 s) (cpu_esp c - 8) w (ram s)" "word_bytes v \<subseteq> X"
    "W \<inter> (X \<union> U \<union> stack_bytes e 15 \<union> reg_bytes t \<union> word_bytes tmp_res) = {}"
    using ready by (simp_all add: arg_ready_def call_ready_def e_def t_def U_def W_def)
  have out: "U \<inter> X = {}" "W \<inter> X = {}" "W \<inter> (X \<union> U) = {}" using r(4,8) by blast+
  note same1 = same_on_store32 [OF out(1) [unfolded U_def], of "ram s" "cpu_ebp c"]
  have same2: "same_on (X \<union> U) ?m m" unfolding m_def by (rule same_on_store32) (use out(3) W_def in blast)
  show same: "same_on X (ram s) m" using same1 same2 same_on_subset [OF same2, of X] same_on_trans by blast
  note ready1 = trap_ready_store [OF r(1,3) r(4) [unfolded U_def e_def t_def], of "cpu_ebp c"]
  have "word_bytes w \<inter> (X \<union> U \<union> stack_bytes (load32 ?m (tss_esp0 tss)) 15 \<union> reg_bytes t \<union> word_bytes tmp_res) = {}"
    using r(8) unfolding ready1(2) W_def e_def by blast
  moreover have "word_bytes (tss_esp0 tss) \<subseteq> X \<union> U" using r(3) by blast
  ultimately show "trap_ready (X \<union> U \<union> W) tss tmp_res (s\<lparr>ram := m\<rparr>)" "load32 m (tss_esp0 tss) = e"
    using trap_ready_store [OF ready1(1), of w "load32 (ram s) v"] ready1(2)
    by (simp_all add: U_def W_def m_def e_def t_def)
  show "push (cpu_ebp c) (c, s) = Done (c\<lparr>cpu_esp := cpu_esp c - 4\<rparr>, s\<lparr>ram := ?m\<rparr>)"
    using push_maps [OF r(2), of "cpu_ebp c"] out(1) by (simp add: U_def)
  show "vload32 (cr3 s) (cpu_esp c + 4) ?m = Done (load32 (ram s) v)"
    using vload32_maps [OF maps_cong [OF r(5) same1]] same_on_load32 [OF same1 r(7)] by simp
  show "push (load32 (ram s) v) (d, s\<lparr>ram := ?m\<rparr>) = Done (d\<lparr>cpu_esp := cpu_esp c - 8\<rparr>, s\<lparr>ram := m\<rparr>)"
    if "cpu_esp d = cpu_esp c - 4"
    using push_maps [of X "s\<lparr>ram := ?m\<rparr>" d w "load32 (ram s) v"] maps_cong [OF r(6) same1] out(2) that
    by (simp add: W_def m_def)
  show "load32 m (u - 4) = cpu_ebp c" using same_on_load32 [OF same2, of "u - 4"] by (simp add: U_def)
  show "load32 m w = load32 (ram s) v" by (simp add: m_def)
  show "same_on (- (U \<union> W)) (ram s) m" by (simp add: same_on_def m_def U_def W_def store32_word_bytes)
qed

text \<open>
  Whatever the command does with the argument, as long as it comes back and leaves the
  frame, the program's words and \<open>X\<close> alone, the program goes on behind the call.
\<close>

lemma stub_returns:
  fixes s :: "'a kernel_scheme" and tss :: addr
  defines "e \<equiv> load32 (ram s) (tss_esp0 tss)" and "t \<equiv> current_task s"
  assumes ready: "arg_ready X tss tmp_res u v w c s"
  defines "K \<equiv> X \<union> word_bytes (u - 4) \<union> word_bytes w"
  assumes handler: "\<And>m d. same_on (- (stack_bytes e 15 \<union> reg_bytes t \<union> word_bytes (u - 4) \<union> word_bytes w)) (ram s) m \<Longrightarrow>
        same_on X (ram s) m \<Longrightarrow> load32 m (reg_esp (task_registers t)) = cpu_esp c - 8 \<Longrightarrow> load32 m w = load32 (ram s) v \<Longrightarrow>
        \<exists>ret s'. isr80h_handle_command call command (below e 12) (s\<lparr>cr3 := d, ram := m\<rparr>) = Done (ret, s') \<and>
          current_task s' = t \<and> same_on (K \<union> stack_bytes e 15) m (ram s') \<and> Q ret s'"
  shows "\<exists>ret s'. phix_stub command tss call tmp_res (c, s) =
       Done (c\<lparr>cpu_eax := ret, cpu_esp := cpu_esp c + 4, cpu_eip := load32 (ram s) u\<rparr>,
         (ACK_INTR (task_page s'))\<lparr>ram := store32 (ram s') tmp_res ret\<rparr>) \<and> Q ret s' \<and>
     current_task s' = t \<and> same_on X (ram s) (store32 (ram s') tmp_res ret) \<and> cr3 (task_page s') = cr3 s"
proof -
  define m where "m = store32 (store32 (ram s) (u - 4) (cpu_ebp c)) w (load32 (ram s) v)"
  let ?c = "c\<lparr>cpu_esp := cpu_esp c - 4, cpu_ebp := cpu_esp c - 4, cpu_eax := command\<rparr>"
  let ?d = "?c\<lparr>cpu_esp := cpu_esp c - 8\<rparr>" and ?s = "s\<lparr>ram := m\<rparr>"
  note p = stub_pushes [OF ready, folded e_def t_def m_def, folded K_def]
  have "maps X (cr3 s) (cpu_esp c) u (ram s)" "maps X (cr3 s) (cpu_esp c - 4) (u - 4) (ram s)" "word_bytes u \<subseteq> X"
    using ready by (simp_all add: arg_ready_def call_ready_def)
  note r = this trap_ready_current [OF p(1)]
  have "\<exists>ret s'. software_interrupt tss call tmp_res (?d, ?s) = Done (?d\<lparr>cpu_eax := ret\<rparr>,
       (ACK_INTR (task_page s'))\<lparr>ram := store32 (ram s') tmp_res ret\<rparr>) \<and> Q ret s' \<and>
     current_task s' = current_task ?s \<and> same_on K (ram ?s) (ram s') \<and> cr3 (task_page s') = cr3 ?s"
  proof (rule software_interrupt_returns [OF p(1)])
    fix n d assume n: "\<And>a. a \<notin> stack_bytes (load32 (ram ?s) (tss_esp0 tss)) 15 \<union> reg_bytes (current_task ?s) \<Longrightarrow> n a = ram ?s a"
      and esp: "load32 n (reg_esp (task_registers (current_task ?s))) = cpu_esp ?d"
    have n': "n a = m a" if "a \<notin> stack_bytes e 15 \<union> reg_bytes t" for a using n [of a] that p(2) by (simp add: t_def)
    have clear: "K \<inter> (stack_bytes e 15 \<union> reg_bytes t) = {}"
      using p(1) p(2) by (auto simp: trap_ready_def Let_def t_def K_def)
    then have nK: "same_on K m n" using n' unfolding same_on_def by blast
    have "same_on X (ram s) n" using p(6) same_on_subset [OF nK, of X] same_on_trans by (auto simp: K_def)
    moreover have "same_on (- (stack_bytes e 15 \<union> reg_bytes t \<union> word_bytes (u - 4) \<union> word_bytes w)) (ram s) n"
      using p(9) n' by (auto simp: same_on_def)
    moreover have "load32 n w = load32 (ram s) v" using same_on_load32 [OF nK, of w] p(8) by (simp add: K_def)
    ultimately show "\<exists>ret s'. isr80h_handle_command call (cpu_eax ?d) (below (load32 (ram ?s) (tss_esp0 tss)) 12)
          (?s\<lparr>cr3 := d, ram := n\<rparr>) = Done (ret, s') \<and> current_task s' = current_task ?s \<and>
        same_on (K \<union> stack_bytes (load32 (ram ?s) (tss_esp0 tss)) 15) n (ram s') \<and> Q ret s'"
      using handler [of n d] esp p(2) by (simp add: t_def)
  qed
  then obtain ret s' where int: "software_interrupt tss call tmp_res (?d, ?s) = Done (?d\<lparr>cpu_eax := ret\<rparr>,
       (ACK_INTR (task_page s'))\<lparr>ram := store32 (ram s') tmp_res ret\<rparr>)" "Q ret s'" "current_task s' = t"
     "same_on K m (ram s')" "cr3 (task_page s') = cr3 s" by (auto simp: t_def)
  let ?r = "store32 (ram s') tmp_res ret"
  have keep: "same_on K m ?r" using int(4) same_on_store32 [OF r(4)] same_on_trans by blast
  then have keepX: "same_on X (ram s) ?r" using p(6) same_on_subset [OF keep, of X] same_on_trans by (auto simp: K_def)
  have "word_bytes (u - 4) \<subseteq> K" by (auto simp: K_def)
  then have "load32 ?r (u - 4) = cpu_ebp c" using same_on_load32 [OF keep] p(7) by simp
  moreover have "load32 ?r u = load32 (ram s) u" by (rule same_on_load32 [OF keepX r(3)])
  moreover have "cr3 (ACK_INTR (task_page s')) = cr3 s" using int(5) by (simp add: ACK_INTR_def outb_def)
  then have "pop (d, (ACK_INTR (task_page s'))\<lparr>ram := ?r\<rparr>) =
      Done (load32 ?r q, d\<lparr>cpu_esp := cpu_esp d + 4\<rparr>, (ACK_INTR (task_page s'))\<lparr>ram := ?r\<rparr>)"
    if "maps X (cr3 s) (cpu_esp d) q (ram s)" for d q
    using pop_maps [of X "(ACK_INTR (task_page s'))\<lparr>ram := ?r\<rparr>" d q] maps_cong [OF that keepX] by simp
  moreover have "cpu_esp c + 4 = 4 + cpu_esp c" by (rule add.commute)
  note arg = p(4) [unfolded this]
  moreover note r(1,2)
  ultimately have "phix_stub command tss call tmp_res (c, s) =
       Done (c\<lparr>cpu_eax := ret, cpu_esp := cpu_esp c + 4, cpu_eip := load32 (ram s) u\<rparr>,
         (ACK_INTR (task_page s'))\<lparr>ram := ?r\<rparr>)"
    using int(1) p(3) p(5) [of ?c] by (simp add: phix_stub_def Let_def)
  then show ?thesis using int(2,3,5) keepX by blast
qed

section \<open>A character for the screen\<close>

lemma task_get_stack_item_arg:
  assumes "same_on X (ram s) m" and "word_bytes (task_page_directory t) \<union> word_bytes (load32 (ram s) (task_page_directory t)) \<subseteq> X"
    and "cr3 s = load32 (ram s) (load32 (ram s) (task_page_directory t))" and "maps X (cr3 s) v w (ram s)"
    and "load32 m (reg_esp (task_registers t)) = v"
  shows "task_get_stack_item t 0 (s\<lparr>cr3 := d, ram := m\<rparr>) = Done (load32 m w, s\<lparr>cr3 := load32 m (kchunk s), ram := m\<rparr>)"
proof -
  have "load32 m (task_page_directory t) = load32 (ram s) (task_page_directory t)"
    by (rule same_on_load32 [OF assms(1)]) (use assms(2) in blast)
  moreover have "load32 m (load32 (ram s) (task_page_directory t)) = cr3 s"
    unfolding assms(3) by (rule same_on_load32 [OF assms(1)]) (use assms(2) in blast)
  ultimately show ?thesis using vload32_maps [OF maps_cong [OF assms(4,1)]] assms(5)
    by (simp add: task_get_stack_item_def task_page_task_def switch_chunk_def paging_load_directory_def paging_switch_def
      kernel_page_def)
qed

text \<open>The two cells that a character can change: the one at the cursor and the one before it.\<close>

definition screen_cells :: "terminal \<Rightarrow> addr set" where
  "screen_cells t = {cursor_cell t, cursor_cell t + 1, cursor_cell (step_back t), cursor_cell (step_back t) + 1}"

lemma writechar_cells:
  "a \<notin> screen_cells t \<Longrightarrow> snd (terminal_writechar c color (t, m)) a = m a"
  "fst (terminal_writechar c color (t, m)) = fst (terminal_writechar c color (t, m'))"
  "same_on (screen_cells t) m m' \<Longrightarrow>
     same_on (screen_cells t) (snd (terminal_writechar c color (t, m))) (snd (terminal_writechar c color (t, m')))"
proof -
  have w: "terminal_writechar c color (t, m) =
      (if c = 8 then terminal_backspace (t, m) else if c = 0x0A then (t\<lparr>terminal_col := 0, terminal_row := terminal_row t + 1\<rparr>, m)
       else (advance t, store16 m (cursor_cell t) (terminal_make_char c color)))" for m
    by (simp add: terminal_writechar_plain terminal_writechar_newline) (simp add: terminal_writechar.simps)
  show "a \<notin> screen_cells t \<Longrightarrow> snd (terminal_writechar c color (t, m)) a = m a"
    by (simp add: w terminal_backspace_eq Let_def screen_cells_def store16_out)
  show "fst (terminal_writechar c color (t, m)) = fst (terminal_writechar c color (t, m'))"
    by (simp add: w terminal_backspace_eq Let_def)
  show "same_on (screen_cells t) (snd (terminal_writechar c color (t, m))) (snd (terminal_writechar c color (t, m')))"
    if "same_on (screen_cells t) m m'"
    using that by (simp add: w terminal_backspace_eq Let_def same_on_def store16_def)
qed

lemma putchar_command:
  assumes "current_task s = t" and "syscalls s ! 3 = syscall_funs e ! 3"
    and "syscall_funs e ! 3 \<notin> {0, syscall_funs e ! 0, syscall_funs e ! 1, syscall_funs e ! 2}"
    and "task_get_stack_item t 0 (s\<lparr>cr3 := d, ram := m\<rparr>) = Done (arg, s\<lparr>cr3 := d', ram := m\<rparr>)"
  shows "isr80h_handle_command (syscall_call e ops old out) 3 frame (s\<lparr>cr3 := d, ram := m\<rparr>) =
     Done (0, s\<lparr>cr3 := d', ram := snd (terminal_writechar (ucast arg) 15 (screen s, m)),
                screen := fst (terminal_writechar (ucast arg) 15 (screen s, m))\<rparr>)"
proof -
  have "sint (3 :: i32) = 3" by simp
  then show ?thesis using assms
    by (simp add: isr80h_handle_command_def syscall_call_def syscall3_putchar_def screen_putchar_def putchar.simps
      task_current_def PHIX_MAX_SYSCALLS_def Let_def split: prod.splits)
qed

section \<open>A machine that is ready for a call with an argument\<close>

definition putchar_state :: system where
  "putchar_state = trap_state\<lparr>ram := store32 trap_memory 0x700204 0x41\<rparr>"

lemma user_words_apart:
  assumes "q \<in> {0x700204, 0x7001F8}"
  shows "word_bytes q \<inter> (trap_fixed \<union> stack_bytes 0x600000 15 \<union> reg_bytes 0x1003000 \<union> word_bytes 0x500100) = {}"
proof -
  have q: "a \<in> word_bytes q \<Longrightarrow> 0x7001F8 \<le> a \<and> a \<le> 0x700207" for a
    using assms by (auto simp: word_bytes_def)
  have p: "a \<in> word_bytes 0x500100 \<Longrightarrow> 0x500100 \<le> a \<and> a \<le> 0x500103" for a
    using word_bytes_range [of a "0x500100"] by simp
  have "word_bytes q \<inter> trap_fixed = {}" using assms by (auto simp: trap_fixed_def word_bytes_def)
  moreover have "word_bytes q \<inter> stack_bytes 0x600000 15 = {}" by (rule range_disjoint [OF q trap_ranges(1)]) simp_all
  moreover have "word_bytes q \<inter> reg_bytes 0x1003000 = {}" by (rule range_disjoint [OF q trap_ranges(2)]) simp_all
  moreover have "word_bytes q \<inter> word_bytes 0x500100 = {}" by (rule range_disjoint [OF q p]) simp_all
  ultimately show ?thesis by blast
qed

lemma putchar_state_ready:
  "arg_ready (trap_fixed \<union> word_bytes 0x700204) 0x21000 0x500100 0x700200 0x700204 0x7001F8 trap_cpu putchar_state"
proof -
  let ?X = "trap_fixed \<union> word_bytes 0x700204" and ?m = "store32 trap_memory 0x700204 0x41"
  have s: "current_task trap_state = 0x1003000" "cr3 trap_state = 0x1005000" "ram trap_state = trap_memory"
    "load32 trap_memory (tss_esp0 0x21000) = 0x600000"
    by (simp_all add: trap_state_def layout trap_memory_words)
  have c: "trap_ready trap_fixed 0x21000 0x500100 trap_state" "word_bytes 0x700200 \<union> word_bytes 0x21004 \<subseteq> trap_fixed"
    using trap_state_ready by (simp_all add: call_ready_def layout)
  have tss: "word_bytes (tss_esp0 0x21000) \<subseteq> trap_fixed" using c(2) by (simp add: layout)
  have q: "word_bytes 0x700204 \<inter> (trap_fixed \<union> stack_bytes (load32 (ram trap_state) (tss_esp0 0x21000)) 15 \<union>
      reg_bytes (current_task trap_state) \<union> word_bytes 0x500100) = {}"
    using user_words_apart [of "0x700204"] by (simp only: s) blast
  note ready = trap_ready_store [OF c(1) tss q, of "0x41", unfolded s(3)]
  have same: "same_on trap_fixed trap_memory ?m" by (rule same_on_store32) (use q in blast)
  have maps: "maps ?X 0x1005000 v p ?m" if "maps trap_fixed 0x1005000 v p trap_memory" for v p
    using maps_mono [OF maps_cong [OF that same]] by blast
  have user: "maps trap_fixed 0x1005000 0x501200 0x700200 trap_memory" "maps trap_fixed 0x1005000 0x5011FC 0x7001FC trap_memory"
    "maps trap_fixed 0x1005000 0x501204 0x700204 trap_memory" "maps trap_fixed 0x1005000 0x5011F8 0x7001F8 trap_memory"
    by (rule trap_maps [where V = "0x501000" and f = "0x700007"]; simp add: trap_frames)+
  have e: "load32 ?m (tss_esp0 0x21000) = 0x600000" using ready(2) s(4) by simp
  have p: "current_task putchar_state = 0x1003000" "cr3 putchar_state = 0x1005000" "ram putchar_state = ?m"
    using s by (simp_all add: putchar_state_def)
  have near: "word_bytes 0x7001FC \<inter> word_bytes 0x700204 = {}" "word_bytes 0x7001F8 \<inter> (word_bytes 0x700204 \<union> word_bytes 0x7001FC) = {}"
    by (simp_all add: word_bytes_def)
  have "word_bytes 0x7001FC \<inter> (?X \<union> stack_bytes 0x600000 15 \<union> reg_bytes 0x1003000 \<union> word_bytes 0x500100) = {}"
    using trap_disjoint(3) near(1) by blast
  moreover have "trap_ready ?X 0x21000 0x500100 putchar_state" using ready(1) by (simp add: putchar_state_def)
  moreover have "word_bytes 0x700200 \<union> word_bytes 0x21004 \<subseteq> ?X" using c(2) by blast
  ultimately have "call_ready ?X 0x21000 0x500100 0x700200 trap_cpu putchar_state"
    using maps [OF user(1)] maps [OF user(2)] e by (simp add: call_ready_def p trap_cpu_def layout)
  moreover have "word_bytes 0x7001F8 \<inter> (?X \<union> word_bytes 0x7001FC \<union> stack_bytes 0x600000 15 \<union> reg_bytes 0x1003000 \<union>
      word_bytes 0x500100) = {}"
    using user_words_apart [of "0x7001F8"] near(2) by blast
  ultimately show ?thesis
    using maps [OF user(3)] maps [OF user(4)] e by (simp add: arg_ready_def p trap_cpu_def)
qed

section \<open>Properties\<close>

text \<open>
  C17. The whole way of \<open>phix_putchar\<close>: the character that the program has put on its stack
  is read by the kernel behind the directory of the task and written to the screen, and the
  program goes on behind the call with \<open>0\<close> in \<open>eax\<close> and all other registers as they were.
\<close>

theorem phix_putchar_shows:
  assumes "arg_ready X tss tmp_res u v w c s"
    and "syscalls s ! 3 = syscall_funs e ! 3"
    and "syscall_funs e ! 3 \<notin> {0, syscall_funs e ! 0, syscall_funs e ! 1, syscall_funs e ! 2}"
    and "screen_cells (screen s) \<inter> (X \<union> stack_bytes (load32 (ram s) (tss_esp0 tss)) 15 \<union> reg_bytes (current_task s) \<union>
        word_bytes (u - 4) \<union> word_bytes w \<union> word_bytes tmp_res) = {}"
  shows "\<exists>s'. phix_stub 3 tss (syscall_call e ops old out) tmp_res (c, s) =
       Done (c\<lparr>cpu_eax := 0, cpu_esp := cpu_esp c + 4, cpu_eip := load32 (ram s) u\<rparr>, s') \<and>
     screen s' = fst (terminal_writechar (ucast (load32 (ram s) v)) 15 (screen s, ram s)) \<and>
     same_on (screen_cells (screen s)) (snd (terminal_writechar (ucast (load32 (ram s) v)) 15 (screen s, ram s))) (ram s') \<and>
     current_task s' = current_task s \<and> cr3 s' = cr3 s \<and> same_on X (ram s) (ram s')"
proof -
  let ?t = "current_task s" and ?W = "stack_bytes (load32 (ram s) (tss_esp0 tss)) 15"
  let ?ch = "ucast (load32 (ram s) v) :: u8" and ?C = "screen_cells (screen s)"
  let ?show = "\<lambda>m. terminal_writechar ?ch 15 (screen s, m)"
  let ?Q = "\<lambda>ret s'. ret = 0 \<and> screen s' = fst (?show (ram s)) \<and> same_on ?C (snd (?show (ram s))) (ram s')"
  have r: "cr3 s = load32 (ram s) (load32 (ram s) (task_page_directory ?t))"
    "word_bytes (task_page_directory ?t) \<union> word_bytes (load32 (ram s) (task_page_directory ?t)) \<subseteq> X"
    "maps X (cr3 s) (cpu_esp c - 8) w (ram s)"
    using assms(1) by (auto simp: arg_ready_def call_ready_def trap_ready_def Let_def)
  have "\<exists>ret s'. phix_stub 3 tss (syscall_call e ops old out) tmp_res (c, s) =
       Done (c\<lparr>cpu_eax := ret, cpu_esp := cpu_esp c + 4, cpu_eip := load32 (ram s) u\<rparr>,
         (ACK_INTR (task_page s'))\<lparr>ram := store32 (ram s') tmp_res ret\<rparr>) \<and> ?Q ret s' \<and>
     current_task s' = ?t \<and> same_on X (ram s) (store32 (ram s') tmp_res ret) \<and> cr3 (task_page s') = cr3 s"
  proof (rule stub_returns [OF assms(1)])
    fix m d assume m: "same_on (- (?W \<union> reg_bytes ?t \<union> word_bytes (u - 4) \<union> word_bytes w)) (ram s) m"
      "same_on X (ram s) m" "load32 m (reg_esp (task_registers ?t)) = cpu_esp c - 8" "load32 m w = load32 (ram s) v"
    have "same_on ?C (ram s) m" by (rule same_on_subset [OF m(1)]) (use assms(4) in blast)
    note cells = writechar_cells(3) [OF this, of ?ch 15]
    have item: "task_get_stack_item ?t 0 (s\<lparr>cr3 := d, ram := m\<rparr>) =
        Done (load32 (ram s) v, s\<lparr>cr3 := load32 m (kchunk s), ram := m\<rparr>)"
      using task_get_stack_item_arg [OF m(2) r(2,1,3) m(3), of d] by (simp add: m(4))
    have "same_on (X \<union> word_bytes (u - 4) \<union> word_bytes w \<union> ?W) m (snd (?show m))"
      unfolding same_on_def by (intro ballI writechar_cells(1)) (use assms(4) in blast)
    then show "\<exists>ret s'. isr80h_handle_command (syscall_call e ops old out) 3 (below (load32 (ram s) (tss_esp0 tss)) 12)
          (s\<lparr>cr3 := d, ram := m\<rparr>) = Done (ret, s') \<and> current_task s' = ?t \<and>
        same_on (X \<union> word_bytes (u - 4) \<union> word_bytes w \<union> ?W) m (ram s') \<and> ?Q ret s'"
      using putchar_command [OF refl assms(2,3) item] cells writechar_cells(2) [of ?ch 15 "screen s" m "ram s"] by simp
  qed
  then obtain s' where s': "phix_stub 3 tss (syscall_call e ops old out) tmp_res (c, s) =
       Done (c\<lparr>cpu_eax := 0, cpu_esp := cpu_esp c + 4, cpu_eip := load32 (ram s) u\<rparr>,
         (ACK_INTR (task_page s'))\<lparr>ram := store32 (ram s') tmp_res 0\<rparr>)"
    "screen s' = fst (?show (ram s))" "same_on ?C (snd (?show (ram s))) (ram s')" "current_task s' = ?t"
    "same_on X (ram s) (store32 (ram s') tmp_res 0)" "cr3 (task_page s') = cr3 s" by auto
  have "word_bytes tmp_res \<inter> ?C = {}" using assms(4) by blast
  from same_on_trans [OF s'(3) same_on_store32 [OF this]] s' show ?thesis
    by (simp add: ACK_INTR_def outb_def task_page_def task_switch_def switch_chunk_def paging_load_directory_def)
qed

theorem phix_putchar_shows_witness:
  "\<forall>ops old out. \<exists>s'. phix_stub 3 0x21000 (syscall_call env_example ops old out) 0x500100 (trap_cpu, putchar_state) =
       Done (trap_cpu\<lparr>cpu_eax := 0, cpu_esp := 0x501204, cpu_eip := 0x400123\<rparr>, s') \<and>
     screen s' = \<lparr>video_mem = 0xB8000, terminal_row = 0, terminal_col = 1\<rparr> \<and>
     ram s' 0xB8000 = 0x41 \<and> ram s' 0xB8001 = 15"
proof (intro allI, goal_cases)
  case (1 ops old out)
  let ?m = "store32 trap_memory 0x700204 0x41" and ?t = "\<lparr>video_mem = 0xB8000, terminal_row = 0, terminal_col = 0\<rparr>"
  have same: "same_on trap_fixed trap_memory ?m"
    by (rule same_on_store32) (use user_words_apart [of "0x700204"] in blast)
  have sub: "word_bytes 0x21004 \<subseteq> trap_fixed" "word_bytes 0x700200 \<subseteq> trap_fixed" by (auto simp: trap_fixed_def)
  have s: "screen putchar_state = ?t" "current_task putchar_state = 0x1003000" "ram putchar_state = ?m"
    "syscalls putchar_state ! 3 = syscall_funs env_example ! 3" "load32 ?m (tss_esp0 0x21000) = 0x600000"
    "load32 ?m 0x700200 = 0x400123" "load32 ?m 0x700204 = 0x41"
    using same_on_load32 [OF same sub(1)] same_on_load32 [OF same sub(2)]
    by (simp_all add: putchar_state_def trap_state_def fd_state_def layout trap_memory_words nth_append env_example_def)
  have f: "syscall_funs env_example ! 3 \<notin> {0, syscall_funs env_example ! 0, syscall_funs env_example ! 1, syscall_funs env_example ! 2}"
    by (simp add: env_example_def upt_rec)
  have "(- 1 :: u16) = 0xFFFF" by simp
  then have "ucast (- 1 :: u16) = (0xFFFF :: u32)" by (simp only: unsigned_ucast_eq) simp
  then have cells: "screen_cells ?t = {0xB8000, 0xB8001, 0xAB7FFE, 0xAB7FFF}"
    by (simp add: screen_cells_def cursor_cell_def step_back_def Let_def)
  have "a \<notin> stack_bytes 0x600000 15 \<and> a \<notin> reg_bytes 0x1003000" if "a \<in> screen_cells ?t" for a
    using that trap_ranges(1) [of a] trap_ranges(2) [of a] unfolding cells by auto
  moreover have "screen_cells ?t \<inter> (trap_fixed \<union> word_bytes 0x700204 \<union> word_bytes 0x7001FC \<union> word_bytes 0x7001F8 \<union> word_bytes 0x500100) = {}"
    unfolding cells by (simp add: trap_fixed_def word_bytes_def)
  ultimately have apart: "screen_cells ?t \<inter> (trap_fixed \<union> word_bytes 0x700204 \<union> stack_bytes 0x600000 15 \<union>
      reg_bytes 0x1003000 \<union> word_bytes 0x7001FC \<union> word_bytes 0x7001F8 \<union> word_bytes 0x500100) = {}" by blast
  have shown: "terminal_writechar 0x41 15 (?t, ?m) = (?t\<lparr>terminal_col := 1\<rparr>, store16 ?m 0xB8000 0xF41)"
    by (simp add: terminal_writechar_plain advance_def cursor_cell_def terminal_make_char_def char_to_int_def word_le_nat_alt)
  show ?case
    using phix_putchar_shows [OF putchar_state_ready s(4) f, of ops old out] apart
    by (auto simp: s shown cells same_on_def trap_cpu_def store16_def)
qed

end
