(* ===== verification/Task_Return.thy ===== *)
theory Task_Return
  imports Trap
begin

text \<open>
  How a task is entered for the first time: \<open>task_return\<close> of \<open>task.asm\<close> builds the frame of an
  interrupt on the kernel's stack and returns from it with the registers of the task, all
  but \<open>ebp\<close>; and \<open>_start\<close> of the program library, which is what it enters.
\<close>

section \<open>The frame of a first entry\<close>

text \<open>
  \<open>task_return\<close> is called with the stack pointer at the return address and the address of
  the registers behind it; both and the tables lie in \<open>X\<close>, the eight words it pushes do not.
\<close>

definition return_ready :: "addr set \<Rightarrow> addr \<Rightarrow> cpu \<Rightarrow> 'a kernel_scheme \<Rightarrow> bool" where
  "return_ready X regs c s =
     (maps_stack X (cr3 s) (cpu_esp c) 8 (ram s) \<and> maps X (cr3 s) (cpu_esp c + 4) (cpu_esp c + 4) (ram s) \<and>
      (\<forall>k < 12. maps X (cr3 s) (regs + 4 * of_nat k) (regs + 4 * of_nat k) (ram s) \<and> word_bytes (regs + 4 * of_nat k) \<subseteq> X) \<and>
      word_bytes (cpu_esp c + 4) \<subseteq> X \<and> stack_bytes (cpu_esp c) 8 \<inter> X = {} \<and> load32 (ram s) (cpu_esp c + 4) = regs)"

lemma push_at:
  assumes "maps_stack X (cr3 s) e n (ram s)" and "stack_bytes e n \<inter> X = {}" and "k < n" and "cpu_esp c - 4 = below e k"
  shows "push w (c, s) = Done (c\<lparr>cpu_esp := below e k\<rparr>, s\<lparr>ram := store32 (ram s) (below e k) w\<rparr>)"
proof -
  have "word_bytes (below e k) \<inter> X = {}" using assms(2) stack_bytes_word [OF assms(3), of e] by blast
  moreover have "maps X (cr3 s) (cpu_esp c - 4) (below e k) (ram s)" using assms(1,3,4) by (simp add: maps_stack_def)
  ultimately show ?thesis using push_maps [of X s c "below e k" w] assms(4) by simp
qed

lemma maps_stack_cong: "maps_stack X dir e n m \<Longrightarrow> same_on X m m' \<Longrightarrow> maps_stack X dir e n m'"
  using maps_cong by (auto simp: maps_stack_def)

lemma same_on_below:
  assumes "same_on X m m'" and "stack_bytes e n \<inter> X = {}" and "k < n"
  shows "same_on X m (store32 m' (below e k) w)"
proof -
  have "word_bytes (below e k) \<inter> X = {}" using assms(2) stack_bytes_word [OF assms(3), of e] by blast
  from same_on_trans [OF assms(1) same_on_store32 [OF this]] show ?thesis .
qed

lemma below_next: "k = Suc j \<Longrightarrow> below e j - 4 = below e k"
  by (simp add: below_def algebra_simps)

text \<open>The words pushed, and the memory with the first of them.\<close>

fun stack_memory :: "addr \<Rightarrow> nat \<Rightarrow> u32 list \<Rightarrow> mem \<Rightarrow> mem" where
  "stack_memory e k [] m = m"
| "stack_memory e k (w # ws) m = stack_memory e (Suc k) ws (store32 m (below e k) w)"

lemma same_on_stack_memory:
  "same_on X m m' \<Longrightarrow> stack_bytes e n \<inter> X = {} \<Longrightarrow> k + length ws \<le> n \<Longrightarrow> same_on X m (stack_memory e k ws m')"
proof (induction ws arbitrary: k m')
  case (Cons w ws)
  from Cons.prems(3) have "k < n" "Suc k + length ws \<le> n" by simp_all
  with Cons.IH [OF same_on_below [OF Cons.prems(1,2)] Cons.prems(2)] show ?case by simp
qed simp

lemma push_all_memory:
  assumes "maps_stack X (cr3 s) e n (ram s)" and "stack_bytes e n \<inter> X = {}" and "k + length ws \<le> n" and "cpu_esp c = e - 4 * of_nat k"
  shows "push_all ws (c, s) = Done (c\<lparr>cpu_esp := e - 4 * of_nat (k + length ws)\<rparr>, s\<lparr>ram := stack_memory e k ws (ram s)\<rparr>)"
  using assms
proof (induction ws arbitrary: k c s)
  case Nil
  then show ?case by simp
next
  case (Cons w ws)
  have k: "k < n" "Suc k + length ws \<le> n" using Cons.prems(3) by simp_all
  have next_esp: "cpu_esp c - 4 = below e k" "below e k = e - 4 * of_nat (Suc k)"
    using Cons.prems(4) by (simp_all add: below_def algebra_simps)
  have "maps_stack X (cr3 s) e n (store32 (ram s) (below e k) w)"
    by (rule maps_stack_cong [OF Cons.prems(1) same_on_below [OF same_on_refl Cons.prems(2) k(1)]])
  then show ?case
    using Cons.IH [of "s\<lparr>ram := store32 (ram s) (below e k) w\<rparr>" "Suc k" "c\<lparr>cpu_esp := below e k\<rparr>"] Cons.prems(2) k(2)
      push_at [OF Cons.prems(1,2) k(1) next_esp(1), of w] next_esp(2) by simp
qed

lemma stack_memory_words:
  fixes s :: "'a kernel_scheme"
  assumes "maps_stack X (cr3 s) e n (ram s)" and "stack_bytes e n \<inter> X = {}" and "n \<le> 1024" and "length ws \<le> n" and "k < length ws"
  shows "load32 (stack_memory e 0 ws (ram s)) (below e k) = ws ! k"
proof -
  fix c :: cpu
  have esp: "cpu_esp (c\<lparr>cpu_esp := e\<rparr>) = e - 4 * of_nat 0" by simp
  have "0 + length ws \<le> n" using assms(4) by simp
  from push_all_stack [OF assms(1-3) this esp] push_all_memory [OF assms(1,2) this esp]
  obtain m where "s\<lparr>ram := m\<rparr> = s\<lparr>ram := stack_memory e 0 ws (ram s)\<rparr>" "\<forall>k < length ws. load32 m (below e (0 + k)) = ws ! k"
    by auto
  moreover from arg_cong [OF this(1), of ram] have "m = stack_memory e 0 ws (ram s)" by simp
  ultimately show ?thesis using assms(5) by simp
qed

text \<open>The words it pushes, with the state of the stack after the first \<open>j\<close> of them.\<close>

definition return_words :: "addr \<Rightarrow> addr \<Rightarrow> cpu \<Rightarrow> mem \<Rightarrow> u32 list" where
  "return_words here regs c m =
     [load32 m (reg_ss regs), load32 m (reg_esp regs), cpu_flags c OR 0x200, load32 m (reg_cs regs), load32 m (reg_ip regs),
      regs, here, cpu_esp c]"

definition return_memory :: "addr \<Rightarrow> addr \<Rightarrow> cpu \<Rightarrow> mem \<Rightarrow> nat \<Rightarrow> mem" where
  "return_memory here regs c m j = stack_memory (cpu_esp c) 0 (take j (return_words here regs c m)) m"

lemma stack_memory_snoc: "stack_memory e k (ws @ [w]) m = store32 (stack_memory e k ws m) (below e (k + length ws)) w"
  by (induction ws arbitrary: k m) simp_all

lemma return_memory_push:
  assumes "return_ready X regs c s" and "j < 8" and "k = Suc j" and "cpu_esp d - 4 = below (cpu_esp c) j"
    and "w = return_words here regs c (ram s) ! j"
  shows "push w (d, s\<lparr>ram := return_memory here regs c (ram s) j\<rparr>) =
    Done (d\<lparr>cpu_esp := below (cpu_esp c) j\<rparr>, s\<lparr>ram := return_memory here regs c (ram s) k\<rparr>)"
proof -
  let ?m = "return_memory here regs c (ram s)"
  have r: "maps_stack X (cr3 s) (cpu_esp c) 8 (ram s)" "stack_bytes (cpu_esp c) 8 \<inter> X = {}"
    using assms(1) unfolding return_ready_def by blast+
  have len: "length (return_words here regs c (ram s)) = 8" by (simp add: return_words_def)
  have "same_on X (ram s) (?m j)"
    unfolding return_memory_def by (rule same_on_stack_memory [OF same_on_refl r(2)]) (simp add: len)
  moreover have "?m k = store32 (?m j) (below (cpu_esp c) j) w"
    using assms(2,3,5) len by (simp add: return_memory_def take_Suc_conv_app_nth stack_memory_snoc)
  ultimately show ?thesis
    using push_at [of X "s\<lparr>ram := ?m j\<rparr>" "cpu_esp c" 8 j d w] maps_stack_cong [OF r(1)] r(2) assms(2,4) by simp
qed

lemma return_memory_same: "return_ready X regs c s \<Longrightarrow> same_on X (ram s) (return_memory here regs c (ram s) j)"
  unfolding return_memory_def
  by (rule same_on_stack_memory [where n = 8 and e = "cpu_esp c"]) (simp_all add: return_ready_def return_words_def)

lemma return_memory_reg:
  assumes "return_ready X regs c s" and "k < 12" and "a = regs + 4 * of_nat k"
  shows "vload32 (cr3 s) a (return_memory here regs c (ram s) j) = Done (load32 (ram s) a)"
proof -
  have r: "maps X (cr3 s) a a (ram s)" "word_bytes a \<subseteq> X" using assms unfolding return_ready_def by blast+
  note same = return_memory_same [OF assms(1), of here j]
  show ?thesis using vload32_maps [OF maps_cong [OF r(1) same]] same_on_load32 [OF same r(2)] by simp
qed

lemma return_memory_arg:
  assumes "return_ready X regs c s"
  shows "vload32 (cr3 s) (cpu_esp c + 4) (return_memory here regs c (ram s) j) = Done regs"
proof -
  have r: "maps X (cr3 s) (cpu_esp c + 4) (cpu_esp c + 4) (ram s)" "word_bytes (cpu_esp c + 4) \<subseteq> X"
    "load32 (ram s) (cpu_esp c + 4) = regs" using assms unfolding return_ready_def by blast+
  note same = return_memory_same [OF assms(1), of here j]
  show ?thesis using vload32_maps [OF maps_cong [OF r(1) same]] same_on_load32 [OF same r(2)] r(3) by simp
qed

lemma return_memory_word:
  assumes "return_ready X regs c s" and "k < 8"
  shows "vload32 (cr3 s) (below (cpu_esp c) k) (return_memory here regs c (ram s) 8) = Done (return_words here regs c (ram s) ! k)"
proof -
  have r: "maps_stack X (cr3 s) (cpu_esp c) 8 (ram s)" "stack_bytes (cpu_esp c) 8 \<inter> X = {}"
    using assms(1) unfolding return_ready_def by blast+
  have len: "length (return_words here regs c (ram s)) = 8" by (simp add: return_words_def)
  have "maps X (cr3 s) (below (cpu_esp c) k) (below (cpu_esp c) k) (ram s)" using r(1) assms(2) by (simp add: maps_stack_def)
  note load = vload32_maps [OF maps_cong [OF this return_memory_same [OF assms(1)]], of here 8]
  show ?thesis unfolding load using stack_memory_words [OF r, of "return_words here regs c (ram s)" k] len assms(2)
    by (simp add: return_memory_def)
qed

lemma pop_load: "vload32 (cr3 s) (cpu_esp d) (ram s) = Done w \<Longrightarrow> pop (d, s) = Done (w, d\<lparr>cpu_esp := cpu_esp d + 4\<rparr>, s)"
  by (simp add: pop_def)

lemma below_0: "e - 4 = below e 0"
  by (simp add: below_def)

lemma task_return_steps:
  fixes here :: addr
  assumes ready: "return_ready X regs c s"
  defines "e \<equiv> cpu_esp c" and "r \<equiv> load32 (ram s)"
  shows "task_return here (c, s) = Done (c\<lparr>cpu_edi := r (reg_edi regs), cpu_esi := r (reg_esi regs), cpu_ebp := e,
     cpu_ebx := r (reg_ebx regs), cpu_edx := r (reg_edx regs), cpu_ecx := r (reg_ecx regs), cpu_eax := r (reg_eax regs),
     cpu_esp := r (reg_esp regs), cpu_eip := r (reg_ip regs), cpu_cs := r (reg_cs regs), cpu_flags := cpu_flags c OR 0x200,
     cpu_ss := r (reg_ss regs)\<rparr>, s\<lparr>ram := return_memory here regs c (ram s) 8\<rparr>)"
proof -
  have "return_memory here regs c (ram s) 0 = ram s" by (simp add: return_memory_def)
  then have start: "push w (d, s) = push w (d, s\<lparr>ram := return_memory here regs c (ram s) 0\<rparr>)"
    "vload32 (cr3 s) a (ram s) = vload32 (cr3 s) a (return_memory here regs c (ram s) 0)" for w d a by simp_all
  note push = return_memory_push [OF ready, of 0 "Suc 0" _ _ here]
    return_memory_push [OF ready, of "Suc 0" 2 _ _ here]
    return_memory_push [OF ready, of 2 3 _ _ here]
    return_memory_push [OF ready, of 3 4 _ _ here]
    return_memory_push [OF ready, of 4 5 _ _ here]
    return_memory_push [OF ready, of 5 6 _ _ here]
    return_memory_push [OF ready, of 6 7 _ _ here]
    return_memory_push [OF ready, of 7 8 _ _ here]
  note next_esp = below_0 [of "cpu_esp c"] below_next [of "Suc 0" 0 "cpu_esp c"] below_next [of 2 "Suc 0" "cpu_esp c"] below_next [of 3 2 "cpu_esp c"] below_next [of 4 3 "cpu_esp c"] below_next [of 5 4 "cpu_esp c"] below_next [of 6 5 "cpu_esp c"] below_next [of 7 6 "cpu_esp c"]
  note load = return_memory_reg [OF ready, of 0 regs here]
    return_memory_reg [OF ready, of 1 "regs + 4" here]
    return_memory_reg [OF ready, of 2 "regs + 8" here]
    return_memory_reg [OF ready, of 3 "regs + 12" here]
    return_memory_reg [OF ready, of 4 "regs + 16" here]
    return_memory_reg [OF ready, of 5 "regs + 20" here]
    return_memory_reg [OF ready, of 6 "regs + 24" here]
    return_memory_reg [OF ready, of 7 "regs + 28" here]
    return_memory_reg [OF ready, of 8 "regs + 32" here]
    return_memory_reg [OF ready, of 10 "regs + 40" here]
    return_memory_reg [OF ready, of 11 "regs + 44" here]
  have words: "vload32 (cr3 s) (below (cpu_esp c) k) (return_memory here regs c (ram s) 8) =
      Done ([load32 (ram s) (regs + 44), load32 (ram s) (regs + 40), cpu_flags c OR 0x200, load32 (ram s) (regs + 32),
        load32 (ram s) (regs + 28), regs, here, cpu_esp c] ! k)" if "k < 8" for k
    using return_memory_word [OF ready that, of here] by (simp add: return_words_def layout)
  have arg8: "vload32 (cr3 s) (below (cpu_esp c) 7 + 8) (return_memory here regs c (ram s) 8) = Done regs"
    using words [of 5] by (simp add: below_def)
  let ?c = "c\<lparr>cpu_ebp := cpu_esp c, cpu_ebx := regs, cpu_eax := cpu_flags c OR 0x200, cpu_esp := below (cpu_esp c) 6\<rparr>"
  have "task_return here (c, s) =
      obind (restore_general_purpose_registers (?c, s\<lparr>ram := return_memory here regs c (ram s) 7\<rparr>))
        (\<lambda>(c, s). iretd (c\<lparr>cpu_esp := cpu_esp c + 4\<rparr>, s))"
    by (simp add: task_return_def Let_def start return_memory_arg [OF ready] load push next_esp layout return_words_def)
  then show ?thesis
    by (simp add: restore_general_purpose_registers_def iretd_def Let_def load push next_esp arg8 pop_load words below_add
      return_words_def layout e_def r_def)
qed

section \<open>A task that has not run\<close>

definition entry_slots :: "addr set" where
  "entry_slots = {0x1005004, 0x10067FC, 0x1005010, 0x100700C, 0x5FFFF4}"

definition entry_memory :: mem where
  "entry_memory = store32 (store32 (store32 (store32 (store32 (store32 (store32 (store32 (store32 (store32 (\<lambda>_. 0)
     0x1005004 0x1006007) 0x10067FC 0x5FF007) 0x1005010 0x1007007) 0x100700C 0x1003007) 0x5FFFF4 0x1003004)
     0x100300C 7) 0x1003020 0x400000) 0x1003024 0x1B) 0x100302C 0x3FF000) 0x1003030 0x23"

definition entry_fixed :: "addr set" where
  "entry_fixed = \<Union> (word_bytes ` entry_slots) \<union> reg_bytes 0x1003000"

definition entry_state :: system where
  "entry_state = fd_state\<lparr>ram := entry_memory, cr3 := 0x1005000\<rparr>"

definition entry_cpu :: cpu where
  "entry_cpu = trap_cpu\<lparr>cpu_esp := 0x5FFFF0, cpu_flags := 2\<rparr>"

lemma entry_words:
  "load32 entry_memory 0x1005004 = 0x1006007" "load32 entry_memory 0x10067FC = 0x5FF007"
  "load32 entry_memory 0x1005010 = 0x1007007" "load32 entry_memory 0x100700C = 0x1003007"
  "load32 entry_memory 0x5FFFF4 = 0x1003004"
  by (simp_all add: entry_memory_def load32_store32_other)

lemma entry_maps:
  fixes V d f :: u32
  assumes "(V, d, f) \<in> {(0x5FF000, 0x1006007, 0x5FF007), (0x1003000, 0x1007007, 0x1003007)}"
    and "\<forall>k \<in> {0, 1, 2, 3}. (v + k) div 4096 = V div 4096 \<and> frame_of f + (v + k) mod 4096 = p + k"
  shows "maps entry_fixed 0x1005000 v p entry_memory"
proof (rule maps_page [where V = V and d = d and f = f])
  have slots: "word_bytes a \<subseteq> entry_fixed" if "a \<in> entry_slots" for a using that by (auto simp: entry_fixed_def)
  have frames: "frame_of 0x1006007 = 0x1006000" "frame_of 0x1007007 = 0x1007000" by (simp_all add: frame_of_def)
  show "word_bytes (pte_slot 0x1005000 (V div 0x400000)) \<subseteq> entry_fixed"
    by (rule slots) (use assms(1) in \<open>auto simp: entry_slots_def pte_slot_def\<close>)
  show "word_bytes (pte_slot (frame_of d) (V mod 0x400000 div 4096)) \<subseteq> entry_fixed"
    by (rule slots) (use assms(1) in \<open>auto simp: entry_slots_def pte_slot_def frames\<close>)
  show "load32 entry_memory (pte_slot 0x1005000 (V div 0x400000)) = d"
    using assms(1) by (auto simp: pte_slot_def entry_words)
  show "load32 entry_memory (pte_slot (frame_of d) (V mod 0x400000 div 4096)) = f"
    using assms(1) by (auto simp: pte_slot_def frames entry_words)
qed (use assms in auto)

lemma entry_ready: "return_ready entry_fixed 0x1003004 entry_cpu entry_state"
proof -
  have s: "ram entry_state = entry_memory" "cr3 entry_state = 0x1005000" "cpu_esp entry_cpu = 0x5FFFF0"
    by (simp_all add: entry_state_def entry_cpu_def)
  have frames: "frame_of 0x5FF007 = 0x5FF000" "frame_of 0x1003007 = 0x1003000" by (simp_all add: frame_of_def)
  have stack: "maps_stack entry_fixed 0x1005000 0x5FFFF0 8 entry_memory"
    unfolding maps_stack_def
  proof (intro allI impI)
    fix k :: nat assume "k < 8"
    then have "k = 0 \<or> k = 1 \<or> k = 2 \<or> k = 3 \<or> k = 4 \<or> k = 5 \<or> k = 6 \<or> k = 7" by arith
    then show "maps entry_fixed 0x1005000 (below 0x5FFFF0 k) (below 0x5FFFF0 k) entry_memory"
      by (intro entry_maps [where V = "0x5FF000" and d = "0x1006007" and f = "0x5FF007"], simp, elim disjE)
        (simp_all add: below_def frames)
  qed
  have arg: "maps entry_fixed 0x1005000 0x5FFFF4 0x5FFFF4 entry_memory"
    by (rule entry_maps [where V = "0x5FF000" and d = "0x1006007" and f = "0x5FF007"]) (simp_all add: frames)
  have regs: "maps entry_fixed 0x1005000 (0x1003004 + 4 * of_nat k) (0x1003004 + 4 * of_nat k) entry_memory \<and>
      word_bytes (0x1003004 + 4 * of_nat k) \<subseteq> entry_fixed" if "k < 12" for k :: nat
  proof
    from that have "k = 0 \<or> k = 1 \<or> k = 2 \<or> k = 3 \<or> k = 4 \<or> k = 5 \<or> k = 6 \<or> k = 7 \<or> k = 8 \<or> k = 9 \<or> k = 10 \<or> k = 11" by arith
    then show "maps entry_fixed 0x1005000 (0x1003004 + 4 * of_nat k) (0x1003004 + 4 * of_nat k) entry_memory"
      by (intro entry_maps [where V = "0x1003000" and d = "0x1007007" and f = "0x1003007"], simp, elim disjE) (simp_all add: frames)
    show "word_bytes (0x1003004 + 4 * of_nat k) \<subseteq> entry_fixed"
      using that by (auto simp: entry_fixed_def reg_bytes_def layout)
  qed
  have out: "0x5FFFD0 \<le> a \<and> a \<le> 0x5FFFEF" if a: "a \<in> stack_bytes 0x5FFFF0 8" for a
  proof -
    from a obtain k where "k < 8" "a \<in> word_bytes (below 0x5FFFF0 k)" by (auto simp: stack_bytes_def)
    then have "k = 0 \<or> k = 1 \<or> k = 2 \<or> k = 3 \<or> k = 4 \<or> k = 5 \<or> k = 6 \<or> k = 7" by arith
    with \<open>a \<in> word_bytes (below 0x5FFFF0 k)\<close> show ?thesis by (elim disjE) (auto simp: below_def word_bytes_def)
  qed
  have "stack_bytes 0x5FFFF0 8 \<inter> reg_bytes 0x1003000 = {}" by (rule range_disjoint [OF out trap_ranges(2)]) simp_all
  moreover have "a \<notin> \<Union> (word_bytes ` entry_slots)" if "a \<in> stack_bytes 0x5FFFF0 8" for a
    using out [OF that] by (auto simp: entry_slots_def word_bytes_def)
  ultimately have "stack_bytes 0x5FFFF0 8 \<inter> entry_fixed = {}" unfolding entry_fixed_def by blast
  moreover have "word_bytes 0x5FFFF4 \<subseteq> entry_fixed" by (auto simp: entry_fixed_def entry_slots_def)
  ultimately show ?thesis using stack arg regs by (simp add: return_ready_def s entry_words)
qed

section \<open>The start of a program\<close>

text \<open>
  \<open>_start\<close> of \<open>stdlib/src/start.asm\<close> calls \<open>main\<close>, which is compiled C and a parameter, and
  returns: nobody has called it, so that it goes on at whatever the word at the first stack
  pointer is.
\<close>

definition program_start :: "addr \<Rightarrow> ('a running \<Rightarrow> 'a running outcome) \<Rightarrow> 'a running \<Rightarrow> 'a running outcome" where
  "program_start here main st =
     obind (push here st) (\<lambda>st. obind (main st) (\<lambda>st. obind (pop st) (\<lambda>(eip, c, s). Done (c\<lparr>cpu_eip := eip\<rparr>, s))))"

lemma program_start_leaves:
  assumes "maps X (cr3 s) (cpu_esp c - 4) u (ram s)" and "word_bytes u \<inter> X = {}" and "maps X (cr3 s) (cpu_esp c) v (ram s)"
    and "main (c\<lparr>cpu_esp := cpu_esp c - 4\<rparr>, s\<lparr>ram := store32 (ram s) u here\<rparr>) = Done (d, t)"
    and "cpu_esp d = cpu_esp c" and "cr3 t = cr3 s" and "same_on X (ram s) (ram t)"
  shows "program_start here main (c, s) = Done (d\<lparr>cpu_eip := load32 (ram t) v, cpu_esp := cpu_esp c + 4\<rparr>, t)"
proof -
  have "maps X (cr3 t) (cpu_esp d) v (ram t)" using maps_cong [OF assms(3,7)] assms(5,6) by simp
  from pop_maps [OF this] show ?thesis using push_maps [OF assms(1,2), of here] assms(4,5) by (simp add: program_start_def)
qed

section \<open>Properties\<close>

text \<open>
  C23. The first entry into a task: \<open>task_return\<close> leaves the kernel with the saved
  registers and the saved stack and code segments, except that \<open>ebp\<close> is the kernel's stack
  pointer instead of the saved one, and that the flags are the kernel's with interrupts on
  (\<open>0x200\<close>) instead of the saved ones; only the eight words below the stack
  pointer are written.
\<close>

theorem task_return_enters:
  assumes "return_ready X regs c s"
  shows "\<exists>m. task_return here (c, s) = Done (\<lparr>cpu_edi = load32 (ram s) (reg_edi regs), cpu_esi = load32 (ram s) (reg_esi regs),
       cpu_ebp = cpu_esp c, cpu_ebx = load32 (ram s) (reg_ebx regs), cpu_edx = load32 (ram s) (reg_edx regs),
       cpu_ecx = load32 (ram s) (reg_ecx regs), cpu_eax = load32 (ram s) (reg_eax regs), cpu_esp = load32 (ram s) (reg_esp regs),
       cpu_eip = load32 (ram s) (reg_ip regs), cpu_cs = load32 (ram s) (reg_cs regs), cpu_flags = cpu_flags c OR 0x200,
       cpu_ss = load32 (ram s) (reg_ss regs)\<rparr>, s\<lparr>ram := m\<rparr>) \<and>
     same_on (- stack_bytes (cpu_esp c) 8) (ram s) m"
proof -
  have "same_on (- stack_bytes (cpu_esp c) 8) (ram s) (return_memory here regs c (ram s) 8)"
    unfolding return_memory_def by (rule same_on_stack_memory [of _ _ _ _ 8]) (simp_all add: return_words_def)
  then show ?thesis
    by (intro exI [of _ "return_memory here regs c (ram s) 8"] conjI)
      (use task_return_steps [OF assms, of here] in \<open>cases c; simp\<close>)
qed

theorem task_return_enters_witness:
  "\<exists>m. task_return 0x101234 (entry_cpu, entry_state) = Done (\<lparr>cpu_edi = 0, cpu_esi = 0, cpu_ebp = 0x5FFFF0, cpu_ebx = 0,
     cpu_edx = 0, cpu_ecx = 0, cpu_eax = 0, cpu_esp = 0x3FF000, cpu_eip = 0x400000, cpu_cs = 0x1B, cpu_flags = 0x202,
     cpu_ss = 0x23\<rparr>, entry_state\<lparr>ram := m\<rparr>)"
proof -
  have "ram entry_state = entry_memory" "cpu_esp entry_cpu = 0x5FFFF0" "cpu_flags entry_cpu = 2"
    by (simp_all add: entry_state_def entry_cpu_def)
  moreover have "load32 entry_memory 0x1003004 = 0" "load32 entry_memory 0x1003008 = 0" "load32 entry_memory 0x1003010 = 0"
    "load32 entry_memory 0x1003014 = 0" "load32 entry_memory 0x1003018 = 0" "load32 entry_memory 0x100301C = 0"
    "load32 entry_memory 0x1003020 = 0x400000" "load32 entry_memory 0x1003024 = 0x1B" "load32 entry_memory 0x100302C = 0x3FF000"
    "load32 entry_memory 0x1003030 = 0x23"
    by (simp_all add: entry_memory_def load32_store32_other) (simp_all add: load32_def)
  ultimately show ?thesis using task_return_enters [OF entry_ready, of "0x101234"] by (auto simp: layout)
qed

end
