(* ===== verification/Process_Map.thy ===== *)
theory Process_Map
  imports Process
begin

text \<open>
  What a process sees once \<open>process_map_memory\<close> of \<open>process.c\<close> has mapped it: the
  composition of the mapping of a flat binary, the mapping of its stack and the page map
  of theory \<open>Paging\<close>.
\<close>

section \<open>Mapping writes the tables only\<close>

lemma paging_map_loop_frame:
  assumes "chunk_ok m chunk" and "v mod 4096 = 0" and "p mod 4096 = 0"
    and "\<And>q. q \<in> chunk_tables m chunk \<Longrightarrow> a div 4096 \<noteq> q div 4096"
  shows "paging_map_loop chunk v p n flags m a = m a"
  using assms
proof (induction n arbitrary: m v p)
  case (Suc n)
  let ?dir = "load32 m chunk"
  let ?m = "store32 m (pte_addr m ?dir v) (p OR ucast flags)"
  note st = chunk_store [OF Suc.prems(1), of v "p OR ucast flags"]
  have "?m a = m a"
  proof (rule store32_page [OF pte_addr_page(2)])
    have "table_of m ?dir (v div 0x400000) \<in> chunk_tables m chunk"
      unfolding chunk_tables_eq using page_index_bounds(1) by blast
    from Suc.prems(4) [OF this] show "a div 4096 \<noteq> pte_addr m ?dir v div 4096" using pte_addr_page(1) by simp
  qed
  moreover have "(v + 4096) mod 4096 = 0" "(p + 4096) mod 4096 = 0"
    using aligned_add4096 [of v 4096] aligned_add4096 [of p 4096] Suc.prems(2,3) by simp_all
  then have "paging_map_loop chunk (v + 4096) (p + 4096) n flags ?m a = ?m a"
    using Suc.IH [OF st(3)] Suc.prems(4) st(2) by simp
  ultimately show ?case using Suc.prems(2,3) by (simp add: paging_map_eq PAGING_PAGE_SIZE_def)
qed simp

text \<open>A mapped range as a program sees it.\<close>

lemma map_pages_view:
  assumes "v mod 4096 = 0" and "p mod 4096 = 0"
    and "\<And>w. w mod 4096 = 0 \<Longrightarrow> pte_at m' dir w = map_pages v p n flags (pte_at m dir) w"
  shows "paging_get_paddr dir a m' = (if unat (a - v) div 4096 < n then p + (a - v) else paging_get_paddr dir a m)"
    and "paging_get_flags dir a m' = (if unat (a - v) div 4096 < n then ucast flags else paging_get_flags dir a m)"
proof -
  let ?L = "PAGE_ALIGN_LOWER a"
  have L: "?L + a mod 4096 = a" unfolding page_lower(1) by (rule div_mult_mod_eq)
  have al: "(?L - v) mod 4096 = 0" by (rule aligned_diff4096 [OF page_lower(2) assms(1)])
  have "(?L - v + a mod 4096) div 4096 = (?L - v) div 4096"
    using al by (intro aligned_add_div) (simp_all add: word_less_nat_alt unat_mod)
  moreover have "?L - v + a mod 4096 = a - v" using L by (simp add: algebra_simps)
  ultimately have "(?L - v) div 4096 = (a - v) div 4096" by simp
  from arg_cong [OF this, of unat] have n: "unat (?L - v) div 4096 = unat (a - v) div 4096" by (simp add: unat_div)
  have "(p + (?L - v)) mod 4096 = 0" by (rule aligned_add4096 [OF assms(2) al])
  note f = frame_of_or [OF this flags_small, of flags]
  have "p + (?L - v) + a mod 4096 = p + (a - v)" using L by (simp add: algebra_simps)
  then show "paging_get_paddr dir a m' = (if unat (a - v) div 4096 < n then p + (a - v) else paging_get_paddr dir a m)"
    by (simp add: paging_get_paddr_eq assms(3) [OF page_lower(2)] map_pages_def n f)
  show "paging_get_flags dir a m' = (if unat (a - v) div 4096 < n then ucast flags else paging_get_flags dir a m)"
    by (simp add: paging_get_flags_eq assms(3) [OF page_lower(2)] map_pages_def n f)
qed

lemma PAGE_ALIGN_aligned: "v mod 4096 = 0 \<Longrightarrow> PAGE_ALIGN v = v"
proof -
  assume v: "v mod 4096 = 0"
  have "(v + 4095) div 4096 = v div 4096" using v by (intro aligned_add_div) simp_all
  then have "PAGE_ALIGN v div 4096 = v div 4096" by (simp add: PAGE_ALIGN_div)
  with v PAGE_ALIGN_mod [of v] show ?thesis by (metis div_mult_mod_eq)
qed

lemma PAGE_ALIGN_le:
  assumes "unat v + 4095 < 4294967296"
  shows "v \<le> PAGE_ALIGN v"
proof -
  have "unat (v + 4095) = unat v + 4095" using assms by (subst unat_add_less) simp_all
  moreover have "unat (PAGE_ALIGN v) div 4096 = unat (v + 4095) div 4096"
    using arg_cong [OF PAGE_ALIGN_div [of v], of unat] by (simp add: unat_div)
  ultimately show ?thesis by (simp add: word_le_nat_alt)
qed

text \<open>What lies outside the tables of a chunk stays as it is.\<close>

definition off_tables :: "mem \<Rightarrow> addr \<Rightarrow> addr \<Rightarrow> nat \<Rightarrow> bool" where
  "off_tables m c p n = (\<forall>i < n. \<forall>q \<in> chunk_tables m c. (p + of_nat i) div 4096 \<noteq> q div 4096)"

definition tables_frame :: "addr \<Rightarrow> mem \<Rightarrow> mem \<Rightarrow> bool" where
  "tables_frame c m m' = (chunk_tables m' c = chunk_tables m c \<and> load32 m' c = load32 m c \<and>
     (\<forall>a. (\<forall>q \<in> chunk_tables m c. a div 4096 \<noteq> q div 4096) \<longrightarrow> m' a = m a))"

lemma tables_frame_trans: "tables_frame c m m' \<Longrightarrow> tables_frame c m' m'' \<Longrightarrow> tables_frame c m m''"
  by (simp add: tables_frame_def)

lemma off_tables_frame: "tables_frame c m m' \<Longrightarrow> off_tables m' c p n = off_tables m c p n"
  by (simp add: tables_frame_def off_tables_def)

lemma tables_frame_byte:
  assumes "tables_frame c m m'" and "off_tables m c p n" and "unat i < n"
  shows "m' (p + i) = m (p + i)"
proof -
  have "\<forall>q \<in> chunk_tables m c. (p + of_nat (unat i)) div 4096 \<noteq> q div 4096"
    using assms(2,3) unfolding off_tables_def by blast
  with assms(1) show ?thesis by (simp add: tables_frame_def)
qed

lemma tables_frame_load:
  assumes "tables_frame c m m'" and "off_tables m c p n" and "unat i + 4 \<le> n"
  shows "load32 m' (p + i) = load32 m (p + i)"
proof (rule load32_same)
  fix k :: u32 assume "k < 4"
  then have "unat (i + k) < n"
    using assms(3) by (simp add: word_less_nat_alt unat_word_ariths le_less_trans [OF mod_less_eq_dividend])
  from tables_frame_byte [OF assms(1,2) this] show "m' (p + i + k) = m (p + i + k)" by (simp add: add.assoc)
qed

lemma tables_frame_word: "tables_frame c m m' \<Longrightarrow> off_tables m c p 4 \<Longrightarrow> load32 m' p = load32 m p"
  using tables_frame_load [of c m m' p 4 0] by simp

text \<open>A range of frames, mapped in one call.\<close>

definition range_view :: "addr \<Rightarrow> addr \<Rightarrow> addr \<Rightarrow> (addr \<Rightarrow> addr) \<Rightarrow> addr \<Rightarrow> addr" where
  "range_view v p pend f = (\<lambda>a. if unat (a - v) < unat (pend - p) then p + (a - v) else f a)"

lemma paging_map_to_view:
  assumes "chunk_ok m c" and "v mod 4096 = 0" and "p mod 4096 = 0" and "pend mod 4096 = 0" and "p \<le> pend"
  obtains m' where "paging_map_to c v p pend flags m = (0, m')" and "chunk_ok m' c" and "tables_frame c m m'"
    and "(\<lambda>a. paging_get_paddr (load32 m c) a m') = range_view v p pend (\<lambda>a. paging_get_paddr (load32 m c) a m)"
    and "\<And>a. paging_get_flags (load32 m c) a m' =
      (if unat (a - v) < unat (pend - p) then ucast flags else paging_get_flags (load32 m c) a m)"
proof -
  from paging_map_to_spec [OF assms, of flags] obtain m' where
    m': "paging_map_to c v p pend flags m = (0, m')" "chunk_ok m' c" "load32 m' c = load32 m c"
      "chunk_tables m' c = chunk_tables m c"
    and pte: "\<And>w. w mod 4096 = 0 \<Longrightarrow> pte_at m' (load32 m c) w =
      map_pages v p (unat (pend - p) div 4096) flags (pte_at m (load32 m c)) w" by blast
  have "(pend - p) mod 4096 = 0" by (rule aligned_diff4096 [OF assms(4,3)])
  from arg_cong [OF this, of unat] have "unat (pend - p) mod 4096 = 0" by (simp add: unat_mod)
  then have n: "unat (a - v) div 4096 < unat (pend - p) div 4096 \<longleftrightarrow> unat (a - v) < unat (pend - p)" for a
    by (metis div_less_iff_less_mult dvd_div_mult_self mod_0_imp_dvd zero_less_numeral)
  have "m' = paging_map_loop c v p (unat ((pend - p) div 4096)) flags m"
    using m'(1) assms(2-5) by (simp add: paging_map_to_def paging_map_range_def PAGING_PAGE_SIZE_def Let_def not_less split: if_splits)
  then have "tables_frame c m m'"
    using paging_map_loop_frame [OF assms(1-3)] m'(3,4) by (simp add: tables_frame_def)
  moreover have "(\<lambda>a. paging_get_paddr (load32 m c) a m') = range_view v p pend (\<lambda>a. paging_get_paddr (load32 m c) a m)"
    by (simp add: range_view_def fun_eq_iff map_pages_view(1) [OF assms(2,3) pte, unfolded n])
  ultimately show thesis using that m'(1,2) map_pages_view(2) [OF assms(2,3) pte, unfolded n] by blast
qed

lemma aligned_end:
  fixes v :: u32
  shows "v mod 4096 = 0 \<Longrightarrow> unat v < 0x10000000 \<Longrightarrow> (v + 0x4000) mod 4096 = 0 \<and> v \<le> v + 0x4000 \<and> v + 0x4000 - v = 0x4000"
  using aligned_add4096 [of v "0x4000"] unat_add_less [of v "0x4000"] by (simp add: word_le_nat_alt)

text \<open>The second half of \<open>process_map_memory\<close>, the stack, behind the mapping of the program.\<close>

lemma process_stack_view:
  assumes "chunk_ok m c" and "c = process_chunk process m" and "stack \<in> kheap_pool" and "load32 m (process_stack process) = stack"
    and "off_tables m c (process_stack process) 4" and "off_tables m c (process_task process) 4"
    and "off_tables m c (task_page_directory (load32 m (process_task process))) 4"
    and "(if m (process_filetype process) = PROCESS_FILETYPE_ELF then Done (process_map_elf process m)
       else if m (process_filetype process) = PROCESS_FILETYPE_BINARY then Done (process_map_binary process m)
       else Panic ''process_map_memory: Unexpected filetype'') = Done (0, m1)"
    and "chunk_ok m1 c" and "tables_frame c m m1"
  obtains m' where "process_map_memory process m = Done (0, m')" and "tables_frame c m m'"
    and "(\<lambda>a. paging_get_paddr (load32 m c) a m') =
      range_view 0x3FB000 stack (stack + 0x4000) (\<lambda>a. paging_get_paddr (load32 m c) a m1)"
    and "\<And>a. paging_get_flags (load32 m c) a m' = (if unat (a - 0x3FB000) < 0x4000 then 7 else paging_get_flags (load32 m c) a m1)"
proof -
  have v: "(0x3FB000 :: u32) mod 4096 = 0" by simp
  have s: "stack mod 4096 = 0" "unat stack < 0x10000000"
    using kheap_pool_page [OF assms(3)] assms(3) by (auto simp: kheap_pool_def unat_kernel_block)
  note e = aligned_end [OF s]
  have dir: "load32 m1 c = load32 m c" using assms(10) by (simp add: tables_frame_def)
  obtain m2 where m2: "paging_map_to c 0x3FB000 stack (stack + 0x4000) 7 m1 = (0, m2)" "tables_frame c m1 m2"
    "(\<lambda>a. paging_get_paddr (load32 m c) a m2) = range_view 0x3FB000 stack (stack + 0x4000) (\<lambda>a. paging_get_paddr (load32 m c) a m1)"
    "\<And>a. paging_get_flags (load32 m c) a m2 = (if unat (a - 0x3FB000) < unat (stack + 0x4000 - stack) then ucast (7 :: u8) else paging_get_flags (load32 m c) a m1)"
    using paging_map_to_view [OF assms(9) v s(1), of "stack + 0x4000" 7] e dir by metis
  note same = tables_frame_word [OF assms(10)]
  have "process_chunk process m1 = c" "load32 m1 (process_stack process) = stack"
    using same [OF assms(5)] same [OF assms(6)] same [OF assms(7)] assms(2,4) by (simp_all add: process_chunk_def)
  moreover have "(PAGING_IS_PRESENT OR PAGING_IS_WRITABLE OR PAGING_ACCESS_FROM_ALL) = 7" by (simp add: config_defs)
  moreover have "PAGE_ALIGN (stack + 0x4000) = stack + 0x4000" by (rule PAGE_ALIGN_aligned) (use e in blast)
  ultimately have "process_map_memory process m = Done (0, m2)"
    unfolding process_map_memory_def assms(8) using m2(1)
    by (simp add: PHIX_PROGRAM_VIRTUAL_STACK_ADDRESS_END_def PHIX_PROGRAM_VIRTUAL_STACK_ADDRESS_START_def PHIX_USER_PROGRAM_STACK_SIZE_def)
  with that tables_frame_trans [OF assms(10) m2(2)] m2(3,4) e show thesis by simp
qed

section \<open>Properties\<close>

text \<open>
  C14. A flat binary in its process: \<open>process_map_memory\<close> succeeds, the program is seen from
  \<open>0x400000\<close> on up to the end of its last page, the stack below \<open>0x3FF000\<close>, both present,
  writable and open to user mode, and everything else at the addresses it had.
\<close>

theorem process_map_binary_view:
  assumes "chunk_ok m c" and "c = process_chunk process m" and "m (process_filetype process) = PROCESS_FILETYPE_BINARY"
    and "load32 m (process_p process) = p" and "p \<in> kheap_pool"
    and "load32 m (process_size process) = sz" and "unat sz < 0x80000000"
    and "load32 m (process_stack process) = stack" and "stack \<in> kheap_pool"
    and "off_tables m c (process_stack process) 4" and "off_tables m c (process_task process) 4"
    and "off_tables m c (task_page_directory (load32 m (process_task process))) 4"
  shows "\<exists>m'. process_map_memory process m = Done (0, m') \<and>
     (\<forall>a. paging_get_paddr (load32 m c) a m' =
        (if unat (a - 0x3FB000) < 0x4000 then stack + (a - 0x3FB000)
         else if unat (a - 0x400000) < unat (PAGE_ALIGN (p + sz) - p) then p + (a - 0x400000)
         else paging_get_paddr (load32 m c) a m) \<and>
      paging_get_flags (load32 m c) a m' =
        (if unat (a - 0x3FB000) < 0x4000 \<or> unat (a - 0x400000) < unat (PAGE_ALIGN (p + sz) - p) then 7
         else paging_get_flags (load32 m c) a m))"
proof -
  let ?pend = "PAGE_ALIGN (p + sz)"
  have pool: "p mod 4096 = 0" "unat p < 0x10000000" "unat stack < 0x10000000"
    using kheap_pool_page [OF assms(5)] assms(5,9) by (auto simp: kheap_pool_def unat_kernel_block)
  have "unat (p + sz) = unat p + unat sz" using pool(2) assms(7) by (subst unat_add_less) simp_all
  then have pend: "p \<le> ?pend" using PAGE_ALIGN_le [of "p + sz"] pool(2) assms(7) by (simp add: word_le_nat_alt)
  have v: "(0x400000 :: u32) mod 4096 = 0" by simp
  obtain m1 where m1: "paging_map_to c 0x400000 p ?pend 7 m = (0, m1)" "chunk_ok m1 c" "tables_frame c m m1"
      "(\<lambda>a. paging_get_paddr (load32 m c) a m1) = range_view 0x400000 p ?pend (\<lambda>a. paging_get_paddr (load32 m c) a m)"
      "\<And>a. paging_get_flags (load32 m c) a m1 =
        (if unat (a - 0x400000) < unat (?pend - p) then ucast (7 :: u8) else paging_get_flags (load32 m c) a m)"
    using paging_map_to_view [OF assms(1) v pool(1) PAGE_ALIGN_mod pend, of 7] by metis
  have "(PAGING_IS_PRESENT OR PAGING_IS_WRITABLE OR PAGING_ACCESS_FROM_ALL) = 7" by (simp add: config_defs)
  then have "process_map_binary process m = (0, m1)"
    using m1(1) assms(2,4,6) by (simp add: process_map_binary_def PHIX_PROGRAM_VIRTUAL_ADDRESS_def)
  then have "(if m (process_filetype process) = PROCESS_FILETYPE_ELF then Done (process_map_elf process m)
       else if m (process_filetype process) = PROCESS_FILETYPE_BINARY then Done (process_map_binary process m)
       else Panic ''process_map_memory: Unexpected filetype'') = Done (0, m1)"
    using assms(3) by (simp add: PROCESS_FILETYPE_ELF_def PROCESS_FILETYPE_BINARY_def)
  from process_stack_view [OF assms(1,2,9,8,10-12) this m1(2,3)] obtain m' where
    m': "process_map_memory process m = Done (0, m')"
    "(\<lambda>a. paging_get_paddr (load32 m c) a m') = range_view 0x3FB000 stack (stack + 0x4000) (\<lambda>a. paging_get_paddr (load32 m c) a m1)"
    "\<And>a. paging_get_flags (load32 m c) a m' = (if unat (a - 0x3FB000) < 0x4000 then 7 else paging_get_flags (load32 m c) a m1)"
    by metis
  show ?thesis using m'(1,3) m1(5) fun_cong [OF m'(2) [unfolded m1(4)]] by (simp add: range_view_def)
qed

theorem process_map_binary_view_witness:
  "\<exists>m dir p m'. p \<in> kheap_pool \<and> process_map_memory 0x30000 m = Done (0, m') \<and>
     paging_get_paddr dir 0x400123 m' = p + 0x123 \<and> paging_get_paddr dir 0x3FEFFC m' = p + 0x3FFC \<and>
     paging_get_paddr dir 0xB8000 m' = 0xB8000"
proof -
  obtain c m0 where "chunk_ok m0 c \<and> chunk_pages m0 c \<subseteq> kheap_pool \<and> kheap_avail m0 = kheap_pool - chunk_pages m0 c \<and>
      (\<forall>v. v mod 4096 = 0 \<longrightarrow> pte_at m0 (load32 m0 c) v = v OR ucast (7 :: u8))"
    using paging_new_chunk_spec [of "\<lambda>_. 0" 7] by (auto simp: kheap_avail_zero card_kheap_pool)
  then have c: "chunk_ok m0 c" and pte: "\<And>v. v mod 4096 = 0 \<Longrightarrow> pte_at m0 (load32 m0 c) v = v OR 7" by simp_all
  obtain p where p: "p \<in> kheap_pool" using card_kheap_pool by fastforce
  let ?m = "store32 (store32 (store32 (store32 (store32 (store32 m0 0x40000 c) 0x30070 0x40000) 0x32078 p) 0x3207C 5000)
      0x32088 p) 0x32074 1"
  have high: "16777216 \<le> unat a" if "q \<in> chunk_pages m0 c" "a div 4096 = q div 4096" for q a
  proof -
    have "q \<in> kheap_pool" using that(1) c by (auto simp: chunk_pages_def chunk_tables_eq chunk_ok_def)
    then show ?thesis using that(2) by (rule kheap_pool_range)
  qed
  have low: "?m a = m0 a" if "q \<in> chunk_pages m0 c" "a div 4096 = q div 4096" for q a
  proof -
    have "a \<noteq> x" if "unat x < 16777216" for x using high [OF \<open>q \<in> _\<close> \<open>a div _ = _\<close>] that by auto
    then show ?thesis by (simp add: store32_def)
  qed
  note fr = chunk_frame [where m' = ?m, OF c low]
  have v: "load32 ?m 0x32078 = p" "load32 ?m 0x3207C = 5000" "load32 ?m 0x32088 = p" "load32 ?m 0x30070 = 0x40000"
    "load32 ?m 0x40000 = c"
    by (simp_all add: load32_store32_apart)
  have ft: "?m (process_filetype 0x30000) = PROCESS_FILETYPE_BINARY"
    by (simp add: layout PROCESS_FILETYPE_BINARY_def store32_def)
  have l: "process_task 0x30000 = 0x30070" "process_p 0x30000 = 0x32078" "process_size 0x30000 = 0x3207C"
    "process_stack 0x30000 = 0x32088" "task_page_directory 0x40000 = 0x40000" by (simp_all add: layout)
  have ch: "process_chunk 0x30000 ?m = c" by (simp only: process_chunk_def l v)
  have "chunk_pages ?m c = chunk_pages m0 c" by (rule chunk_frame(4) [OF c low])
  then have tabs: "chunk_tables ?m c \<subseteq> chunk_pages m0 c" unfolding chunk_pages_def [of ?m] by blast
  have off: "off_tables ?m c f 4" if f: "unat f \<le> 0x40000" for f
    unfolding off_tables_def
  proof (intro allI impI ballI notI)
    fix i :: nat and q assume "i < 4" and q: "q \<in> chunk_tables ?m c" and eq: "(f + of_nat i) div 4096 = q div 4096"
    have "q \<in> chunk_pages m0 c" using q tabs by blast
    from high [OF this eq] have "16777216 \<le> unat (f + of_nat i)" .
    moreover have "unat (f + of_nat i) = unat f + i" using f \<open>i < 4\<close> by (subst unat_add_less) (simp_all add: unat_of_nat32)
    ultimately show False using f \<open>i < 4\<close> by simp
  qed
  have offs: "off_tables ?m c (process_stack 0x30000) 4" "off_tables ?m c (process_task 0x30000) 4"
    "off_tables ?m c (task_page_directory (load32 ?m (process_task 0x30000))) 4"
    unfolding l v by (rule off; simp)+
  have ok: "chunk_ok ?m c" by (rule chunk_frame(3) [OF c low])
  have dir: "load32 ?m c = load32 m0 c" by (rule chunk_frame(1) [OF c low])
  have w: "load32 ?m (process_p 0x30000) = p" "load32 ?m (process_size 0x30000) = 5000" "load32 ?m (process_stack 0x30000) = p"
    by (simp_all only: l v)
  have "unat (5000 :: u32) < 0x80000000" by simp
  from process_map_binary_view [OF ok ch [symmetric] ft w(1) p w(2) this w(3) p offs, unfolded dir]
  obtain m' where m': "process_map_memory 0x30000 ?m = Done (0, m')"
    and view: "\<And>a. paging_get_paddr (load32 m0 c) a m' = (if unat (a - 0x3FB000) < 0x4000 then p + (a - 0x3FB000)
         else if unat (a - 0x400000) < unat (PAGE_ALIGN (p + 5000) - p) then p + (a - 0x400000)
         else paging_get_paddr (load32 m0 c) a ?m)" by auto
  have "(0xB8000 :: u32) mod 4096 = 0" by simp
  from fr(2) [where v = "0xB8000"] pte [OF this] have "paging_get_paddr (load32 m0 c) 0xB8000 ?m = 0xB8000"
    by (simp add: paging_get_paddr_eq page_lower(1) frame_of_def)
  moreover have size: "PAGE_ALIGN (p + 5000) = p + 8192"
  proof -
    have al: "(p + 8192) mod 4096 = 0" using kheap_pool_page [OF p] aligned_add4096 [of p 8192] by simp
    have "PAGE_ALIGN (p + 5000) div 4096 = (p + 8192 + 903) div 4096" by (simp add: PAGE_ALIGN_div add.assoc)
    also have "\<dots> = (p + 8192) div 4096" using al by (intro aligned_add_div) simp_all
    finally show ?thesis using al PAGE_ALIGN_mod [of "p + 5000"] by (metis div_mult_mod_eq)
  qed
  ultimately have "paging_get_paddr (load32 m0 c) 0xB8000 m' = 0xB8000" using view [of "0xB8000"] by simp
  moreover have "paging_get_paddr (load32 m0 c) 0x400123 m' = p + 0x123" using view [of "0x400123"] size by simp
  moreover have "paging_get_paddr (load32 m0 c) 0x3FEFFC m' = p + 0x3FFC" using view [of "0x3FEFFC"] by simp
  ultimately show ?thesis using p m' by blast
qed

end
