(* ===== verification/Elf_Map.thy ===== *)
theory Elf_Map
  imports Process_Map
begin

text \<open>
  What a process sees of an ELF file: the loop of \<open>process_map_elf\<close> over the program headers
  as the mapping of a list of segments, one after the other, and the stack behind it.
\<close>

section \<open>Segments of a loaded file\<close>

text \<open>The address, the offset in the file, the size in memory and the flags of a segment with bytes in the file.\<close>

type_synonym image_segment = "u32 \<times> u32 \<times> u32 \<times> u32"

definition header_at :: "mem \<Rightarrow> addr \<Rightarrow> addr \<Rightarrow> image_segment \<Rightarrow> bool" where
  "header_at m c p = (\<lambda>(v, off, sz, flags).
     load32 m (p_vaddr p) = v \<and> load32 m (p_offset p) = off \<and> load32 m (p_memsz p) = sz \<and> load32 m (p_flags p) = flags \<and>
     load32 m (p_filesz p) \<noteq> 0 \<and> off_tables m c p 32)"

text \<open>The \<open>struct elf_file\<close> at \<open>f\<close> and the file it points to, all of it outside the tables.\<close>

definition image_at :: "mem \<Rightarrow> addr \<Rightarrow> addr \<Rightarrow> image_segment list \<Rightarrow> bool" where
  "image_at m c f gs =
     (let h = elf_header f m in
      off_tables m c (ef_elf_memory f) 4 \<and> off_tables m c h 52 \<and> load16 m (e_phnum h) = of_nat (length gs) \<and>
      length gs < 65536 \<and> load32 m (e_phoff h) \<noteq> 0 \<and>
      (\<forall>k < length gs. header_at m c (h + load32 m (e_phoff h) + of_nat k * 32) (gs ! k)))"

text \<open>No segment reaches the last page of the address space.\<close>

definition image_fits :: "addr \<Rightarrow> image_segment \<Rightarrow> bool" where
  "image_fits start = (\<lambda>(v, off, sz, flags). unat (start + off) + unat sz + 4095 < 4294967296)"

definition segment_view :: "addr \<Rightarrow> image_segment \<Rightarrow> (addr \<Rightarrow> addr) \<Rightarrow> addr \<Rightarrow> addr" where
  "segment_view start = (\<lambda>(v, off, sz, flags).
     range_view (PAGE_ALIGN_LOWER v) (PAGE_ALIGN_LOWER (start + off)) (PAGE_ALIGN (start + off + sz)))"

lemma header_at_frame: "tables_frame c m m' \<Longrightarrow> header_at m c p g \<Longrightarrow> header_at m' c p g"
  using tables_frame_load [of c m m' p 32 8] tables_frame_load [of c m m' p 32 4] tables_frame_load [of c m m' p 32 16]
    tables_frame_load [of c m m' p 32 20] tables_frame_load [of c m m' p 32 24]
  by (auto simp: header_at_def layout off_tables_frame)

lemma image_at_frame:
  assumes "tables_frame c m m'" and "image_at m c f gs"
  shows "image_at m' c f gs" and "elf_header f m' = elf_header f m"
proof -
  let ?h = "elf_header f m"
  have off: "off_tables m c (ef_elf_memory f) 4" "off_tables m c ?h 52" using assms(2) unfolding image_at_def Let_def by blast+
  show h: "elf_header f m' = ?h" using tables_frame_word [OF assms(1) off(1)] by (simp add: elf_header_def)
  have "load16 m' (e_phnum ?h) = load16 m (e_phnum ?h)"
    using tables_frame_byte [OF assms(1) off(2), of 44] tables_frame_byte [OF assms(1) off(2), of 45]
    by (simp add: layout load16_def add.assoc)
  moreover have "load32 m' (e_phoff ?h) = load32 m (e_phoff ?h)"
    using tables_frame_load [OF assms(1) off(2), of 28] by (simp add: layout)
  ultimately show "image_at m' c f gs"
    using assms(2) header_at_frame [OF assms(1)] by (simp add: image_at_def h Let_def off_tables_frame [OF assms(1)])
qed

lemma PAGE_ALIGN_LOWER_le: "PAGE_ALIGN_LOWER v \<le> v"
proof -
  have "v mod 4096 \<le> v" by (simp add: word_le_nat_alt unat_mod)
  then show ?thesis by (simp add: PAGE_ALIGN_LOWER_def ALIGN_LOWER_def PAGING_PAGE_SIZE_def word_sub_le)
qed

text \<open>One program header: its pages are mapped, and nothing but the tables is written.\<close>

definition maps_of_process :: "mem \<Rightarrow> addr \<Rightarrow> addr \<Rightarrow> bool" where
  "maps_of_process m c process = (chunk_ok m c \<and> process_chunk process m = c \<and> off_tables m c (process_task process) 4 \<and>
     off_tables m c (task_page_directory (load32 m (process_task process))) 4)"

lemma maps_of_process_frame:
  "maps_of_process m c process \<Longrightarrow> tables_frame c m m' \<Longrightarrow> chunk_ok m' c \<Longrightarrow> maps_of_process m' c process"
  using tables_frame_word [of c m m'] by (auto simp: maps_of_process_def process_chunk_def off_tables_frame)

lemma process_map_phdr_view:
  assumes "maps_of_process m c process" and "header_at m c p g" and "image_fits (elf_header f m) g"
  obtains m' where "process_map_phdr process f p m = (0, m')" and "chunk_ok m' c" and "tables_frame c m m'"
    and "(\<lambda>a. paging_get_paddr (load32 m c) a m') = segment_view (elf_header f m) g (\<lambda>a. paging_get_paddr (load32 m c) a m)"
proof -
  obtain v off sz flags where g: "g = (v, off, sz, flags)" by (cases g) auto
  let ?y = "elf_header f m + off"
  let ?fl = "if flags AND PF_W \<noteq> 0 then PAGING_IS_PRESENT OR PAGING_ACCESS_FROM_ALL OR PAGING_IS_WRITABLE
    else PAGING_IS_PRESENT OR PAGING_ACCESS_FROM_ALL"
  have ok: "chunk_ok m c" "process_chunk process m = c" using assms(1) by (simp_all add: maps_of_process_def)
  have fit: "unat ?y + unat sz + 4095 < 4294967296" using assms(3) by (simp add: image_fits_def g)
  then have sum: "unat (?y + sz) = unat ?y + unat sz" by (subst unat_add_less) simp_all
  then have "?y + sz \<le> PAGE_ALIGN (?y + sz)" using fit by (intro PAGE_ALIGN_le) simp
  moreover have "?y \<le> ?y + sz" using sum by (simp add: word_le_nat_alt)
  ultimately have le: "PAGE_ALIGN_LOWER ?y \<le> PAGE_ALIGN (?y + sz)" using PAGE_ALIGN_LOWER_le [of ?y] by simp
  have "process_map_phdr process f p m =
      paging_map_to c (PAGE_ALIGN_LOWER v) (PAGE_ALIGN_LOWER ?y) (PAGE_ALIGN (?y + sz)) ?fl m"
    using assms(2) ok(2) by (simp add: process_map_phdr_def header_at_def g elf_phdr_paddr_def elf_header_def Let_def ac_simps)
  moreover obtain m' where
    m': "paging_map_to c (PAGE_ALIGN_LOWER v) (PAGE_ALIGN_LOWER ?y) (PAGE_ALIGN (?y + sz)) ?fl m = (0, m')"
      "chunk_ok m' c" "tables_frame c m m'"
    and view: "(\<lambda>a. paging_get_paddr (load32 m c) a m') =
      range_view (PAGE_ALIGN_LOWER v) (PAGE_ALIGN_LOWER ?y) (PAGE_ALIGN (?y + sz)) (\<lambda>a. paging_get_paddr (load32 m c) a m)"
    by (rule paging_map_to_view [OF ok(1) page_lower(2) page_lower(2) PAGE_ALIGN_mod le]) blast
  moreover have "segment_view (elf_header f m) g =
      range_view (PAGE_ALIGN_LOWER v) (PAGE_ALIGN_LOWER ?y) (PAGE_ALIGN (?y + sz))"
    by (simp add: segment_view_def g)
  ultimately show thesis using that by simp
qed

lemma process_map_elf_loop_view:
  assumes "image_at m c f gs" and "gs = pre @ rest" and "maps_of_process m c process"
    and "\<And>g. g \<in> set gs \<Longrightarrow> image_fits (elf_header f m) g" and "length rest < n"
  shows "\<exists>m'. process_map_elf_loop process f (elf_header f m) (of_nat (length pre)) 0 n m = (0, m') \<and>
     chunk_ok m' c \<and> tables_frame c m m' \<and>
     (\<lambda>a. paging_get_paddr (load32 m c) a m') =
       fold (segment_view (elf_header f m)) rest (\<lambda>a. paging_get_paddr (load32 m c) a m)"
  using assms
proof (induction rest arbitrary: pre m n)
  case Nil
  obtain n' where n: "n = Suc n'" using Nil.prems(5) by (cases n) auto
  have "process_map_elf_loop process f (elf_header f m) (of_nat (length pre)) 0 n m = (0, m)"
    using Nil.prems(1,2) by (simp add: n image_at_def Let_def sint_of_nat unsigned_of_nat take_bit_nat_eq_self)
  with Nil.prems(3) show ?case by (intro exI [of _ m]) (simp add: tables_frame_def maps_of_process_def)
next
  case (Cons g rest)
  obtain n' where n: "n = Suc n'" using Cons.prems(5) by (cases n) auto
  let ?h = "elf_header f m"
  let ?p = "?h + load32 m (e_phoff ?h) + of_nat (length pre) * 32"
  have s: "load16 m (e_phnum ?h) = of_nat (length gs)" "length gs < 65536" "load32 m (e_phoff ?h) \<noteq> 0"
    using Cons.prems(1) unfolding image_at_def Let_def by blast+
  have "length pre < length gs" by (simp add: Cons.prems(2))
  then have "header_at m c ?p (gs ! length pre)" using Cons.prems(1) unfolding image_at_def Let_def by blast
  then have hd: "header_at m c ?p g" by (simp add: Cons.prems(2))
  have p: "elf_program_header ?h (of_nat (length pre)) m = ?p"
    using s(3) by (simp add: elf_program_header_def elf_pheaders_def sizeof_phdr_def)
  have go: "sint (of_nat (length pre) :: i32) < sint (ucast (load16 m (e_phnum ?h)) :: i32)"
  proof -
    have "sint (ucast (of_nat (length gs) :: u16) :: i32) = int (length gs)"
      using s(2) by (simp add: sint_of_nat unsigned_of_nat take_bit_nat_eq_self)
    moreover have "sint (of_nat (length pre) :: i32) = int (length pre)" "length pre < length gs"
      using s(2) Cons.prems(2) by (simp_all add: sint_of_nat)
    ultimately show ?thesis using s(1) by simp
  qed
  have "g \<in> set gs" by (simp add: Cons.prems(2))
  from process_map_phdr_view [OF Cons.prems(3) hd Cons.prems(4) [OF this]] obtain m1 where
    m1: "process_map_phdr process f ?p m = (0, m1)" "chunk_ok m1 c" "tables_frame c m m1"
      "(\<lambda>a. paging_get_paddr (load32 m c) a m1) = segment_view ?h g (\<lambda>a. paging_get_paddr (load32 m c) a m)" by blast
  note im = image_at_frame [OF m1(3) Cons.prems(1)]
  have dir: "load32 m1 c = load32 m c" using m1(3) by (simp add: tables_frame_def)
  have step: "process_map_elf_loop process f ?h (of_nat (length pre)) 0 n m =
      process_map_elf_loop process f (elf_header f m1) (of_nat (length (pre @ [g]))) 0 n' m1"
    using go m1(1) by (simp add: n p im(2) add.commute)
  have "gs = (pre @ [g]) @ rest" "length rest < n'" using Cons.prems(2,5) n by simp_all
  from Cons.IH [OF im(1) this(1) maps_of_process_frame [OF Cons.prems(3) m1(3,2)] _ this(2)] Cons.prems(4)
  obtain m' where "process_map_elf_loop process f ?h (of_nat (length (pre @ [g]))) 0 n' m1 = (0, m')" "chunk_ok m' c"
    "tables_frame c m1 m'"
    "(\<lambda>a. paging_get_paddr (load32 m c) a m') = fold (segment_view ?h) rest (\<lambda>a. paging_get_paddr (load32 m c) a m1)"
    unfolding im(2) dir by blast
  then show ?case using step m1(4) tables_frame_trans [OF m1(3)] by (intro exI [of _ m']) (simp add: im(2))
qed

text \<open>A byte of a segment whose file offset and address agree modulo the page size.\<close>

lemma segment_view_byte:
  assumes "image_fits start (v, off, sz, flags)" and "v mod 4096 = (start + off) mod 4096" and "x < sz"
  shows "segment_view start (v, off, sz, flags) h (v + x) = start + off + x"
proof -
  let ?y = "start + off" and ?L = PAGE_ALIGN_LOWER
  have fit: "unat ?y + unat sz + 4095 < 4294967296" using assms(1) by (simp add: image_fits_def)
  then have sum: "unat (?y + sz) = unat ?y + unat sz" by (subst unat_add_less) simp_all
  have x: "unat x < unat sz" using assms(3) by (simp add: word_less_nat_alt)
  then have yx: "unat (?y + x) = unat ?y + unat x" using fit by (subst unat_add_less) simp_all
  have end_le: "?y + sz \<le> PAGE_ALIGN (?y + sz)" using fit sum by (intro PAGE_ALIGN_le) simp
  have lower: "?L z = z - z mod 4096" for z by (simp add: PAGE_ALIGN_LOWER_def ALIGN_LOWER_def PAGING_PAGE_SIZE_def)
  have d: "v + x - ?L v = ?y + x - ?L ?y" by (simp add: lower assms(2))
  have le: "unat (?L ?y) \<le> unat ?y" using PAGE_ALIGN_LOWER_le [of ?y] by (simp add: word_le_nat_alt)
  have "unat (?y + x - ?L ?y) = unat (?y + x) - unat (?L ?y)"
    using le yx by (subst unat_sub) (simp_all add: word_le_nat_alt)
  moreover have "unat (PAGE_ALIGN (?y + sz) - ?L ?y) = unat (PAGE_ALIGN (?y + sz)) - unat (?L ?y)"
    using le sum end_le by (subst unat_sub) (simp_all add: word_le_nat_alt)
  moreover have "unat (?y + sz) \<le> unat (PAGE_ALIGN (?y + sz))" using end_le by (simp add: word_le_nat_alt)
  ultimately have "unat (v + x - ?L v) < unat (PAGE_ALIGN (?y + sz) - ?L ?y)" unfolding d using yx sum x le by linarith
  then show ?thesis by (simp add: segment_view_def range_view_def d)
qed

definition covers :: "addr \<Rightarrow> addr \<Rightarrow> image_segment \<Rightarrow> bool" where
  "covers start a = (\<lambda>(v, off, sz, flags).
     unat (a - PAGE_ALIGN_LOWER v) < unat (PAGE_ALIGN (start + off + sz) - PAGE_ALIGN_LOWER (start + off)))"

lemma fold_view_skip:
  "\<forall>g \<in> set gs. \<not> covers start a g \<Longrightarrow> fold (segment_view start) gs h a = h a"
proof (induction gs arbitrary: h)
  case (Cons g gs)
  have "segment_view start g h a = h a"
    using Cons.prems by (cases g) (simp add: segment_view_def range_view_def covers_def)
  with Cons show ?case by simp
qed simp

section \<open>Properties\<close>

text \<open>
  C15. An ELF file in its process: \<open>process_map_memory\<close> maps the segments in their order and
  the stack last, and writes nothing but the tables. A byte of a segment whose address and
  place in memory agree modulo the page size is seen at its address, where no later
  segment and not the stack covers it. All headers have bytes in the file (\<open>p_filesz\<close> is not
  zero, \<open>header_at\<close>).
\<close>

theorem process_map_elf_view:
  assumes "maps_of_process m c process" and "m (process_filetype process) = PROCESS_FILETYPE_ELF"
    and "image_at m c (load32 m (process_elf_file process)) gs"
    and "elf_header (load32 m (process_elf_file process)) m = start" and "\<And>g. g \<in> set gs \<Longrightarrow> image_fits start g"
    and "load32 m (process_stack process) = stack" and "stack \<in> kheap_pool" and "off_tables m c (process_stack process) 4"
  shows "\<exists>m'. process_map_memory process m = Done (0, m') \<and> tables_frame c m m' \<and>
     (\<lambda>a. paging_get_paddr (load32 m c) a m') = range_view 0x3FB000 stack (stack + 0x4000)
       (fold (segment_view start) gs (\<lambda>a. paging_get_paddr (load32 m c) a m)) \<and>
     (\<forall>pre v off sz flags post x. gs = pre @ (v, off, sz, flags) # post \<and> v mod 4096 = (start + off) mod 4096 \<and> x < sz \<and>
        (\<forall>g \<in> set post. \<not> covers start (v + x) g) \<and> 0x4000 \<le> unat (v + x - 0x3FB000) \<longrightarrow>
        paging_get_paddr (load32 m c) (v + x) m' = start + off + x)"
proof -
  let ?f = "load32 m (process_elf_file process)" and ?paddr = "\<lambda>m a. paging_get_paddr (load32 m c) a m"
  have ok: "chunk_ok m c" "c = process_chunk process m" "off_tables m c (process_task process) 4"
    "off_tables m c (task_page_directory (load32 m (process_task process))) 4"
    using assms(1) by (simp_all add: maps_of_process_def)
  have len: "length gs < 65536" using assms(3) by (simp add: image_at_def Let_def)
  have "\<exists>m'. process_map_elf_loop process ?f (elf_header ?f m) (of_nat (length ([] :: image_segment list))) 0 65536 m = (0, m') \<and>
     chunk_ok m' c \<and> tables_frame c m m' \<and>
     (\<lambda>a. paging_get_paddr (load32 m c) a m') = fold (segment_view (elf_header ?f m)) gs (?paddr m)"
    by (rule process_map_elf_loop_view [OF assms(3) _ assms(1) _ len]) (use assms(4,5) in simp_all)
  then obtain m1 where m1: "process_map_elf process m = (0, m1)" "chunk_ok m1 c" "tables_frame c m m1"
      "(\<lambda>a. paging_get_paddr (load32 m c) a m1) = fold (segment_view start) gs (?paddr m)"
    by (auto simp: process_map_elf_def assms(4))
  then have "(if m (process_filetype process) = PROCESS_FILETYPE_ELF then Done (process_map_elf process m)
       else if m (process_filetype process) = PROCESS_FILETYPE_BINARY then Done (process_map_binary process m)
       else Panic ''process_map_memory: Unexpected filetype'') = Done (0, m1)"
    using assms(2) by simp
  from process_stack_view [OF ok(1,2) assms(7,6,8) ok(3,4) this m1(2,3)] obtain m' where
    m': "process_map_memory process m = Done (0, m')" "tables_frame c m m'"
      "(\<lambda>a. paging_get_paddr (load32 m c) a m') =
        range_view 0x3FB000 stack (stack + 0x4000) (\<lambda>a. paging_get_paddr (load32 m c) a m1)" by metis
  have byte: "paging_get_paddr (load32 m c) (v + x) m' = start + off + x"
    if "gs = pre @ (v, off, sz, flags) # post" "v mod 4096 = (start + off) mod 4096" "x < sz"
      "\<forall>g \<in> set post. \<not> covers start (v + x) g" "0x4000 \<le> unat (v + x - 0x3FB000)" for pre v off sz flags post x
  proof -
    have "paging_get_paddr (load32 m c) (v + x) m' = fold (segment_view start) gs (?paddr m) (v + x)"
      using fun_cong [OF m'(3) [unfolded m1(4)], of "v + x"] that(5) by (simp add: range_view_def)
    also have "\<dots> = segment_view start (v, off, sz, flags) (fold (segment_view start) pre (?paddr m)) (v + x)"
      using fold_view_skip [OF that(4)] by (simp add: that(1))
    also have "\<dots> = start + off + x"
      by (rule segment_view_byte) (use that assms(5) in auto)
    finally show ?thesis .
  qed
  show ?thesis using m' m1(4) byte by (intro exI [of _ m'] conjI) (simp, simp, simp, blast)
qed

theorem process_map_elf_view_witness:
  "\<exists>m dir p m'. p \<in> kheap_pool \<and> process_map_memory 0x30000 m = Done (0, m') \<and>
     paging_get_paddr dir 0x400010 m' = 0x51010 \<and> paging_get_paddr dir 0x3FEFFC m' = p + 0x3FFC"
proof -
  obtain c m0 where c: "chunk_ok m0 c"
    using paging_new_chunk_spec [of "\<lambda>_. 0" 7] by (auto simp: kheap_avail_zero card_kheap_pool)
  obtain p where p: "p \<in> kheap_pool" using card_kheap_pool by fastforce
  let ?m = "store32 (store32 (store32 (store32 (store32 (store32 (store32 (store32 (store32 (store32 (store32 (store32
      m0 0x5002C 1) 0x40000 c) 0x30070 0x40000) 0x32078 0x41000) 0x32088 p) 0x32074 0)
      0x41070 0x50000) 0x5001C 0x34) 0x50038 0x1000) 0x5003C 0x400000) 0x50044 0x100) 0x50048 0x800"
  have high: "16777216 \<le> unat a" if "q \<in> chunk_pages m0 c" "a div 4096 = q div 4096" for q a
  proof -
    have "q \<in> kheap_pool" using that(1) c by (auto simp: chunk_pages_def chunk_tables_eq chunk_ok_def)
    then show ?thesis using that(2) by (rule kheap_pool_range)
  qed
  have low: "?m a = m0 a" if "q \<in> chunk_pages m0 c" "a div 4096 = q div 4096" for q a
  proof -
    have "a \<noteq> x" if "unat x < 16777216" for x using high [OF \<open>q \<in> _\<close> \<open>a div _ = _\<close>] that by auto
    then show ?thesis by (simp add: store32_def)
  qed
  have ok: "chunk_ok ?m c" "load32 ?m c = load32 m0 c" by (rule chunk_frame [OF c low]; assumption)+
  have "chunk_pages ?m c = chunk_pages m0 c" by (rule chunk_frame(4) [OF c low])
  then have tabs: "chunk_tables ?m c \<subseteq> chunk_pages m0 c" unfolding chunk_pages_def [of ?m] by blast
  have v: "load32 ?m 0x32078 = 0x41000" "load32 ?m 0x32088 = p" "load32 ?m 0x30070 = 0x40000" "load32 ?m 0x40000 = c"
    "load32 ?m 0x41070 = 0x50000" "load32 ?m 0x5001C = 0x34" "load32 ?m 0x50038 = 0x1000" "load32 ?m 0x5003C = 0x400000"
    "load32 ?m 0x50044 = 0x100" "load32 ?m 0x50048 = 0x800"
    by (simp_all add: load32_store32_apart)
  have off: "off_tables ?m c f n" if f: "unat f + n < 16777216" for f n
    unfolding off_tables_def
  proof (intro allI impI ballI notI)
    fix i :: nat and q assume "i < n" and q: "q \<in> chunk_tables ?m c" and eq: "(f + of_nat i) div 4096 = q div 4096"
    have "q \<in> chunk_pages m0 c" using q tabs by blast
    from high [OF this eq] have "16777216 \<le> unat (f + of_nat i)" .
    moreover have "unat (f + of_nat i) = unat f + i" using f \<open>i < n\<close> by (subst unat_add_less) (simp_all add: unat_of_nat32)
    ultimately show False using f \<open>i < n\<close> by simp
  qed
  have ft: "?m (process_filetype 0x30000) = PROCESS_FILETYPE_ELF"
    by (simp add: layout PROCESS_FILETYPE_ELF_def store32_def)
  have ch: "maps_of_process ?m c 0x30000"
    using ok(1) off by (simp add: maps_of_process_def process_chunk_def layout v)
  have f: "load32 ?m (process_elf_file 0x30000) = 0x41000" by (simp add: layout v)
  have h: "elf_header 0x41000 ?m = 0x50000" by (simp add: elf_header_def layout v)
  have hd: "header_at ?m c 0x50034 (0x400000, 0x1000, 0x800, load32 ?m 0x5004C)"
    using off by (simp add: header_at_def layout v)
  have num: "load16 ?m 0x5002C = 1" by (simp add: load16_def store32_def)
  have im: "image_at ?m c (load32 ?m (process_elf_file 0x30000)) [(0x400000, 0x1000, 0x800, load32 ?m 0x5004C)]"
    unfolding f image_at_def Let_def h using off hd num by (simp add: layout v)
  have h': "elf_header (load32 ?m (process_elf_file 0x30000)) ?m = 0x50000" by (simp only: f h)
  have fits: "image_fits 0x50000 g" if "g \<in> set [(0x400000, 0x1000, 0x800, load32 ?m 0x5004C)]" for g
    using that by (simp add: image_fits_def)
  have st: "load32 ?m (process_stack 0x30000) = p" "off_tables ?m c (process_stack 0x30000) 4"
    using off by (simp_all add: layout v)
  from process_map_elf_view [OF ch ft im h' fits st(1) p st(2)] obtain m' where
    m': "process_map_memory 0x30000 ?m = Done (0, m')"
      "(\<lambda>a. paging_get_paddr (load32 ?m c) a m') = range_view 0x3FB000 p (p + 0x4000)
        (fold (segment_view 0x50000) [(0x400000, 0x1000, 0x800, load32 ?m 0x5004C)] (\<lambda>a. paging_get_paddr (load32 ?m c) a ?m))"
    and byte: "\<And>pre v off sz flags post x. [(0x400000, 0x1000, 0x800, load32 ?m 0x5004C)] = pre @ (v, off, sz, flags) # post \<and>
        v mod 4096 = (0x50000 + off) mod 4096 \<and> x < sz \<and> (\<forall>g \<in> set post. \<not> covers 0x50000 (v + x) g) \<and>
        0x4000 \<le> unat (v + x - 0x3FB000) \<Longrightarrow> paging_get_paddr (load32 ?m c) (v + x) m' = 0x50000 + off + x" by blast
  have "paging_get_paddr (load32 ?m c) 0x400010 m' = 0x51010"
    using byte [of "[]" "0x400000" "0x1000" "0x800" "load32 ?m 0x5004C" "[]" "0x10"] by simp
  moreover have "paging_get_paddr (load32 ?m c) 0x3FEFFC m' = p + 0x3FFC"
    using fun_cong [OF m'(2), of "0x3FEFFC"] by (simp add: range_view_def)
  ultimately show ?thesis using p m'(1) by blast
qed

end
