(* ===== verification/Boot.thy ===== *)
theory Boot
  imports Kernel_Main
begin

unbundle bit_operations_syntax

text \<open>
  The way to \<open>kernel_main\<close>: the boot sector (\<open>phix/src/boot/boot.asm\<close>), which enters
  protected mode and loads the kernel's sectors with a driver of its own, and \<open>_start\<close> of
  \<open>phix/src/kernel.asm\<close>. A location counter of the assembler is a parameter, segment registers
  are not modelled. The header of the file system in the boot sector is what \<open>fat16.c\<close>
  mounts.
\<close>

section \<open>The header of the file system\<close>

definition le16 :: "u16 \<Rightarrow> u8 list" where
  "le16 w = [ucast w, ucast (drop_bit 8 w)]"

definition le32 :: "u32 \<Rightarrow> u8 list" where
  "le32 w = [ucast w, ucast (drop_bit 8 w), ucast (drop_bit 16 w), ucast (drop_bit 24 w)]"

definition ascii :: "string \<Rightarrow> u8 list" where
  "ascii = map (\<lambda>c. of_nat (of_char c))"

text \<open>\<open>jmp short step1\<close> skips the \<open>nop\<close> and the header.\<close>

definition boot_header :: "u8 list" where
  "boot_header = [0xEB, 0x3C, 0x90] @ ascii ''PHIX    '' @ le16 0x200 @ [0x80] @ le16 200 @ [0x02] @ le16 0x40 @
     le16 0x00 @ [0xF8] @ le16 0x100 @ le16 0x20 @ le16 0x40 @ le32 0x00 @ le32 0x773594 @
     [0x80, 0x00, 0x29] @ le32 0xD105 @ ascii ''PHIX   BOOT'' @ ascii ''FAT16   ''"

section \<open>Protected mode\<close>

definition boot_gdt :: "u8 list" where
  "boot_gdt = le32 0 @ le32 0 @
     le16 0xffff @ le16 0 @ [0, 0x9a, 0xCF, 0] @
     le16 0xffff @ le16 0 @ [0, 0x92, 0xCF, 0]"

text \<open>
  \<open>.load_protected\<close> with the addresses of \<open>gdt_descriptor\<close>: in 16 bit code \<open>lgdt\<close> takes 24
  bits of the base.
\<close>

definition load_protected :: "addr \<Rightarrow> 'a machine_scheme \<Rightarrow> 'a machine_scheme" where
  "load_protected gdt_descriptor s =
     (let s = s\<lparr>gdt_register := (load16 (ram s) gdt_descriptor, load32 (ram s) (gdt_descriptor + 2) AND 0xFFFFFF)\<rparr>
      in s\<lparr>cr0 := cr0 s OR 0x1\<rparr>)"

section \<open>Loading the kernel\<close>

text \<open>\<open>ata_lba_read\<close> with its arguments in \<open>eax\<close>, \<open>ecx\<close> and \<open>edi\<close>.\<close>

definition lba_command :: "u32 \<Rightarrow> u32 \<Rightarrow> 'a machine_scheme \<Rightarrow> 'a machine_scheme" where
  "lba_command eax ecx s =
     (let ebx = eax;
          s = outb 0x1F6 (ucast (drop_bit 24 eax OR 0xe0)) s;
          s = outb 0x1F2 (ucast ecx) s;
          s = outb 0x1F3 (ucast ebx) s;
          s = outb 0x1F4 (ucast (drop_bit 8 ebx)) s;
          s = outb 0x1F5 (ucast (drop_bit 16 ebx)) s
      in outb 0x1F7 0x20 s)"

partial_function (option) lba_try_again :: "device \<Rightarrow> 'a machine_scheme \<Rightarrow> 'a machine_scheme option" where
  "lba_try_again d s = (let (al, s) = insb d 0x1F7 s in if al AND 8 = 0 then lba_try_again d s else Some s)"

primrec rep_insw :: "device \<Rightarrow> nat \<Rightarrow> addr \<times> 'a machine_scheme \<Rightarrow> addr \<times> 'a machine_scheme" where
  "rep_insw d 0 = (\<lambda>st. st)"
| "rep_insw d (Suc n) = (\<lambda>(edi, s). let (w, s) = insw d 0x1F0 s
                                    in rep_insw d n (edi + 2, s\<lparr>ram := store16 (ram s) edi w\<rparr>))"

text \<open>
  The count is on the stack while a sector is read, so that the loop need not end when the
  sectors are put there. \<open>loop\<close> goes on until the count is zero.
\<close>

partial_function (option) lba_next_sector ::
    "device \<Rightarrow> addr \<Rightarrow> u32 \<Rightarrow> addr \<Rightarrow> 'a machine_scheme \<Rightarrow> 'a machine_scheme option" where
  "lba_next_sector d esp ecx edi s =
     (let esp = esp - 4; s = s\<lparr>ram := store32 (ram s) esp ecx\<rparr>
      in case lba_try_again d s of None \<Rightarrow> None
         | Some s \<Rightarrow>
             let (edi, s) = rep_insw d 256 (edi, s);
                 ecx = load32 (ram s) esp; esp = esp + 4;
                 ecx = ecx - 1
             in if ecx \<noteq> 0 then lba_next_sector d esp ecx edi s else Some s)"

definition ata_lba_read ::
    "device \<Rightarrow> addr \<Rightarrow> u32 \<Rightarrow> u32 \<Rightarrow> addr \<Rightarrow> 'a machine_scheme \<Rightarrow> 'a machine_scheme option" where
  "ata_lba_read d esp eax ecx edi s = lba_next_sector d esp ecx edi (lba_command eax ecx s)"

text \<open>
  \<open>load32\<close> up to the jump to the kernel: the stack pointer is still that of the real mode
  code and \<open>here\<close> is the return address of the call.
\<close>

definition boot_load32 :: "device \<Rightarrow> addr \<Rightarrow> 'a machine_scheme \<Rightarrow> 'a machine_scheme option" where
  "boot_load32 d here s =
     (let esp = 0x7c00 - 4; s = s\<lparr>ram := store32 (ram s) esp here\<rparr>
      in ata_lba_read d esp 1 100 0x0100000 s)"

section \<open>Entering the kernel\<close>

text \<open>\<open>_start\<close>: the A20 line, the interrupt controller, \<open>kernel_main\<close>.\<close>

definition start_ports :: "device \<Rightarrow> 'a machine_scheme \<Rightarrow> 'a machine_scheme" where
  "start_ports d s =
     (let (al, s) = insb d 0x92 s;
          s = outb 0x92 (al OR 2) s;
          s = outb 0x20 0x11 s;
          s = outb 0x21 0x20 s
      in outb 0x21 0x01 s)"

definition kernel_start :: "env \<Rightarrow> addr \<Rightarrow> system \<Rightarrow> (addr \<times> system) outcome" where
  "kernel_start e old s = kernel_main e old (start_ports (dev e) s)"

section \<open>The descriptors\<close>

text \<open>The boot sector's table has the flat segments that \<open>gdt.c\<close> encodes for the kernel.\<close>

lemma boot_gdt_flat:
  "read_desc (poke m p boot_gdt) (p + 8) = kernel_segments tss ! 1"
  "read_desc (poke m p boot_gdt) (p + 16) = kernel_segments tss ! 2"
proof -
  have len: "length boot_gdt = 24" by (simp add: boot_gdt_def le16_def le32_def)
  have b: "poke m p boot_gdt (p + of_nat i) = boot_gdt ! i" if "i < 24" for i
    using that by (intro poke_in) (simp_all add: len)
  note b8 = b [of 8] b [of 9] b [of 10] b [of 11] b [of 12] b [of 13] b [of 14] b [of 15]
  note b16 = b [of 16] b [of 17] b [of 18] b [of 19] b [of 20] b [of 21] b [of 22] b [of 23]
  show "read_desc (poke m p boot_gdt) (p + 8) = kernel_segments tss ! 1"
    using b8 by (simp add: read_desc_def desc_base_def desc_limit_def Let_def kernel_segments_def add.assoc)
      (simp add: boot_gdt_def le16_def le32_def)
  show "read_desc (poke m p boot_gdt) (p + 16) = kernel_segments tss ! 2"
    using b16 by (simp add: read_desc_def desc_base_def desc_limit_def Let_def kernel_segments_def add.assoc)
      (simp add: boot_gdt_def le16_def le32_def)
qed

section \<open>The two drivers\<close>

lemma lba_try_again_eq: "lba_try_again d s = disk_wait d s"
proof -
  have "lba_try_again d s = Some t \<Longrightarrow> disk_wait d s = Some t" for t
    by (rule lba_try_again.raw_induct [of "\<lambda>d s t. disk_wait d s = Some t"])
      (subst disk_wait.simps, auto simp: Let_def split: prod.splits if_splits)
  moreover have "disk_wait d s = Some t \<Longrightarrow> lba_try_again d s = Some t" for t
    by (rule disk_wait.raw_induct [of "\<lambda>d s t. lba_try_again d s = Some t"])
      (subst lba_try_again.simps, auto simp: Let_def split: prod.splits if_splits)
  ultimately show ?thesis by (metis not_None_eq)
qed

lemma for_up_shift: "for_up n (\<lambda>i. f (Suc i)) (f 0 s) = for_up (Suc n) f s"
  by (induction n) simp_all

lemma rep_insw_for_up:
  "rep_insw d n (edi, s) = (edi + 2 * of_nat n, for_up n (\<lambda>i s. let (w, s) = insw d 0x1F0 s
      in s\<lparr>ram := store16 (ram s) (edi + 2 * of_nat i) w\<rparr>) s)"
proof (induction n arbitrary: edi s)
  case (Suc n)
  let ?f = "\<lambda>i s. let (w, s) = insw d 0x1F0 s in s\<lparr>ram := store16 (ram s) (edi + 2 * of_nat i) w\<rparr>"
  have sh: "(\<lambda>i s. let (w, s) = insw d 0x1F0 s in s\<lparr>ram := store16 (ram s) (edi + 2 + 2 * of_nat i) w\<rparr>) = (\<lambda>i. ?f (Suc i))"
    by (simp add: algebra_simps)
  have "rep_insw d (Suc n) (edi, s) = rep_insw d n (edi + 2, ?f 0 s)" by (simp split: prod.splits)
  also have "\<dots> = (edi + 2 + 2 * of_nat n, for_up n (\<lambda>i. ?f (Suc i)) (?f 0 s))" by (simp only: Suc.IH sh)
  also have "\<dots> = (edi + 2 * of_nat (Suc n), for_up (Suc n) ?f s)"
    by (simp only: for_up_shift [of n ?f s]) (simp add: algebra_simps del: for_up.simps)
  finally show ?case .
qed simp

lemma rep_insw_sector: "rep_insw d 256 (edi, s) = (edi + 512, disk_copy_sector d edi s)"
  by (simp add: rep_insw_for_up disk_copy_sector_def)

text \<open>The address bits of \<open>ata_lba_read\<close> are those of the kernel's driver.\<close>

lemma lba_command_eq:
  assumes "unat lba < 2 ^ 31"
  shows "lba_command lba n s = disk_command lba n s"
proof -
  have "signed_drop_bit k lba = drop_bit k lba" for k
    using not_bit_above [OF assms] by (intro bit_word_eqI) (auto simp: bit_simps)
  moreover have "ucast (lba AND 0xff) = (ucast lba :: u8)"
  proof -
    have m: "(0xff :: u32) = mask 8" by (simp add: mask_eq_exp_minus_1)
    show ?thesis unfolding m by (auto intro!: bit_word_eqI simp: bit_simps)
  qed
  ultimately show ?thesis by (simp add: lba_command_def disk_command_def)
qed

text \<open>One round, for a sector that is put outside the word that keeps the count.\<close>

lemma lba_round:
  assumes drive: "ata_drive d img" and pos: "ata_state (io s) = Some (lba, c, 256 * j, False)" "j < c"
    and apart: "\<And>i k. i < 512 \<Longrightarrow> k < 4 \<Longrightarrow> edi + of_nat i \<noteq> esp - 4 + k"
  shows "\<exists>t. lba_next_sector d esp ecx edi s = (if ecx - 1 \<noteq> 0 then lba_next_sector d esp (ecx - 1) (edi + 512) t else Some t) \<and>
     ata_state (io t) = Some (lba, c, 256 * Suc j, False) \<and>
     (\<forall>a. (\<forall>k < 4. a \<noteq> esp - 4 + k) \<longrightarrow> ram t a = poke (ram s) edi (img_bytes img (512 * (unat lba + j)) 512) a)"
proof -
  let ?m = "store32 (ram s) (esp - 4) ecx" and ?b = "img_bytes img (512 * (unat lba + j)) 512"
  let ?s = "s\<lparr>ram := ?m\<rparr>"
  have "ata_state (io ?s) = Some (lba, c, 256 * j, False)" "256 * j < 256 * c" using pos by simp_all
  from disk_wait_ready [OF drive this] obtain h where
    w: "disk_wait d ?s = Some (?s\<lparr>io := h\<rparr>)" "ata_state (io (?s\<lparr>io := h\<rparr>)) = Some (lba, c, 256 * j, True)" by auto
  from disk_copy_sector_img [OF drive w(2) pos(2), of edi] obtain h' where
    c: "disk_copy_sector d edi (?s\<lparr>io := h\<rparr>) = s\<lparr>ram := poke ?m edi ?b, io := h'\<rparr>"
      "ata_state h' = Some (lba, c, 256 * Suc j, False)" by auto
  let ?t = "s\<lparr>ram := poke ?m edi ?b, io := h'\<rparr>"
  have out: "poke ?m edi ?b (esp - 4 + k) = ?m (esp - 4 + k)" if "k < 4" for k
  proof (rule poke_out, rule ccontr)
    assume "\<not> length ?b \<le> unat (esp - 4 + k - edi)"
    then have "edi + of_nat (unat (esp - 4 + k - edi)) \<noteq> esp - 4 + k" using that by (intro apart) simp_all
    then show False by simp
  qed
  have "load32 (poke ?m edi ?b) (esp - 4) = load32 ?m (esp - 4)"
    using out [of 0] out [of 1] out [of 2] out [of 3] by (simp add: load32_def)
  then have "lba_next_sector d esp ecx edi s =
      (if ecx - 1 \<noteq> 0 then lba_next_sector d esp (ecx - 1) (edi + 512) ?t else Some ?t)"
    by (subst lba_next_sector.simps) (simp add: lba_try_again_eq w(1) rep_insw_sector c(1) Let_def)
  moreover have "poke ?m edi ?b a = poke (ram s) edi ?b a" if "\<forall>k < 4. a \<noteq> esp - 4 + k" for a
  proof -
    have "?m a = ram s a"
      using that [rule_format, of 0] that [rule_format, of 1] that [rule_format, of 2] that [rule_format, of 3]
      by (simp add: store32_def)
    then show ?thesis by (simp add: poke_def)
  qed
  ultimately show ?thesis using c(2) by (intro exI [of _ ?t]) simp
qed

text \<open>All rounds: the bytes of all sectors in their order.\<close>

lemma lba_next_sector_img:
  assumes drive: "ata_drive d img" and "ata_state (io s) = Some (lba, c, 256 * j, False)" and "j + Suc n \<le> c"
    and "n < 256" and "\<And>i k. i < 512 * Suc n \<Longrightarrow> k < 4 \<Longrightarrow> edi + of_nat i \<noteq> esp - 4 + k"
  shows "\<exists>s'. lba_next_sector d esp (of_nat (Suc n)) edi s = Some s' \<and>
     (\<forall>a. (\<forall>k < 4. a \<noteq> esp - 4 + k) \<longrightarrow>
        ram s' a = poke (ram s) edi (img_bytes img (512 * (unat lba + j)) (512 * Suc n)) a)"
  using assms(2-)
proof (induction n arbitrary: j edi s)
  case (0 j edi s)
  then have "j < c" by simp
  from lba_round [OF drive 0(1) this, of edi esp 1] 0(4) show ?case by auto
next
  case (Suc n)
  let ?b = "512 * (unat lba + j)"
  have "j < c" using Suc.prems(2) by simp
  from lba_round [OF drive Suc.prems(1) this, of edi esp "of_nat (Suc (Suc n))"] Suc.prems(4) obtain t where
    t: "lba_next_sector d esp (of_nat (Suc (Suc n))) edi s =
       (if (of_nat (Suc (Suc n)) :: u32) - 1 \<noteq> 0 then lba_next_sector d esp (of_nat (Suc (Suc n)) - 1) (edi + 512) t else Some t)"
      "ata_state (io t) = Some (lba, c, 256 * Suc j, False)"
      "\<And>a. \<forall>k < 4. a \<noteq> esp - 4 + k \<Longrightarrow> ram t a = poke (ram s) edi (img_bytes img ?b 512) a" by fastforce
  have "unat (of_nat (Suc n) :: u32) = Suc n" using Suc.prems(3) by (intro unat_of_nat32) simp
  then have "(of_nat (Suc n) :: u32) \<noteq> 0" by (metis unat_0 nat.distinct(1))
  moreover have "(of_nat (Suc (Suc n)) :: u32) - 1 = of_nat (Suc n)" by simp
  ultimately have run: "lba_next_sector d esp (of_nat (Suc (Suc n))) edi s = lba_next_sector d esp (of_nat (Suc n)) (edi + 512) t"
    using t(1) by (simp only: if_True simp_thms)
  have "edi + 512 + of_nat i \<noteq> esp - 4 + k" if "i < 512 * Suc n" "k < 4" for i k
    using Suc.prems(4) [of "512 + i" k] that by (simp add: add.assoc)
  moreover have "Suc j + Suc n \<le> c" "n < 256" using Suc.prems(2,3) by simp_all
  ultimately obtain s' where
    s': "lba_next_sector d esp (of_nat (Suc n)) (edi + 512) t = Some s'"
      "\<And>a. \<forall>k < 4. a \<noteq> esp - 4 + k \<Longrightarrow>
        ram s' a = poke (ram t) (edi + 512) (img_bytes img (512 * (unat lba + Suc j)) (512 * Suc n)) a"
    using Suc.IH [OF t(2), of "edi + 512"] by blast
  have b: "img_bytes img ?b 512 @ img_bytes img (512 * (unat lba + Suc j)) (512 * Suc n) = img_bytes img ?b (512 * Suc (Suc n))"
    by (auto intro!: nth_equalityI simp: nth_append algebra_simps)
  have "poke (poke (ram s) edi (img_bytes img ?b 512)) (edi + of_nat (length (img_bytes img ?b 512)))
      (img_bytes img (512 * (unat lba + Suc j)) (512 * Suc n)) = poke (ram s) edi (img_bytes img ?b (512 * Suc (Suc n)))"
    unfolding b [symmetric] using Suc.prems(3) by (intro poke_append) simp
  then have all: "poke (poke (ram s) edi (img_bytes img ?b 512)) (edi + 512)
      (img_bytes img (512 * (unat lba + Suc j)) (512 * Suc n)) = poke (ram s) edi (img_bytes img ?b (512 * Suc (Suc n)))" by simp
  have "ram s' a = poke (ram s) edi (img_bytes img ?b (512 * Suc (Suc n))) a" if "\<forall>k < 4. a \<noteq> esp - 4 + k" for a
  proof -
    have cong: "m a = m' a \<Longrightarrow> poke m q bs a = poke m' q bs a" for m m' q bs by (simp add: poke_def)
    show ?thesis unfolding s'(2) [OF that] all [symmetric] by (rule cong, rule t(3), rule that)
  qed
  then show ?case using run s'(1) by auto
qed

section \<open>Properties\<close>

text \<open>
  C22. The boot sector loads the kernel from a drive that gives data only once its status has
  shown DRQ for the sector at hand: the reader waits for each sector and ends, the sectors 1
  to 100 of the disk are at 1 MB, where the kernel is entered, and only they and two words
  of the stack are written.
\<close>

theorem boot_loads_kernel:
  assumes "ata_drive d img"
  shows "\<exists>s'. boot_load32 d here s = Some s' \<and>
     (\<forall>i < 51200. ram s' (0x100000 + of_nat i) = img (512 + i)) \<and>
     (\<forall>a. 51200 \<le> unat (a - 0x100000) \<longrightarrow> a < 0x7BF8 \<or> 0x7BFF < a \<longrightarrow> ram s' a = ram s a)"
proof -
  let ?s = "s\<lparr>ram := store32 (ram s) 0x7BFC here\<rparr>"
  let ?c = "lba_command 1 100 ?s"
  have c: "ata_state (io ?c) = Some (1, 100, 256 * 0, False)" "0 + Suc 99 \<le> (100 :: nat)" "ram ?c = store32 (ram s) 0x7BFC here"
    by (simp_all add: lba_command_def outb_def Let_def lba_of_def drop_bit_eq_div)
  have "(0x100000 :: u32) + of_nat i \<noteq> 0x7BFC - 4 + k" if "i < 512 * Suc 99" "k < 4" for i k
  proof -
    have "unat ((0x100000 :: u32) + of_nat i) = 0x100000 + i" using that(1) by (simp add: unat_word_ariths unat_of_nat32)
    moreover have "unat k < 4" using that(2) by (simp add: word_less_nat_alt)
    then have "unat (0x7BF8 + k) = 0x7BF8 + unat k" by (simp add: unat_word_ariths)
    ultimately show ?thesis using \<open>unat k < 4\<close> by (auto simp: word_unat_eq_iff)
  qed
  from lba_next_sector_img [OF assms c(1,2) _ this] obtain s' where
    s': "lba_next_sector d 0x7BFC 100 0x100000 ?c = Some s'"
    and m: "\<forall>a. (\<forall>k < 4. a \<noteq> 0x7BFC - 4 + k) \<longrightarrow> ram s' a = poke (store32 (ram s) 0x7BFC here) 0x100000 (img_bytes img 512 51200) a"
    by (auto simp: c(3))
  have "ram s' a = (if unat (a - 0x100000) < 51200 then img (512 + unat (a - 0x100000)) else ram s a)"
    if "\<not> (0x7BF8 \<le> a \<and> a \<le> 0x7BFF)" for a
  proof -
    have n: "a \<noteq> 0x7BF8 + k" if k: "k < 8" for k
    proof
      assume a: "a = 0x7BF8 + k"
      have "unat k < 8" using k by (simp add: word_less_nat_alt)
      then have "unat a = 0x7BF8 + unat k" by (simp add: a unat_word_ariths)
      with \<open>unat k < 8\<close> \<open>\<not> (0x7BF8 \<le> a \<and> a \<le> 0x7BFF)\<close> show False by (simp add: word_le_nat_alt)
    qed
    have "\<forall>k < 4. a \<noteq> 0x7BFC - 4 + k"
    proof (intro allI impI)
      fix k :: u32 assume "k < 4"
      then have "k < 8" by (simp add: word_less_nat_alt)
      from n [OF this] show "a \<noteq> 0x7BFC - 4 + k" by simp
    qed
    with m have "ram s' a = poke (store32 (ram s) 0x7BFC here) 0x100000 (img_bytes img 512 51200) a" by blast
    moreover have "store32 (ram s) 0x7BFC here a = ram s a"
      using n [of 4] n [of 5] n [of 6] n [of 7] by (simp add: store32_def)
    ultimately show ?thesis by (simp add: poke_def)
  qed
  note mem = this
  have "ram s' (0x100000 + of_nat i) = img (512 + i)" if i: "i < 51200" for i
  proof -
    have "unat ((0x100000 :: u32) + of_nat i) = 0x100000 + i" using i by (simp add: unat_word_ariths unat_of_nat32)
    then have "\<not> (0x7BF8 \<le> 0x100000 + (of_nat i :: u32) \<and> 0x100000 + (of_nat i :: u32) \<le> 0x7BFF)"
      by (simp add: word_le_nat_alt)
    from mem [OF this] i show ?thesis by (simp add: unat_of_nat32)
  qed
  moreover have "ram s' a = ram s a" if "51200 \<le> unat (a - 0x100000)" "a < 0x7BF8 \<or> 0x7BFF < a" for a
    using mem [of a] that by (auto simp: not_le)
  ultimately show ?thesis using s' by (auto simp: boot_load32_def ata_lba_read_def)
qed

theorem boot_loads_kernel_witness:
  "\<exists>s'. boot_load32 (ready_drive (\<lambda>i. of_nat (i div 512))) 0x7C8B
       \<lparr>ram = \<lambda>_. 0, cr3 = 0, io = [], cr0 = 1, gdt_register = (23, 0x7C52), idt_register = (0, 0), task_register = 0\<rparr> = Some s' \<and>
     ram s' 0x100000 = 1 \<and> ram s' 0x10C7FF = 100 \<and> ram s' 0x10C800 = 0"
proof -
  let ?img = "\<lambda>i. of_nat (i div 512) :: u8"
  let ?s = "\<lparr>ram = \<lambda>_. 0, cr3 = 0, io = [], cr0 = 1, gdt_register = (23, 0x7C52), idt_register = (0, 0), task_register = 0\<rparr>"
  from boot_loads_kernel [OF ready_drive, of ?img "0x7C8B" ?s] obtain s' where
    s': "boot_load32 (ready_drive ?img) 0x7C8B ?s = Some s'"
    "\<forall>i < 51200. ram s' (0x100000 + of_nat i) = ?img (512 + i)"
    "\<forall>a. 51200 \<le> unat (a - 0x100000) \<longrightarrow> a < 0x7BF8 \<or> 0x7BFF < a \<longrightarrow> ram s' a = 0" by auto
  have "ram s' 0x100000 = 1" using s'(2) [rule_format, of 0] by simp
  moreover have "ram s' 0x10C7FF = 100" using s'(2) [rule_format, of 51199] by simp
  moreover have "ram s' 0x10C800 = 0" using s'(3) [rule_format, of "0x10C800"] by simp
  ultimately show ?thesis using s'(1) by blast
qed

end
