(* ===== verification/Fat16_Mount.thy ===== *)
theory Fat16_Mount
  imports Boot
begin

unbundle bit_operations_syntax

text \<open>
  Mounting: \<open>fat16_resolve\<close> on a disk that has a FAT16 header, with all it calls: the heap,
  the four streams, the driver, the walk over the root directory. What it leaves is what the
  theorems of theory \<open>Fat16\<close> on searching and reading start from.
\<close>

section \<open>The disk\<close>

definition img16 :: "(nat \<Rightarrow> u8) \<Rightarrow> nat \<Rightarrow> nat" where
  "img16 img i = unat (img i) + 256 * unat (img (i + 1))"

definition root_sector :: "(nat \<Rightarrow> u8) \<Rightarrow> nat" where
  "root_sector img = unat (img 16) * img16 img 22 + img16 img 14"

definition root_entries :: "(nat \<Rightarrow> u8) \<Rightarrow> nat" where
  "root_entries img = img16 img 17"

text \<open>The items before the first free entry, \<open>z\<close>, that are not deleted.\<close>

definition root_total :: "(nat \<Rightarrow> u8) \<Rightarrow> nat \<Rightarrow> nat" where
  "root_total img z = card {i. i < z \<and> img (512 * root_sector img + 32 * i) \<noteq> 0xE5}"

text \<open>
  A header with the signature, a root directory of at most one page, and a first free entry
  \<open>z\<close>.
\<close>

definition fat_image :: "(nat \<Rightarrow> u8) \<Rightarrow> nat \<Rightarrow> bool" where
  "fat_image img z =
     (img 38 = 0x29 \<and> root_entries img \<le> 128 \<and> 512 * root_sector img + 4096 + 32 * Suc z < 2147483648 \<and>
      img (512 * root_sector img + 32 * z) = 0 \<and> (\<forall>i < z. img (512 * root_sector img + 32 * i) \<noteq> 0))"

section \<open>The machine\<close>

text \<open>Bytes that belong neither to the allocator nor to its pages, among them the locals used.\<close>

definition off_heap :: "addr \<Rightarrow> bool" where
  "off_heap a = (\<not> kheap_meta a \<and> (\<forall>q \<in> kheap_pool. a div 4096 \<noteq> q div 4096))"

definition mount_local :: "env \<Rightarrow> addr \<Rightarrow> bool" where
  "mount_local e a = (sector_buffer e a \<or> unat (a - item_local e) < 32 \<or> unat (a - empty_local e) < 32)"

definition locals_apart :: "env \<Rightarrow> bool" where
  "locals_apart e = ((\<forall>a. mount_local e a \<longrightarrow> off_heap a) \<and> (\<forall>i < 32. \<not> sector_buffer e (item_local e + of_nat i)))"

definition mount_ready :: "env \<Rightarrow> mem \<Rightarrow> bool" where
  "mount_ready e m =
     (6 \<le> card (kheap_avail m) \<and> disk0 e \<noteq> 0 \<and>
      locals_apart e \<and>
      (\<forall>k < 20. off_heap (disk0 e + k) \<and> \<not> mount_local e (disk0 e + k)) \<and>
      load32 m (disk_id (disk0 e)) = 0 \<and> load32 m (disk_sector_size (disk0 e)) = 512)"

lemma off_heap_safe: "off_heap a \<Longrightarrow> kheap_safe m a"
  using kh.avail_pool by (auto simp: off_heap_def kheap_safe_def)

lemma off_heap_page: "off_heap a \<Longrightarrow> q \<in> kheap_pool \<Longrightarrow> a div 4096 \<noteq> q div 4096"
  by (simp add: off_heap_def)

lemma pool_word: "q \<in> kheap_pool \<Longrightarrow> i < 4096 \<Longrightarrow> (q + of_nat i) div 4096 = q div 4096"
  by (rule kh.page_offset) (simp_all add: word_less_nat_alt unat_of_nat32)

lemma pool_near: "q \<in> kheap_pool \<Longrightarrow> unat (a - q) < 4096 \<Longrightarrow> a div 4096 = q div 4096"
  using pool_word [of q "unat (a - q)"] by simp

section \<open>Streams\<close>

definition fresh_stream :: "env \<Rightarrow> mem \<Rightarrow> addr \<Rightarrow> bool" where
  "fresh_stream e m st = (load32 m (stream_pos st) = 0 \<and> load32 m (stream_disk st) = disk0 e)"

lemma fresh_stream_same:
  assumes "fresh_stream e m st" and "st \<in> kheap_pool" and "\<And>a. a div 4096 = st div 4096 \<Longrightarrow> m' a = m a"
  shows "fresh_stream e m' st"
proof -
  have "load32 m' (st + i) = load32 m (st + i)" if "i \<le> 4092" for i
    using kheap_field(1) [OF assms(2) that] by (intro load32_same assms(3))
  from this [of 0] this [of 4] show ?thesis using assms(1) by (simp add: fresh_stream_def layout)
qed

lemma new_stream:
  assumes "kheap_avail m \<noteq> {}" and "disk0 e \<noteq> 0"
  obtains st m' where "diskstreamer_new e 0 m = (st, m')" and "st \<in> kheap_avail m" and "st \<in> kheap_pool" and "st \<noteq> 0"
    and "kheap_avail m' = kheap_avail m - {st}" and "fresh_stream e m' st"
    and "\<And>a. kheap_safe m a \<Longrightarrow> m' a = m a"
proof -
  have sz: "0 < unat sizeof_disk_stream" "unat sizeof_disk_stream \<le> 4096" by (simp_all add: sizeof_disk_stream_def)
  obtain st m1 where
    st: "kzalloc sizeof_disk_stream m = (st, m1)" "st \<in> kheap_avail m" "st \<in> kheap_pool" "st \<noteq> 0"
      "kheap_avail m1 = kheap_avail m - {st}" "\<And>a. a - st < sizeof_disk_stream \<Longrightarrow> m1 a = 0"
      "\<And>a. kheap_safe m a \<Longrightarrow> m1 a = m a"
    using kzalloc_safe [OF sz assms(1)] by blast
  let ?m = "store32 (store32 m1 (st + 0) 0) (st + 4) (disk0 e)"
  have "diskstreamer_new e 0 m = (st, ?m)"
    using assms(2) by (simp add: diskstreamer_new_def disk_get_def st(1) layout)
  moreover have "kheap_avail ?m = kheap_avail m - {st}"
    using kheap_avail_field [OF st(3), of 4] kheap_avail_field [OF st(3), of 0] st(5) by simp
  moreover have "fresh_stream e ?m st" by (simp add: fresh_stream_def layout load32_store32_apart)
  moreover have "?m a = m a" if "kheap_safe m a" for a
  proof -
    have "a div 4096 \<noteq> st div 4096" using that st(2) by (simp add: kheap_safe_def)
    then have "8 \<le> unat (a - st)" using pool_near [OF st(3), of a] by (cases "8 \<le> unat (a - st)") auto
    then have "a \<noteq> st + k" if "k < 8" for k using that by (auto simp: word_less_nat_alt)
    from this [of 0] this [of 1] this [of 2] this [of 3] this [of 4] this [of 5] this [of 6] this [of 7]
    have "?m a = m1 a" by (simp add: store32_def add.assoc)
    then show ?thesis using st(7) [OF that] by simp
  qed
  ultimately show thesis using that st(2-4) by blast
qed

text \<open>A new stream whose address is kept in a field of the object at \<open>p\<close>.\<close>

lemma attach_stream:
  assumes "kheap_avail m \<noteq> {}" and "disk0 e \<noteq> 0" and p: "p \<in> kheap_pool" "p \<notin> kheap_avail m" and i: "i \<le> 4092"
  obtains c m' where "diskstreamer_new e 0 m = (c, m')" and "c \<in> kheap_avail m" and "c \<in> kheap_pool" and "c \<noteq> 0"
    and "kheap_avail (store32 m' (p + i) c) = kheap_avail m - {c}" and "fresh_stream e (store32 m' (p + i) c) c"
    and "\<And>a. kheap_safe m a \<Longrightarrow> 4 \<le> unat (a - (p + i)) \<Longrightarrow> store32 m' (p + i) c a = m a"
proof -
  from new_stream [OF assms(1,2)] obtain c m' where
    c: "diskstreamer_new e 0 m = (c, m')" "c \<in> kheap_avail m" "c \<in> kheap_pool" "c \<noteq> 0" "kheap_avail m' = kheap_avail m - {c}"
      "fresh_stream e m' c" "\<And>a. kheap_safe m a \<Longrightarrow> m' a = m a" by blast
  have "fresh_stream e (store32 m' (p + i) c) c"
    using c(2) p(2) by (intro fresh_stream_same [OF c(6,3)] kheap_field_other [OF p(1) c(3) _ i]) auto
  moreover have "kheap_avail (store32 m' (p + i) c) = kheap_avail m - {c}" using kheap_avail_field [OF p(1) i] c(5) by simp
  moreover have "store32 m' (p + i) c a = m a" if "kheap_safe m a" "4 \<le> unat (a - (p + i))" for a
    using c(7) [OF that(1)] store32_byte_out [OF that(2)] by simp
  ultimately show thesis using that c(1-4) by blast
qed

lemma field_off_page:
  assumes "p \<in> kheap_pool" and "i \<le> 4092" and "a div 4096 \<noteq> p div 4096"
  shows "4 \<le> unat (a - (p + i))"
proof (rule ccontr)
  assume "\<not> 4 \<le> unat (a - (p + i))"
  then have "a - (p + i) < 4" by (simp add: word_less_nat_alt)
  from kheap_field(1) [OF assms(1,2) this] assms(3) show False by simp
qed

lemma field_before:
  assumes "k < (4 :: u32)"
  shows "4 \<le> unat (p + i + k - (p + (i + 4)))" and "4 \<le> unat (p + i + k - (p + (i + 8)))"
proof -
  have "unat k < 4" using assms by (simp add: word_less_nat_alt)
  then have "unat k \<in> {0, 1, 2, 3}" by auto
  then have "k = 0 \<or> k = 1 \<or> k = 2 \<or> k = 3" by (auto simp: word_unat_eq_iff)
  moreover have "(- 1 :: u32) = 0xFFFFFFFF" by simp
  then have "unat (- 1 :: u32) = 4294967295" by (simp only:) simp
  ultimately show "4 \<le> unat (p + i + k - (p + (i + 4)))" "4 \<le> unat (p + i + k - (p + (i + 8)))" by auto
qed

text \<open>The three streams of the private data.\<close>

lemma init_private:
  assumes p: "p \<in> kheap_pool" "p \<notin> kheap_avail m" and pages: "3 \<le> card (kheap_avail m)" and disk: "disk0 e \<noteq> 0"
    and no: "load32 m (disk_id (disk0 e)) = 0" "\<And>k. k < 4 \<Longrightarrow> off_heap (disk_id (disk0 e) + k)"
  obtains c1 c2 c3 m' where "fat16_init_private e (disk0 e) p m = Done m'"
    and "{c1, c2, c3} \<subseteq> kheap_avail m" and "distinct [c1, c2, c3]" and "kheap_avail m' = kheap_avail m - {c1, c2, c3}"
    and "load32 m' (cluster_read_stream p) = c1" and "load32 m' (fat_read_stream p) = c2" and "load32 m' (directory_stream p) = c3"
    and "fresh_stream e m' c1" and "fresh_stream e m' c2" and "fresh_stream e m' c3"
    and "\<And>a. kheap_safe m a \<Longrightarrow> a div 4096 \<noteq> p div 4096 \<Longrightarrow> m' a = m a"
proof -
  let ?m = "memset m p 0 sizeof_fat_private" and ?A = "kheap_avail m"
  have fin: "finite ?A" by (rule kh.card_alloc)
  have far: "a div 4096 \<noteq> p div 4096 \<Longrightarrow> ?m a = m a" for a
    using pool_near [OF p(1), of a] by (intro memset_out) (auto simp: sizeof_fat_private_def word_less_nat_alt)
  have A0: "kheap_avail ?m = ?A"
    using kheap_pool_meta [OF p(1)] by (intro kheap_avail_local far) blast
  have p0: "p \<notin> kheap_avail ?m" "kheap_avail ?m \<noteq> {}" using p(2) pages by (auto simp: A0)
  from attach_stream [OF p0(2) disk p(1) p0(1), of 80] obtain c1 n1 where
    c1: "diskstreamer_new e 0 ?m = (c1, n1)" "c1 \<in> ?A" "c1 \<in> kheap_pool" "c1 \<noteq> 0"
      "kheap_avail (store32 n1 (p + 80) c1) = ?A - {c1}" "fresh_stream e (store32 n1 (p + 80) c1) c1"
      "\<And>a. kheap_safe ?m a \<Longrightarrow> 4 \<le> unat (a - (p + 80)) \<Longrightarrow> store32 n1 (p + 80) c1 a = ?m a"
    by (auto simp: A0)
  let ?m1 = "store32 n1 (p + 80) c1"
  have "2 \<le> card (?A - {c1})" using pages fin c1(2) by simp
  then have "?A - {c1} \<noteq> {}" by (metis card.empty not_numeral_le_zero)
  then have p1: "p \<notin> kheap_avail ?m1" "kheap_avail ?m1 \<noteq> {}" using p(2) by (simp_all add: c1(5))
  from attach_stream [OF p1(2) disk p(1) p1(1), of 84] obtain c2 n2 where
    c2: "diskstreamer_new e 0 ?m1 = (c2, n2)" "c2 \<in> ?A - {c1}" "c2 \<in> kheap_pool" "c2 \<noteq> 0"
      "kheap_avail (store32 n2 (p + 84) c2) = ?A - {c1} - {c2}" "fresh_stream e (store32 n2 (p + 84) c2) c2"
      "\<And>a. kheap_safe ?m1 a \<Longrightarrow> 4 \<le> unat (a - (p + 84)) \<Longrightarrow> store32 n2 (p + 84) c2 a = ?m1 a"
    by (auto simp: c1(5))
  let ?m2 = "store32 n2 (p + 84) c2"
  have "1 \<le> card (?A - {c1} - {c2})" using \<open>2 \<le> card (?A - {c1})\<close> fin c2(2) by simp
  then have "?A - {c1} - {c2} \<noteq> {}" by (metis card.empty not_one_le_zero)
  then have p2: "p \<notin> kheap_avail ?m2" "kheap_avail ?m2 \<noteq> {}" using p(2) by (simp_all add: c2(5))
  from attach_stream [OF p2(2) disk p(1) p2(1), of 88] obtain c3 n3 where
    c3: "diskstreamer_new e 0 ?m2 = (c3, n3)" "c3 \<in> ?A - {c1} - {c2}" "c3 \<in> kheap_pool" "c3 \<noteq> 0"
      "kheap_avail (store32 n3 (p + 88) c3) = ?A - {c1} - {c2} - {c3}" "fresh_stream e (store32 n3 (p + 88) c3) c3"
      "\<And>a. kheap_safe ?m2 a \<Longrightarrow> 4 \<le> unat (a - (p + 88)) \<Longrightarrow> store32 n3 (p + 88) c3 a = ?m2 a"
    by (auto simp: c2(5))
  let ?m3 = "store32 n3 (p + 88) c3"
  have safe: "kheap_safe ?m a" "kheap_safe ?m1 a" "kheap_safe ?m2 a" if "kheap_safe m a" for a
    using that by (auto simp: kheap_safe_def A0 c1(5) c2(5))
  have e1: "?m1 a = m a" and e2: "?m2 a = m a" and e3: "?m3 a = m a" if "kheap_safe m a" "a div 4096 \<noteq> p div 4096" for a
    using c1(7) [OF safe(1) [OF that(1)]] c2(7) [OF safe(2) [OF that(1)]] c3(7) [OF safe(3) [OF that(1)]] far [OF that(2)]
      field_off_page [OF p(1) _ that(2)] by simp_all
  have id: "load32 ?m (disk_id (disk0 e)) = 0" "load32 ?m1 (disk_id (disk0 e)) = 0" "load32 ?m2 (disk_id (disk0 e)) = 0"
  proof -
    have k: "kheap_safe m (disk_id (disk0 e) + k)" "(disk_id (disk0 e) + k) div 4096 \<noteq> p div 4096" if "k < 4" for k
      using off_heap_safe [OF no(2) [OF that]] off_heap_page [OF no(2) [OF that] p(1)] by blast+
    then show "load32 ?m (disk_id (disk0 e)) = 0" "load32 ?m1 (disk_id (disk0 e)) = 0" "load32 ?m2 (disk_id (disk0 e)) = 0"
      using load32_same [of ?m _ m] load32_same [of ?m1 _ m] load32_same [of ?m2 _ m] far e1 e2 no(1) by metis+
  qed
  have field: "kheap_safe m (p + i + k)" if "i \<le> 4092" "k < 4" for i k
    using kheap_safe_page [OF p] kheap_field(1) [OF p(1) that] by blast
  have keep1: "load32 ?m2 (p + 80) = load32 ?m1 (p + 80)"
    using field_before(1) [of _ p 80] by (intro load32_same c2(7) safe(2) field) simp_all
  have keep2: "load32 ?m3 (p + 80) = load32 ?m2 (p + 80)"
    using field_before(2) [of _ p 80] by (intro load32_same c3(7) safe(3) field) simp_all
  have keep3: "load32 ?m3 (p + 84) = load32 ?m2 (p + 84)"
    using field_before(1) [of _ p 84] by (intro load32_same c3(7) safe(3) field) simp_all
  have other: "kheap_safe n c" "c div 4096 \<noteq> p div 4096" if "c \<in> kheap_pool" "c \<noteq> p" "c \<notin> kheap_avail n" for c n
    using kheap_safe_page [OF that(1,3)] kh.pool_same_page [OF that(1) p(1)] that(2) by auto
  have c1p: "c1 \<noteq> p" using c1(2) p(2) by auto
  have "?m3 a = ?m1 a" if a: "a div 4096 = c1 div 4096" for a
  proof -
    have "a div 4096 \<noteq> p div 4096" using a other(2) [OF c1(3) c1p, of ?m1] c1(5) by simp
    moreover have "kheap_safe ?m1 a" "kheap_safe ?m2 a"
      using kheap_safe_page [OF c1(3) _ a] by (simp_all add: c1(5) c2(5))
    ultimately show ?thesis using c2(7) [of a] c3(7) [of a] field_off_page [OF p(1), of _ a] by simp
  qed
  then have f1: "fresh_stream e ?m3 c1" by (rule fresh_stream_same [OF c1(6,3)])
  have c2p: "c2 \<noteq> p" using c2(2) p(2) by auto
  have "?m3 a = ?m2 a" if a: "a div 4096 = c2 div 4096" for a
  proof -
    have "a div 4096 \<noteq> p div 4096" using a other(2) [OF c2(3) c2p, of ?m2] c2(5) by simp
    moreover have "kheap_safe ?m2 a" using kheap_safe_page [OF c2(3) _ a] by (simp add: c2(5))
    ultimately show ?thesis using c3(7) [of a] field_off_page [OF p(1), of _ a] by simp
  qed
  then have f2: "fresh_stream e ?m3 c2" by (rule fresh_stream_same [OF c2(6,3)])
  have run: "fat16_init_private e (disk0 e) p m = Done ?m3"
    using c1(1,4) c2(1,4) c3(1,4) id
    by (simp add: fat16_init_private_def cluster_read_stream_def fat_read_stream_def directory_stream_def)
  have "load32 ?m3 (cluster_read_stream p) = c1" using keep1 keep2 by (simp add: layout)
  moreover have "load32 ?m3 (fat_read_stream p) = c2" using keep3 by (simp add: layout)
  moreover have "load32 ?m3 (directory_stream p) = c3" by (simp add: layout)
  moreover have "{c1, c2, c3} \<subseteq> ?A" "distinct [c1, c2, c3]" "kheap_avail ?m3 = ?A - {c1, c2, c3}"
    using c1(2) c2(2) c3(2,5) by auto
  ultimately show thesis using that [OF run _ _ _ _ _ _ f1 f2 c3(6) e3] by blast
qed

section \<open>Reading\<close>

text \<open>What a stream on a page of the heap and the code that counts items may write.\<close>

definition touched :: "env \<Rightarrow> addr \<Rightarrow> addr \<Rightarrow> bool" where
  "touched e st a = (mount_local e a \<or> a div 4096 = st div 4096)"

lemma own_touched: "st \<in> kheap_pool \<Longrightarrow> stream_own e st a \<Longrightarrow> touched e st a"
  using pool_near [of st a] by (auto simp: stream_own_def touched_def mount_local_def)

lemma local_off_page: "locals_apart e \<Longrightarrow> mount_local e a \<Longrightarrow> st \<in> kheap_pool \<Longrightarrow> a div 4096 \<noteq> st div 4096"
  by (auto simp: locals_apart_def off_heap_def)

lemma stream_atI:
  assumes "ata_drive (dev e) img" and "locals_apart e" and "st \<in> kheap_pool"
    and "load32 (ram s) (stream_disk st) = disk0 e" and "load32 (ram s) (stream_pos st) = of_nat p" and "p < 2147483648"
  shows "stream_at e img st s p"
proof -
  have "8 \<le> unat (a - st)" if "sector_buffer e a" for a
    using local_off_page [OF assms(2) _ assms(3), of a] pool_near [OF assms(3), of a] that
    by (cases "8 \<le> unat (a - st)") (auto simp: mount_local_def)
  then show ?thesis using assms by (simp add: stream_at_def)
qed

lemma stream_same:
  assumes "stream_at e img st s p" and "st \<in> kheap_pool" and "\<And>a. a div 4096 = st div 4096 \<Longrightarrow> ram s' a = ram s a"
  shows "stream_at e img st s' p"
proof -
  have "load32 (ram s') (st + i) = load32 (ram s) (st + i)" if "i \<le> 4092" for i
    using kheap_field(1) [OF assms(2) that] by (intro load32_same assms(3))
  from this [of 0] this [of 4] show ?thesis using assms(1) by (simp add: stream_at_def layout)
qed

lemma avail_touched:
  assumes "locals_apart e" and "st \<in> kheap_pool" and "\<And>a. \<not> touched e st a \<Longrightarrow> kheap_meta a \<Longrightarrow> m' a = m a"
  shows "kheap_avail m' = kheap_avail m"
proof (rule kheap_avail_local)
  fix a assume "kheap_meta a"
  moreover from this have "\<not> touched e st a"
    using assms(1) kheap_pool_meta [OF assms(2)] by (auto simp: touched_def locals_apart_def off_heap_def)
  ultimately show "m' a = m a" using assms(3) by blast
qed

lemma stream_reads:
  assumes "stream_at e img st s p" and "p + n < 2147483648" and "st \<in> kheap_pool"
    and "\<And>i. i < n \<Longrightarrow> \<not> stream_own e st (out + of_nat i)"
  obtains s' where "diskstreamer_read e 0 st out (of_nat n) s = Some (0, s')" and "stream_at e img st s' (p + n)"
    and "\<And>i. i < n \<Longrightarrow> ram s' (out + of_nat i) = img (p + i)"
    and "\<And>a. \<not> touched e st a \<Longrightarrow> n \<le> unat (a - out) \<Longrightarrow> ram s' a = ram s a"
proof -
  from diskstreamer_read_img [OF assms(1,2,4), of 0] obtain s' where
    r: "diskstreamer_read e 0 st out (of_nat n) s = Some (0, s')" "stream_at e img st s' (p + n)"
      "\<And>a. \<not> stream_own e st a \<Longrightarrow> ram s' a = poke (ram s) out (img_bytes img p n) a" by blast
  have "ram s' (out + of_nat i) = img (p + i)" if "i < n" for i
    using r(3) [OF assms(4) [OF that]] that assms(2) by (simp add: poke_in)
  moreover have "ram s' a = ram s a" if "\<not> touched e st a" "n \<le> unat (a - out)" for a
    using r(3) [of a] own_touched [OF assms(3), of e a] that by (auto simp: poke_out)
  ultimately show thesis using that r(1,2) by blast
qed

lemma item_local_read:
  assumes loc: "locals_apart e" and st: "st \<in> kheap_pool" and at: "stream_at e img st s b" "b + 32 < 2147483648"
  obtains s' where "diskstreamer_read e 0 st (item_local e) sizeof_directory_item s = Some (0, s')"
    and "stream_at e img st s' (b + 32)" and "ram s' (item_local e) = img b"
    and "\<And>a. \<not> touched e st a \<Longrightarrow> ram s' a = ram s a"
proof -
  have it: "mount_local e (item_local e + of_nat i)" if "i < 32" for i
    using that by (simp add: mount_local_def unat_of_nat32)
  have "\<not> stream_own e st (item_local e + of_nat i)" if "i < 32" for i
    using local_off_page [OF loc it [OF that] st] pool_near [OF st, of "item_local e + of_nat i"] loc that
    by (auto simp: stream_own_def locals_apart_def)
  from stream_reads [OF at(1,2) st this] obtain s' where
    s': "diskstreamer_read e 0 st (item_local e) (of_nat 32) s = Some (0, s')" "stream_at e img st s' (b + 32)"
      "\<And>i. i < 32 \<Longrightarrow> ram s' (item_local e + of_nat i) = img (b + i)"
      "\<And>a. \<not> touched e st a \<Longrightarrow> 32 \<le> unat (a - item_local e) \<Longrightarrow> ram s' a = ram s a" by blast
  have "32 \<le> unat (a - item_local e)" if "\<not> touched e st a" for a
    using that by (simp add: touched_def mount_local_def)
  with s' that show thesis using s'(3) [of 0] by (simp add: sizeof_directory_item_def)
qed

lemma card_shift: "card {i. i < Suc n \<and> P i} = (if P 0 then 1 else 0) + card {i. i < n \<and> P (Suc i)}"
proof -
  have "{i. i < Suc n \<and> P i} = (if P 0 then {0} else {}) \<union> Suc ` {i. i < n \<and> P (Suc i)}"
    by (auto simp: less_Suc_eq_0_disj)
  moreover have "card (Suc ` {i. i < n \<and> P (Suc i)}) = card {i. i < n \<and> P (Suc i)}" by (rule card_image) simp
  moreover have "card ({0} \<union> Suc ` {i. i < n \<and> P (Suc i)}) = Suc (card (Suc ` {i. i < n \<and> P (Suc i)}))" by simp
  ultimately show ?thesis by simp
qed

text \<open>The count of the items from byte \<open>b\<close> on: it ends at the first free entry.\<close>

lemma count_items:
  assumes loc: "locals_apart e" and st: "st \<in> kheap_pool"
    and "stream_at e img st s b" and "b + 32 * Suc n < 2147483648"
    and "img (b + 32 * n) = 0" and "\<forall>i < n. img (b + 32 * i) \<noteq> 0"
  shows "\<exists>s'. fat16_count_items e st ret s = Some (ret + of_nat (card {i. i < n \<and> img (b + 32 * i) \<noteq> 0xE5}), s') \<and>
     (\<exists>q. stream_at e img st s' q) \<and> (\<forall>a. \<not> touched e st a \<longrightarrow> ram s' a = ram s a)"
  using assms(3-)
proof (induction n arbitrary: b ret s)
  case (0 b ret s)
  from 0(2) have "b + 32 < 2147483648" by simp
  from item_local_read [OF loc st 0(1) this] obtain s' where
    s': "diskstreamer_read e 0 st (item_local e) sizeof_directory_item s = Some (0, s')" "stream_at e img st s' (b + 32)"
      "ram s' (item_local e) = img b" "\<And>a. \<not> touched e st a \<Longrightarrow> ram s' a = ram s a" by blast
  then show ?case using 0(3) by (subst fat16_count_items.simps) (auto simp: layout)
next
  case (Suc n)
  from Suc.prems(2) have "b + 32 < 2147483648" by simp
  from item_local_read [OF loc st Suc.prems(1) this] obtain t where
    t: "diskstreamer_read e 0 st (item_local e) sizeof_directory_item s = Some (0, t)" "stream_at e img st t (b + 32)"
      "ram t (item_local e) = img b" "\<And>a. \<not> touched e st a \<Longrightarrow> ram t a = ram s a" by blast
  let ?r = "if img b = 0xE5 then ret else ret + 1"
  have "img b \<noteq> 0" using Suc.prems(4) by force
  then have step: "fat16_count_items e st ret s = fat16_count_items e st ?r t"
    using t(1,3) by (subst fat16_count_items.simps) (simp add: layout)
  have "\<forall>i < n. img (b + 32 + 32 * i) \<noteq> 0" using Suc.prems(4) by (auto simp: algebra_simps dest: spec [of _ "Suc _"])
  with Suc.IH [OF t(2), of ?r] Suc.prems(2,3) obtain s' where
    s': "fat16_count_items e st ?r t = Some (?r + of_nat (card {i. i < n \<and> img (b + 32 + 32 * i) \<noteq> 0xE5}), s')"
      "\<exists>q. stream_at e img st s' q" "\<And>a. \<not> touched e st a \<Longrightarrow> ram s' a = ram t a" by (auto simp: algebra_simps)
  have "card {i. i < Suc n \<and> img (b + 32 * i) \<noteq> 0xE5} =
      (if img b \<noteq> 0xE5 then 1 else 0) + card {i. i < n \<and> img (b + 32 + 32 * i) \<noteq> 0xE5}"
    using card_shift [of n "\<lambda>i. img (b + 32 * i) \<noteq> 0xE5"] by (simp add: algebra_simps)
  then have "?r + of_nat (card {i. i < n \<and> img (b + 32 + 32 * i) \<noteq> 0xE5})
      = ret + of_nat (card {i. i < Suc n \<and> img (b + 32 * i) \<noteq> 0xE5})"
    by (simp add: ac_simps)
  with step s' t(4) show ?case by auto
qed

lemma count_directory:
  assumes loc: "locals_apart e" and st: "st \<in> kheap_pool" and disk: "load32 (ram s) (disk_sector_size (disk0 e)) = 512"
      "\<And>k. k < 4 \<Longrightarrow> \<not> mount_local e (disk_sector_size (disk0 e) + k)"
    and pr: "load32 (ram s) (directory_stream pr) = st" "\<And>k. k < 4 \<Longrightarrow> \<not> touched e st (directory_stream pr + k)"
    and at: "stream_at e img st s p" and r: "512 * r + 32 * Suc n < 2147483648"
    and items: "img (512 * r + 32 * n) = 0" "\<forall>i < n. img (512 * r + 32 * i) \<noteq> 0"
  obtains s' q where "fat16_get_total_items_for_directory e (disk0 e) pr (of_nat r) s =
      Some (of_nat (card {i. i < n \<and> img (512 * r + 32 * i) \<noteq> 0xE5}), s')"
    and "stream_at e img st s' q" and "\<And>a. \<not> touched e st a \<Longrightarrow> ram s' a = ram s a"
proof -
  let ?m = "memset (ram s) (empty_local e) 0 sizeof_directory_item"
  let ?s = "s\<lparr>ram := store32 ?m (stream_pos st) (of_nat (512 * r))\<rparr>"
  have m: "?m a = ram s a" if "\<not> mount_local e a" for a
    using that by (intro memset_out) (auto simp: mount_local_def sizeof_directory_item_def word_less_nat_alt)
  have off: "\<not> mount_local e a" if "a div 4096 = st div 4096" for a using local_off_page [OF loc _ st] that by blast
  have load: "load32 ?m a = load32 (ram s) a" if "\<And>k. k < 4 \<Longrightarrow> \<not> mount_local e (a + k)" for a
    using that m by (intro load32_same) blast
  have "load32 ?m (stream_disk st) = load32 (ram s) (stream_disk st)"
    using kheap_field(1) [OF st, of 4] by (intro load off) (simp add: layout)
  then have "stream_at e img st ?s (512 * r)"
    using at r loc st by (intro stream_atI) (simp_all add: stream_at_def layout load32_store32_apart)
  from count_items [OF loc st this _ items, of 0] r obtain s' where
    s': "fat16_count_items e st 0 ?s = Some (of_nat (card {i. i < n \<and> img (512 * r + 32 * i) \<noteq> 0xE5}), s')"
      "\<exists>q. stream_at e img st s' q" "\<And>a. \<not> touched e st a \<Longrightarrow> ram s' a = ram ?s a" by auto
  have st0: "store32 m' (stream_pos st) w a = m' a" if "a div 4096 \<noteq> st div 4096" for m' w a
    using field_off_page [OF st, of 0 a] that by (intro store32_byte_out) (simp add: layout)
  have "load32 ?m (disk_sector_size (disk0 e)) = 512" using load [OF disk(2)] disk(1) by simp
  moreover have "load32 ?m (directory_stream pr) = st" using load [of "directory_stream pr"] pr by (simp add: touched_def)
  moreover have "of_nat r * 512 = (of_nat (512 * r) :: u32)" by simp
  ultimately have "fat16_get_total_items_for_directory e (disk0 e) pr (of_nat r) s = fat16_count_items e st 0 ?s"
    by (simp add: fat16_get_total_items_for_directory_def diskstreamer_seek_def mult.commute)
  moreover have "ram s' a = ram s a" if "\<not> touched e st a" for a
    using s'(3) [OF that] st0 [of a ?m] m [of a] that by (simp add: touched_def)
  ultimately show thesis using that s'(1,2) by auto
qed

section \<open>The root directory\<close>

lemma load16_nat: "load16 m a = of_nat (unat (m a) + 256 * unat (m (a + 1)))"
proof -
  have "load16 m a = ucast (m a) + push_bit 8 (ucast (m (a + 1)))"
    unfolding load16_def by (rule disjunctive_add [symmetric]) (auto simp: bit_simps dest: bit_imp_le_length)
  also have "\<dots> = of_nat (unat (m a) + 256 * unat (m (a + 1)))" by (simp add: push_bit_eq_mult)
  finally show ?thesis .
qed

lemma load16_img:
  assumes "m a = img i" and "m (a + 1) = img (i + 1)"
  shows "ucast (load16 m a) = (of_nat (img16 img i) :: u32)"
proof -
  have "unat (img i) < 256" "unat (img (i + 1)) < 256" using unsigned_less [of "img i"] unsigned_less [of "img (i + 1)"] by simp_all
  then have "img16 img i < 65536" by (simp add: img16_def)
  then have "unat (of_nat (img16 img i) :: u16) = img16 img i" by (simp add: unat_of_nat)
  then have "(ucast (of_nat (img16 img i) :: u16) :: u32) = of_nat (img16 img i)" by (metis of_nat_unat)
  then show ?thesis using load16_nat [of m a] assms by (simp add: img16_def)
qed

lemma sectors_of_root:
  assumes "N \<le> 128"
  shows "(if int_mod (of_nat (32 * N)) (512 :: u32) \<noteq> 0 then int_div (of_nat (32 * N)) 512 + 1 else int_div (of_nat (32 * N)) 512)
    = of_nat ((32 * N + 511) div 512)"
proof -
  have "32 * N < 2147483648" using assms by simp
  note w = pos_words [OF this, unfolded PHIX_SECTOR_SIZE_def]
  define q r where "q = 32 * N div 512" and "r = 32 * N mod 512"
  have r: "r < 512" "32 * N = 512 * q + r"
    unfolding r_def q_def by (rule mod_less_divisor, simp) (rule mult_div_mod_eq [symmetric])
  then have "(of_nat r :: u32) = 0 \<longleftrightarrow> r = 0" using word_of_nat_inj [of r 0] by simp
  moreover have "(32 * N + 511) div 512 = (if r \<noteq> 0 then q + 1 else q)"
  proof (cases "r = 0")
    case False
    then show ?thesis using r by (intro div_nat_eqI) simp_all
  qed (use r in \<open>simp add: div_nat_eqI\<close>)
  ultimately show ?thesis unfolding w q_def [symmetric] r_def [symmetric] by simp
qed

lemma root_fields_out:
  assumes "16 \<le> unat (a - d)"
  shows "store32 (store32 (store32 (store32 m (directory_item d) w) (directory_total d) x) (directory_sector_pos d) y)
    (directory_ending_sector_pos d) v a = m a"
proof -
  have "4 \<le> unat (a - (d + k))" if "k \<in> {0, 4, 8, 12}" for k
  proof -
    have "unat k \<le> 12" using that by auto
    then have "unat (a - d - k) = unat (a - d) - unat k" using assms by (intro unat_sub) (simp add: word_le_nat_alt)
    then show ?thesis using assms \<open>unat k \<le> 12\<close> by (simp add: diff_diff_eq)
  qed
  from this [of 0] this [of 4] this [of 8] this [of 12] show ?thesis by (simp add: store32_byte_out layout)
qed

lemma root_dir_fields:
  "directory_item (root_directory p) = p + 64" "directory_total (root_directory p) = p + 68"
  "directory_sector_pos (root_directory p) = p + 72" "directory_ending_sector_pos (root_directory p) = p + 76"
  by (simp_all add: layout)

lemma root_off_page:
  assumes "p \<in> kheap_pool" and "a div 4096 \<noteq> p div 4096 \<or> (\<exists>i < 62. a = p + of_nat i)"
  shows "16 \<le> unat (a - root_directory p)"
proof (rule ccontr)
  assume "\<not> 16 \<le> unat (a - root_directory p)"
  then obtain x where x: "x < 16" "a - root_directory p = of_nat x" by (metis not_le_imp_less of_nat_unat ucast_id)
  then have a: "a = p + of_nat (64 + x)" by (simp add: layout algebra_simps)
  have "(p + of_nat (64 + x)) div 4096 = p div 4096" using x(1) by (intro pool_word [OF assms(1)]) simp
  with assms(2) a obtain i where i: "i < 62" "p + of_nat (64 + x) = p + of_nat i" by metis
  then have "(of_nat (64 + x) :: u32) = of_nat i" by simp
  then have "64 + x = i" using word_of_nat_inj [of "64 + x" i] x(1) i(1) by simp
  with i(1) show False by simp
qed

lemma root_directory_read:
  assumes loc: "locals_apart e" and st: "st \<in> kheap_pool" "st \<notin> kheap_avail (ram s)"
    and pr: "pr \<in> kheap_pool" "pr \<notin> kheap_avail (ram s)" "pr \<noteq> st" and pages: "kheap_avail (ram s) \<noteq> {}"
    and disk: "load32 (ram s) (disk_sector_size (disk0 e)) = 512"
      "\<And>k. k < 4 \<Longrightarrow> off_heap (disk_sector_size (disk0 e) + k) \<and> \<not> mount_local e (disk_sector_size (disk0 e) + k)"
    and header: "\<And>i. i < 62 \<Longrightarrow> ram s (pr + of_nat i) = img i" and stream: "load32 (ram s) (directory_stream pr) = st"
    and at: "stream_at e img st s p" and img: "fat_image img z"
  obtains s' dir where "fat16_get_root_directory e (disk0 e) pr (root_directory pr) s = Some (0, s')"
    and "dir \<in> kheap_avail (ram s)" and "kheap_avail (ram s') = kheap_avail (ram s) - {dir}"
    and "load32 (ram s') (directory_item (root_directory pr)) = dir"
    and "load32 (ram s') (directory_total (root_directory pr)) = of_nat (root_total img z)"
    and "load32 (ram s') (directory_sector_pos (root_directory pr)) = of_nat (root_sector img)"
    and "load32 (ram s') (directory_ending_sector_pos (root_directory pr)) = of_nat (root_sector img + (32 * root_entries img + 511) div 512)"
    and "\<And>i. i < 32 * root_entries img \<Longrightarrow> ram s' (dir + of_nat i) = img (512 * root_sector img + i)"
    and "stream_at e img st s' (512 * root_sector img + 32 * root_entries img)"
    and "\<And>a. kheap_safe (ram s) a \<Longrightarrow> \<not> touched e st a \<Longrightarrow> 16 \<le> unat (a - root_directory pr) \<Longrightarrow> ram s' a = ram s a"
proof -
  let ?R = "root_sector img" and ?N = "root_entries img"
  have im: "?N \<le> 128" "512 * ?R + 4096 + 32 * Suc z < 2147483648" "img (512 * ?R + 32 * z) = 0"
    "\<forall>i < z. img (512 * ?R + 32 * i) \<noteq> 0" using img by (simp_all add: fat_image_def)
  have h: "ram s (fat_copies pr) = img 16" "ucast (load16 (ram s) (sectors_per_fat pr)) = (of_nat (img16 img 22) :: u32)"
    "ucast (load16 (ram s) (reserved_sectors pr)) = (of_nat (img16 img 14) :: u32)"
    "ucast (load16 (ram s) (root_dir_entries pr)) = (of_nat ?N :: u32)"
    using header [of 16] load16_img [of "ram s" "pr + 22" img 22] load16_img [of "ram s" "pr + 14" img 14]
      load16_img [of "ram s" "pr + 17" img 17] header [of 22] header [of 23] header [of 14] header [of 15] header [of 17] header [of 18]
    by (simp_all add: layout root_entries_def add.assoc)
  have root: "ucast (ram s (fat_copies pr)) * ucast (load16 (ram s) (sectors_per_fat pr)) + ucast (load16 (ram s) (reserved_sectors pr))
      = (of_nat ?R :: u32)" unfolding h by (simp add: root_sector_def)
  have off: "\<not> touched e st (pr + i + k)" if "i \<le> 4092" "k < 4" for i k
    using kheap_field(1) [OF pr(1) that] local_off_page [OF loc _ pr(1)] kh.pool_same_page [OF pr(1) st(1)] pr(3)
    by (auto simp: touched_def)
  have dk: "\<not> touched e st (disk_sector_size (disk0 e) + k)" "kheap_safe m (disk_sector_size (disk0 e) + k)" if "k < 4" for k m
    using disk(2) [OF that] off_heap_page [OF _ st(1)] off_heap_safe by (auto simp: touched_def)
  have "\<not> mount_local e (disk_sector_size (disk0 e) + k)" if "k < 4" for k using disk(2) [OF that] by blast
  moreover have "\<not> touched e st (directory_stream pr + k)" if "k < 4" for k using off [of 88] that by (simp add: layout)
  ultimately obtain s1 q where
    s1: "fat16_get_total_items_for_directory e (disk0 e) pr (of_nat ?R) s = Some (of_nat (root_total img z), s1)"
      "stream_at e img st s1 q" "\<And>a. \<not> touched e st a \<Longrightarrow> ram s1 a = ram s a"
    using count_directory [OF loc st(1) disk(1) _ stream _ at _ im(3,4), of thesis] im(2) unfolding root_total_def by auto
  have A1: "kheap_avail (ram s1) = kheap_avail (ram s)" by (rule avail_touched [OF loc st(1) s1(3)])
  have sz: "0 < unat sizeof_directory_item" "unat sizeof_directory_item \<le> 4096" by (simp_all add: sizeof_directory_item_def)
  have "kheap_avail (ram s1) \<noteq> {}" using pages by (simp add: A1)
  from kzalloc_safe [OF sz this] obtain dir m2 where
    d: "kzalloc sizeof_directory_item (ram s1) = (dir, m2)" "dir \<in> kheap_avail (ram s)" "dir \<in> kheap_pool" "dir \<noteq> 0"
      "kheap_avail m2 = kheap_avail (ram s) - {dir}" "\<And>a. a - dir < sizeof_directory_item \<Longrightarrow> m2 a = 0"
      "\<And>a. kheap_safe (ram s1) a \<Longrightarrow> m2 a = ram s1 a" by (auto simp: A1)
  have safe: "kheap_safe (ram s1) a \<longleftrightarrow> kheap_safe (ram s) a" for a by (simp add: kheap_safe_def A1)
  let ?s3 = "s1\<lparr>ram := store32 m2 (stream_pos st) (of_nat (512 * ?R))\<rparr>"
  have m3: "ram ?s3 a = m2 a" if "a div 4096 \<noteq> st div 4096" for a
    using field_off_page [OF st(1), of 0 a] that by (simp add: store32_byte_out layout)
  have "m2 a = ram s1 a" if "a div 4096 = st div 4096" for a
    using kheap_safe_page [OF st that] by (intro d(7)) (simp add: safe)
  from stream_same [OF s1(2) st(1), of "s1\<lparr>ram := m2\<rparr>"] this have "stream_at e img st (s1\<lparr>ram := m2\<rparr>) q" by simp
  then have at3: "stream_at e img st ?s3 (512 * ?R)"
    using im(2) by (simp add: stream_at_def layout load32_store32_apart)
  have ds: "dir \<noteq> st" "dir \<noteq> pr" using d(2) st(2) pr(2) by auto
  have page: "(dir + of_nat i) div 4096 = dir div 4096" if "i < 32 * ?N" for i using pool_word [OF d(3)] that im(1) by simp
  have own: "\<not> stream_own e st (dir + of_nat i)" if "i < 32 * ?N" for i
    using page [OF that] own_touched [OF st(1), of e "dir + of_nat i"] local_off_page [OF loc _ d(3), of "dir + of_nat i"]
      kh.pool_same_page [OF d(3) st(1)] ds(1) by (auto simp: touched_def)
  from im(1,2) have "512 * ?R + 32 * ?N < 2147483648" by simp
  from stream_reads [OF at3 this st(1) own] obtain s4 where
    s4: "diskstreamer_read e 0 st dir (of_nat (32 * ?N)) ?s3 = Some (0, s4)" "stream_at e img st s4 (512 * ?R + 32 * ?N)"
      "\<And>i. i < 32 * ?N \<Longrightarrow> ram s4 (dir + of_nat i) = img (512 * ?R + i)"
      "\<And>a. \<not> touched e st a \<Longrightarrow> 32 * ?N \<le> unat (a - dir) \<Longrightarrow> ram s4 a = ram ?s3 a" by blast
  have same: "ram s4 a = ram s a" if "kheap_safe (ram s) a" "\<not> touched e st a" for a
  proof -
    have "a div 4096 \<noteq> dir div 4096" using that(1) d(2) by (simp add: kheap_safe_def)
    then have "32 * ?N \<le> unat (a - dir)" using pool_near [OF d(3), of a] im(1) by (cases "unat (a - dir) < 4096") auto
    moreover have "a div 4096 \<noteq> st div 4096" using that(2) by (simp add: touched_def)
    ultimately show ?thesis using s4(4) [OF that(2)] m3 [of a] d(7) [of a] s1(3) [OF that(2)] that(1) by (simp add: safe)
  qed
  have A4: "kheap_avail (ram s4) = kheap_avail (ram s) - {dir}"
  proof -
    have "ram s4 a = ram ?s3 a" if "\<not> touched e st a" "kheap_meta a" for a
    proof (rule s4(4) [OF that(1)])
      have "a div 4096 \<noteq> dir div 4096" using kheap_pool_meta [OF d(3), of a] that(2) by blast
      then show "32 * ?N \<le> unat (a - dir)" using pool_near [OF d(3), of a] im(1) by (cases "unat (a - dir) < 4096") auto
    qed
    from avail_touched [OF loc st(1) this] have "kheap_avail (ram s4) = kheap_avail (ram ?s3)" .
    also have "\<dots> = kheap_avail m2" using kheap_avail_field [OF st(1), of 0] by (simp add: layout)
    finally show ?thesis by (simp add: d(5))
  qed
  let ?d = "root_directory pr"
  let ?v = "of_nat (?R + (32 * ?N + 511) div 512) :: u32"
  let ?m5 = "store32 (store32 (store32 (store32 (ram s4) (directory_item ?d) dir) (directory_total ?d) (of_nat (root_total img z)))
    (directory_sector_pos ?d) (of_nat ?R)) (directory_ending_sector_pos ?d) ?v"
  have sector: "load32 m2 (disk_sector_size (disk0 e)) = 512" "load32 (ram s) (disk_sector_size (disk0 e)) = 512"
  proof -
    have "load32 m2 (disk_sector_size (disk0 e)) = load32 (ram s) (disk_sector_size (disk0 e))"
      using dk d(7) s1(3) by (intro load32_same) simp
    then show "load32 m2 (disk_sector_size (disk0 e)) = 512" "load32 (ram s) (disk_sector_size (disk0 e)) = 512" using disk(1) by simp_all
  qed
  have str: "load32 m2 (directory_stream pr) = st"
  proof -
    have "m2 (pr + 88 + k) = ram s (pr + 88 + k)" if "k < 4" for k
    proof -
      have "kheap_safe (ram s) (pr + 88 + k)" using kheap_safe_page [OF pr(1,2)] kheap_field(1) [OF pr(1) _ that, of 88] by simp
      then show ?thesis using d(7) s1(3) [OF off [OF _ that]] by (simp add: safe)
    qed
    from load32_same [of m2 "pr + 88" "ram s", OF this] stream show ?thesis by (simp add: layout)
  qed
  have size: "(of_nat ?N :: u32) * sizeof_directory_item = of_nat (32 * ?N)" "\<not> div_faults (of_nat (32 * ?N)) 512"
    by (simp_all add: sizeof_directory_item_def div_faults_def)
  have pos: "fat_sector_to_absolute (disk0 e) (of_nat ?R) m2 = of_nat (512 * ?R)" by (simp add: fat_sector_to_absolute_def sector)
  have total: "(if int_mod (of_nat (32 * ?N)) 512 \<noteq> 0 then int_div (of_nat (32 * ?N)) 512 + 1 else int_div (of_nat (32 * ?N)) (512 :: u32))
      = of_nat ((32 * ?N + 511) div 512)" by (rule sectors_of_root [OF im(1)])
  have run: "fat16_get_root_directory e (disk0 e) pr ?d s = Some (0, s4\<lparr>ram := ?m5\<rparr>)"
    unfolding fat16_get_root_directory_def private_header_def Let_def root sector(2) h(4) size(1) total
    using size(2) s1(1) d(1,4) str s4(1) by (simp add: pos diskstreamer_seek_def del: of_nat_mult)
  show thesis
  proof (rule that [OF run d(2)])
    show "kheap_avail (ram (s4\<lparr>ram := ?m5\<rparr>)) = kheap_avail (ram s) - {dir}"
      using A4 kheap_avail_field [OF pr(1), of 64] kheap_avail_field [OF pr(1), of 68] kheap_avail_field [OF pr(1), of 72]
        kheap_avail_field [OF pr(1), of 76] by (simp add: root_dir_fields)
    show "ram (s4\<lparr>ram := ?m5\<rparr>) (dir + of_nat i) = img (512 * ?R + i)" if "i < 32 * ?N" for i
    proof -
      have "store32 m (pr + k) w (dir + of_nat i) = m (dir + of_nat i)" if "k \<le> 4092" for m k w
        using ds(2) page [OF \<open>i < 32 * ?N\<close>] by (intro kheap_field_other [OF pr(1) d(3) _ that]) auto
      from this [of 64] this [of 68] this [of 72] this [of 76] show ?thesis using s4(3) [OF that] by (simp add: root_dir_fields)
    qed
    show "stream_at e img st (s4\<lparr>ram := ?m5\<rparr>) (512 * ?R + 32 * ?N)"
    proof (rule stream_same [OF s4(2) st(1)])
      fix a assume "a div 4096 = st div 4096"
      then have "16 \<le> unat (a - ?d)"
        using kh.pool_same_page [OF pr(1) st(1)] pr(3) by (intro root_off_page [OF pr(1)]) auto
      from root_fields_out [OF this] show "ram (s4\<lparr>ram := ?m5\<rparr>) a = ram s4 a" by simp
    qed
    show "ram (s4\<lparr>ram := ?m5\<rparr>) a = ram s a" if "kheap_safe (ram s) a" "\<not> touched e st a" "16 \<le> unat (a - ?d)" for a
      using root_fields_out [OF that(3)] same [OF that(1,2)] by simp
  qed (simp_all add: layout load32_store32_apart)
qed

section \<open>Mounting\<close>

text \<open>
  The disk is mounted with its private data at \<open>pr\<close> and the root directory's items at \<open>dir\<close>:
  both have the bytes of the disk.
\<close>

definition mounted :: "env \<Rightarrow> (nat \<Rightarrow> u8) \<Rightarrow> nat \<Rightarrow> addr \<Rightarrow> addr \<Rightarrow> mem \<Rightarrow> bool" where
  "mounted e img z pr dir m =
     (fat_mounted e pr m \<and> load32 m (disk_filesystem (disk0 e)) = fat16_fs e \<and>
      (\<forall>i < 62. m (private_header pr + of_nat i) = img i) \<and>
      load32 m (directory_item (root_directory pr)) = dir \<and>
      load32 m (directory_total (root_directory pr)) = of_nat (root_total img z) \<and>
      load32 m (directory_sector_pos (root_directory pr)) = of_nat (root_sector img) \<and>
      load32 m (directory_ending_sector_pos (root_directory pr)) =
        of_nat (root_sector img + (32 * root_entries img + 511) div 512) \<and>
      (\<forall>i < 32 * root_entries img. m (dir + of_nat i) = img (512 * root_sector img + i)))"

text \<open>
  The three streams that the private data points to: objects of their own, apart from it and
  from the items, on this disk. The two for clusters and for the table are at its start, the
  one for directories behind the entries of the root directory.
\<close>

definition fat_streams :: "env \<Rightarrow> (nat \<Rightarrow> u8) \<Rightarrow> addr \<Rightarrow> addr \<Rightarrow> 'a machine_scheme \<Rightarrow> bool" where
  "fat_streams e img pr dir s =
     (let c = load32 (ram s) (cluster_read_stream pr);
          f = load32 (ram s) (fat_read_stream pr);
          d = load32 (ram s) (directory_stream pr)
      in distinct [pr, dir, c, f, d] \<and> {pr, dir, c, f, d} \<subseteq> kheap_pool - kheap_avail (ram s) \<and>
         stream_at e img c s 0 \<and> stream_at e img f s 0 \<and>
         stream_at e img d s (512 * root_sector img + 32 * root_entries img))"

lemma mount_header:
  assumes loc: "locals_apart e" and p: "p \<in> kheap_pool" "p \<notin> kheap_avail (ram s)" and st: "st \<in> kheap_pool" "st \<noteq> p"
    and at: "stream_at e img st s 0"
  obtains s' where "diskstreamer_read e 0 st (private_header p) sizeof_fat_h s = Some (0, s')"
    and "\<And>i. i < 62 \<Longrightarrow> ram s' (p + of_nat i) = img i" and "kheap_avail (ram s') = kheap_avail (ram s)"
    and "\<And>a. \<not> touched e st a \<Longrightarrow> 62 \<le> unat (a - p) \<Longrightarrow> ram s' a = ram s a"
proof -
  have page: "(p + of_nat i) div 4096 = p div 4096" if "i < 62" for i using pool_word [OF p(1)] that by simp
  have "\<not> stream_own e st (p + of_nat i)" if "i < 62" for i
    using page [OF that] own_touched [OF st(1), of e "p + of_nat i"] local_off_page [OF loc _ p(1), of "p + of_nat i"]
      kh.pool_same_page [OF p(1) st(1)] st(2) by (auto simp: touched_def)
  from stream_reads [where n = 62, OF at _ st(1) this] obtain s' where
    s': "diskstreamer_read e 0 st p (of_nat 62) s = Some (0, s')" "stream_at e img st s' 62" "\<And>i. i < 62 \<Longrightarrow> ram s' (p + of_nat i) = img (0 + i)"
      "\<And>a. \<not> touched e st a \<Longrightarrow> 62 \<le> unat (a - p) \<Longrightarrow> ram s' a = ram s a" by auto
  have "ram s' a = ram s a" if "\<not> touched e st a" "kheap_meta a" for a
  proof (rule s'(4) [OF that(1)])
    have "a div 4096 \<noteq> p div 4096" using kheap_pool_meta [OF p(1), of a] that(2) by blast
    then show "62 \<le> unat (a - p)" using pool_near [OF p(1), of a] by (cases "unat (a - p) < 4096") auto
  qed
  from avail_touched [OF loc st(1) this] s' that show thesis
    by (simp add: sizeof_fat_h_def private_header_def)
qed

lemma mount_end:
  assumes "st \<in> kheap_pool" and "\<not> kheap_meta a" and "\<And>k. k < 20 \<Longrightarrow> a \<noteq> d + k"
  shows "kfree st (store32 (store32 m (disk_fs_private d) v) (disk_filesystem d) w) a = m a"
proof -
  have "kfree st m' a = m' a" for m' using kh.free_frame [OF assms(1,2)] .
  moreover have "a \<noteq> d + k" if "k \<in> {12, 13, 14, 15, 16, 17, 18, 19}" for k using that by (intro assms(3)) auto
  from this [of 12] this [of 13] this [of 14] this [of 15] this [of 16] this [of 17] this [of 18] this [of 19]
  have "store32 (store32 m (disk_fs_private d) v) (disk_filesystem d) w a = m a"
    by (simp add: store32_def layout add.assoc)
  ultimately show ?thesis by simp
qed

lemma mount_end_disk:
  assumes "st \<in> kheap_pool" and "\<And>k. k < 20 \<Longrightarrow> off_heap (d + k)"
  shows "load32 (kfree st (store32 (store32 m (disk_fs_private d) v) (disk_filesystem d) w)) (disk_fs_private d) = v"
    and "load32 (kfree st (store32 (store32 m (disk_fs_private d) v) (disk_filesystem d) w)) (disk_filesystem d) = w"
    and "load32 (kfree st (store32 (store32 m (disk_fs_private d) v) (disk_filesystem d) w)) (disk_sector_size d)
      = load32 m (disk_sector_size d)"
proof -
  have free: "load32 (kfree st m') (d + i) = load32 m' (d + i)" if "i \<in> {4, 12, 16}" for i m'
  proof (rule load32_same)
    fix k :: u32 assume k: "k < 4"
    then have "unat k < 4" by (simp add: word_less_nat_alt)
    then have "i + k < 20" using that by (auto simp: word_less_nat_alt unat_word_ariths)
    from assms(2) [OF this] have "\<not> kheap_meta (d + i + k)" by (simp add: off_heap_def add.assoc)
    from kh.free_frame [OF assms(1) this] show "kfree st m' (d + i + k) = m' (d + i + k)" .
  qed
  show "load32 (kfree st (store32 (store32 m (disk_fs_private d) v) (disk_filesystem d) w)) (disk_fs_private d) = v"
    "load32 (kfree st (store32 (store32 m (disk_fs_private d) v) (disk_filesystem d) w)) (disk_filesystem d) = w"
    "load32 (kfree st (store32 (store32 m (disk_fs_private d) v) (disk_filesystem d) w)) (disk_sector_size d)
      = load32 m (disk_sector_size d)"
    using free [of 16] free [of 12] free [of 4] by (simp_all add: layout load32_store32_apart)
qed

text \<open>The words of the disk structure that are read: \<open>sector_size\<close> and \<open>id\<close>.\<close>

lemma mount_disk_word:
  assumes "mount_ready e m" and "i \<in> {4, 8}" and "k < 4"
  shows "off_heap (disk0 e + i + k)" and "\<not> mount_local e (disk0 e + i + k)"
proof -
  have "unat k < 4" using assms(3) by (simp add: word_less_nat_alt)
  then have "i + k < 20" using assms(2) by (auto simp: word_less_nat_alt unat_word_ariths)
  then show "off_heap (disk0 e + i + k)" "\<not> mount_local e (disk0 e + i + k)"
    using assms(1) unfolding mount_ready_def by (metis add.assoc)+
qed

lemma card_four: "6 \<le> card A \<Longrightarrow> 2 \<le> card (A - {p} - {x, y, z})"
proof -
  assume "6 \<le> card A"
  moreover have "card {p, x, y, z} \<le> 4" by (simp add: card_insert_if)
  moreover have "card A - card {p, x, y, z} \<le> card (A - {p, x, y, z})" by (rule diff_card_le_card_Diff) simp
  moreover have "A - {p} - {x, y, z} = A - {p, x, y, z}" by auto
  ultimately show ?thesis by simp
qed

lemma card_five: "card A \<le> card (A - {p} - {x, y, z} - {w}) + 5"
proof -
  have "card {p, x, y, z, w} \<le> 5" by (simp add: card_insert_if)
  moreover have "card A - card {p, x, y, z, w} \<le> card (A - {p, x, y, z, w})" by (rule diff_card_le_card_Diff) simp
  moreover have "A - {p} - {x, y, z} - {w} = A - {p, x, y, z, w}" by auto
  ultimately show ?thesis by simp
qed

text \<open>The five objects that are allocated before the disk is read.\<close>

lemma mount_objects:
  assumes ready: "mount_ready e m"
  obtains p m1 m2 c1 c2 c3 st m3 where "kzalloc sizeof_fat_private m = (p, m1)"
    and "fat16_init_private e (disk0 e) p m1 = Done m2" and "diskstreamer_new e 0 m2 = (st, m3)"
    and "load32 m2 (disk_id (disk0 e)) = 0" and "load32 m3 (disk_sector_size (disk0 e)) = 512"
    and "{p, c1, c2, c3, st} \<subseteq> kheap_avail m" and "distinct [p, c1, c2, c3, st]" and "kheap_avail m3 \<noteq> {}"
    and "kheap_avail m3 \<inter> {p, c1, c2, c3, st} = {}"
    and "load32 m3 (cluster_read_stream p) = c1" and "load32 m3 (fat_read_stream p) = c2" and "load32 m3 (directory_stream p) = c3"
    and "fresh_stream e m3 c1" and "fresh_stream e m3 c2" and "fresh_stream e m3 c3" and "fresh_stream e m3 st" and "st \<noteq> 0"
    and "card (kheap_avail m) \<le> card (kheap_avail m3) + 5" and "\<And>a. off_heap a \<Longrightarrow> m3 a = m a"
proof -
  let ?A = "kheap_avail m" and ?d = "disk0 e"
  have r: "6 \<le> card ?A" "?d \<noteq> 0" "load32 m (?d + 8) = 0" "load32 m (?d + 4) = 512"
    using ready by (simp_all add: mount_ready_def layout)
  have fin: "finite ?A" by (rule kh.card_alloc)
  have sz: "0 < unat sizeof_fat_private" "unat sizeof_fat_private \<le> 4096" by (simp_all add: sizeof_fat_private_def)
  have "?A \<noteq> {}" using r(1) by auto
  from kzalloc_safe [OF sz this] obtain p m1 where
    p: "kzalloc sizeof_fat_private m = (p, m1)" "p \<in> ?A" "p \<in> kheap_pool" "p \<noteq> 0" "kheap_avail m1 = ?A - {p}"
      "\<And>a. a - p < sizeof_fat_private \<Longrightarrow> m1 a = 0" "\<And>a. kheap_safe m a \<Longrightarrow> m1 a = m a" by blast
  have p1: "p \<notin> kheap_avail m1" "3 \<le> card (kheap_avail m1)" using r(1) fin p(2) by (simp_all add: p(5))
  have disk1: "load32 m1 (?d + i) = load32 m (?d + i)" if "i \<in> {4, 8}" for i
    using mount_disk_word(1) [OF ready that] off_heap_safe p(7) by (intro load32_same) blast
  have "load32 m1 (disk_id ?d) = 0" using disk1 [of 8] r(3) by (simp add: layout)
  moreover have "off_heap (disk_id ?d + k)" if "k < 4" for k using mount_disk_word(1) [OF ready _ that, of 8] by (simp add: layout)
  ultimately obtain c1 c2 c3 m2 where
    c: "fat16_init_private e ?d p m1 = Done m2" "{c1, c2, c3} \<subseteq> ?A - {p}" "distinct [c1, c2, c3]"
      "kheap_avail m2 = ?A - {p} - {c1, c2, c3}" "load32 m2 (cluster_read_stream p) = c1" "load32 m2 (fat_read_stream p) = c2"
      "load32 m2 (directory_stream p) = c3"
      "fresh_stream e m2 c1" "fresh_stream e m2 c2" "fresh_stream e m2 c3" "\<And>a. kheap_safe m1 a \<Longrightarrow> a div 4096 \<noteq> p div 4096 \<Longrightarrow> m2 a = m1 a"
    using init_private [OF p(3) p1 r(2)] unfolding p(5) by metis
  have disk2: "load32 m2 (?d + i) = load32 m (?d + i)" if "i \<in> {4, 8}" for i
  proof -
    have "load32 m2 (?d + i) = load32 m1 (?d + i)"
      using mount_disk_word(1) [OF ready that] off_heap_safe off_heap_page [OF _ p(3)] by (intro load32_same c(11)) blast+
    then show ?thesis using disk1 [OF that] by simp
  qed
  have card2: "2 \<le> card (kheap_avail m2)" using card_four [OF r(1)] by (simp only: c(4))
  then have "kheap_avail m2 \<noteq> {}" by auto
  from new_stream [OF this r(2)] obtain st m3 where
    st: "diskstreamer_new e 0 m2 = (st, m3)" "st \<in> kheap_avail m2" "st \<in> kheap_pool" "st \<noteq> 0"
      "kheap_avail m3 = kheap_avail m2 - {st}" "fresh_stream e m3 st" "\<And>a. kheap_safe m2 a \<Longrightarrow> m3 a = m2 a" by blast
  have in_pool: "c1 \<in> kheap_pool" "c2 \<in> kheap_pool" "c3 \<in> kheap_pool" using c(2) kh.avail_pool by auto
  have used: "p \<notin> kheap_avail m2" "c1 \<notin> kheap_avail m2" "c2 \<notin> kheap_avail m2" "c3 \<notin> kheap_avail m2" by (auto simp: c(4))
  have "1 \<le> card (kheap_avail m3)" using card2 st(2) finite_Diff [OF fin] by (simp add: st(5) c(4))
  then have ne: "kheap_avail m3 \<noteq> {}" by auto
  have "load32 m3 (p + i) = load32 m2 (p + i)" if "i \<le> 4092" for i
    using kheap_safe_load [OF st(7) p(3) used(1) that] .
  from this [of 80] this [of 84] this [of 88]
  have ptr: "load32 m3 (cluster_read_stream p) = c1" "load32 m3 (fat_read_stream p) = c2" "load32 m3 (directory_stream p) = c3"
    using c(5-7) by (simp_all add: layout)
  have "fresh_stream e m3 r" if "fresh_stream e m2 r" "r \<in> kheap_pool" "r \<notin> kheap_avail m2" for r
    using fresh_stream_same [OF that(1,2)] st(7) kheap_safe_page [OF that(2,3)] by blast
  note fresh = this [OF c(8) in_pool(1) used(2)] this [OF c(9) in_pool(2) used(3)] this [OF c(10) in_pool(3) used(4)]
  have sector: "load32 m3 (disk_sector_size ?d) = 512"
  proof -
    have "load32 m3 (?d + 4) = load32 m2 (?d + 4)"
      using mount_disk_word(1) [OF ready, of 4] off_heap_safe by (intro load32_same st(7)) blast
    then show ?thesis using disk2 [of 4] r(4) by (simp add: layout)
  qed
  have id: "load32 m2 (disk_id ?d) = 0" using disk2 [of 8] r(3) by (simp add: layout)
  have obj: "{p, c1, c2, c3, st} \<subseteq> ?A" "distinct [p, c1, c2, c3, st]" "kheap_avail m3 \<inter> {p, c1, c2, c3, st} = {}"
    using p(2) c(2,3) st(2) by (auto simp: st(5) c(4))
  have card: "card ?A \<le> card (kheap_avail m3) + 5" unfolding st(5) c(4) by (rule card_five)
  have "m3 a = m a" if "off_heap a" for a
    using that st(7) c(11) p(7) off_heap_safe off_heap_page [OF that p(3)] by simp
  from that [OF p(1) c(1) st(1) id sector obj(1,2) ne obj(3) ptr fresh st(6,4) card this] show thesis .
qed

lemma mount_end_page:
  assumes "st \<in> kheap_pool" and "q \<in> kheap_pool" and "\<And>k. k < 20 \<Longrightarrow> off_heap (d + k)" and "a div 4096 = q div 4096"
  shows "kfree st (store32 (store32 m (disk_fs_private d) v) (disk_filesystem d) w) a = m a"
proof (rule mount_end [OF assms(1)])
  show "\<not> kheap_meta a" by (rule kheap_pool_meta [OF assms(2,4)])
  show "a \<noteq> d + k" if "k < 20" for k using off_heap_page [OF assms(3) [OF that] assms(2)] assms(4) by auto
qed

lemma untouched_page:
  assumes "locals_apart e" and "r \<in> kheap_pool" and "q \<in> kheap_pool" and "r \<noteq> q" and "a div 4096 = r div 4096"
  shows "\<not> touched e q a"
  using local_off_page [OF assms(1) _ assms(2), of a] kh.pool_same_page [OF assms(2,3)] assms(4,5) by (auto simp: touched_def)

text \<open>The part up to the root directory: the header is read.\<close>

lemma mount_open:
  assumes drive: "ata_drive (dev e) img" and ready: "mount_ready e (ram s)" and sig: "img 38 = 0x29"
  obtains p c1 c2 c3 st s4 where "fat16_resolve e (disk0 e) s =
      obind (of_option (fat16_get_root_directory e (disk0 e) p (root_directory p) s4)) (\<lambda>(r, s).
        let ret = if sint r < 0 then - EIO else 0;
            m = if sint r < 0 then ram s
                else store32 (store32 (ram s) (disk_fs_private (disk0 e)) p) (disk_filesystem (disk0 e)) (fat16_fs e)
        in Done (ret, s\<lparr>ram := fat16_resolve_out (disk0 e) p st ret m\<rparr>))"
    and "{p, c1, c2, c3, st} \<subseteq> kheap_pool" and "distinct [p, c1, c2, c3, st]" and "kheap_avail (ram s4) \<noteq> {}"
    and "kheap_avail (ram s4) \<inter> {p, c1, c2, c3, st} = {}"
    and "load32 (ram s4) (disk_sector_size (disk0 e)) = 512" and "\<And>i. i < 62 \<Longrightarrow> ram s4 (p + of_nat i) = img i"
    and "load32 (ram s4) (cluster_read_stream p) = c1" and "load32 (ram s4) (fat_read_stream p) = c2"
    and "load32 (ram s4) (directory_stream p) = c3"
    and "stream_at e img c1 s4 0" and "stream_at e img c2 s4 0" and "stream_at e img c3 s4 0"
    and "card (kheap_avail (ram s)) \<le> card (kheap_avail (ram s4)) + 5"
    and "\<And>a. off_heap a \<Longrightarrow> \<not> mount_local e a \<Longrightarrow> ram s4 a = ram s a"
proof -
  let ?d = "disk0 e"
  have loc: "locals_apart e" using ready by (simp add: mount_ready_def)
  from mount_objects [OF ready] obtain p m1 m2 c1 c2 c3 st m3 where
    run: "kzalloc sizeof_fat_private (ram s) = (p, m1)" "fat16_init_private e ?d p m1 = Done m2" "diskstreamer_new e 0 m2 = (st, m3)"
      "load32 m2 (disk_id ?d) = 0" and size: "load32 m3 (disk_sector_size ?d) = 512"
    and obj: "{p, c1, c2, c3, st} \<subseteq> kheap_avail (ram s)" "distinct [p, c1, c2, c3, st]" "kheap_avail m3 \<noteq> {}"
      "kheap_avail m3 \<inter> {p, c1, c2, c3, st} = {}"
    and ptr: "load32 m3 (cluster_read_stream p) = c1" "load32 m3 (fat_read_stream p) = c2" "load32 m3 (directory_stream p) = c3"
    and fresh: "fresh_stream e m3 c1" "fresh_stream e m3 c2" "fresh_stream e m3 c3" "fresh_stream e m3 st" and st0: "st \<noteq> 0"
    and card: "card (kheap_avail (ram s)) \<le> card (kheap_avail m3) + 5" and frame: "\<And>a. off_heap a \<Longrightarrow> m3 a = ram s a"
    by (rule mount_objects [OF ready]) (erule that, (assumption | blast)+)
  have pool: "p \<in> kheap_pool" "c1 \<in> kheap_pool" "c2 \<in> kheap_pool" "c3 \<in> kheap_pool" "st \<in> kheap_pool" using obj(1) kh.avail_pool by auto
  have ne: "p \<noteq> c1" "p \<noteq> c2" "p \<noteq> c3" "p \<noteq> st" "c1 \<noteq> st" "c2 \<noteq> st" "c3 \<noteq> st" using obj(2) by auto
  let ?s3 = "s\<lparr>ram := m3\<rparr>"
  have start: "stream_at e img c ?s3 0" if "c \<in> {c1, c2, c3, st}" for c
    using that fresh pool by (auto intro!: stream_atI [OF drive loc] simp: fresh_stream_def)
  have at: "stream_at e img st ?s3 0" by (rule start) simp
  have "p \<notin> kheap_avail (ram ?s3)" using obj(4) by simp
  from mount_header [OF loc pool(1) this pool(5) ne(4) [symmetric] at] obtain s4 where
    s4: "diskstreamer_read e 0 st (private_header p) sizeof_fat_h ?s3 = Some (0, s4)" "\<And>i. i < 62 \<Longrightarrow> ram s4 (p + of_nat i) = img i"
      "kheap_avail (ram s4) = kheap_avail m3" "\<And>a. \<not> touched e st a \<Longrightarrow> 62 \<le> unat (a - p) \<Longrightarrow> ram s4 a = m3 a" by auto
  note apart = untouched_page [OF loc]
  have off_p: "62 \<le> unat (a - p)" if "a div 4096 \<noteq> p div 4096" for a
    using pool_near [OF pool(1), of a] that by (cases "unat (a - p) < 4096") auto
  have page4: "ram s4 a = m3 a" if "r \<in> kheap_pool" "r \<noteq> st" "r \<noteq> p" "a div 4096 = r div 4096" for a r
    using s4(4) [OF apart [OF that(1) pool(5) that(2,4)] off_p] kh.pool_same_page [OF that(1) pool(1)] that(3,4) by auto
  have dw: "ram s4 (?d + 4 + k) = m3 (?d + 4 + k)" if "k < 4" for k
  proof -
    note w = mount_disk_word [OF ready _ that, of 4, simplified]
    have "\<not> touched e st (?d + 4 + k)" using w off_heap_page [OF w(1) pool(5)] by (simp add: touched_def)
    from s4(4) [OF this off_p] show ?thesis using off_heap_page [OF w(1) pool(1)] by blast
  qed
  have ptr4: "load32 (ram s4) (p + i) = load32 m3 (p + i)" if "i \<in> {80, 84, 88}" for i
  proof (rule load32_same)
    fix k :: u32 assume k: "k < 4"
    then have "unat k < 4" by (simp add: word_less_nat_alt)
    then have "62 \<le> unat (p + i + k - p)" using that by (auto simp: unat_word_ariths)
    moreover have "(p + i + k) div 4096 = p div 4096" using that by (intro kheap_field(1) [OF pool(1) _ k]) auto
    ultimately show "ram s4 (p + i + k) = m3 (p + i + k)" using apart [OF pool(1) pool(5) ne(4)] by (intro s4(4)) blast+
  qed
  have at4: "stream_at e img c s4 0" if "c \<in> {c1, c2, c3}" for c
    using that ne pool page4 [of c] by (auto intro!: stream_same [OF start])
  have disk4: "load32 (ram s4) (disk_sector_size ?d) = 512"
    using load32_same [of "ram s4" "?d + 4" m3] dw size by (simp add: layout)
  have "ram s4 (header_signature (private_header p)) = PHIX_FAT16_SIGNATURE"
    using s4(2) [of 38] sig by (simp add: layout PHIX_FAT16_SIGNATURE_def)
  then have res: "fat16_resolve e ?d s =
      obind (of_option (fat16_get_root_directory e ?d p (root_directory p) s4)) (\<lambda>(r, s).
        let ret = if sint r < 0 then - EIO else 0;
            m = if sint r < 0 then ram s else store32 (store32 (ram s) (disk_fs_private ?d) p) (disk_filesystem ?d) (fat16_fs e)
        in Done (ret, s\<lparr>ram := fat16_resolve_out ?d p st ret m\<rparr>))"
    using run st0 s4(1) by (simp add: fat16_resolve_def Let_def cong: if_cong) (auto intro!: arg_cong2 [where f = obind] simp: fun_eq_iff)
  have p4: "load32 (ram s4) (cluster_read_stream p) = c1" "load32 (ram s4) (fat_read_stream p) = c2" "load32 (ram s4) (directory_stream p) = c3"
    using ptr4 [of 80] ptr4 [of 84] ptr4 [of 88] ptr by (simp_all add: layout)
  have "{p, c1, c2, c3, st} \<subseteq> kheap_pool" using pool by simp
  moreover have "kheap_avail (ram s4) \<noteq> {}" "kheap_avail (ram s4) \<inter> {p, c1, c2, c3, st} = {}" using obj(3,4) by (simp_all add: s4(3))
  moreover have "stream_at e img c1 s4 0" "stream_at e img c2 s4 0" "stream_at e img c3 s4 0" by (rule at4, simp)+
  moreover have "card (kheap_avail (ram s)) \<le> card (kheap_avail (ram s4)) + 5" using card by (simp only: s4(3))
  moreover have "ram s4 a = ram s a" if "off_heap a" "\<not> mount_local e a" for a
    using s4(4) [of a] that off_heap_page [OF that(1) pool(5)] off_p [OF off_heap_page [OF that(1) pool(1)]] frame [OF that(1)]
    by (simp add: touched_def)
  ultimately show thesis using that [OF res _ obj(2) _ _ disk4 s4(2) p4] by blast
qed

lemma resolve_mounts:
  assumes drive: "ata_drive (dev e) img" and ready: "mount_ready e (ram s)" and img: "fat_image img z"
  obtains s' pr dir where "fat16_resolve e (disk0 e) s = Done (0, s')" and "mounted e img z pr dir (ram s')"
    and "fat_streams e img pr dir s'" and "load32 (ram s') (cluster_read_stream pr) \<in> kheap_pool" and "stream_at e img (load32 (ram s') (cluster_read_stream pr)) s' 0"
    and "{pr, dir, load32 (ram s') (cluster_read_stream pr)} \<subseteq> kheap_pool - kheap_avail (ram s')"
    and "card (kheap_avail (ram s)) \<le> card (kheap_avail (ram s')) + 6"
    and "\<And>a. off_heap a \<Longrightarrow> \<not> mount_local e a \<Longrightarrow> 20 \<le> unat (a - disk0 e) \<Longrightarrow> ram s' a = ram s a"
proof -
  let ?d = "disk0 e"
  have loc: "locals_apart e" and off: "\<And>k. k < 20 \<Longrightarrow> off_heap (?d + k)" using ready by (simp_all add: mount_ready_def)
  have sig: "img 38 = 0x29" using img by (simp add: fat_image_def)
  obtain p c1 c2 c3 st s4 where open_disk: "fat16_resolve e ?d s =
      obind (of_option (fat16_get_root_directory e ?d p (root_directory p) s4)) (\<lambda>(r, s).
        let ret = if sint r < 0 then - EIO else 0;
            m = if sint r < 0 then ram s else store32 (store32 (ram s) (disk_fs_private ?d) p) (disk_filesystem ?d) (fat16_fs e)
        in Done (ret, s\<lparr>ram := fat16_resolve_out ?d p st ret m\<rparr>))"
    and obj: "{p, c1, c2, c3, st} \<subseteq> kheap_pool" "distinct [p, c1, c2, c3, st]" "kheap_avail (ram s4) \<noteq> {}"
      "kheap_avail (ram s4) \<inter> {p, c1, c2, c3, st} = {}"
    and disk4: "load32 (ram s4) (disk_sector_size ?d) = 512" and header: "\<And>i. i < 62 \<Longrightarrow> ram s4 (p + of_nat i) = img i"
    and ptr: "load32 (ram s4) (cluster_read_stream p) = c1" "load32 (ram s4) (fat_read_stream p) = c2"
      "load32 (ram s4) (directory_stream p) = c3"
    and at: "stream_at e img c1 s4 0" "stream_at e img c2 s4 0" "stream_at e img c3 s4 0"
    and card4: "card (kheap_avail (ram s)) \<le> card (kheap_avail (ram s4)) + 5"
    and frame4: "\<And>a. off_heap a \<Longrightarrow> \<not> mount_local e a \<Longrightarrow> ram s4 a = ram s a"
    by (rule mount_open [OF drive ready sig]) (erule that, (assumption | blast)+)
  have pool: "p \<in> kheap_pool" "c1 \<in> kheap_pool" "c2 \<in> kheap_pool" "c3 \<in> kheap_pool" "st \<in> kheap_pool" using obj(1) by simp_all
  have ne: "p \<noteq> c3" using obj(2) by auto
  note apart = untouched_page [OF loc]
  have free4: "c3 \<notin> kheap_avail (ram s4)" "p \<notin> kheap_avail (ram s4)" "kheap_avail (ram s4) \<noteq> {}" using obj(3,4) by auto
  have sector: "off_heap (disk_sector_size ?d + k) \<and> \<not> mount_local e (disk_sector_size ?d + k)" if "k < 4" for k
    using mount_disk_word [OF ready _ that, of 4] by (simp add: layout)
  obtain s5 dir where
    s5: "fat16_get_root_directory e ?d p (root_directory p) s4 = Some (0, s5)" "dir \<in> kheap_avail (ram s4)"
      "kheap_avail (ram s5) = kheap_avail (ram s4) - {dir}"
      "load32 (ram s5) (directory_item (root_directory p)) = dir"
      "load32 (ram s5) (directory_total (root_directory p)) = of_nat (root_total img z)"
      "load32 (ram s5) (directory_sector_pos (root_directory p)) = of_nat (root_sector img)"
      "load32 (ram s5) (directory_ending_sector_pos (root_directory p)) = of_nat (root_sector img + (32 * root_entries img + 511) div 512)"
      "\<And>i. i < 32 * root_entries img \<Longrightarrow> ram s5 (dir + of_nat i) = img (512 * root_sector img + i)"
      "stream_at e img c3 s5 (512 * root_sector img + 32 * root_entries img)"
      "\<And>a. kheap_safe (ram s4) a \<Longrightarrow> \<not> touched e c3 a \<Longrightarrow> 16 \<le> unat (a - root_directory p) \<Longrightarrow> ram s5 a = ram s4 a"
    by (rule root_directory_read [OF loc pool(4) free4(1) pool(1) free4(2) ne free4(3) disk4 sector header ptr(3) at(3) img])
      (assumption, assumption, erule that, (assumption | blast)+)
  let ?m = "kfree st (store32 (store32 (ram s5) (disk_fs_private ?d) p) (disk_filesystem ?d) (fat16_fs e))"
  have res: "fat16_resolve e ?d s = Done (0, s5\<lparr>ram := ?m\<rparr>)"
    unfolding open_disk using s5(1) by (simp add: fat16_resolve_out_def diskstreamer_free_def)
  have q: "dir \<in> kheap_pool" using s5(2) kh.avail_pool by blast
  note m = mount_end_page [OF pool(5) _ off]
  have load: "load32 ?m (r + i) = load32 (ram s5) (r + i)" if "r \<in> kheap_pool" "i \<le> 4092" for r i
    using kheap_field(1) [OF that] m [OF that(1)] by (intro load32_same) blast
  have page5: "?m a = ram s4 a" if "r \<in> {c1, c2}" "a div 4096 = r div 4096" for r a
  proof -
    have r: "r \<in> kheap_pool" "r \<noteq> p" "r \<noteq> c3" "r \<notin> kheap_avail (ram s4)" using that(1) pool obj(2,4) by auto
    have "16 \<le> unat (a - root_directory p)"
      using kh.pool_same_page [OF r(1) pool(1)] r(2) that(2) by (intro root_off_page [OF pool(1)]) auto
    with s5(10) kheap_safe_page [OF r(1,4) that(2)] apart [OF r(1) pool(4) r(3) that(2)] m [OF r(1) _ that(2)]
    show ?thesis by simp
  qed
  have field: "load32 ?m (p + i) = load32 (ram s4) (p + i)" if "i \<in> {80, 84, 88}" for i
  proof -
    have "ram s5 (p + i + k) = ram s4 (p + i + k)" if "k < 4" for k
    proof (rule s5(10))
      have page: "(p + i + k) div 4096 = p div 4096"
        using \<open>i \<in> _\<close> by (intro kheap_field(1) [OF pool(1) _ that]) auto
      show "kheap_safe (ram s4) (p + i + k)" using kheap_safe_page [OF pool(1) free4(2) page] .
      show "\<not> touched e c3 (p + i + k)" by (rule apart [OF pool(1,4) ne page])
      have "unat k < 4" using that by (simp add: word_less_nat_alt)
      moreover have "p + i + k - root_directory p = (i - 64) + k" by (simp add: layout)
      ultimately show "16 \<le> unat (p + i + k - root_directory p)"
        using \<open>i \<in> _\<close> by (simp only:) (auto simp: unat_word_ariths)
    qed
    then have "load32 (ram s5) (p + i) = load32 (ram s4) (p + i)" by (rule load32_same)
    then show ?thesis using load [OF pool(1), of i] that by auto
  qed
  have c: "load32 ?m (cluster_read_stream p) = c1" "load32 ?m (fat_read_stream p) = c2" "load32 ?m (directory_stream p) = c3"
    using field [of 80] field [of 84] field [of 88] ptr by (simp_all add: layout)
  have streams: "stream_at e img c1 (s5\<lparr>ram := ?m\<rparr>) 0" "stream_at e img c2 (s5\<lparr>ram := ?m\<rparr>) 0"
    "stream_at e img c3 (s5\<lparr>ram := ?m\<rparr>) (512 * root_sector img + 32 * root_entries img)"
    using stream_same [OF at(1) pool(2), of "s5\<lparr>ram := ?m\<rparr>"] page5 [of c1] stream_same [OF at(2) pool(3), of "s5\<lparr>ram := ?m\<rparr>"]
      page5 [of c2] stream_same [OF s5(9) pool(4), of "s5\<lparr>ram := ?m\<rparr>"] m [OF pool(4)] by simp_all
  have hd: "?m (p + of_nat i) = img i" if "i < 62" for i
  proof -
    have page: "(p + of_nat i) div 4096 = p div 4096" using pool_word [OF pool(1)] that by simp
    have "ram s5 (p + of_nat i) = ram s4 (p + of_nat i)"
      using that by (intro s5(10) kheap_safe_page [OF pool(1) free4(2) page] apart [OF pool(1,4) ne page] root_off_page [OF pool(1)]) auto
    then show ?thesis using m [OF pool(1) _ page] header [OF that] by simp
  qed
  have items: "?m (dir + of_nat i) = img (512 * root_sector img + i)" if "i < 32 * root_entries img" for i
  proof -
    have "i < 4096" using that img by (simp add: fat_image_def)
    from m [OF q _ pool_word [OF q this]] show ?thesis using s5(8) [OF that] by simp
  qed
  have fields: "load32 ?m (directory_item (root_directory p)) = dir"
    "load32 ?m (directory_total (root_directory p)) = of_nat (root_total img z)"
    "load32 ?m (directory_sector_pos (root_directory p)) = of_nat (root_sector img)"
    "load32 ?m (directory_ending_sector_pos (root_directory p)) = of_nat (root_sector img + (32 * root_entries img + 511) div 512)"
    using s5(4-7) load [OF pool(1), of 64] load [OF pool(1), of 68] load [OF pool(1), of 72] load [OF pool(1), of 76]
    by (simp_all add: root_dir_fields)
  show thesis
  proof (rule that [OF res])
    have "ram s5 (?d + 4 + k) = ram s4 (?d + 4 + k)" if "k < 4" for k
    proof (rule s5(10))
      note w = mount_disk_word [OF ready _ that, of 4, simplified]
      show "kheap_safe (ram s4) (?d + 4 + k)" by (rule off_heap_safe [OF w(1)])
      show "\<not> touched e c3 (?d + 4 + k)" using w off_heap_page [OF w(1) pool(4)] by (simp add: touched_def)
      show "16 \<le> unat (?d + 4 + k - root_directory p)" using off_heap_page [OF w(1) pool(1)] by (intro root_off_page [OF pool(1)]) blast
    qed
    then have "load32 (ram s5) (?d + 4) = load32 (ram s4) (?d + 4)" by (rule load32_same)
    then have sec: "load32 (ram s5) (disk_sector_size ?d) = 512" using disk4 by (simp add: layout)
    have "mounted e img z p dir ?m" unfolding mounted_def fat_mounted_def private_header_def
      by (intro conjI allI impI fields hd items mount_end_disk(1,2) [OF pool(5) off] trans [OF mount_end_disk(3) [OF pool(5) off] sec])
    then show "mounted e img z p dir (ram (s5\<lparr>ram := ?m\<rparr>))" by simp
    show "load32 (ram (s5\<lparr>ram := ?m\<rparr>)) (cluster_read_stream p) \<in> kheap_pool"
      "stream_at e img (load32 (ram (s5\<lparr>ram := ?m\<rparr>)) (cluster_read_stream p)) (s5\<lparr>ram := ?m\<rparr>) 0"
      using c(1) pool(2) streams(1) by simp_all
    have avail: "kheap_avail ?m = insert st (kheap_avail (ram s4) - {dir})"
    proof -
      have "store32 (store32 (ram s5) (disk_fs_private ?d) p) (disk_filesystem ?d) (fat16_fs e) a = ram s5 a" if "kheap_meta a" for a
      proof -
        have "a \<noteq> ?d + k" if "k \<in> {12, 13, 14, 15, 16, 17, 18, 19}" for k
          using off [of k] \<open>kheap_meta a\<close> that by (auto simp: off_heap_def)
        from this [of 12] this [of 13] this [of 14] this [of 15] this [of 16] this [of 17] this [of 18] this [of 19]
        show ?thesis by (simp add: store32_def layout add.assoc)
      qed
      from kheap_avail_local [of _ "ram s5", OF this] show ?thesis using kh.free_page [OF pool(5)] s5(3) by simp
    qed
    have "distinct [p, dir, c1, c2, c3, st]" using s5(2) obj(2,4) by auto
    moreover from this have used: "{p, dir, c1, c2, c3} \<subseteq> kheap_pool - kheap_avail ?m" using pool q obj(4) by (auto simp: avail)
    ultimately show "fat_streams e img p dir (s5\<lparr>ram := ?m\<rparr>)" using streams by (simp add: fat_streams_def c)
    show "{p, dir, load32 (ram (s5\<lparr>ram := ?m\<rparr>)) (cluster_read_stream p)} \<subseteq> kheap_pool - kheap_avail (ram (s5\<lparr>ram := ?m\<rparr>))"
      using used by (simp add: c)
    have fin: "finite (kheap_avail (ram s4))" by (rule kh.card_alloc)
    have "card (kheap_avail (ram s4)) \<le> card (kheap_avail (ram s4) - {dir}) + 1" using fin s5(2) by simp
    also have "card (kheap_avail (ram s4) - {dir}) \<le> card (kheap_avail ?m)" unfolding avail using fin by (intro card_mono) auto
    finally show "card (kheap_avail (ram s)) \<le> card (kheap_avail (ram (s5\<lparr>ram := ?m\<rparr>))) + 6" using card4 by simp
    fix a assume a: "off_heap a" "\<not> mount_local e a" "20 \<le> unat (a - ?d)"
    have "a \<noteq> ?d + k" if "k < 20" for k using a(3) that by (auto simp: word_less_nat_alt)
    then have "?m a = ram s5 a" using a(1) by (intro mount_end [OF pool(5)]) (auto simp: off_heap_def)
    also have "\<dots> = ram s4 a"
      using a off_heap_page [OF a(1) pool(4)] off_heap_page [OF a(1) pool(1)]
      by (intro s5(10) off_heap_safe root_off_page [OF pool(1)]) (simp_all add: touched_def)
    also have "\<dots> = ram s a" using frame4 [OF a(1,2)] .
    finally show "ram (s5\<lparr>ram := ?m\<rparr>) a = ram s a" by simp
  qed
qed

section \<open>A disk to mount\<close>

text \<open>The header of the boot sector and a root directory with three items, one of them deleted.\<close>

definition mount_img :: "nat \<Rightarrow> u8" where
  "mount_img i = (if i < 62 then boot_header ! i
     else if i = 364544 then 0x53 else if i = 364576 then 0xE5 else if i = 364608 then 0x42 else 0)"

definition mount_env :: env where
  "mount_env = env_example\<lparr>dev := ready_drive mount_img\<rparr>"

definition mount_state :: machine where
  "mount_state = \<lparr>ram = store32 (\<lambda>_. 0) (disk_sector_size 0x20000) 512, cr3 = 0, io = [], cr0 = 0x80000001,
     gdt_register = (0, 0), idt_register = (0, 0), task_register = 0\<rparr>"

lemma boot_header_bytes:
  "boot_header ! 14 = 200" "boot_header ! 15 = 0" "boot_header ! 16 = 2" "boot_header ! 17 = 0x40" "boot_header ! 18 = 0"
  "boot_header ! 22 = 0" "boot_header ! 23 = 1" "boot_header ! 38 = 0x29" "length boot_header = 62"
  by (simp_all add: boot_header_def le16_def le32_def ascii_def)

lemma mount_img_fields: "root_sector mount_img = 712" "root_entries mount_img = 64" "root_total mount_img 3 = 2"
proof -
  show r: "root_sector mount_img = 712" and "root_entries mount_img = 64"
    by (simp_all add: root_sector_def root_entries_def img16_def mount_img_def boot_header_bytes)
  have "{i. i < 3 \<and> mount_img (512 * 712 + 32 * i) \<noteq> 0xE5} = {0, 2}"
    by (auto simp: mount_img_def numeral_3_eq_3 less_Suc_eq)
  then show "root_total mount_img 3 = 2" unfolding root_total_def r by simp
qed

lemma mount_img_ok: "fat_image mount_img 3"
  using mount_img_fields
  by (auto simp: fat_image_def mount_img_def boot_header_bytes numeral_3_eq_3 less_Suc_eq)

lemma off_heap_low: "57856 \<le> unat a \<Longrightarrow> unat a < 16777216 \<Longrightarrow> off_heap a"
  using kheap_meta_range [of a] kheap_pool_range [of _ a] by (fastforce simp: off_heap_def)

lemma mount_env_simps [simp]:
  "disk0 mount_env = 0x20000" "item_local mount_env = 0x501100" "empty_local mount_env = 0x501000"
  "dev mount_env = ready_drive mount_img" "fat16_fs mount_env = 0x20100"
  by (simp_all add: mount_env_def env_example_def)

lemma mount_local_range: "mount_local mount_env a \<Longrightarrow> 0x4F0000 \<le> unat a \<and> unat a < 0x502000"
proof -
  assume a: "mount_local mount_env a"
  have "sector_buffer mount_env a \<Longrightarrow> sector_buffer stream_env a"
    by (simp add: sector_buffer_def mount_env_def stream_env_def env_example_def)
  then have "sector_buffer mount_env a \<Longrightarrow> 0x4F0000 \<le> unat a \<and> unat a < 0x500000" using stream_env_buffers by blast
  moreover have "unat (a - 0x501100) < 32 \<Longrightarrow> 0x501100 \<le> unat a \<and> unat a < 0x501120" using low_offset [of a "0x501100" 32] by simp
  moreover have "unat (a - 0x501000) < 32 \<Longrightarrow> 0x501000 \<le> unat a \<and> unat a < 0x501020" using low_offset [of a "0x501000" 32] by simp
  ultimately show ?thesis using a by (auto simp: mount_local_def)
qed

lemma mount_state_ready: "mount_ready mount_env (ram mount_state)"
proof -
  have avail: "kheap_avail (ram mount_state) = kheap_pool"
  proof (rule kheap_avail_zero)
    fix a assume "kheap_meta a"
    then have "unat a < 57856" using kheap_meta_range by blast
    then have "a \<noteq> 0x20004 + k" if "k < 4" for k
      using that by (auto simp: word_less_nat_alt unat_word_ariths)
    from this [of 0] this [of 1] this [of 2] this [of 3] show "ram mount_state a = 0"
      by (simp add: mount_state_def store32_def layout)
  qed
  have loc: "off_heap a" if "mount_local mount_env a" for a
    using mount_local_range [OF that] by (intro off_heap_low) simp_all
  moreover have "\<not> sector_buffer mount_env (0x501100 + of_nat i)" if "i < 32" for i
  proof -
    have "unat (0x501100 + of_nat i :: u32) = 0x501100 + i" using that by (simp add: unat_word_ariths unat_of_nat32)
    moreover have "sector_buffer mount_env a \<Longrightarrow> sector_buffer stream_env a" for a
      by (simp add: sector_buffer_def mount_env_def stream_env_def env_example_def)
    ultimately show ?thesis using stream_env_buffers [of "0x501100 + of_nat i"] by auto
  qed
  moreover have "off_heap (0x20000 + k) \<and> \<not> mount_local mount_env (0x20000 + k)" if "k < 20" for k
  proof -
    have "unat k < 20" using that by (simp add: word_less_nat_alt)
    moreover from this have "unat (0x20000 + k) = 0x20000 + unat k" by (simp add: unat_word_ariths)
    ultimately show ?thesis using off_heap_low [of "0x20000 + k"] mount_local_range [of "0x20000 + k"] by auto
  qed
  moreover have "6 \<le> card kheap_pool" by (simp add: card_kheap_pool)
  ultimately show ?thesis
    by (simp add: mount_ready_def locals_apart_def avail) (simp add: mount_state_def layout load32_store32_apart load32_zero)
qed

section \<open>Properties\<close>

text \<open>
  C10. A disk with a FAT16 header and a root directory of one page, that is of at most 128
  entries, is mounted: with six pages free, \<open>fat16_resolve\<close> returns \<open>0\<close>; the private data has
  the header, the root directory the items of the disk with their number, and the three
  streams of the private data are distinct objects, on the disk and where \<open>fat_streams\<close> says.
\<close>

theorem fat16_mounts:
  assumes "ata_drive (dev e) img" and "mount_ready e (ram s)" and "fat_image img z"
  shows "\<exists>s' pr dir. fat16_resolve e (disk0 e) s = Done (0, s') \<and> mounted e img z pr dir (ram s') \<and>
     fat_streams e img pr dir s'"
  by (rule resolve_mounts [OF assms]) (intro exI conjI, assumption+)

theorem fat16_mounts_witness:
  "\<exists>s' pr dir. fat16_resolve mount_env 0x20000 mount_state = Done (0, s') \<and>
     load32 (ram s') (directory_total (root_directory pr)) = 2 \<and> ram s' (sectors_per_cluster (private_header pr)) = 128 \<and>
     load32 (ram s') (stream_pos (load32 (ram s') (fat_read_stream pr))) = 0 \<and>
     load32 (ram s') (stream_pos (load32 (ram s') (directory_stream pr))) = 366592 \<and> load32 (ram s') (directory_ending_sector_pos (root_directory pr)) = 716 \<and> ram s' dir = 0x53"
proof -
  have "ata_drive (dev mount_env) mount_img" by (simp add: ready_drive)
  from fat16_mounts [OF this mount_state_ready mount_img_ok] obtain s' pr dir where
    r: "fat16_resolve mount_env 0x20000 mount_state = Done (0, s')" and m: "mounted mount_env mount_img 3 pr dir (ram s')"
      and st: "fat_streams mount_env mount_img pr dir s'" by auto
  then have bytes: "\<forall>i < 62. ram s' (private_header pr + of_nat i) = mount_img i"
    "\<forall>i < 32 * 64. ram s' (dir + of_nat i) = mount_img (512 * 712 + i)"
    unfolding mounted_def mount_img_fields by blast+
  have "ram s' (private_header pr + of_nat 13) = mount_img 13" using bytes(1) by (simp del: of_nat_numeral)
  then have "ram s' (sectors_per_cluster (private_header pr)) = 128"
    by (simp add: layout mount_img_def boot_header_def le16_def ascii_def)
  moreover have "ram s' dir = 0x53" using bytes(2) [rule_format, of 0] by (simp add: mount_img_def)
  moreover have "load32 (ram s') (stream_pos (load32 (ram s') (fat_read_stream pr))) = 0"
    "load32 (ram s') (stream_pos (load32 (ram s') (directory_stream pr))) = 366592"
    using st by (simp_all add: fat_streams_def stream_at_def mount_img_fields Let_def)
  ultimately show ?thesis using r m by (auto simp: mounted_def mount_img_fields)
qed

end
