(* ===== verification/Fat16_File.thy ===== *)
theory Fat16_File
  imports Fat16_Mount
begin

text \<open>
  A file of the root directory from the disk to memory: \<open>fat16_resolve\<close>, \<open>fat16_open\<close> and
  \<open>fat16_read\<close> one after the other. The directory is a function of the disk's bytes, and the
  state each call leaves is what the next one starts from.
\<close>

section \<open>The directory on the disk\<close>

definition img_item :: "(nat \<Rightarrow> u8) \<Rightarrow> nat \<Rightarrow> dir_item" where
  "img_item img k = (let b = 512 * root_sector img + 32 * k in
     (map (\<lambda>i. img (b + i)) [0..<8], map (\<lambda>i. img (b + 8 + i)) [0..<3], img (b + 11)))"

text \<open>The items that the search looks at: as many as are not deleted, from the first one on.\<close>

definition img_items :: "(nat \<Rightarrow> u8) \<Rightarrow> nat \<Rightarrow> dir_item list" where
  "img_items img z = map (img_item img) [0..<root_total img z]"

definition item_cluster :: "(nat \<Rightarrow> u8) \<Rightarrow> nat \<Rightarrow> nat" where
  "item_cluster img k = img16 img (512 * root_sector img + 32 * k + 26)"

definition root_end :: "(nat \<Rightarrow> u8) \<Rightarrow> nat" where
  "root_end img = root_sector img + (32 * root_entries img + 511) div 512"

text \<open>
  The disk has the file \<open>nm\<close> in item \<open>k\<close>, with a cluster number of 16 bits. The extension or
  the attributes of an item have a byte that ends a name.
\<close>

definition file_image :: "(nat \<Rightarrow> u8) \<Rightarrow> nat \<Rightarrow> u8 list \<Rightarrow> nat \<Rightarrow> bool" where
  "file_image img z nm k =
     (fat_image img z \<and> z \<le> root_entries img \<and>
      (\<forall>j < root_total img z. stops (fst (snd (img_item img j)) @ [snd (snd (img_item img j))])) \<and>
      first_match nm (img_items img z) = Some k \<and> snd (snd (img_item img k)) AND FAT_FILE_SUBDIRECTORY = 0 \<and>
      img (512 * root_sector img + 32 * k + 20) = 0 \<and> img (512 * root_sector img + 32 * k + 21) = 0 \<and>
      2 \<le> item_cluster img k \<and> img 13 \<noteq> 0)"

section \<open>The path\<close>

text \<open>Bytes that neither mounting nor the search writes.\<close>

definition spare :: "env \<Rightarrow> addr \<Rightarrow> bool" where
  "spare e a = (off_heap a \<and> \<not> mount_local e a \<and> 20 \<le> unat (a - disk0 e) \<and> 108 \<le> unat (a - name_local e))"

definition name_apart :: "env \<Rightarrow> bool" where
  "name_apart e = (\<forall>a. unat (a - name_local e) < 108 \<longrightarrow> off_heap a \<and> 20 \<le> unat (a - disk0 e))"

text \<open>A parsed path of one part.\<close>

definition path_at :: "env \<Rightarrow> addr \<Rightarrow> addr \<Rightarrow> u8 list \<Rightarrow> mem \<Rightarrow> bool" where
  "path_at e path name nm m =
     (load32 m (part_part path) = name \<and> load32 m (part_next path) = 0 \<and> cstr m name nm \<and> length nm < 2 ^ 31 \<and>
      (\<forall>k < 8. spare e (path + k)) \<and> (\<forall>i \<le> length nm. spare e (name + of_nat i)))"

lemma path_at_same:
  assumes "path_at e path name nm m" and "\<And>a. spare e a \<Longrightarrow> m' a = m a"
  shows "path_at e path name nm m'"
proof -
  have p: "\<forall>k < 8. spare e (path + k)" "\<forall>i \<le> length nm. spare e (name + of_nat i)" "cstr m name nm"
    using assms(1) by (simp_all add: path_at_def)
  have "load32 m' (path + i) = load32 m (path + i)" if "i \<in> {0, 4}" for i
  proof (rule load32_same)
    fix k :: u32 assume "k < 4"
    then have "unat k < 4" by (simp add: word_less_nat_alt)
    then have "i + k < 8" using that by (auto simp: word_less_nat_alt unat_word_ariths)
    with p(1) show "m' (path + i + k) = m (path + i + k)" by (simp add: assms(2) add.assoc)
  qed
  from this [of 0] this [of 4] have "load32 m' (part_part path) = load32 m (part_part path)"
    "load32 m' (part_next path) = load32 m (part_next path)" by (simp_all add: layout)
  moreover have "cstr m' name nm" using p(2,3) by (auto simp: cstr_iff assms(2))
  ultimately show ?thesis using assms(1) by (simp add: path_at_def)
qed

section \<open>The directory in memory\<close>

lemma root_total_le: "root_total img z \<le> z"
proof -
  have "root_total img z \<le> card {..< z}" unfolding root_total_def by (rule card_mono) auto
  then show ?thesis by simp
qed

lemma pool_off_name:
  assumes "name_apart e" and "q \<in> kheap_pool" and "a div 4096 = q div 4096"
  shows "108 \<le> unat (a - name_local e)"
  using assms off_heap_page [of a q] by (cases "108 \<le> unat (a - name_local e)") (auto simp: name_apart_def not_le)

lemma img_item_fields:
  assumes "\<And>i. i < 12 \<Longrightarrow> m (p + of_nat i) = img (512 * root_sector img + 32 * k + i)"
    and "stops (fst (snd (img_item img k)) @ [snd (snd (img_item img k))])"
  shows "item_fields m p (fst (img_item img k)) (fst (snd (img_item img k))) (snd (snd (img_item img k)))"
proof -
  let ?b = "512 * root_sector img + 32 * k"
  have "(fst (img_item img k) @ fst (snd (img_item img k)) @ [snd (snd (img_item img k))]) ! i = img (?b + i)" if "i < 12" for i
  proof -
    have "i = 8 + (i - 8)" "i - 8 < 3" if "8 \<le> i" "i \<noteq> 11" using that \<open>i < 12\<close> by simp_all
    then consider "i < 8" | j where "i = 8 + j" "j < 3" | "i = 11" by (metis not_le)
    then show ?thesis by cases (simp_all add: img_item_def Let_def nth_append add.assoc)
  qed
  then show ?thesis using assms by (simp add: item_fields_def) (simp add: img_item_def Let_def)
qed

text \<open>What mounting leaves, as the search wants it.\<close>

lemma mounted_directory:
  assumes mnt: "mounted e img z pr dir m" and pool: "pr \<in> kheap_pool" "dir \<in> kheap_pool" and na: "name_apart e"
    and img: "fat_image img z" "z \<le> root_entries img"
      "\<forall>j < root_total img z. stops (fst (snd (img_item img j)) @ [snd (snd (img_item img j))])"
  shows "directory_is m (name_local e) (root_directory pr) dir (img_items img z)"
proof -
  have N: "root_entries img \<le> 128" using img(1) by (simp add: fat_image_def)
  then have total: "root_total img z \<le> 128" "root_total img z \<le> root_entries img" using root_total_le [of img z] img(2) by simp_all
  have buffer: "off_buffer (name_local e) (q + of_nat x) n" if "q \<in> kheap_pool" "x + n \<le> 4096" for q x n
    unfolding off_buffer_def
  proof (intro allI impI)
    fix i assume "i < n"
    then have "(q + of_nat (x + i)) div 4096 = q div 4096" using that by (intro pool_word) simp_all
    then show "108 \<le> unat (q + of_nat x + of_nat i - name_local e)" using pool_off_name [OF na that(1)] by (simp add: add.assoc)
  qed
  have "item_is m (name_local e) (dir + of_nat k * 32) (img_items img z ! k)" if k: "k < root_total img z" for k
  proof -
    have addr: "dir + of_nat k * 32 + of_nat i = dir + of_nat (32 * k + i)" for i by simp
    have "m (dir + of_nat k * 32 + of_nat i) = img (512 * root_sector img + 32 * k + i)" if "i < 12" for i
    proof -
      have "32 * k + i < 32 * root_entries img" using that k total(2) by linarith
      then have "m (dir + of_nat (32 * k + i)) = img (512 * root_sector img + (32 * k + i))"
        using mnt unfolding mounted_def by blast
      then show ?thesis unfolding addr by (simp only: add.assoc)
    qed
    from img_item_fields [of m "dir + of_nat k * 32", OF this] img(3) k
    have "item_fields m (dir + of_nat k * 32) (fst (img_item img k)) (fst (snd (img_item img k))) (snd (snd (img_item img k)))"
      by blast
    moreover have "off_buffer (name_local e) (dir + of_nat (32 * k)) 32" using k total(1) by (intro buffer pool(2)) simp
    ultimately show ?thesis using k by (simp add: item_is_def img_items_def mult.commute)
  qed
  moreover have "off_buffer (name_local e) (root_directory pr) 8" using buffer [OF pool(1), of 64 8] by (simp add: layout)
  moreover have "load32 m (directory_total (root_directory pr)) = of_nat (root_total img z)"
    "load32 m (directory_item (root_directory pr)) = dir" using mnt by (simp_all add: mounted_def)
  ultimately show ?thesis using total(1) by (simp add: directory_is_def img_items_def)
qed

section \<open>Opening\<close>

text \<open>The file descriptor \<open>d\<close> leads to a copy of item \<open>k\<close> of the disk, at position \<open>0\<close>.\<close>

definition opened :: "(nat \<Rightarrow> u8) \<Rightarrow> nat \<Rightarrow> addr \<Rightarrow> mem \<Rightarrow> bool" where
  "opened img k d m =
     (load32 m (fat_item_type (load32 m (fat_fd_item d))) = FAT_ITEM_TYPE_FILE \<and> load32 m (fat_fd_pos d) = 0 \<and>
      (\<forall>i < 32. m (load32 m (fat_item_item (load32 m (fat_fd_item d))) + of_nat i) = img (512 * root_sector img + 32 * k + i)))"

text \<open>The last two stores of \<open>fat16_open\<close>, on a page apart from the item found.\<close>

lemma opened_stores:
  assumes "file_item m f (\<lambda>i. img (512 * root_sector img + 32 * k + i))" and "load32 m (fat_item_item f) = it"
    and d: "d \<in> kheap_pool" and f: "f \<in> kheap_pool" "d \<noteq> f" and it: "it \<in> kheap_pool" "d \<noteq> it"
  shows "opened img k d (store32 (store32 m (fat_fd_item d) f) (fat_fd_pos d) 0)"
proof -
  let ?m = "store32 (store32 m (d + 0) f) (d + 4) 0"
  have field: "load32 ?m (f + j) = load32 m (f + j)" if "j \<le> 4092" for j
    using kheap_field_load_other [OF d f(1) f(2) _ that, of 4] kheap_field_load_other [OF d f(1) f(2) _ that, of 0] by simp
  have "?m (it + of_nat i) = m (it + of_nat i)" if "i < 32" for i
  proof -
    have "(it + of_nat i) div 4096 = it div 4096" using that by (intro pool_word [OF it(1)]) simp
    then show ?thesis
      using kheap_field_other [OF d it(1) it(2) _ , of 4] kheap_field_other [OF d it(1) it(2) _ , of 0] by simp
  qed
  moreover have "load32 ?m d = f" by (simp add: load32_store32_apart)
  ultimately show ?thesis
    using assms(1,2) field [of 0] field [of 4] by (simp add: opened_def file_item_def layout)
qed

lemma mounted_opens:
  assumes mnt: "mounted e img z pr dir (ram s)" and pool: "{pr, dir} \<subseteq> kheap_pool - kheap_avail (ram s)"
    and pages: "3 \<le> card (kheap_avail (ram s))" and na: "name_apart e" and disk: "\<And>k. k < 20 \<Longrightarrow> off_heap (disk0 e + k)"
    and img: "file_image img z nm k" and path: "path_at e path name nm (ram s)"
  obtains d s' where "fat16_open e (disk0 e) path FILE_MODE_READ s = Done (d, s')" and "d \<noteq> 0" and "opened img k d (ram s')"
    and "\<And>a. kheap_safe (ram s) a \<Longrightarrow> 108 \<le> unat (a - name_local e) \<Longrightarrow> ram s' a = ram s a"
proof -
  let ?A = "kheap_avail (ram s)"
  have im: "fat_image img z" "z \<le> root_entries img" "first_match nm (img_items img z) = Some k"
      "\<forall>j < root_total img z. stops (fst (snd (img_item img j)) @ [snd (snd (img_item img j))])"
      "snd (snd (img_item img k)) AND FAT_FILE_SUBDIRECTORY = 0"
    using img by (simp_all add: file_image_def)
  have N: "root_entries img \<le> 128" using im(1) by (simp add: fat_image_def)
  have k: "k < root_total img z" "img_items img z ! k = img_item img k"
    using first_match_Some [OF im(3)] by (simp_all add: img_items_def)
  have sz: "0 < unat sizeof_fat_fd" "unat sizeof_fat_fd \<le> 4096" by (simp_all add: sizeof_fat_fd_def)
  have "?A \<noteq> {}" using pages by auto
  from kzalloc_safe [OF sz this] obtain d m1 where
    d: "kzalloc sizeof_fat_fd (ram s) = (d, m1)" "d \<in> ?A" "d \<in> kheap_pool" "d \<noteq> 0" "kheap_avail m1 = ?A - {d}"
      "\<And>a. a - d < sizeof_fat_fd \<Longrightarrow> m1 a = 0" "\<And>a. kheap_safe (ram s) a \<Longrightarrow> m1 a = ram s a" by blast
  let ?s1 = "s\<lparr>ram := m1\<rparr>"
  have safe1: "kheap_safe m1 a" if "kheap_safe (ram s) a" for a by (rule kheap_safe_mono [OF that]) (simp add: d(5))
  have p: "pr \<in> kheap_pool" "dir \<in> kheap_pool" "pr \<notin> ?A" "dir \<notin> ?A" using pool by auto
  have disk_safe: "kheap_safe m (disk0 e + j)" if "j < 20" for j m by (rule off_heap_safe [OF disk [OF that]])
  have word: "load32 m1 (disk0 e + i) = load32 (ram s) (disk0 e + i)" if "i \<in> {4, 12, 16}" for i
  proof (rule load32_same)
    fix j :: u32 assume "j < 4"
    then have "unat j < 4" by (simp add: word_less_nat_alt)
    then have "i + j < 20" using that by (auto simp: word_less_nat_alt unat_word_ariths)
    from d(7) [OF disk_safe [OF this]] show "m1 (disk0 e + i + j) = ram s (disk0 e + i + j)" by (simp add: add.assoc)
  qed
  have field: "load32 m1 (pr + i) = load32 (ram s) (pr + i)" if "i \<le> 4092" for i
    using kheap_safe_load [OF d(7) p(1,3) that] .
  have bytes: "m1 (dir + of_nat i) = ram s (dir + of_nat i)" if "i < 4096" for i
    using kheap_safe_page [OF p(2,4) pool_word [OF p(2) that]] by (rule d(7))
  have hd: "m1 (pr + of_nat i) = ram s (pr + of_nat i)" if "i < 4096" for i
    using kheap_safe_page [OF p(1,3) pool_word [OF p(1) that]] by (rule d(7))
  have mnt1: "mounted e img z pr dir m1"
    using mnt word [of 4] word [of 12] word [of 16] field [of 64] field [of 68] field [of 72] field [of 76] bytes hd N
    by (simp add: mounted_def fat_mounted_def root_dir_fields) (simp add: layout)
  have path1: "path_at e path name nm m1"
    by (rule path_at_same [OF path]) (simp add: spare_def off_heap_safe d(7))
  have dir1: "directory_is (ram ?s1) (name_local e) (root_directory pr) dir (img_items img z)"
    using mounted_directory [OF mnt1 p(1,2) na im(1,2,4)] by simp
  have name1: "name_is (ram ?s1) (name_local e) name nm"
    using path1 by (simp add: path_at_def name_is_def off_buffer_def spare_def)
  have heap1: "2 \<le> card (kheap_avail (ram ?s1))" using pages d(2) kh.card_alloc by (simp add: d(5))
  have meta: "108 \<le> unat (a - name_local e)" if "kheap_meta a" for a
    using na that by (cases "108 \<le> unat (a - name_local e)") (auto simp: name_apart_def off_heap_def not_le)
  have plain: "snd (snd (img_items img z ! k)) AND FAT_FILE_SUBDIRECTORY = 0" using im(5) k(2) by simp
  have addr: "dir + of_nat k * 32 + of_nat i = dir + of_nat (32 * k + i)" for i by simp
  have idx: "32 * k + i < 32 * root_entries img" "32 * k + i < 4096" if "i < 32" for i
    using that k(1) root_total_le [of img z] im(2) N by linarith+
  have safe: "kheap_safe (ram ?s1) (dir + of_nat k * 32 + of_nat i)" if "i < 32" for i
    unfolding addr using safe1 [OF kheap_safe_page [OF p(2,4) pool_word [OF p(2) idx(2) [OF that]]]] by simp
  obtain f s2 where f: "fat16_find_item_in_directory e (disk0 e) (root_directory pr) name ?s1 = Some (f, s2)" "f \<noteq> 0"
    "file_item (ram s2) f (\<lambda>i. ram ?s1 (dir + of_nat k * 32 + of_nat i))"
    "\<And>a. kheap_safe (ram ?s1) a \<Longrightarrow> 108 \<le> unat (a - name_local e) \<Longrightarrow> ram s2 a = ram ?s1 a"
    "{f, load32 (ram s2) (fat_item_item f)} \<subseteq> kheap_avail (ram ?s1)"
    by (rule find_item_spec [where s = ?s1 and e = e and disk = "disk0 e" and name = name,
        OF dir1 name1 heap1 meta im(3) plain safe]) (assumption | rule that)+
  have item: "file_item (ram s2) f (\<lambda>i. img (512 * root_sector img + 32 * k + i))"
  proof -
    have "m1 (dir + of_nat k * 32 + of_nat i) = img (512 * root_sector img + 32 * k + i)" if "i < 32" for i
      using mnt1 idx(1) [OF that] unfolding addr mounted_def by (metis add.assoc)
    then show ?thesis using f(3) by (simp add: file_item_def)
  qed
  let ?it = "load32 (ram s2) (fat_item_item f)"
  have fp: "f \<in> kheap_pool" "d \<noteq> f" "?it \<in> kheap_pool" "d \<noteq> ?it"
    using f(5) kh.avail_pool [of "ram s"] by (auto simp: d(5))
  have spare2: "ram s2 a = m1 a" if "spare e a" for a
    using f(4) [of a] that off_heap_safe by (simp add: spare_def)
  have "path_at e path name nm (ram s2)" by (rule path_at_same [OF path1 spare2])
  then have ends: "load32 (ram s2) (part_next path) = 0" by (simp add: path_at_def)
  have pr1: "load32 m1 (disk_fs_private (disk0 e)) = pr" using mnt1 by (simp add: mounted_def fat_mounted_def)
  have part: "load32 m1 (part_part path) = name" using path1 by (simp add: path_at_def)
  let ?m3 = "store32 (store32 (ram s2) (fat_fd_item d) f) (fat_fd_pos d) 0"
  have "fat16_get_directory_entry e (disk0 e) path ?s1 = Done (f, s2)"
    using f(1,2) fat16_walk_item [of f e "disk0 e" 63 0 s2] by (simp add: fat16_get_directory_entry_def pr1 part ends of_option_def)
  then have run: "fat16_open e (disk0 e) path FILE_MODE_READ s = Done (d, s2\<lparr>ram := ?m3\<rparr>)"
    using d(1,4) f(2) by (simp add: fat16_open_def)
  have op: "opened img k d (ram (s2\<lparr>ram := ?m3\<rparr>))" using opened_stores [OF item refl d(3) fp] by simp
  show thesis
  proof (rule that [OF run d(4) op])
    fix a assume a: "kheap_safe (ram s) a" "108 \<le> unat (a - name_local e)"
    then have "a div 4096 \<noteq> d div 4096" using d(2) by (auto simp: kheap_safe_def)
    then have "?m3 a = ram s2 a"
      using field_off_page [OF d(3), of 0 a] field_off_page [OF d(3), of 4 a] by (simp add: layout store32_byte_out)
    also have "\<dots> = m1 a" using f(4) [of a] safe1 [OF a(1)] a(2) by simp
    finally show "ram (s2\<lparr>ram := ?m3\<rparr>) a = ram s a" using d(7) [OF a(1)] by simp
  qed
qed

section \<open>Reading\<close>

lemma opened_cluster:
  assumes "opened img k d m" and "file_image img z nm k" and "it = load32 m (fat_item_item (load32 m (fat_fd_item d)))"
  shows "fat16_get_first_cluser it m = of_nat (item_cluster img k)"
proof -
  let ?b = "512 * root_sector img + 32 * k"
  have byte: "m (it + of_nat i) = img (?b + i)" if "i < 32" for i using assms(1,3) that by (simp add: opened_def)
  have hi: "img (?b + 20) = 0" "img (?b + 21) = 0" using assms(2) by (simp_all add: file_image_def)
  have "load16 m (it + 20) = 0" using byte [of 20] byte [of 21] hi by (simp add: load16_def add.assoc)
  moreover have "ucast (load16 m (it + 26)) = (of_nat (item_cluster img k) :: u32)"
    using byte [of 26] byte [of 27] unfolding item_cluster_def by (intro load16_img) (simp_all add: ac_simps)
  ultimately show ?thesis by (simp add: fat16_get_first_cluser_def layout)
qed

lemma opened_reads:
  assumes mnt: "mounted e img z pr dir (ram s)" and at: "stream_at e img (load32 (ram s) (cluster_read_stream pr)) s p"
    and img: "file_image img z nm k" and op: "opened img k d (ram s)"
    and n: "n \<le> 512 * unat (img 13)"
    and pos: "cluster_position (root_end img) (unat (img 13)) (item_cluster img k) + n < 2147483648"
    and free: "\<And>i. i < n \<Longrightarrow> \<not> stream_own e (load32 (ram s) (cluster_read_stream pr)) (out + of_nat i)"
  shows "\<exists>s'. fat16_read e (disk0 e) d (of_nat n) 1 out s = Done (1, s') \<and>
     (\<forall>i < n. ram s' (out + of_nat i) = img (cluster_position (root_end img) (unat (img 13)) (item_cluster img k) + i))"
proof -
  let ?k = "unat (img 13)" and ?c = "item_cluster img k"
  have "ram s (private_header pr + of_nat 13) = img 13" using mnt unfolding mounted_def by (auto simp del: of_nat_numeral)
  then have spc: "ram s (sectors_per_cluster (private_header pr)) = of_nat ?k" by (simp add: layout)
  have k: "0 < ?k" "?k < 256" "2 \<le> ?c" using img unsigned_less [of "img 13"] by (simp_all add: file_image_def unat_gt_0)
  have m: "fat_mounted e pr (ram s)"
    "load32 (ram s) (directory_ending_sector_pos (root_directory pr)) = of_nat (root_end img)"
    using mnt by (simp_all add: mounted_def root_end_def)
  have "0 < 512 * ?k" "cluster_position (root_end img) ?k ?c + 0 + n < 2147483648" using k(1) pos by simp_all
  from fat16_read_first_cluster [OF m(1) refl at spc k(1,2) m(2) k(3) this(1) n this(2) free] obtain s' where
    r: "fat16_read_internal e (disk0 e) (of_nat ?c) 0 (of_nat n) out s = Some (0, s')"
      "\<forall>i < n. ram s' (out + of_nat i) = img (cluster_position (root_end img) ?k ?c + i)" by auto
  have "fat16_read e (disk0 e) d (of_nat n) 1 out s = Done (1, s')"
    using r(1) op opened_cluster [OF op img refl] by (simp add: fat16_read_def ISERR_def of_option_def opened_def)
  with r(2) show ?thesis by blast
qed

section \<open>From the disk to memory\<close>

lemma file_contents:
  assumes drive: "ata_drive (dev e) img" and ready: "mount_ready e (ram s)" "9 \<le> card (kheap_avail (ram s))" and na: "name_apart e"
    and img: "file_image img z nm k" and path: "path_at e path name nm (ram s)"
    and n: "n \<le> 512 * unat (img 13)"
    and pos: "cluster_position (root_end img) (unat (img 13)) (item_cluster img k) + n < 2147483648"
    and out: "\<And>i. i < n \<Longrightarrow> off_heap (out + of_nat i) \<and> \<not> sector_buffer e (out + of_nat i)"
  shows "\<exists>s1 d s2 s3. fat16_resolve e (disk0 e) s = Done (0, s1) \<and>
     fat16_open e (disk0 e) path FILE_MODE_READ s1 = Done (d, s2) \<and> d \<noteq> 0 \<and>
     fat16_read e (disk0 e) d (of_nat n) 1 out s2 = Done (1, s3) \<and>
     (\<forall>i < n. ram s3 (out + of_nat i) = img (cluster_position (root_end img) (unat (img 13)) (item_cluster img k) + i))"
proof -
  have fat: "fat_image img z" using img by (simp add: file_image_def)
  have loc: "locals_apart e" and disk: "\<And>k. k < 20 \<Longrightarrow> off_heap (disk0 e + k)" using ready(1) by (simp_all add: mount_ready_def)
  obtain s1 pr dir where
    s1: "fat16_resolve e (disk0 e) s = Done (0, s1)" "mounted e img z pr dir (ram s1)"
    and at: "stream_at e img (load32 (ram s1) (cluster_read_stream pr)) s1 0"
    and pool: "{pr, dir, load32 (ram s1) (cluster_read_stream pr)} \<subseteq> kheap_pool - kheap_avail (ram s1)"
    and card: "card (kheap_avail (ram s)) \<le> card (kheap_avail (ram s1)) + 6"
    and frame1: "\<And>a. off_heap a \<Longrightarrow> \<not> mount_local e a \<Longrightarrow> 20 \<le> unat (a - disk0 e) \<Longrightarrow> ram s1 a = ram s a"
    by (rule resolve_mounts [OF drive ready(1) fat]) (erule that, (assumption | blast)+)
  let ?st = "load32 (ram s1) (cluster_read_stream pr)"
  have path1: "path_at e path name nm (ram s1)" by (rule path_at_same [OF path]) (simp add: spare_def frame1)
  have pages: "3 \<le> card (kheap_avail (ram s1))" using ready(2) card by simp
  have pd: "{pr, dir} \<subseteq> kheap_pool - kheap_avail (ram s1)" "pr \<in> kheap_pool" "pr \<notin> kheap_avail (ram s1)"
    "dir \<in> kheap_pool" "dir \<notin> kheap_avail (ram s1)" "?st \<in> kheap_pool" "?st \<notin> kheap_avail (ram s1)" using pool by auto
  obtain d s2 where
    s2: "fat16_open e (disk0 e) path FILE_MODE_READ s1 = Done (d, s2)" "d \<noteq> 0" "opened img k d (ram s2)"
      "\<And>a. kheap_safe (ram s1) a \<Longrightarrow> 108 \<le> unat (a - name_local e) \<Longrightarrow> ram s2 a = ram s1 a"
    by (rule mounted_opens [OF s1(2) pd(1) pages na disk img path1]) (assumption | rule that)+
  have page: "ram s2 a = ram s1 a" if "q \<in> kheap_pool" "q \<notin> kheap_avail (ram s1)" "a div 4096 = q div 4096" for q a
    using kheap_safe_page [OF that] pool_off_name [OF na that(1,3)] by (rule s2(4))
  have field: "load32 (ram s2) (pr + i) = load32 (ram s1) (pr + i)" if "i \<le> 4092" for i
    using kheap_field(1) [OF pd(2) that] by (intro load32_same page [OF pd(2,3)])
  have word: "load32 (ram s2) (disk0 e + i) = load32 (ram s1) (disk0 e + i)" if "i \<in> {4, 12, 16}" for i
  proof (rule load32_same)
    fix j :: u32 assume "j < 4"
    then have "unat j < 4" by (simp add: word_less_nat_alt)
    then have ij: "i + j < 20" using that by (auto simp: word_less_nat_alt unat_word_ariths)
    then have "unat (i + j) < 20" by (simp add: word_less_nat_alt)
    then have "108 \<le> unat (disk0 e + (i + j) - name_local e)"
      using na unfolding name_apart_def by (metis add_diff_cancel_left' not_le)
    from s2(4) [OF off_heap_safe [OF disk [OF ij]] this] show "ram s2 (disk0 e + i + j) = ram s1 (disk0 e + i + j)"
      by (simp add: add.assoc)
  qed
  have hd: "ram s2 (pr + of_nat i) = ram s1 (pr + of_nat i)" if "i < 4096" for i
    using pool_word [OF pd(2) that] by (rule page [OF pd(2,3)])
  have bytes: "ram s2 (dir + of_nat i) = ram s1 (dir + of_nat i)" if "i < 4096" for i
    using pool_word [OF pd(4) that] by (rule page [OF pd(4,5)])
  have "root_entries img \<le> 128" using fat by (simp add: fat_image_def)
  then have mnt2: "mounted e img z pr dir (ram s2)"
    using s1(2) word [of 4] word [of 12] word [of 16] field [of 64] field [of 68] field [of 72] field [of 76] bytes hd
    by (simp add: mounted_def fat_mounted_def root_dir_fields) (simp add: layout)
  have st: "load32 (ram s2) (cluster_read_stream pr) = ?st" using field [of 80] by (simp add: layout)
  have at2: "stream_at e img (load32 (ram s2) (cluster_read_stream pr)) s2 0"
    unfolding st using page [OF pd(6,7)] by (rule stream_same [OF at pd(6)])
  have own: "\<not> stream_own e (load32 (ram s2) (cluster_read_stream pr)) (out + of_nat i)" if "i < n" for i
    using out [OF that] off_heap_page [of "out + of_nat i" ?st] pd(6) pool_near [OF pd(6), of "out + of_nat i"]
    by (auto simp: stream_own_def st)
  from opened_reads [OF mnt2 at2 img s2(3) n pos own] s1(1) s2(1,2) show ?thesis by blast
qed

section \<open>A file to read\<close>

text \<open>The header of the boot sector, a root directory with the file \<open>S\<close> and two bytes in its cluster.\<close>

definition file_img :: "nat \<Rightarrow> u8" where
  "file_img i = (if i < 62 then boot_header ! i else if i = 364544 then 0x53 else if i = 364570 then 2
     else if i = 366592 then 0x48 else if i = 366593 then 0x69 else 0)"

definition file_env :: env where
  "file_env = mount_env\<lparr>dev := ready_drive file_img\<rparr>"

definition file_world :: machine where
  "file_world = mount_state\<lparr>ram := (store32 (ram mount_state) 0x30000 0x30010)(0x30010 := 0x73)\<rparr>"

lemma file_img_fields: "root_sector file_img = 712" "root_entries file_img = 64" "root_total file_img 1 = 1" "root_end file_img = 716"
proof -
  show r: "root_sector file_img = 712" and n: "root_entries file_img = 64"
    by (simp_all add: root_sector_def root_entries_def img16_def file_img_def boot_header_bytes)
  show "root_end file_img = 716" by (simp add: root_end_def r n)
  have "{i. i < 1 \<and> file_img (512 * 712 + 32 * i) \<noteq> 0xE5} = {0 :: nat}" by (auto simp: file_img_def)
  then show "root_total file_img 1 = 1" unfolding root_total_def r by simp
qed

lemma file_img_ok: "file_image file_img 1 [0x73] 0" and file_img_cluster: "item_cluster file_img 0 = 2"
proof -
  have it: "img_item file_img 0 = (0x53 # replicate 7 0, replicate 3 0, 0)"
  proof -
    have b: "file_img (364544 + i) = (if i = 0 then 0x53 else 0)" if "i < 12" for i using that by (simp add: file_img_def)
    have "map (\<lambda>i. file_img (364544 + i)) [0..<8] = 0x53 # replicate 7 0"
      by (rule nth_equalityI) (auto simp: b nth_Cons split: nat.split)
    moreover have "map (\<lambda>i. file_img (364544 + 8 + i)) [0..<3] = replicate 3 0"
      by (rule nth_equalityI) (use b [of "8 + _"] in \<open>auto simp: add.assoc\<close>)
    ultimately show ?thesis using b [of 11] by (simp add: img_item_def file_img_fields)
  qed
  show c: "item_cluster file_img 0 = 2" by (simp add: item_cluster_def file_img_fields img16_def file_img_def)
  have items: "img_items file_img 1 = [img_item file_img 0]" unfolding img_items_def file_img_fields(3) by simp
  have "first_match [0x73] (img_items file_img 1) = Some 0"
    unfolding items it by (simp add: name_matches_def item_name_def to_lower_def)
  then show "file_image file_img 1 [0x73] 0"
    using c unfolding file_image_def fat_image_def file_img_fields
    by (simp add: it stops_def FAT_FILE_SUBDIRECTORY_def) (simp add: file_img_def boot_header_bytes boot_header_def le16_def le32_def ascii_def)
qed

lemma file_env_simps [simp]:
  "disk0 file_env = 0x20000" "name_local file_env = 0x501300" "dev file_env = ready_drive file_img"
  "off_heap a \<Longrightarrow> mount_local file_env a = mount_local mount_env a" "sector_buffer file_env a = sector_buffer mount_env a"
  by (simp_all add: file_env_def mount_env_def env_example_def mount_local_def sector_buffer_def)

lemma file_world_ready:
  "mount_ready file_env (ram file_world)" "9 \<le> card (kheap_avail (ram file_world))" "name_apart file_env"
  "path_at file_env 0x30000 0x30010 [0x73] (ram file_world)"
proof -
  let ?m = "ram mount_state" and ?n = "ram file_world"
  have out: "?n a = ?m a" if "unat a < 0x30000 \<or> 0x30020 \<le> unat a" for a
  proof -
    have "a \<noteq> 0x30000 + k" if "unat k < 0x20" for k
      using \<open>unat a < 0x30000 \<or> 0x30020 \<le> unat a\<close> that by (auto simp: unat_word_ariths)
    from this [of 0] this [of 1] this [of 2] this [of 3] this [of 16] show ?thesis by (simp add: file_world_def store32_def)
  qed
  have same: "load32 ?n a = load32 ?m a" if "unat a < 0x2FFFC" for a
  proof (rule load32_same)
    fix k :: u32 assume "k < 4"
    then have "unat k < 4" by (simp add: word_less_nat_alt)
    then show "?n (a + k) = ?m (a + k)" using that by (intro out) (simp add: unat_word_ariths)
  qed
  have avail: "kheap_avail ?n = kheap_avail ?m"
    by (rule kheap_avail_local) (use kheap_meta_range out in \<open>fastforce\<close>)
  have local_same: "mount_local file_env a = mount_local mount_env a" for a
    by (simp add: mount_local_def sector_buffer_def file_env_def)
  show "mount_ready file_env ?n"
    using mount_state_ready same [of "disk_id 0x20000"] same [of "disk_sector_size 0x20000"]
    by (simp add: mount_ready_def locals_apart_def avail local_same layout) (simp add: file_env_def)
  have zero: "kheap_avail ?m = kheap_pool"
  proof (rule kheap_avail_zero)
    fix a assume "kheap_meta a"
    then have "unat a < 57856" using kheap_meta_range by blast
    then have "a \<noteq> 0x20004 + k" if "k < 4" for k using that by (auto simp: word_less_nat_alt unat_word_ariths)
    from this [of 0] this [of 1] this [of 2] this [of 3] show "?m a = 0" by (simp add: mount_state_def store32_def layout)
  qed
  show "9 \<le> card (kheap_avail ?n)" by (simp add: avail zero card_kheap_pool)
  have near: "20 \<le> unat (a - 0x20000)" if "0x20014 \<le> unat a" for a :: u32
    using that low_offset [of a "0x20000" 20] by (cases "20 \<le> unat (a - 0x20000)") auto
  have "off_heap a \<and> 20 \<le> unat (a - 0x20000)" if "unat (a - 0x501300) < 108" for a
    using low_offset [OF that] near by (intro conjI off_heap_low) simp_all
  then show "name_apart file_env" by (simp add: name_apart_def)
  have spare: "spare file_env a" if "0x30000 \<le> unat a" "unat a < 0x30020" for a
  proof -
    have "108 \<le> unat (a - 0x501300)" using that low_offset [of a "0x501300" 108] by (cases "108 \<le> unat (a - 0x501300)") auto
    moreover have "\<not> mount_local mount_env a" using mount_local_range [of a] that by auto
    ultimately show ?thesis using that near off_heap_low [of a] by (simp add: spare_def local_same)
  qed
  have "spare file_env (0x30000 + k)" if "k < 8" for k
  proof -
    have "unat k < 8" using that by (simp add: word_less_nat_alt)
    then show ?thesis by (intro spare) (simp_all add: unat_word_ariths)
  qed
  moreover have "spare file_env (0x30010 + of_nat i)" if "i \<le> 1" for i
    using that by (intro spare) (auto simp: le_Suc_eq)
  moreover have "load32 ?n 0x30000 = 0x30010" "load32 ?n 0x30004 = 0" "?n 0x30010 = 0x73" "?n 0x30011 = 0"
    by (simp_all add: file_world_def mount_state_def load32_def store32_def layout)
  moreover from this(3,4) have "cstr ?n 0x30010 [0x73]" by (simp add: cstr_iff)
  ultimately show "path_at file_env 0x30000 0x30010 [0x73] ?n" by (simp add: path_at_def layout)
qed

section \<open>Properties\<close>

text \<open>
  C9. A file gets from the disk to memory: on a disk with a FAT16 header whose root directory
  of at most 128 entries has the name of the path among those counted, mounting, opening and reading succeed one after the other, and
  the bytes read are the first bytes of the file's cluster on the disk, up to a whole cluster.
\<close>

theorem file_from_disk:
  assumes "ata_drive (dev e) img" and "mount_ready e (ram s)" and "9 \<le> card (kheap_avail (ram s))" and "name_apart e"
    and "file_image img z nm k" and "path_at e path name nm (ram s)" and "n \<le> 512 * unat (img 13)"
    and "cluster_position (root_end img) (unat (img 13)) (item_cluster img k) + n < 2147483648"
    and "\<And>i. i < n \<Longrightarrow> off_heap (out + of_nat i) \<and> \<not> sector_buffer e (out + of_nat i)"
  shows "\<exists>s1 d s2 s3. fat16_resolve e (disk0 e) s = Done (0, s1) \<and>
     fat16_open e (disk0 e) path FILE_MODE_READ s1 = Done (d, s2) \<and> d \<noteq> 0 \<and>
     fat16_read e (disk0 e) d (of_nat n) 1 out s2 = Done (1, s3) \<and>
     (\<forall>i < n. ram s3 (out + of_nat i) = img (cluster_position (root_end img) (unat (img 13)) (item_cluster img k) + i))"
  using assms by (rule file_contents)

theorem file_from_disk_witness:
  "\<exists>s1 d s2 s3. fat16_resolve file_env 0x20000 file_world = Done (0, s1) \<and>
     fat16_open file_env 0x20000 0x30000 FILE_MODE_READ s1 = Done (d, s2) \<and>
     fat16_read file_env 0x20000 d 2 1 0x40000 s2 = Done (1, s3) \<and> ram s3 0x40000 = 0x48 \<and> ram s3 0x40001 = 0x69"
proof -
  have drive: "ata_drive (dev file_env) file_img" by (simp add: ready_drive)
  have pos: "cluster_position (root_end file_img) (unat (file_img 13)) (item_cluster file_img 0) = 366592"
    by (simp add: cluster_position_def file_img_fields file_img_cluster)
  have spc: "file_img 13 = 128" by (simp add: file_img_def boot_header_def le16_def ascii_def)
  have out: "off_heap (0x40000 + of_nat i) \<and> \<not> sector_buffer file_env (0x40000 + of_nat i)" if "i < 2" for i
  proof -
    have u: "unat (0x40000 + of_nat i :: u32) = 0x40000 + i" using that by (simp add: unat_word_ariths unat_of_nat32)
    moreover have "\<not> mount_local mount_env (0x40000 + of_nat i)" using mount_local_range [of "0x40000 + of_nat i"] u that by auto
    ultimately show ?thesis using that off_heap_low [of "0x40000 + of_nat i"] by (auto simp: mount_local_def)
  qed
  obtain s1 d s2 s3 where r: "fat16_resolve file_env 0x20000 file_world = Done (0, s1)"
    "fat16_open file_env 0x20000 0x30000 FILE_MODE_READ s1 = Done (d, s2)"
    "fat16_read file_env 0x20000 d (of_nat 2) 1 0x40000 s2 = Done (1, s3)"
    and b: "\<forall>i < 2. ram s3 (0x40000 + of_nat i) = file_img (366592 + i)"
    using file_from_disk [where n = 2, OF drive file_world_ready(1-3) file_img_ok file_world_ready(4) _ _ out, unfolded pos]
    by (auto simp: spc)
  have "ram s3 0x40000 = 0x48" "ram s3 0x40001 = 0x69"
    using b [rule_format, of 0] b [rule_format, of 1] by (simp_all add: file_img_def)
  with r show ?thesis by auto
qed

end
