(* ===== verification/Running.thy ===== *)
theory Running
  imports Interrupt
begin

text \<open>
  A program that runs while keys are typed: its own steps, the interrupts of the keyboard at
  any point between them and its system calls, as one step relation on registers and
  memory. \<open>Keyboard\<close> has the buffer alone; here the keys go through stubs, wrapper, handlers
  and both directories, and nothing is assumed of the program but the memory it leaves alone
  and that it makes no system call but the one for a key. A key is a step while fewer than
  1024 keys wait, so that the buffer has room: \<open>keyboard_push\<close> makes no such test, and what
  it does to a full buffer is stated in \<open>Keyboard\<close>.
\<close>

section \<open>Runs\<close>

text \<open>
  A run from \<open>st0\<close>, with the characters typed and the answers of the calls that asked for
  one. \<open>own\<close> are the steps of the program, \<open>key\<close> the character that the controller has and
  \<open>asks\<close> says that the program is at a system call for a key.
\<close>

inductive program_run ::
    "('st \<Rightarrow> 'st outcome) \<Rightarrow> ('st \<Rightarrow> 'st outcome) \<Rightarrow> ('st \<Rightarrow> u8) \<Rightarrow> ('st \<Rightarrow> 'st \<Rightarrow> bool) \<Rightarrow> ('st \<Rightarrow> bool) \<Rightarrow> ('st \<Rightarrow> u32) \<Rightarrow>
     'st \<Rightarrow> 'st \<Rightarrow> u8 list \<Rightarrow> u32 list \<Rightarrow> bool" for irq sys key own asks answer st0 where
  start: "program_run irq sys key own asks answer st0 st0 [] []"
| own_step: "program_run irq sys key own asks answer st0 st ts gs \<Longrightarrow> own st st' \<Longrightarrow>
    program_run irq sys key own asks answer st0 st' ts gs"
| key_step: "program_run irq sys key own asks answer st0 st ts gs \<Longrightarrow> length ts < length gs + 1024 \<Longrightarrow> irq st = Done st' \<Longrightarrow>
    program_run irq sys key own asks answer st0 st' (ts @ (if key st = 0 then [] else [key st])) gs"
| call_step: "program_run irq sys key own asks answer st0 st ts gs \<Longrightarrow> asks st \<Longrightarrow> sys st = Done st' \<Longrightarrow>
    program_run irq sys key own asks answer st0 st' ts (gs @ (if answer st' = 0 then [] else [answer st']))"

text \<open>What the machine has to do in a state with the keys \<open>ks\<close> in its buffer.\<close>

locale keyed_machine =
  fixes irq :: "'st \<Rightarrow> 'st outcome"
    and sys :: "'st \<Rightarrow> 'st outcome"
    and key :: "'st \<Rightarrow> u8"
    and own :: "'st \<Rightarrow> 'st \<Rightarrow> bool"
    and asks :: "'st \<Rightarrow> bool"
    and answer :: "'st \<Rightarrow> u32"
    and holds :: "'st \<Rightarrow> u8 list \<Rightarrow> bool"
  assumes own_holds: "holds st ks \<Longrightarrow> own st st' \<Longrightarrow> holds st' ks"
    and irq_holds: "holds st ks \<Longrightarrow> length ks < 1024 \<Longrightarrow>
      \<exists>st'. irq st = Done st' \<and> holds st' (ks @ (if key st = 0 then [] else [key st]))"
    and sys_holds: "holds st ks \<Longrightarrow> asks st \<Longrightarrow>
      \<exists>st'. sys st = Done st' \<and> holds st' (tl ks) \<and> answer st' = (if ks = [] then 0 else char_to_int (hd ks))"
    and no_nul: "holds st ks \<Longrightarrow> 0 \<notin> set ks"
begin

text \<open>Every run answers with the first characters typed; the buffer has the others.\<close>

lemma run_keys:
  assumes "program_run irq sys key own asks answer st0 st ts gs" and "holds st0 []"
  shows "\<exists>got rest. ts = got @ rest \<and> gs = map char_to_int got \<and> holds st rest"
  using assms
proof (induction rule: program_run.induct)
  case start
  then show ?case by simp
next
  case (own_step st ts gs st')
  then show ?case using own_holds by blast
next
  case (key_step st ts gs st')
  then obtain got rest where h: "ts = got @ rest" "gs = map char_to_int got" "holds st rest" by blast
  with key_step.hyps(2) have "length rest < 1024" by simp
  from irq_holds [OF h(3) this] key_step.hyps(3) have "holds st' (rest @ (if key st = 0 then [] else [key st]))" by simp
  with h(1,2) show ?case by (intro exI [of _ got] exI [of _ "rest @ (if key st = 0 then [] else [key st])"]) simp
next
  case (call_step st ts gs st')
  then obtain got rest where h: "ts = got @ rest" "gs = map char_to_int got" "holds st rest" by blast
  from sys_holds [OF h(3) call_step.hyps(2)] call_step.hyps(3) have
    a: "holds st' (tl rest)" "answer st' = (if rest = [] then 0 else char_to_int (hd rest))" by simp_all
  show ?case
  proof (cases rest)
    case Nil
    with h(1,2) a show ?thesis by (intro exI [of _ got] exI [of _ "[]"]) simp
  next
    case (Cons k ks)
    with no_nul [OF h(3)] have "char_to_int k \<noteq> 0" using char_to_int_eq_iff [of k 0] by (auto simp: char_to_int_def)
    with h(1,2) a Cons show ?thesis by (intro exI [of _ "got @ [k]"] exI [of _ ks]) simp
  qed
qed

end

section \<open>The kernel as such a machine\<close>

text \<open>The driver as the callback at the address \<open>handler\<close>, and the key at the controller.\<close>

definition driver_call :: "device \<Rightarrow> u8 \<Rightarrow> addr \<Rightarrow> addr \<Rightarrow> addr \<Rightarrow> system \<Rightarrow> system outcome" where
  "driver_call ports beyond handler cb frame s =
     (if cb = handler then Done (ps2_keyboard_handle_interrupt ports beyond s) else Diverge)"

definition typed_key :: "device \<Rightarrow> u8 \<Rightarrow> cpu \<times> system \<Rightarrow> u8" where
  "typed_key ports beyond st = typed_char beyond (ucast (ports (io (snd st)) KEYBOARD_INPUT_PORT))"

text \<open>
  A step of the program: any registers, any change of memory outside the set \<open>Y\<close>, and nothing
  else, since a program has no access to ports and to the kernel's registers.
\<close>

definition program_step :: "addr set \<Rightarrow> cpu \<times> system \<Rightarrow> cpu \<times> system \<Rightarrow> bool" where
  "program_step Y st st' =
     (snd st' = (snd st)\<lparr>ram := ram (snd st')\<rparr> \<and> same_on Y (ram (snd st)) (ram (snd st')))"

text \<open>
  The state that the runs keep: the way into the kernel is there in the memory \<open>X\<close>, the keyboard
  buffer of the process \<open>p\<close> of the current task \<open>t\<close> is apart from what that way writes, and the
  handlers are registered.
\<close>

definition keys_ready :: "addr set \<Rightarrow> addr \<Rightarrow> addr \<Rightarrow> addr \<Rightarrow> env \<Rightarrow> addr \<Rightarrow> addr \<Rightarrow> system \<Rightarrow> bool" where
  "keys_ready X tss tmp_res handler e p t s =
     (trap_ready X tss tmp_res s \<and> current_task s = t \<and> word_bytes (tss_esp0 tss) \<subseteq> X \<and> X \<inter> kb_area p = {} \<and>
      (kb_area p \<union> word_bytes (task_process t)) \<inter>
        (stack_bytes (load32 (ram s) (tss_esp0 tss)) 15 \<union> reg_bytes t \<union> word_bytes tmp_res) = {} \<and>
      interrupt_callbacks s ! 0x21 = handler \<and> handler \<noteq> 0 \<and> syscalls s ! 2 = syscall_funs e ! 2 \<and>
      syscall_funs e ! 2 \<notin> {0, syscall_funs e ! 0, syscall_funs e ! 1} \<and> current_process s = p \<and> p \<noteq> 0)"

lemma trap_ready_same:
  assumes "trap_ready X tss tmp_res s" and "word_bytes (tss_esp0 tss) \<subseteq> X"
    and same: "same_on X (ram s) (ram s')" and "cr3 s' = cr3 s" and t: "current_task s' = current_task s"
  shows "trap_ready X tss tmp_res s'" and "load32 (ram s') (tss_esp0 tss) = load32 (ram s) (tss_esp0 tss)"
proof -
  let ?t = "current_task s" and ?e = "load32 (ram s) (tss_esp0 tss)"
  let ?chunk = "load32 (ram s) (task_page_directory ?t)"
  have r: "word_bytes (task_page_directory ?t) \<subseteq> X" "word_bytes ?chunk \<subseteq> X"
    "maps_stack X (cr3 s) ?e 15 (ram s)" "maps X (cr3 s) tmp_res tmp_res (ram s)"
    using assms(1) unfolding trap_ready_def Let_def by blast+
  show e: "load32 (ram s') (tss_esp0 tss) = ?e" by (rule same_on_load32 [OF same assms(2)])
  have "load32 (ram s') (task_page_directory ?t) = ?chunk" by (rule same_on_load32 [OF same r(1)])
  moreover have "load32 (ram s') ?chunk = load32 (ram s) ?chunk" by (rule same_on_load32 [OF same r(2)])
  moreover have "maps_stack X (cr3 s) ?e 15 (ram s')" "maps X (cr3 s) tmp_res tmp_res (ram s')"
    using r(3,4) maps_cong [OF _ same] unfolding maps_stack_def by blast+
  ultimately show "trap_ready X tss tmp_res s'"
    using assms(1,4) t e by (simp add: trap_ready_def Let_def)
qed

lemma keys_ready_same:
  assumes "keys_ready X tss tmp_res handler e p t s" and "same_on X (ram s) (ram s')" and "cr3 s' = cr3 s"
    and "current_task s' = current_task s" and "same_kernel s s'"
  shows "keys_ready X tss tmp_res handler e p t s'"
proof -
  have "trap_ready X tss tmp_res s" "word_bytes (tss_esp0 tss) \<subseteq> X" using assms(1) by (simp_all add: keys_ready_def)
  from trap_ready_same [OF this assms(2-4)] show ?thesis using assms(1,4,5) by (simp add: keys_ready_def same_kernel_def)
qed

text \<open>The interrupt of the keyboard, the system call and a step of the program, each of which keeps that state.\<close>

lemma keys_interrupt:
  assumes "keys_ready X tss tmp_res handler e p t s" and "kb_holds p t (ram s) ks" and "length ks < 1024"
  shows "\<exists>s'. hardware_interrupt tss (driver_call ports beyond handler) ISR_KEYBOARD_INTERRUPT (c, s) = Done (c, s') \<and>
     keys_ready X tss tmp_res handler e p t s' \<and>
     kb_holds p t (ram s') (ks @ (if typed_key ports beyond (c, s) = 0 then [] else [typed_key ports beyond (c, s)]))"
proof -
  have r: "trap_ready X tss tmp_res s" "current_task s = t" "X \<inter> kb_area p = {}" "interrupt_callbacks s ! 0x21 = handler"
    "handler \<noteq> 0" "current_process s = p" "p \<noteq> 0"
    and apart: "(kb_area p \<union> word_bytes (task_process t)) \<inter> (stack_bytes (load32 (ram s) (tss_esp0 tss)) 15 \<union> reg_bytes t) = {}"
    using assms(1) by (simp_all add: keys_ready_def) blast
  let ?ch = "typed_key ports beyond (c, s)"
  have "\<exists>s'. hardware_interrupt tss (driver_call ports beyond handler) ISR_KEYBOARD_INTERRUPT (c, s) = Done (c, s') \<and>
     kb_holds p (current_task s) (ram s') (ks @ (if ?ch = 0 then [] else [?ch])) \<and>
     current_task s' = current_task s \<and> cr3 s' = cr3 s \<and> same_on X (ram s) (ram s') \<and> same_kernel s s'"
    using apart assms(2) by (intro keyboard_interrupt_returns [where handler = handler and ports = ports and beyond = beyond]
      trap_ready_irq [OF r(1)] r(3-) assms(3)) (simp_all add: r(2) driver_call_def typed_key_def)
  then show ?thesis using keys_ready_same [OF assms(1)] r(2) by auto
qed

lemma keys_call:
  assumes "keys_ready X tss tmp_res handler e p t s" and "kb_holds p t (ram s) ks" and "cpu_eax c = 2"
  shows "\<exists>s'. software_interrupt tss (syscall_call e ops old out) tmp_res (c, s) =
       Done (c\<lparr>cpu_eax := if ks = [] then 0 else char_to_int (hd ks)\<rparr>, s') \<and>
     keys_ready X tss tmp_res handler e p t s' \<and> kb_holds p t (ram s') (tl ks)"
proof -
  let ?W = "stack_bytes (load32 (ram s) (tss_esp0 tss)) 15" and ?ret = "if ks = [] then 0 else char_to_int (hd ks)"
  have r: "trap_ready X tss tmp_res s" "current_task s = t" "X \<inter> kb_area p = {}" "syscalls s ! 2 = syscall_funs e ! 2"
    "syscall_funs e ! 2 \<notin> {0, syscall_funs e ! 0, syscall_funs e ! 1}"
    and apart: "(kb_area p \<union> word_bytes (task_process t)) \<inter> (?W \<union> reg_bytes t \<union> word_bytes tmp_res) = {}"
    using assms(1) unfolding keys_ready_def by blast+
  let ?Q = "\<lambda>ret s'. ret = ?ret \<and> kb_holds p t (ram s') (tl ks) \<and> same_kernel s s'"
  have "\<exists>ret s'. software_interrupt tss (syscall_call e ops old out) tmp_res (c, s) = Done (c\<lparr>cpu_eax := ret\<rparr>,
       (ACK_INTR (task_page s'))\<lparr>ram := store32 (ram s') tmp_res ret\<rparr>) \<and> ?Q ret s' \<and>
     current_task s' = current_task s \<and> same_on X (ram s) (ram s') \<and> cr3 (task_page s') = cr3 s"
  proof (rule software_interrupt_returns [OF r(1)], unfold r(2))
    fix m d assume m: "\<And>a. a \<notin> ?W \<union> reg_bytes t \<Longrightarrow> m a = ram s a"
    have "kb_holds p t m ks"
      by (rule kb_holds_same [OF assms(2)]) (use m apart in \<open>auto simp: same_on_def\<close>)
    moreover have "(X \<union> ?W) \<inter> kb_area p = {}" using r(3) apart by blast
    ultimately show "\<exists>ret s'. isr80h_handle_command (syscall_call e ops old out) (cpu_eax c)
          (below (load32 (ram s) (tss_esp0 tss)) 12) (s\<lparr>cr3 := d, ram := m\<rparr>) = Done (ret, s') \<and>
        current_task s' = t \<and> same_on (X \<union> ?W) m (ram s') \<and> ?Q ret s'"
      using getkey_command [OF _ r(2,4,5), of p m ks "X \<union> ?W" ops old out "below (load32 (ram s) (tss_esp0 tss)) 12" d]
      by (auto simp: assms(3) r(2) same_kernel_def)
  qed
  then obtain s1 where s1: "software_interrupt tss (syscall_call e ops old out) tmp_res (c, s) = Done (c\<lparr>cpu_eax := ?ret\<rparr>,
       (ACK_INTR (task_page s1))\<lparr>ram := store32 (ram s1) tmp_res ?ret\<rparr>)" "kb_holds p t (ram s1) (tl ks)"
     "same_kernel s s1" "current_task s1 = t" "same_on X (ram s) (ram s1)" "cr3 (task_page s1) = cr3 s" by (auto simp: r(2))
  let ?s = "(ACK_INTR (task_page s1))\<lparr>ram := store32 (ram s1) tmp_res ?ret\<rparr>"
  have tmp: "word_bytes tmp_res \<inter> X = {}" "word_bytes tmp_res \<inter> (kb_area p \<union> word_bytes (task_process t)) = {}"
    using r(1) apart by (auto simp: trap_ready_def Let_def)
  have "same_on X (ram s) (ram ?s)" using same_on_trans [OF s1(5) same_on_store32 [OF tmp(1)]] by simp
  moreover have "cr3 ?s = cr3 s" "current_task ?s = current_task s" "same_kernel s ?s"
    using s1(3,4,6) r(2) by (simp_all add: ACK_INTR_def outb_def task_page_def task_switch_def switch_chunk_def
      paging_load_directory_def same_kernel_def)
  ultimately have "keys_ready X tss tmp_res handler e p t ?s" by (intro keys_ready_same [OF assms(1)])
  moreover have "kb_holds p t (ram ?s) (tl ks)" using kb_holds_same [OF s1(2) same_on_store32 [OF tmp(2)]] by simp
  ultimately show ?thesis using s1(1) by blast
qed

lemma keys_step:
  assumes "keys_ready X tss tmp_res handler e p t s" and "kb_holds p t (ram s) ks"
    and "program_step (X \<union> kb_area p \<union> word_bytes (task_process t)) (c, s) (c', s')"
  shows "keys_ready X tss tmp_res handler e p t s' \<and> kb_holds p t (ram s') ks"
proof -
  have step: "s' = s\<lparr>ram := ram s'\<rparr>" "same_on (X \<union> kb_area p \<union> word_bytes (task_process t)) (ram s) (ram s')"
    using assms(3) by (simp_all add: program_step_def)
  have "cr3 s' = cr3 s" "current_task s' = current_task s" "same_kernel s s'"
    by (subst step(1), simp add: same_kernel_def)+
  then have "keys_ready X tss tmp_res handler e p t s'"
    using same_on_subset [OF step(2)] by (intro keys_ready_same [OF assms(1)]) auto
  moreover have "kb_holds p t (ram s') ks"
    using same_on_subset [OF step(2)] by (intro kb_holds_same [OF assms(2)]) auto
  ultimately show ?thesis ..
qed

text \<open>The kernel with one program fulfils the contract.\<close>

definition keys_held :: "addr set \<Rightarrow> addr \<Rightarrow> addr \<Rightarrow> addr \<Rightarrow> env \<Rightarrow> addr \<Rightarrow> addr \<Rightarrow> cpu \<times> system \<Rightarrow> u8 list \<Rightarrow> bool" where
  "keys_held X tss tmp_res handler e p t st ks =
     (keys_ready X tss tmp_res handler e p t (snd st) \<and> kb_holds p t (ram (snd st)) ks)"

interpretation km: keyed_machine
    "hardware_interrupt tss (driver_call ports beyond handler) ISR_KEYBOARD_INTERRUPT"
    "software_interrupt tss (syscall_call e ops old out) tmp_res" "typed_key ports beyond"
    "program_step (X \<union> kb_area p \<union> word_bytes (task_process t))" "\<lambda>st. cpu_eax (fst st) = 2" "\<lambda>st. cpu_eax (fst st)"
    "keys_held X tss tmp_res handler e p t"
  for tss ports beyond handler e ops old out tmp_res X p t
proof (unfold_locales, goal_cases)
  case (1 st ks st')
  then show ?case
    using keys_step [of X tss tmp_res handler e p t "snd st" ks "fst st" "fst st'" "snd st'"] by (simp add: keys_held_def)
next
  case (2 st ks)
  then show ?case
    using keys_interrupt [of X tss tmp_res handler e p t "snd st" ks ports beyond "fst st"] by (auto simp: keys_held_def)
next
  case (3 st ks)
  then show ?case
    using keys_call [of X tss tmp_res handler e p t "snd st" ks "fst st" ops old out] by (fastforce simp: keys_held_def)
next
  case (4 st ks)
  then show ?case by (simp add: keys_held_def kb_holds_def)
qed

definition kernel_run ::
    "addr set \<Rightarrow> addr \<Rightarrow> addr \<Rightarrow> addr \<Rightarrow> env \<Rightarrow> (addr \<Rightarrow> system fs_ops) \<Rightarrow> addr \<Rightarrow> addr \<Rightarrow> device \<Rightarrow> u8 \<Rightarrow> addr \<Rightarrow> addr \<Rightarrow>
     cpu \<times> system \<Rightarrow> cpu \<times> system \<Rightarrow> u8 list \<Rightarrow> u32 list \<Rightarrow> bool" where
  "kernel_run X tss tmp_res handler e ops old out ports beyond p t =
     program_run (hardware_interrupt tss (driver_call ports beyond handler) ISR_KEYBOARD_INTERRUPT)
       (software_interrupt tss (syscall_call e ops old out) tmp_res) (typed_key ports beyond)
       (program_step (X \<union> kb_area p \<union> word_bytes (task_process t))) (\<lambda>st. cpu_eax (fst st) = 2) (\<lambda>st. cpu_eax (fst st))"

lemma kernel_run_held:
  assumes "kernel_run X tss tmp_res handler e ops old out ports beyond p t st0 st ts gs"
    and "keys_held X tss tmp_res handler e p t st0 []"
  shows "\<exists>got rest. ts = got @ rest \<and> gs = map char_to_int got \<and> keys_held X tss tmp_res handler e p t st rest"
  using assms unfolding kernel_run_def by (rule km.run_keys)

lemma kernel_run_key:
  assumes "kernel_run X tss tmp_res handler e ops old out ports beyond p t st0 st ts gs" and "length ts < length gs + 1024"
    and "hardware_interrupt tss (driver_call ports beyond handler) ISR_KEYBOARD_INTERRUPT st = Done st'"
    and "typed_key ports beyond st = ch" and "ch \<noteq> 0"
  shows "kernel_run X tss tmp_res handler e ops old out ports beyond p t st0 st' (ts @ [ch]) gs"
  using program_run.key_step [where key = "typed_key ports beyond", OF assms(1) [unfolded kernel_run_def] assms(2,3)] assms(4,5)
  by (simp add: kernel_run_def)

lemma kernel_run_call:
  assumes "kernel_run X tss tmp_res handler e ops old out ports beyond p t st0 (c, s) ts gs" and "cpu_eax c = 2"
    and "software_interrupt tss (syscall_call e ops old out) tmp_res (c, s) = Done (c', s')" and "cpu_eax c' \<noteq> 0"
  shows "kernel_run X tss tmp_res handler e ops old out ports beyond p t st0 (c', s') ts (gs @ [cpu_eax c'])"
  using program_run.call_step [where asks = "\<lambda>st. cpu_eax (fst st) = 2" and answer = "\<lambda>st. cpu_eax (fst st)",
      OF assms(1) [unfolded kernel_run_def] _ assms(3)] assms(2,4)
  by (simp add: kernel_run_def)

text \<open>A run on the machine of theory \<open>Interrupt\<close>: two keys are typed and one is read.\<close>

lemma key_state_ready: "keys_ready trap_fixed 0x21000 0x500100 0x130000 env_example 0x1000000 0x1003000 key_state"
proof -
  have "trap_ready trap_fixed 0x21000 0x500100 trap_state" "word_bytes (tss_esp0 0x21000) \<subseteq> trap_fixed"
    using trap_state_ready by (simp_all add: call_ready_def)
  moreover have s: "ram key_state = trap_memory" "current_task key_state = 0x1003000" "cr3 key_state = cr3 trap_state"
    "current_task trap_state = 0x1003000" "ram trap_state = trap_memory" "load32 trap_memory (tss_esp0 0x21000) = 0x600000"
    "task_process 0x1003000 = 0x1003034"
    by (simp_all add: key_state_def trap_state_def layout trap_memory_words)
  ultimately have "trap_ready trap_fixed 0x21000 0x500100 key_state" by (simp add: trap_ready_def)
  moreover have "syscalls key_state ! 2 = syscall_funs env_example ! 2"
    "syscall_funs env_example ! 2 \<notin> {0, syscall_funs env_example ! 0, syscall_funs env_example ! 1}"
    by (simp_all add: key_state_def trap_state_def nth_append env_example_def upt_rec)
  moreover have "interrupt_callbacks key_state ! 0x21 = 0x130000" "current_process key_state = 0x1000000"
    by (simp_all add: key_state_def)
  ultimately show ?thesis
    using trap_disjoint(4,5) trap_state_ready by (simp add: keys_ready_def call_ready_def s) blast
qed

lemma key_run_example:
  "\<exists>st0 st. kernel_run trap_fixed 0x21000 0x500100 0x130000 env_example ops old out key_ports 0 0x1000000 0x1003000
       st0 st [0x41, 0x41] [0x41] \<and> keys_held trap_fixed 0x21000 0x500100 0x130000 env_example 0x1000000 0x1003000 st0 []"
proof -
  let ?R = "kernel_run trap_fixed 0x21000 0x500100 0x130000 env_example ops old out key_ports 0 0x1000000 0x1003000"
  let ?h = "keys_ready trap_fixed 0x21000 0x500100 0x130000 env_example 0x1000000 0x1003000"
  let ?k = "\<lambda>s. kb_holds 0x1000000 0x1003000 (ram s)" and ?c = "trap_cpu\<lparr>cpu_eax := 2\<rparr>"
  have "ram key_state = trap_memory" by (simp add: key_state_def trap_state_def)
  then have "?k key_state [0x41]" using trap_state_keys by simp
  from keys_call [OF key_state_ready this, of ?c ops old out] obtain s0 where s0: "?h s0" "?k s0 []" by auto
  have key: "typed_key key_ports 0 st = 0x41" for st
    by (simp add: typed_key_def key_ports_def typed_char_def PS2_KEY_RELEASED_def ps2_keyboard_scancode_to_char_def
      PS2_SCAN_SET_SIZE_def ps2_scan_set_one_def)
  from keys_interrupt [OF s0, of key_ports 0 ?c] obtain s1 where
    s1: "hardware_interrupt 0x21000 (driver_call key_ports 0 0x130000) ISR_KEYBOARD_INTERRUPT (?c, s0) = Done (?c, s1)"
      "?h s1" "?k s1 [0x41]" by (auto simp: key)
  from keys_interrupt [OF s1(2,3), of key_ports 0 ?c] obtain s2 where
    s2: "hardware_interrupt 0x21000 (driver_call key_ports 0 0x130000) ISR_KEYBOARD_INTERRUPT (?c, s1) = Done (?c, s2)"
      "?h s2" "?k s2 [0x41, 0x41]" by (auto simp: key)
  from keys_call [OF s2(2,3), of ?c ops old out] obtain s3 where
    s3: "software_interrupt 0x21000 (syscall_call env_example ops old out) 0x500100 (?c, s2) = Done (?c\<lparr>cpu_eax := 0x41\<rparr>, s3)"
    by (auto simp: char_to_int_def)
  have "?R (?c, s0) (?c, s0) [] []" unfolding kernel_run_def by (rule program_run.start)
  from kernel_run_key [OF this _ s1(1) key] have "?R (?c, s0) (?c, s1) [0x41] []" by simp
  from kernel_run_key [OF this _ s2(1) key] have "?R (?c, s0) (?c, s2) [0x41, 0x41] []" by simp
  from kernel_run_call [OF this _ s3] have "?R (?c, s0) (?c\<lparr>cpu_eax := 0x41\<rparr>, s3) [0x41, 0x41] [0x41]" by simp
  moreover have "keys_held trap_fixed 0x21000 0x500100 0x130000 env_example 0x1000000 0x1003000 (?c, s0) []"
    using s0 by (simp add: keys_held_def)
  ultimately show ?thesis by blast
qed

section \<open>Properties\<close>

text \<open>
  C11. Keys reach a program in their order: in every run of a program that leaves the kernel's
  memory alone, and makes no system call but the one for a key, with keyboard interrupts at
  any point and at most 1024 keys waiting, the answers to its calls are the first characters typed, none lost or changed, and the
  others are in the buffer. In every state of the run an interrupt comes back with the
  program's registers as they were, and a system call answers with the oldest key waiting.
\<close>

theorem program_reads_keys:
  assumes "kernel_run X tss tmp_res handler e ops old out ports beyond p t st0 (c, s) typed got"
    and "keys_held X tss tmp_res handler e p t st0 []"
  shows "\<exists>read rest. typed = read @ rest \<and> got = map char_to_int read \<and> kb_holds p t (ram s) rest \<and>
     (length rest < 1024 \<longrightarrow>
        (\<exists>s'. hardware_interrupt tss (driver_call ports beyond handler) ISR_KEYBOARD_INTERRUPT (c, s) = Done (c, s'))) \<and>
     (\<exists>s'. software_interrupt tss (syscall_call e ops old out) tmp_res (c\<lparr>cpu_eax := 2\<rparr>, s) =
        Done (c\<lparr>cpu_eax := if rest = [] then 0 else char_to_int (hd rest)\<rparr>, s'))"
proof -
  from kernel_run_held [OF assms] obtain read rest where
    r: "typed = read @ rest" "got = map char_to_int read" "keys_ready X tss tmp_res handler e p t s" "kb_holds p t (ram s) rest"
    by (auto simp: keys_held_def)
  from keys_call [OF r(3,4), of "c\<lparr>cpu_eax := 2\<rparr>" ops old out] obtain s' where
    "software_interrupt tss (syscall_call e ops old out) tmp_res (c\<lparr>cpu_eax := 2\<rparr>, s) =
       Done (c\<lparr>cpu_eax := if rest = [] then 0 else char_to_int (hd rest)\<rparr>, s')" by auto
  with r keys_interrupt [OF r(3,4), of ports beyond c] show ?thesis by blast
qed

theorem program_reads_keys_witness:
  "\<forall>ops old out. \<exists>st0 c s rest. kernel_run trap_fixed 0x21000 0x500100 0x130000 env_example ops old out key_ports 0
       0x1000000 0x1003000 st0 (c, s) [0x41, 0x41] [0x41] \<and>
     [0x41, 0x41] = [0x41] @ rest \<and> kb_holds 0x1000000 0x1003000 (ram s) rest"
proof (intro allI)
  fix ops :: "addr \<Rightarrow> system fs_ops" and old out
  from key_run_example [of ops old out] obtain st0 c s where
    r: "kernel_run trap_fixed 0x21000 0x500100 0x130000 env_example ops old out key_ports 0 0x1000000 0x1003000
       st0 (c, s) [0x41, 0x41] [0x41]"
      "keys_held trap_fixed 0x21000 0x500100 0x130000 env_example 0x1000000 0x1003000 st0 []" by auto
  from program_reads_keys [OF r] obtain read rest where
    k: "[0x41, 0x41] = read @ rest" "[0x41] = map char_to_int read" "kb_holds 0x1000000 0x1003000 (ram s) rest"
    by (elim exE conjE)
  from k(2) obtain x where "read = [x]" by (cases read) simp_all
  with k(1) have "[0x41, 0x41] = [0x41] @ rest" by simp
  with r(1) k(3) show "\<exists>st0 c s rest. kernel_run trap_fixed 0x21000 0x500100 0x130000 env_example ops old out key_ports 0
       0x1000000 0x1003000 st0 (c, s) [0x41, 0x41] [0x41] \<and> [0x41, 0x41] = [0x41] @ rest \<and> kb_holds 0x1000000 0x1003000 (ram s) rest"
    by (intro exI conjI)
qed

end
