(* ===== verification/Spec2Isabelle.thy ===== *)
theory Spec2Isabelle
  imports Prelude Memory Strings Terminal Heap Allocator Kheap Paging Layout Machine Gdt Elf Task Idt Keyboard
    Env Path_Parser Disk Fat16 File Elf_Load Process Syscalls Kernel_Main
    User_String Strtok Stdio Console Shell Trap Interrupt Stubs Task_Return Process_Map Elf_Map
    Boot Fat16_Mount Fat16_File Running
begin

text \<open>
  A verification development for the phix kernel: a 32 bit kernel for one processor with a
  page allocator, two-level paging, a FAT16 file system over an ATA drive, ELF and flat
  programs, one task per process, a PS/2 keyboard and nine system calls, and the library
  and programs that run on it.

  \<^bold>\<open>The machine.\<close> Memory is a function from 32 bit addresses to bytes (\<open>mem\<close>); every
  C structure that has an address in the program is bytes in it, with its fields at the
  offsets of the i386 ABI (theory \<open>Layout\<close> and the layout sections of the components).
  Scalars are words of their width, C \<open>int\<close>s are words read with \<open>sint\<close>, a \<open>char\<close> is a
  byte that is sign-extended where C does. Static scalars and tables of pointers are
  fields of records that grow with the components: \<open>machine\<close> (memory, port
  accesses, CR0, CR3, the registers of descriptor tables and task), \<open>tasks\<close>, \<open>kernel\<close>, \<open>system\<close>. Functions that only touch memory take and
  return \<open>mem\<close>, the others the record. A function that can stop the machine returns \<open>outcome\<close>:
  \<open>Done\<close>, \<open>Panic\<close> with its message (an access to a page that is not present ends in the
  panic of the page fault handler) or \<open>Diverge\<close>; a loop that can run for ever is a
  partial function with the result \<open>None\<close>.

  \<^bold>\<open>Theories and sources.\<close> Files are below \<open>phix/src\<close> where nothing else is said.
  \<^item> \<open>Prelude\<close>: \<open>include/common.h\<close>, \<open>config.h\<close>, \<open>status.h\<close>, \<open>kernel.h\<close>; loads and stores,
    outcomes, counted loops and the collections of simplification rules.
  \<^item> \<open>Memory\<close>, \<open>Strings\<close>, \<open>Terminal\<close>: \<open>memory/memory.c\<close> and \<open>string/string.c\<close>.
  \<^item> \<open>Heap\<close>, \<open>Allocator\<close>, \<open>Kheap\<close>: \<open>memory/heap/heap.c\<close> and \<open>kheap.c\<close>. \<open>Allocator\<close> is the
    interface of a page allocator as a locale; \<open>Kheap\<close> interprets it on \<open>kzalloc\<close> and
    \<open>kfree\<close> of the kernel's heap (\<open>kh\<close>), and all components that allocate rest on that.
  \<^item> \<open>Paging\<close>, \<open>Machine\<close>: \<open>memory/paging/paging.c\<close>, \<open>paging.asm\<close>, \<open>io/io.asm\<close> and accesses
    behind the loaded directory.
  \<^item> \<open>Gdt\<close>, \<open>Idt\<close>, \<open>Task\<close>: \<open>boot/gdt/gdt.c\<close>, \<open>idt/idt.c\<close> with \<open>isr80h/isr80h.c\<close>, \<open>task/task.c\<close>.
  \<^item> \<open>Keyboard\<close>: \<open>keyboard/keyboard.c\<close> and \<open>ps2.c\<close>; the locale \<open>byte_queue\<close> is
    interpreted (\<open>kb\<close>) on the ring buffer of a process.
  \<^item> \<open>Env\<close>: addresses of static and local objects, and the device.
  \<^item> \<open>Path_Parser\<close>, \<open>Disk\<close>, \<open>Fat16\<close>, \<open>File\<close>: \<open>fs/pparser.c\<close>, \<open>disk/disk.c\<close> with \<open>streamer.c\<close>,
    \<open>fs/fat/fat16.c\<close>, \<open>fs/file.c\<close>. The locale \<open>byte_stream\<close> is interpreted (\<open>ds\<close>) on the disk
    stream, \<open>handle_table\<close> (\<open>fdt\<close>) on the descriptors.
  \<^item> \<open>Elf\<close>, \<open>Elf_Load\<close>, \<open>Process\<close>, \<open>Process_Map\<close>, \<open>Elf_Map\<close>: \<open>loader/formats/elf.c\<close> and \<open>elfloader.c\<close>,
    \<open>task/process.c\<close>.
  \<^item> \<open>Syscalls\<close>, \<open>Kernel_Main\<close>: \<open>isr80h/*.c\<close>, \<open>kernel.c\<close> with \<open>boot/gdt/gdt.asm\<close> and \<open>task/tss.asm\<close>.
  \<^item> \<open>Boot\<close>: \<open>boot/boot.asm\<close>, its header and its loader, and \<open>_start\<close> of \<open>kernel.asm\<close>.
  \<^item> \<open>Fat16_Mount\<close>, \<open>Fat16_File\<close>: lemmas on \<open>fat16_resolve\<close> and all it calls, on a disk with a
    FAT16 header, and on opening and reading a file of that disk.
  \<^item> \<open>User_String\<close>, \<open>Strtok\<close>, \<open>Stdio\<close>: \<open>memory.c\<close>, \<open>string.c\<close>, \<open>stdio.c\<close>, \<open>stdlib.c\<close> and
    \<open>unistd.c\<close> of \<open>stdlib/src\<close>. The system calls a program makes are the record
    \<open>phix_calls\<close>; \<open>Stdio\<close> states what a console is as a locale.
  \<^item> \<open>Console\<close>: that locale interpreted (\<open>kc\<close>) on the keyboard buffer and the screen of the
    kernel. \<open>Shell\<close>: \<open>user/shell/shell.c\<close> and \<open>user/blank/blank.c\<close>.
  \<^item> \<open>Trap\<close>, \<open>Stubs\<close>: \<open>stdlib/src/phix.asm\<close>, \<open>isr80h_wrapper\<close> of \<open>idt/idt.asm\<close> and the
    handler, instruction by instruction on general registers and stacks. \<open>Interrupt\<close>:
    the stubs \<open>int0\<close> to \<open>int511\<close> and \<open>no_interrupt\<close> of \<open>idt/idt.asm\<close>.
    \<open>Running\<close>: the runs of a program with interrupts and system calls; the locale
    \<open>keyed_machine\<close> is interpreted (\<open>km\<close>) on the stubs and handlers. \<open>Task_Return\<close>:
    \<open>task/task.asm\<close> and \<open>stdlib/src/start.asm\<close>.

  \<^bold>\<open>How the parts interact.\<close> The boot sector reads the kernel and jumps to \<open>_start\<close>, which
  calls \<open>kernel_main\<close>. That sets up heap, file systems, disk, descriptor
  tables and system calls, loads the shell and enters it. A key is pushed by the keyboard
  interrupt into the buffer of the current process, read by system call 2 and edited into
  a line by \<open>readline\<close>; \<open>strtok\<close> splits the line and \<open>exec\<close> loads the program named in it
  through path parser, descriptor table, FAT16 and disk stream, into pages of the kernel
  heap that \<open>process_map_memory\<close> maps into the chunk of a new task.

  \<^bold>\<open>What is shown.\<close>
  \<^item> Memory management: first fit, what a request that does not fit does, round trips of
    allocation and release (\<open>Heap\<close>, \<open>Kheap\<close>); a new chunk is the identity, mapping a range
    is an update of the abstract page map and translation follows it, chunks give back
    their pages (\<open>Paging\<close>); what a process sees of a flat binary and of an ELF file
    after loading (\<open>Process_Map\<close>, \<open>Elf_Map\<close>) and what
    \<open>process_free\<close> takes away (\<open>Process\<close>).
  \<^item> Files: paths parse into the list of their parts and are freed again (\<open>Path_Parser\<close>);
    the stream is the disk's bytes at any offset and length, and reading ends once the
    drive gets ready (\<open>Disk\<close>), in the boot sector as well (\<open>Boot\<close>); a disk with a FAT16
    header is mounted (\<open>Fat16_Mount\<close>) and its files are opened and read (\<open>Fat16_File\<close>); lookup, reading in the first cluster, and where lookup and
    later clusters fail (\<open>Fat16\<close>); descriptors stay well-formed (\<open>File\<close>); the bounds of
    a program's segments (\<open>Elf\<close>).
  \<^item> Tasks and interrupts: the list of tasks under insertion and removal (\<open>Task\<close>), gates
    and dispatch (\<open>Idt\<close>), segment descriptors as the processor reads them (\<open>Gdt\<close>), the
    registers a task is entered with (\<open>Task_Return\<close>).
  \<^item> Keys and characters: the buffer keeps the order of the keys in every interleaving with
    the interrupt, and what happens on overrun (\<open>Keyboard\<close>); the ways of \<open>phix_getkey\<close>
    and \<open>phix_putchar\<close> through stub, interrupt, wrapper and handler and back (\<open>Trap\<close>,
    \<open>Stubs\<close>), and that a keyboard interrupt changes nothing the program sees but its
    buffer (\<open>Interrupt\<close>), so that every program gets the keys in their order (\<open>Running\<close>); \<open>readline\<close> against an edited line (\<open>Console\<close>); \<open>strtok\<close> against the words of
    a string (\<open>Strtok\<close>); the commands of the shell (\<open>Shell\<close>).
  \<^item> Strings and numbers: bounds of the copying functions, termination of \<open>strlen\<close>,
    decimal numerals (\<open>Strings\<close>, \<open>Terminal\<close>), and that the program library computes what
    the kernel's functions do (\<open>User_String\<close>).

  \<^bold>\<open>Bounds and fuel.\<close> Loops with a counter run by that counter. The loops over program
  headers (\<open>elf_pheaders_loop\<close>, \<open>process_map_elf_loop\<close>) have 65536 rounds, more than the 16
  bit \<open>e_phnum\<close>. The walk over path parts in FAT16 (\<open>fat16_walk\<close>) has 64 rounds; the lemma
  \<open>fat16_walk_item\<close> shows that one is enough whenever it finds an item, because the code
  never descends. \<open>disk_wait\<close>, the string loops and \<open>fat16_count_items\<close> are partial
  functions: that they return is part of the theorems about them. The shell's endless loop
  is a function of the number of its rounds.

  \<^bold>\<open>Parameters.\<close> The record \<open>env\<close> has what linker, compiler and hardware fix: addresses of
  static objects, literals and addressable locals, and a device that maps the accesses so
  far to the value a port gives. Function pointers are addresses, resolved by parameters
  (\<open>fs_ops\<close>, the dispatch functions of \<open>Idt\<close>, \<open>syscall_call\<close>).

  \<^bold>\<open>Not modelled.\<close> Segment registers, far jumps and privilege checks: all segments but the
  null segment are flat, and no C code reads a segment register. The setting of the first
  stack pointer, and the direction flag, which is clear. The stack frames of C functions in
  the kernel and the return addresses of calls to them; the words that an interrupt and its
  stub push are on the stack of the model. What a device does with the values written to
  it, except where a theorem states it of the drive: \<open>ata_drive\<close> promises the data of a READ
  SECTORS command, sector by sector, once the status has shown DRQ for the sector, and DRQ
  only while sectors of the command are left; \<open>ready_drive\<close> is such a drive that is busy
  first and gives zeros to a reader that does not wait. Caches of translations: a
  directory counts as it is in memory, and accesses of the kernel go to physical memory,
  since its chunk is the identity (\<open>Paging\<close>). Build files and linker scripts.
\<close>

end
